(* ===== verification/Ufs_Prelude.thy ===== *)
theory Ufs_Prelude
  imports Main "HOL-Library.Monad_Syntax" "HOL-Library.Multiset"
begin

text \<open>
  Shared ground of the development: C strings and their bytes, the reading of one byte of a
  NUL-terminated buffer, splitting and joining of strings at a separator, and the list lemmas
  the components use.

  Throughout the development a function of the program that can leave defined behaviour
  (an index out of range, a NULL pointer that is dereferenced, a buffer that overflows) returns
  an \<^typ>\<open>'a option\<close>: \<^const>\<open>None\<close> is that undefined execution and nothing else, so a theorem
  that says the result is \<^const>\<open>Some\<close> also says that the execution is memory safe.
\<close>

named_theorems cstr_simps \<open>facts that evaluate operations on NUL-free strings\<close>

named_theorems split_simps \<open>facts that evaluate splitting and joining\<close>

section \<open>Bytes of C strings\<close>

abbreviation NUL :: char where
  "NUL \<equiv> CHR 0x00"

abbreviation COMMA :: char where
  "COMMA \<equiv> CHR 0x2C"

abbreviation SLASH :: char where
  "SLASH \<equiv> CHR 0x2F"

text \<open>The part of a byte sequence that the C string functions see: up to the first NUL.\<close>

definition cstr :: "string \<Rightarrow> string" where
  "cstr s = takeWhile (\<lambda>c. c \<noteq> NUL) s"

definition nul_free :: "string \<Rightarrow> bool" where
  "nul_free s \<longleftrightarrow> NUL \<notin> set s"

text \<open>\<^verbatim>\<open>strcmp(a,b) == 0\<close> and \<^verbatim>\<open>strlen\<close>.\<close>

definition streq :: "string \<Rightarrow> string \<Rightarrow> bool" where
  "streq a b \<longleftrightarrow> cstr a = cstr b"

definition strlen :: "string \<Rightarrow> nat" where
  "strlen s = length (cstr s)"

text \<open>\<^verbatim>\<open>strchr(s,c) != NULL\<close> for a character other than NUL.\<close>

definition strchr :: "string \<Rightarrow> char \<Rightarrow> bool" where
  "strchr s c \<longleftrightarrow> c \<in> set (cstr s)"

text \<open>\<^verbatim>\<open>strstr(s,t) != NULL\<close>.\<close>

fun prefix_at :: "string \<Rightarrow> string \<Rightarrow> bool" where
  "prefix_at [] s = True"
| "prefix_at (t # ts) [] = False"
| "prefix_at (t # ts) (c # cs) = (t = c \<and> prefix_at ts cs)"

fun substring :: "string \<Rightarrow> string \<Rightarrow> bool" where
  "substring t [] = (t = [])"
| "substring t (c # cs) = (prefix_at t (c # cs) \<or> substring t cs)"

definition strstr :: "string \<Rightarrow> string \<Rightarrow> bool" where
  "strstr s t = substring (cstr t) (cstr s)"

text \<open>
  Byte \<^term>\<open>i\<close> of the buffer that holds the string \<^term>\<open>s\<close> and its terminator; a read behind
  the terminator is undefined.
\<close>

definition rd :: "string \<Rightarrow> nat \<Rightarrow> char option" where
  "rd s i = (if i < length s then Some (s ! i) else if i = length s then Some NUL else None)"

lemma cstr_Nil [simp]: "cstr [] = []"
  by (simp add: cstr_def)

lemma cstr_id [simp, cstr_simps]: "nul_free s \<Longrightarrow> cstr s = s"
  by (auto simp: cstr_def nul_free_def takeWhile_eq_all_conv)

lemma nul_free_cstr [simp]: "nul_free (cstr s)"
  by (auto simp: cstr_def nul_free_def dest: set_takeWhileD)

lemma nul_free_Nil [simp]: "nul_free []"
  by (simp add: nul_free_def)

lemma nul_free_Cons [simp]: "nul_free (c # s) \<longleftrightarrow> c \<noteq> NUL \<and> nul_free s"
  by (auto simp: nul_free_def)

lemma nul_free_append [simp]: "nul_free (s @ t) \<longleftrightarrow> nul_free s \<and> nul_free t"
  by (auto simp: nul_free_def)

lemma cstr_idem [simp]: "cstr (cstr s) = cstr s"
  by simp

lemma streq_refl [simp]: "streq s s"
  by (simp add: streq_def)

lemma streq_iff [cstr_simps]: "nul_free a \<Longrightarrow> nul_free b \<Longrightarrow> streq a b \<longleftrightarrow> a = b"
  by (simp add: streq_def)

lemma strlen_eq [cstr_simps]: "nul_free s \<Longrightarrow> strlen s = length s"
  by (simp add: strlen_def)

lemma strchr_iff [cstr_simps]: "nul_free s \<Longrightarrow> strchr s c \<longleftrightarrow> c \<in> set s"
  by (simp add: strchr_def)

lemma prefix_at_iff: "prefix_at t s \<longleftrightarrow> (\<exists>u. s = t @ u)"
  by (induction t s rule: prefix_at.induct) auto

lemma substring_iff: "substring t s \<longleftrightarrow> (\<exists>u v. s = u @ t @ v)"
proof (induction s)
  case Nil
  then show ?case by auto
next
  case (Cons c cs)
  show ?case
  proof
    assume "substring t (c # cs)"
    then consider "prefix_at t (c # cs)" | "substring t cs" by auto
    then show "\<exists>u v. c # cs = u @ t @ v"
    proof cases
      case 1
      then show ?thesis by (metis append_Nil prefix_at_iff)
    next
      case 2
      then show ?thesis by (metis Cons.IH append_Cons)
    qed
  next
    assume "\<exists>u v. c # cs = u @ t @ v"
    then obtain u v where "c # cs = u @ t @ v" by blast
    then have "(\<exists>v. c # cs = t @ v) \<or> (\<exists>u v. cs = u @ t @ v)"
      by (cases u) auto
    then show "substring t (c # cs)"
      by (simp add: prefix_at_iff Cons.IH)
  qed
qed

lemma rd_less [simp]: "i < length s \<Longrightarrow> rd s i = Some (s ! i)"
  by (simp add: rd_def)

lemma rd_end [simp]: "rd s (length s) = Some NUL"
  by (simp add: rd_def)

lemma rd_append_right [simp]: "rd (s @ t) (length s + i) = rd t i"
  by (auto simp: rd_def nth_append)

lemma rd_append_right0 [simp]: "rd (s @ t) (length s) = rd t 0"
  using rd_append_right [of s t 0] by simp

lemma rd_Cons_0 [simp]: "rd (c # s) 0 = Some c"
  by (simp add: rd_def)

lemma rd_Cons_Suc [simp]: "rd (c # s) (Suc i) = rd s i"
  by (simp add: rd_def)

lemma rd_Nil_0 [simp]: "rd [] 0 = Some NUL"
  by (simp add: rd_def)

lemma rd_None_iff [simp]: "rd s i = None \<longleftrightarrow> length s < i"
  by (simp add: rd_def)

section \<open>Splitting and joining at a separator\<close>

text \<open>
  The reference functions against which the program's splitting loops are proved: the pieces
  between the separators, and the pieces put together again.
\<close>

fun split_on :: "char \<Rightarrow> string \<Rightarrow> string list" where
  "split_on c [] = [[]]"
| "split_on c (x # xs) =
     (if x = c then [] # split_on c xs
      else (case split_on c xs of [] \<Rightarrow> [[x]] | w # ws \<Rightarrow> (x # w) # ws))"

fun join :: "char \<Rightarrow> string list \<Rightarrow> string" where
  "join c [] = []"
| "join c [w] = w"
| "join c (w # v # ws) = w @ c # join c (v # ws)"

text \<open>The pieces as the program counts them: the empty string has none.\<close>

definition pieces :: "char \<Rightarrow> string \<Rightarrow> string list" where
  "pieces c s = (if s = [] then [] else split_on c s)"

lemma split_on_not_Nil [simp]: "split_on c s \<noteq> []"
  by (induction s) (auto split: list.splits)

lemma split_on_no_sep [simp, split_simps]: "c \<notin> set s \<Longrightarrow> split_on c s = [s]"
  by (induction s) auto

lemma split_on_append [split_simps]:
  "c \<notin> set w \<Longrightarrow> split_on c (w @ c # s) = w # split_on c s"
  by (induction w) auto

lemma join_Cons: "ws \<noteq> [] \<Longrightarrow> join c (w # ws) = w @ c # join c ws"
  by (cases ws) auto

lemma join_Cons_char: "join c ((x # w) # ws) = x # join c (w # ws)"
  by (cases ws) auto

lemma join_split_on [simp, split_simps]: "join c (split_on c s) = s"
proof (induction s)
  case Nil
  then show ?case by simp
next
  case (Cons x xs)
  obtain w ws where sp: "split_on c xs = w # ws"
    by (cases "split_on c xs") auto
  with Cons show ?case
    by (auto simp: join_Cons join_Cons_char)
qed

lemma split_on_join [split_simps]:
  "ws \<noteq> [] \<Longrightarrow> \<forall>w \<in> set ws. c \<notin> set w \<Longrightarrow> split_on c (join c ws) = ws"
  by (induction c ws rule: join.induct) (auto simp: split_on_append)

lemma split_on_pieces_sep_free: "w \<in> set (split_on c s) \<Longrightarrow> c \<notin> set w"
  by (induction s arbitrary: w) (auto split: list.splits if_splits)

lemma set_split_on: "w \<in> set (split_on c s) \<Longrightarrow> set w \<subseteq> set s"
proof (induction s arbitrary: w)
  case Nil
  then show ?case by simp
next
  case (Cons x xs)
  obtain v vs where sp: "split_on c xs = v # vs"
    by (cases "split_on c xs") auto
  have "set v \<subseteq> set xs" and "\<forall>u \<in> set vs. set u \<subseteq> set xs"
    using Cons.IH sp by auto
  with Cons.prems sp show ?case by (auto split: if_splits)
qed

lemma set_join: "set (join c ws) \<subseteq> insert c (\<Union> (set ` set ws))"
  by (induction c ws rule: join.induct) auto

lemma set_join_sub: "w \<in> set ws \<Longrightarrow> set w \<subseteq> set (join c ws)"
  by (induction c ws rule: join.induct) auto

lemma nul_free_join: "c \<noteq> NUL \<Longrightarrow> nul_free (join c ws) \<longleftrightarrow> (\<forall>w \<in> set ws. nul_free w)"
  by (induction c ws rule: join.induct) auto

lemma join_eq_Nil_iff: "join c ws = [] \<longleftrightarrow> ws = [] \<or> ws = [[]]"
  by (cases "(c, ws)" rule: join.cases) auto

lemma length_join: "length (join c ws) + 1 = sum_list (map length ws) + length ws" if "ws \<noteq> []"
  using that by (induction c ws rule: join.induct) auto

lemma pieces_join [split_simps]:
  "\<forall>w \<in> set ws. c \<notin> set w \<Longrightarrow> ws \<noteq> [[]] \<Longrightarrow> pieces c (join c ws) = ws"
  by (cases "ws = []") (auto simp: pieces_def join_eq_Nil_iff split_on_join)

lemma join_pieces [simp, split_simps]: "join c (pieces c s) = s"
  by (simp add: pieces_def)

lemma join_append:
  "us \<noteq> [] \<Longrightarrow> vs \<noteq> [] \<Longrightarrow> join c (us @ vs) = join c us @ c # join c vs"
  by (induction c us rule: join.induct) (auto simp: join_Cons)

section \<open>Lists\<close>

text \<open>First index at which a predicate holds, as the search loops of the program return it.\<close>

fun first_index :: "('a \<Rightarrow> bool) \<Rightarrow> 'a list \<Rightarrow> nat option" where
  "first_index P [] = None"
| "first_index P (x # xs) =
     (if P x then Some 0 else map_option Suc (first_index P xs))"

lemma first_index_None: "first_index P xs = None \<longleftrightarrow> (\<forall>x \<in> set xs. \<not> P x)"
  by (induction xs) auto

lemma first_index_Some:
  "first_index P xs = Some i \<longleftrightarrow> i < length xs \<and> P (xs ! i) \<and> (\<forall>j < i. \<not> P (xs ! j))"
proof (induction xs arbitrary: i)
  case Nil
  then show ?case by simp
next
  case (Cons x xs)
  show ?case
    by (cases i) (auto simp: Cons.IH less_Suc_eq_0_disj)
qed

lemma sum_list_upd:
  "i < length xs \<Longrightarrow> sum_list (xs[i := v]) + xs ! i = sum_list xs + (v :: nat)"
  by (induction xs arbitrary: i) (auto split: nat.splits)

end
