(* ===== verification/Sds.thy ===== *)
theory Sds
  imports Ufs_Prelude
begin

text \<open>
  The dynamic string library \<^verbatim>\<open>src/sds.c\<close> at the level of string contents: an sds string
  is the sequence of its \<^verbatim>\<open>sdslen\<close> bytes. In-place updates return the new content; the
  allocator, which aborts the process instead of failing, is not modelled. Arguments of type
  \<^verbatim>\<open>char*\<close> are read up to their first NUL (\<^const>\<open>cstr\<close>), as \<^verbatim>\<open>strlen\<close> does.
\<close>

section \<open>Creation and concatenation\<close>

type_synonym sds = string

text \<open>
  \<^verbatim>\<open>sdsnewlen(init,initlen)\<close>: the first \<^verbatim>\<open>initlen\<close> bytes of the buffer, which must have
  them; a NULL buffer gives zero bytes.
\<close>

definition sdsnewlen :: "string option \<Rightarrow> nat \<Rightarrow> sds option" where
  "sdsnewlen init initlen =
     (case init of
        None \<Rightarrow> Some (replicate initlen NUL)
      | Some b \<Rightarrow> if initlen \<le> length b then Some (take initlen b) else None)"

definition sdsempty :: sds where
  "sdsempty = []"

definition sdsnew :: "string \<Rightarrow> sds" where
  "sdsnew init = cstr init"

definition sdsdup :: "sds \<Rightarrow> sds" where
  "sdsdup s = take (length s) s"

definition sdsclear :: "sds \<Rightarrow> sds" where
  "sdsclear s = []"

definition sdsgrowzero :: "sds \<Rightarrow> nat \<Rightarrow> sds" where
  "sdsgrowzero s len =
     (if len \<le> length s then s else s @ replicate (len - length s) NUL)"

definition sdscatlen :: "sds \<Rightarrow> string \<Rightarrow> sds" where
  "sdscatlen s t = s @ t"

definition sdscat :: "sds \<Rightarrow> string \<Rightarrow> sds" where
  "sdscat s t = sdscatlen s (cstr t)"

definition sdscatsds :: "sds \<Rightarrow> sds \<Rightarrow> sds" where
  "sdscatsds s t = sdscatlen s t"

definition sdscpylen :: "sds \<Rightarrow> string \<Rightarrow> sds" where
  "sdscpylen s t = t"

definition sdscpy :: "sds \<Rightarrow> string \<Rightarrow> sds" where
  "sdscpy s t = sdscpylen s (cstr t)"

section \<open>Numbers to strings\<close>

text \<open>
  \<^verbatim>\<open>sdsll2str\<close> writes the digits lowest first, appends the sign and then reverses the buffer
  with two pointers that meet in the middle.
\<close>

definition digit_char :: "nat \<Rightarrow> char" where
  "digit_char d = char_of (48 + d)"

fun ull_digits :: "nat \<Rightarrow> string" where
  "ull_digits v =
     digit_char (v mod 10) # (if v div 10 = 0 then [] else ull_digits (v div 10))"

declare ull_digits.simps [simp del]

function reverse_loop :: "'a list \<Rightarrow> nat \<Rightarrow> nat \<Rightarrow> 'a list" where
  "reverse_loop xs s p =
     (if s < p then reverse_loop (xs[s := xs ! p, p := xs ! s]) (Suc s) (p - 1) else xs)"
  by pat_completeness auto
termination
  by (relation "measure (\<lambda>(xs, s, p). p - s)") auto

declare reverse_loop.simps [simp del]

definition sdsull2str :: "nat \<Rightarrow> string" where
  "sdsull2str v = (let b = ull_digits v in reverse_loop b 0 (length b - 1))"

text \<open>The negation of a \<^verbatim>\<open>long long\<close> overflows for the least value.\<close>

definition LLONG_MIN :: int where
  "LLONG_MIN = - (2 ^ 63)"

definition LLONG_MAX :: int where
  "LLONG_MAX = 2 ^ 63 - 1"

definition sdsll2str :: "int \<Rightarrow> string option" where
  "sdsll2str value =
     (if value = LLONG_MIN then None
      else
        let v = nat (if value < 0 then - value else value);
            b = ull_digits v @ (if value < 0 then ''-'' else [])
        in Some (reverse_loop b 0 (length b - 1)))"

definition sdsfromlonglong :: "int \<Rightarrow> sds option" where
  "sdsfromlonglong value = do { buf \<leftarrow> sdsll2str value; sdsnewlen (Some buf) (length buf) }"

section \<open>Trimming, ranges, comparison\<close>

text \<open>\<^verbatim>\<open>strchr(cset,c)\<close> also finds the terminator, so a NUL byte counts as a member.\<close>

definition in_cset :: "string \<Rightarrow> char \<Rightarrow> bool" where
  "in_cset cset c \<longleftrightarrow> c \<in> set (cstr cset) \<or> c = NUL"

function trim_left :: "string \<Rightarrow> string \<Rightarrow> nat \<Rightarrow> nat" where
  "trim_left s cset sp =
     (if sp < length s \<and> in_cset cset (s ! sp) then trim_left s cset (Suc sp) else sp)"
  by pat_completeness auto
termination
  by (relation "measure (\<lambda>(s, cset, sp). length s - sp)") auto

declare trim_left.simps [simp del]

function trim_right :: "string \<Rightarrow> string \<Rightarrow> nat \<Rightarrow> int \<Rightarrow> int" where
  "trim_right s cset sp ep =
     (if ep > int sp \<and> in_cset cset (s ! nat ep) then trim_right s cset sp (ep - 1) else ep)"
  by pat_completeness auto
termination
  by (relation "measure (\<lambda>(s, cset, sp, ep). nat (ep - int sp))") auto

declare trim_right.simps [simp del]

definition sdstrim :: "sds \<Rightarrow> string \<Rightarrow> sds" where
  "sdstrim s cset =
     (let sp = trim_left s cset 0;
          ep = trim_right s cset sp (int (length s) - 1);
          len = (if int sp > ep then 0 else nat (ep - int sp + 1))
      in take len (drop sp s))"

definition sdsrange :: "sds \<Rightarrow> int \<Rightarrow> int \<Rightarrow> sds" where
  "sdsrange s start0 end0 =
     (let len = int (length s) in
      if len = 0 then s
      else
        let start1 = (if start0 < 0 then max 0 (len + start0) else start0);
            end1 = (if end0 < 0 then max 0 (len + end0) else end0);
            newlen1 = (if start1 > end1 then 0 else end1 - start1 + 1);
            (start2, newlen2) =
              (if newlen1 \<noteq> 0 then
                 if start1 \<ge> len then (start1, 0)
                 else if end1 \<ge> len then
                   (start1, if start1 > len - 1 then 0 else len - 1 - start1 + 1)
                 else (start1, newlen1)
               else (0, newlen1))
        in if start2 \<noteq> 0 \<and> newlen2 \<noteq> 0 then take (nat newlen2) (drop (nat start2) s)
           else take (nat newlen2) s)"

text \<open>\<^verbatim>\<open>memcmp\<close> on equally long prefixes compares the bytes as unsigned numbers.\<close>

fun memcmp :: "string \<Rightarrow> string \<Rightarrow> int" where
  "memcmp (a # as) (b # bs) =
     (if a = b then memcmp as bs else if (of_char a :: nat) < of_char b then -1 else 1)"
| "memcmp _ _ = 0"

definition sdscmp :: "sds \<Rightarrow> sds \<Rightarrow> int" where
  "sdscmp s1 s2 =
     (let l1 = length s1; l2 = length s2;
          minlen = (if l1 < l2 then l1 else l2);
          cmp = memcmp (take minlen s1) (take minlen s2)
      in if cmp = 0 then (if l1 > l2 then 1 else if l1 < l2 then -1 else 0) else cmp)"

section \<open>Splitting and joining\<close>

text \<open>
  The loop of \<^verbatim>\<open>sdssplitlen\<close> over the position \<^term>\<open>j\<close>; \<^term>\<open>start\<close> is the beginning of
  the current token. The token array grows by \<^verbatim>\<open>realloc\<close> and is a list here.
\<close>

function split_loop :: "string \<Rightarrow> string \<Rightarrow> nat \<Rightarrow> nat \<Rightarrow> sds list \<Rightarrow> sds list" where
  "split_loop s sep start j tokens =
     (if sep \<noteq> [] \<and> j < length s - (length sep - 1) then
        if take (length sep) (drop j s) = sep then
          split_loop s sep (j + length sep) (j + length sep)
            (tokens @ [take (j - start) (drop start s)])
        else split_loop s sep start (Suc j) tokens
      else tokens @ [drop start s])"
  by pat_completeness auto
termination
  by (relation "measure (\<lambda>(s, sep, start, j, tokens). length s - j)")
    (auto intro!: diff_less_mono2)

declare split_loop.simps [simp del]

text \<open>
  \<^verbatim>\<open>sdssplitlen(s,len,sep,seplen,&count)\<close>. The buffer behind \<^term>\<open>s\<close> has one byte more than
  the string, its terminator; a longer \<^term>\<open>len\<close> reads out of bounds. \<^const>\<open>None\<close> also is the
  NULL result for an empty separator or a negative length, which every caller dereferences.
\<close>

definition sdssplitlen :: "string \<Rightarrow> int \<Rightarrow> string \<Rightarrow> sds list option" where
  "sdssplitlen s len sep =
     (if sep = [] \<or> len < 0 then None
      else if len = 0 then Some []
      else if nat len > length s + 1 then None
      else Some (split_loop (take (nat len) (s @ [NUL])) sep 0 0 []))"

fun mapchar :: "string \<Rightarrow> string \<Rightarrow> char \<Rightarrow> char" where
  "mapchar (f # from) (t # to) c = (if c = f then t else mapchar from to c)"
| "mapchar _ _ c = c"

definition sdsmapchars :: "sds \<Rightarrow> string \<Rightarrow> string \<Rightarrow> nat \<Rightarrow> sds option" where
  "sdsmapchars s from to setlen =
     (if s \<noteq> [] \<and> (setlen > length from \<or> setlen > length to) then None
      else Some (map (mapchar (take setlen from) (take setlen to)) s))"

fun sdsjoin_loop :: "sds \<Rightarrow> string list \<Rightarrow> string \<Rightarrow> sds" where
  "sdsjoin_loop acc [] sep = acc"
| "sdsjoin_loop acc (a # as) sep =
     (let acc1 = sdscat acc a;
          acc2 = (if as \<noteq> [] then sdscat acc1 sep else acc1)
      in sdsjoin_loop acc2 as sep)"

definition sdsjoin :: "string list \<Rightarrow> string \<Rightarrow> sds" where
  "sdsjoin argv sep = sdsjoin_loop sdsempty argv sep"

fun sdsjoinsds_loop :: "sds \<Rightarrow> sds list \<Rightarrow> string \<Rightarrow> sds" where
  "sdsjoinsds_loop acc [] sep = acc"
| "sdsjoinsds_loop acc (a # as) sep =
     (let acc1 = sdscatsds acc a;
          acc2 = (if as \<noteq> [] then sdscatlen acc1 sep else acc1)
      in sdsjoinsds_loop acc2 as sep)"

definition sdsjoinsds :: "sds list \<Rightarrow> string \<Rightarrow> sds" where
  "sdsjoinsds argv sep = sdsjoinsds_loop sdsempty argv sep"

section \<open>Lemmas on contents\<close>

lemma sdscat_eq [simp, cstr_simps]: "nul_free t \<Longrightarrow> sdscat s t = s @ t"
  by (simp add: sdscat_def sdscatlen_def)

lemma sdsnew_eq [simp, cstr_simps]: "nul_free t \<Longrightarrow> sdsnew t = t"
  by (simp add: sdsnew_def)

lemma nul_free_sdsnew [simp]: "nul_free (sdsnew t)"
  by (simp add: sdsnew_def)

lemma sdsempty_Nil [simp]: "sdsempty = []"
  by (simp add: sdsempty_def)

lemma sdsclear_Nil [simp]: "sdsclear s = []"
  by (simp add: sdsclear_def)

section \<open>The reversal loop and decimal numbers\<close>

lemma length_reverse_loop: "length (reverse_loop xs s p) = length xs"
  by (induction xs s p rule: reverse_loop.induct) (subst reverse_loop.simps, simp)

lemma nth_reverse_loop:
  "p < length xs \<Longrightarrow> i < length xs \<Longrightarrow>
   reverse_loop xs s p ! i = (if s \<le> i \<and> i \<le> p then xs ! (s + p - i) else xs ! i)"
proof (induction xs s p rule: reverse_loop.induct)
  case (1 xs s p)
  show ?case
  proof (cases "s < p")
    case True
    let ?ys = "xs[s := xs ! p, p := xs ! s]"
    have "reverse_loop xs s p ! i = reverse_loop ?ys (Suc s) (p - 1) ! i"
      using True by (subst reverse_loop.simps) simp
    also have "\<dots> = (if Suc s \<le> i \<and> i \<le> p - 1 then ?ys ! (Suc s + (p - 1) - i) else ?ys ! i)"
      using "1.IH" "1.prems" True by simp
    also have "\<dots> = (if s \<le> i \<and> i \<le> p then xs ! (s + p - i) else xs ! i)"
      using "1.prems" True by (auto simp: nth_list_update)
    finally show ?thesis .
  next
    case False
    then have "reverse_loop xs s p = xs"
      by (subst reverse_loop.simps) simp
    with False "1.prems" show ?thesis by (auto dest: le_antisym)
  qed
qed

lemma reverse_loop_rev: "reverse_loop xs 0 (length xs - 1) = rev xs"
proof (cases "xs = []")
  case True
  then show ?thesis by (simp add: reverse_loop.simps)
next
  case False
  show ?thesis
  proof (rule nth_equalityI)
    fix i
    assume "i < length (reverse_loop xs 0 (length xs - 1))"
    then have "i < length xs" by (simp add: length_reverse_loop)
    moreover from this have "i \<le> length xs - 1" by simp
    ultimately show "reverse_loop xs 0 (length xs - 1) ! i = rev xs ! i"
      using False by (simp add: nth_reverse_loop rev_nth)
  qed (simp add: length_reverse_loop)
qed

text \<open>The number a string of decimal digits denotes.\<close>

definition dec_val :: "string \<Rightarrow> nat" where
  "dec_val s = foldl (\<lambda>a c. 10 * a + (of_char c - 48)) 0 s"

definition is_digit :: "char \<Rightarrow> bool" where
  "is_digit c \<longleftrightarrow> 48 \<le> (of_char c :: nat) \<and> (of_char c :: nat) \<le> 57"

lemma dec_val_snoc [simp]: "dec_val (s @ [c]) = 10 * dec_val s + (of_char c - 48)"
  by (simp add: dec_val_def)

lemma dec_val_Nil [simp]: "dec_val [] = 0"
  by (simp add: dec_val_def)

lemma of_char_digit_char [simp]: "d < 10 \<Longrightarrow> (of_char (digit_char d) :: nat) = 48 + d"
  by (simp add: digit_char_def)

lemma is_digit_digit_char [simp]: "d < 10 \<Longrightarrow> is_digit (digit_char d)"
  by (simp add: is_digit_def)

lemma dec_val_rev_ull_digits: "dec_val (rev (ull_digits v)) = v"
proof (induction v rule: ull_digits.induct)
  case (1 v)
  show ?case
  proof (cases "v div 10 = 0")
    case True
    then show ?thesis by (subst ull_digits.simps) (simp add: dec_val_def div_eq_0_iff)
  next
    case False
    with 1 have "dec_val (rev (ull_digits (v div 10))) = v div 10" by simp
    with False show ?thesis by (subst ull_digits.simps) simp
  qed
qed

lemma ull_digits_digits: "c \<in> set (ull_digits v) \<Longrightarrow> is_digit c"
proof (induction v rule: ull_digits.induct)
  case (1 v)
  then show ?case
    by (subst (asm) ull_digits.simps) (auto split: if_splits)
qed

lemma ull_digits_not_Nil [simp]: "ull_digits v \<noteq> []"
  by (subst ull_digits.simps) simp

lemma length_ull_digits: "0 < k \<Longrightarrow> v < 10 ^ k \<Longrightarrow> length (ull_digits v) \<le> k"
proof (induction v arbitrary: k rule: ull_digits.induct)
  case (1 v)
  show ?case
  proof (cases "v div 10 = 0")
    case True
    then show ?thesis using "1.prems" by (subst ull_digits.simps) simp
  next
    case False
    then have "k \<noteq> 1" using "1.prems" by (auto simp: div_eq_0_iff)
    then obtain k' where k: "k = Suc k'" "0 < k'" using "1.prems"
      by (cases k) auto
    then have "v div 10 < 10 ^ k'" using "1.prems"
      by (simp add: less_mult_imp_div_less mult.commute)
    with False k 1 have "length (ull_digits (v div 10)) \<le> k'" by simp
    with False k show ?thesis by (subst ull_digits.simps) simp
  qed
qed

lemma sdsull2str_eq: "sdsull2str v = rev (ull_digits v)"
  by (simp add: sdsull2str_def Let_def reverse_loop_rev del: One_nat_def)

lemma sdsll2str_eq:
  "value \<noteq> LLONG_MIN \<Longrightarrow> sdsll2str value =
     Some (if value < 0 then CHR ''-'' # rev (ull_digits (nat (- value)))
      else rev (ull_digits (nat value)))"
  by (simp add: sdsll2str_def Let_def reverse_loop_rev del: One_nat_def)

section \<open>Trimming and ranges\<close>

lemma trim_left_eq:
  "trim_left s cset sp = sp + length (takeWhile (in_cset cset) (drop sp s))"
proof (induction s cset sp rule: trim_left.induct)
  case (1 s cset sp)
  show ?case
  proof (cases "sp < length s \<and> in_cset cset (s ! sp)")
    case True
    then have "drop sp s = s ! sp # drop (Suc sp) s" by (simp add: Cons_nth_drop_Suc)
    with 1 True show ?thesis by (subst trim_left.simps) simp
  next
    case False
    then have "takeWhile (in_cset cset) (drop sp s) = []"
      by (cases "sp < length s") (auto simp: Cons_nth_drop_Suc [symmetric])
    moreover have "trim_left s cset sp = sp"
      using False by (subst trim_left.simps) (simp only: if_False)
    ultimately show ?thesis by simp
  qed
qed

lemma trim_right_eq:
  "ep = int sp + int (length t) \<Longrightarrow> s = take sp s @ x # t @ u \<Longrightarrow> length (take sp s) = sp \<Longrightarrow>
   trim_right s cset sp ep = int sp + int (length (dropWhile (in_cset cset) (rev t)))"
proof (induction t arbitrary: ep u rule: rev_induct)
  case Nil
  then show ?case by (subst trim_right.simps) simp
next
  case (snoc y t)
  have "s ! nat ep = y"
  proof -
    from snoc.prems have "nat ep = sp + Suc (length t)" by simp
    moreover have "(take sp s @ x # (t @ [y]) @ u) ! (sp + Suc (length t)) = y"
      using snoc.prems(3) by (simp add: nth_append)
    ultimately show ?thesis using snoc.prems(2) by metis
  qed
  moreover have "int sp < ep" using snoc.prems by simp
  ultimately show ?case
    using snoc.IH [of "ep - 1" "y # u"] snoc.prems
    by (subst trim_right.simps) simp
qed

definition strip :: "('a \<Rightarrow> bool) \<Rightarrow> 'a list \<Rightarrow> 'a list" where
  "strip P xs = rev (dropWhile P (rev (dropWhile P xs)))"

lemma sdstrim_strip: "sdstrim s cset = strip (in_cset cset) s"
proof -
  let ?P = "in_cset cset" and ?w = "takeWhile (in_cset cset) s"
  have sp: "trim_left s cset 0 = length ?w" by (simp add: trim_left_eq)
  have s: "s = ?w @ dropWhile ?P s" by simp
  show ?thesis
  proof (cases "dropWhile ?P s")
    case Nil
    then have "?w = s" using s by simp
    moreover have "trim_right s cset (length s) (int (length s) - 1) = int (length s) - 1"
      by (subst trim_right.simps) simp
    ultimately show ?thesis
      using Nil sp by (simp add: sdstrim_def Let_def strip_def del: takeWhile_eq_all_conv dropWhile_eq_Nil_conv)
  next
    case (Cons x t)
    then have x: "\<not> ?P x" by (metis hd_dropWhile list.distinct(1) list.sel(1))
    have tk: "take (length ?w) s = ?w"
      by (metis s append_eq_conv_conj)
    have len: "int (length s) - 1 = int (length ?w) + int (length t)"
    proof -
      from s Cons have "length s = length ?w + length (x # t)"
        by (metis length_append)
      then show ?thesis by simp
    qed
    have ep: "trim_right s cset (length ?w) (int (length s) - 1) =
        int (length ?w) + int (length (dropWhile ?P (rev t)))"
      using s Cons tk len by (intro trim_right_eq [where u = "[]" and x = x]) auto
    have "drop (length ?w) s = x # t"
      using s Cons by (metis append_eq_conv_conj)
    moreover have "take (length (dropWhile ?P (rev t))) t = rev (dropWhile ?P (rev t))"
      by (metis length_rev rev_rev_ident rev_swap dropWhile_eq_drop rev_drop
          length_drop append_take_drop_id diff_diff_cancel length_takeWhile_le rev_take take_rev)
    moreover have "\<forall>y \<in> set t. ?P y \<Longrightarrow> dropWhile ?P (rev t) = []" by simp
    ultimately show ?thesis
      using Cons x ep sp
      by (auto simp: sdstrim_def Let_def strip_def dropWhile_append nat_add_distrib)
  qed
qed

lemma sdsrange_nonneg:
  "0 \<le> a \<Longrightarrow> 0 \<le> b \<Longrightarrow> sdsrange s a b = take (nat (b + 1 - a)) (drop (nat a) s)"
proof -
  assume ab: "0 \<le> a" "0 \<le> b"
  have "b < a \<or> nat (b + 1 - a) = Suc (nat (b - a))" by auto
  with ab show ?thesis
    by (cases "a = 0") (auto simp: sdsrange_def Let_def nat_add_distrib)
qed

lemma sdsrange_last:
  "sdsrange s 0 (-1) = s"
  by (cases s) (auto simp: sdsrange_def Let_def nat_add_distrib)

section \<open>Comparison\<close>

lemma memcmp_range: "memcmp s t \<in> {-1, 0, 1}"
  by (induction s t rule: memcmp.induct) auto

lemma of_char_inj [simp]: "((of_char a :: nat) = of_char b) = (a = b)"
  by simp

lemma memcmp_eq_0: "length s = length t \<Longrightarrow> memcmp s t = 0 \<longleftrightarrow> s = t"
  by (induction s t rule: memcmp.induct) (auto split: if_splits)

lemma memcmp_antisym: "length s = length t \<Longrightarrow> memcmp t s = - memcmp s t"
proof (induction s t rule: memcmp.induct)
  case (1 a as b bs)
  then show ?case
    by (auto simp: not_less_iff_gr_or_eq)
qed auto

lemma sdscmp_eq_0: "sdscmp s t = 0 \<longleftrightarrow> s = t"
proof
  assume eq: "sdscmp s t = 0"
  then have len: "length s = length t"
    by (auto simp: sdscmp_def Let_def split: if_splits)
  with eq have "memcmp s t = 0"
    by (auto simp: sdscmp_def Let_def split: if_splits)
  with len show "s = t" by (simp add: memcmp_eq_0)
next
  assume "s = t"
  then show "sdscmp s t = 0" by (simp add: sdscmp_def Let_def memcmp_eq_0)
qed

lemma sdscmp_antisym: "sdscmp t s = - sdscmp s t"
proof -
  have len: "length (take n s) = length (take n t)" if "n \<le> length s" "n \<le> length t" for n
    using that by simp
  show ?thesis
    by (cases "length s" "length t" rule: linorder_cases)
      (auto simp: sdscmp_def Let_def memcmp_antisym [of s "take (length s) t"]
        memcmp_antisym [of "take (length t) s" t] memcmp_antisym [of s t])
qed

section \<open>Splitting and joining\<close>

lemma split_loop_single:
  assumes "start \<le> j" and "j \<le> length s" and "c \<notin> set (take (j - start) (drop start s))"
  shows "split_loop s [c] start j tokens = tokens @ split_on c (drop start s)"
  using assms
proof (induction s "[c]" start j tokens rule: split_loop.induct)
  case (1 s start j tokens)
  let ?w = "take (j - start) (drop start s)"
  show ?case
  proof (cases "j < length s")
    case True
    have dec: "drop start s = ?w @ s ! j # drop (Suc j) s"
    proof -
      have "drop start s = ?w @ drop (j - start) (drop start s)"
        by (simp only: append_take_drop_id)
      also have "drop (j - start) (drop start s) = drop j s" using "1.prems" by simp
      finally show ?thesis using True by (simp add: Cons_nth_drop_Suc)
    qed
    have tk: "take (length [c]) (drop j s) = [s ! j]"
      using True by (simp add: take_Suc_conv_app_nth)
    show ?thesis
    proof (cases "s ! j = c")
      case eq: True
      have "split_loop s [c] start j tokens = split_loop s [c] (Suc j) (Suc j) (tokens @ [?w])"
        using True tk eq by (subst split_loop.simps) simp
      also have "\<dots> = (tokens @ [?w]) @ split_on c (drop (Suc j) s)"
        using "1.hyps"(1) True tk eq by simp
      also have "\<dots> = tokens @ split_on c (drop start s)"
        using "1.prems" eq by (subst dec) (simp add: split_on_append)
      finally show ?thesis .
    next
      case neq: False
      have "take (Suc j - start) (drop start s) = ?w @ [s ! j]"
        using True "1.prems" by (simp add: Suc_diff_le take_Suc_conv_app_nth)
      with "1.prems" neq have free: "c \<notin> set (take (Suc j - start) (drop start s))" by auto
      have "split_loop s [c] start j tokens = split_loop s [c] start (Suc j) tokens"
        using True tk neq by (subst split_loop.simps) simp
      also have "\<dots> = tokens @ split_on c (drop start s)"
        using "1.hyps"(2) "1.prems" True tk neq free by simp
      finally show ?thesis .
    qed
  next
    case False
    with "1.prems" have "c \<notin> set (drop start s)" by auto
    with False show ?thesis by (subst split_loop.simps) simp
  qed
qed

lemma sdssplitlen_prefix:
  "n \<le> length s \<Longrightarrow> sdssplitlen s (int n) [c] = Some (pieces c (take n s))"
  by (cases "n = 0") (auto simp: sdssplitlen_def pieces_def split_loop_single)

lemma sdssplitlen_pieces [simp, split_simps]:
  "sdssplitlen s (int (length s)) [c] = Some (pieces c s)"
  by (simp add: sdssplitlen_prefix)

lemma sdssplitlen_strlen [simp, split_simps]:
  "sdssplitlen s (int (strlen s)) [c] = Some (pieces c (cstr s))"
proof -
  have "strlen s \<le> length s" by (simp add: strlen_def cstr_def length_takeWhile_le)
  moreover have "take (strlen s) s = cstr s"
    by (simp add: strlen_def cstr_def takeWhile_eq_take [symmetric])
  ultimately show ?thesis by (simp add: sdssplitlen_prefix)
qed

lemma sdsjoinsds_loop_join:
  "as \<noteq> [] \<Longrightarrow> sdsjoinsds_loop acc as [c] = acc @ join c as"
  by (induction acc as "[c]" rule: sdsjoinsds_loop.induct)
    (auto simp: Let_def sdscatsds_def sdscatlen_def join_Cons)

lemma sdsjoinsds_join [split_simps]: "sdsjoinsds ws [c] = join c ws"
  by (cases "ws = []") (auto simp: sdsjoinsds_def sdsjoinsds_loop_join)

lemma sdsjoin_loop_join:
  "as \<noteq> [] \<Longrightarrow> \<forall>a \<in> set as. nul_free a \<Longrightarrow> c \<noteq> NUL \<Longrightarrow>
   sdsjoin_loop acc as [c] = acc @ join c as"
  by (induction acc as "[c]" rule: sdsjoin_loop.induct) (auto simp: Let_def join_Cons)

lemma sdsjoin_join [split_simps]:
  "\<forall>w \<in> set ws. nul_free w \<Longrightarrow> c \<noteq> NUL \<Longrightarrow> sdsjoin ws [c] = join c ws"
  by (cases "ws = []") (auto simp: sdsjoin_def sdsjoin_loop_join)

section \<open>Properties\<close>

text \<open>
  \<^verbatim>\<open>sdssplitlen\<close> and \<^verbatim>\<open>sdsjoinsds\<close> with a one-byte separator are inverse to each
  other: joining the pieces of a string gives the string, and splitting joined pieces gives the pieces
  when none of them contains the separator (a single empty piece excepted, which splits into nothing).
\<close>

theorem split_join_roundtrip:
  assumes "\<forall>w \<in> set ws. c \<notin> set w" "ws \<noteq> [[]]"
  shows "sdssplitlen (sdsjoinsds ws [c]) (int (length (sdsjoinsds ws [c]))) [c] = Some ws \<and>
    (\<exists>us. sdssplitlen s (int (length s)) [c] = Some us \<and> sdsjoinsds us [c] = s)"
  using assms by (simp add: sdsjoinsds_join pieces_join)

theorem split_join_roundtrip_witness:
  "sdssplitlen (sdsjoinsds [''joe'', [], ''ann''] [COMMA])
     (int (length (sdsjoinsds [''joe'', [], ''ann''] [COMMA]))) [COMMA] = Some [''joe'', [], ''ann''] \<and>
   (\<exists>us. sdssplitlen ''x,y'' (int (length ''x,y'')) [COMMA] = Some us \<and> sdsjoinsds us [COMMA] = ''x,y'')"
  by (rule split_join_roundtrip) simp_all

text \<open>
  \<^verbatim>\<open>sdsll2str\<close> prints every \<^verbatim>\<open>long long\<close> but the least one: a minus sign exactly for the
  negative values, then decimal digits whose value is the absolute value; with the terminating NUL
  the text fits into the \<^verbatim>\<open>SDS_LLSTR_SIZE\<close> (21) bytes of the buffer.
\<close>

theorem sdsll2str_prints:
  assumes "LLONG_MIN < v" "v \<le> LLONG_MAX"
  shows "\<exists>d. sdsll2str v = Some ((if v < 0 then ''-'' else []) @ d) \<and> d \<noteq> [] \<and>
    (\<forall>c \<in> set d. is_digit c) \<and> int (dec_val d) = \<bar>v\<bar> \<and> length d + 2 \<le> 21"
proof (intro exI conjI)
  let ?d = "rev (ull_digits (nat \<bar>v\<bar>))"
  show "sdsll2str v = Some ((if v < 0 then ''-'' else []) @ ?d)"
    using assms(1) by (simp add: sdsll2str_eq)
  show "?d \<noteq> []" by simp
  show "\<forall>c \<in> set ?d. is_digit c" using ull_digits_digits by simp
  show "int (dec_val ?d) = \<bar>v\<bar>" by (simp add: dec_val_rev_ull_digits)
  have "nat \<bar>v\<bar> < 10 ^ 19" using assms by (simp add: LLONG_MIN_def LLONG_MAX_def nat_less_iff)
  then show "length ?d + 2 \<le> 21" using length_ull_digits [of 19 "nat \<bar>v\<bar>"] by simp
qed

theorem sdsll2str_prints_witness:
  "\<exists>d. sdsll2str (- 42) = Some ((if (- 42 :: int) < 0 then ''-'' else []) @ d) \<and> d \<noteq> [] \<and>
    (\<forall>c \<in> set d. is_digit c) \<and> int (dec_val d) = \<bar>- 42\<bar> \<and> length d + 2 \<le> 21"
  by (rule sdsll2str_prints) (simp_all add: LLONG_MIN_def LLONG_MAX_def)

text \<open>
  \<^verbatim>\<open>sdscmp\<close> is an antisymmetric comparison that is 0 exactly on equal strings.
\<close>

theorem sdscmp_decides_equality:
  "(sdscmp s t = 0 \<longleftrightarrow> s = t) \<and> sdscmp t s = - sdscmp s t"
  using sdscmp_eq_0 sdscmp_antisym by blast

text \<open>
  \<^verbatim>\<open>sdstrim\<close> removes exactly the longest prefix and the longest suffix of bytes of the
  set: what it returns starts and ends outside of the set, and the string is that text between two
  runs of bytes of the set.
\<close>

theorem sdstrim_trims:
  "\<exists>u v. s = u @ sdstrim s cset @ v \<and> list_all (in_cset cset) u \<and> list_all (in_cset cset) v \<and>
    (sdstrim s cset = [] \<or> \<not> in_cset cset (hd (sdstrim s cset)) \<and> \<not> in_cset cset (last (sdstrim s cset)))"
proof -
  let ?P = "in_cset cset"
  define m where "m = dropWhile ?P s"
  define t where "t = rev (dropWhile ?P (rev m))"
  have m: "s = takeWhile ?P s @ m" by (simp add: m_def)
  have mt: "m = t @ rev (takeWhile ?P (rev m))"
    unfolding t_def by (metis rev_append rev_rev_ident takeWhile_dropWhile_id)
  have eq: "sdstrim s cset = t" by (simp add: sdstrim_strip strip_def m_def t_def)
  have "t = [] \<or> \<not> ?P (last t)"
    using hd_dropWhile [of ?P "rev m"] by (auto simp: t_def last_rev)
  moreover have "t = [] \<or> \<not> ?P (hd t)"
  proof (cases "t = []")
    case False
    then have "hd m = hd t" "m \<noteq> []" using mt by (metis hd_append2, metis append_is_Nil_conv)
    then show ?thesis using hd_dropWhile [of ?P s] by (simp add: m_def)
  qed simp
  moreover have "list_all ?P (takeWhile ?P s)" "list_all ?P (rev (takeWhile ?P (rev m)))"
    by (auto simp: list_all_iff dest: set_takeWhileD)
  moreover have "s = takeWhile ?P s @ t @ rev (takeWhile ?P (rev m))" using m mt by metis
  ultimately show ?thesis unfolding eq by blast
qed

end
