(* ===== verification/Partition_Spec.thy ===== *)
theory Partition_Spec
  imports Ufs_Prelude
begin

text \<open>
  What the union-find-split object promises, independent of its two representations (the
  adjacency graph of \<^verbatim>\<open>src/ufs.c\<close> and the state strings of \<^verbatim>\<open>src/ot.c\<close>): an equivalence
  relation on the element names, an operation that merges two classes and one that separates a
  set of elements from the rest of their class, and how concurrent operations commute.
\<close>

section \<open>Merging and isolating on equivalence relations\<close>

definition merge :: "('a \<times> 'a) set \<Rightarrow> 'a \<Rightarrow> 'a \<Rightarrow> ('a \<times> 'a) set" where
  "merge R a b = R \<union> (R `` {a} \<union> R `` {b}) \<times> (R `` {a} \<union> R `` {b})"

definition isolate :: "('a \<times> 'a) set \<Rightarrow> 'a set \<Rightarrow> ('a \<times> 'a) set" where
  "isolate R L = R \<inter> {(x, y). x \<in> L \<longleftrightarrow> y \<in> L}"

lemma equivE:
  assumes "equiv U R"
  obtains "R \<subseteq> U \<times> U" and "refl_on U R" and "sym R" and "trans R"
  using assms by (auto simp: equiv_def)

lemma equiv_refl: "equiv U R \<Longrightarrow> x \<in> U \<Longrightarrow> (x, x) \<in> R"
  by (auto simp: equiv_def refl_on_def)

lemma equiv_sym: "equiv U R \<Longrightarrow> (x, y) \<in> R \<Longrightarrow> (y, x) \<in> R"
  by (auto simp: equiv_def dest: symD)

lemma equiv_trans: "equiv U R \<Longrightarrow> (x, y) \<in> R \<Longrightarrow> (y, z) \<in> R \<Longrightarrow> (x, z) \<in> R"
  by (auto simp: equiv_def dest: transD)

lemma equiv_dom: "equiv U R \<Longrightarrow> (x, y) \<in> R \<Longrightarrow> x \<in> U \<and> y \<in> U"
  by (auto simp: equiv_def)

lemma equiv_euclid: "equiv U R \<Longrightarrow> (a, x) \<in> R \<Longrightarrow> (a, y) \<in> R \<Longrightarrow> (x, y) \<in> R"
  by (meson equiv_sym equiv_trans)

lemma equivI_all:
  assumes "\<And>x y. (x, y) \<in> R \<Longrightarrow> x \<in> U \<and> y \<in> U"
    and "\<And>x. x \<in> U \<Longrightarrow> (x, x) \<in> R"
    and "\<And>x y. (x, y) \<in> R \<Longrightarrow> (y, x) \<in> R"
    and "\<And>x y z. (x, y) \<in> R \<Longrightarrow> (y, z) \<in> R \<Longrightarrow> (x, z) \<in> R"
  shows "equiv U R"
  unfolding equiv_def refl_on_def
proof (intro conjI ballI)
  show "sym R" using assms(3) by (rule symI)
  show "trans R" using assms(4) by (rule transI)
qed (use assms(1,2) in auto)

lemma merge_iff:
  "(x, y) \<in> merge R a b \<longleftrightarrow>
     (x, y) \<in> R \<or> (((a, x) \<in> R \<or> (b, x) \<in> R) \<and> ((a, y) \<in> R \<or> (b, y) \<in> R))"
  by (auto simp: merge_def)

lemma isolate_iff: "(x, y) \<in> isolate R L \<longleftrightarrow> (x, y) \<in> R \<and> (x \<in> L \<longleftrightarrow> y \<in> L)"
  by (auto simp: isolate_def)

lemma equiv_merge:
  assumes E: "equiv U R"
  shows "equiv U (merge R a b)"
proof (rule equivI_all)
  fix x y z
  assume xy: "(x, y) \<in> merge R a b"
  show "x \<in> U \<and> y \<in> U"
    using xy unfolding merge_iff by (meson E equiv_dom)
  show "(y, x) \<in> merge R a b"
    using xy unfolding merge_iff by (meson E equiv_sym)
  assume "(y, z) \<in> merge R a b"
  with xy show "(x, z) \<in> merge R a b"
    unfolding merge_iff by (meson E equiv_sym equiv_trans)
qed (simp add: merge_iff equiv_refl [OF E])

lemma equiv_isolate:
  assumes E: "equiv U R"
  shows "equiv U (isolate R L)"
proof (rule equivI_all)
  fix x y z
  assume xy: "(x, y) \<in> isolate R L"
  show "x \<in> U \<and> y \<in> U"
    using xy unfolding isolate_iff by (meson E equiv_dom)
  show "(y, x) \<in> isolate R L"
    using xy unfolding isolate_iff by (meson E equiv_sym)
  assume "(y, z) \<in> isolate R L"
  with xy show "(x, z) \<in> isolate R L"
    unfolding isolate_iff by (meson E equiv_trans)
qed (simp add: isolate_iff equiv_refl [OF E])

text \<open>Merging gives the least equivalence that relates the two elements.\<close>

lemma merge_least:
  assumes "equiv U S" and "R \<subseteq> S" and "(a, b) \<in> S"
  shows "merge R a b \<subseteq> S"
proof
  fix p
  assume "p \<in> merge R a b"
  then obtain x y where p: "p = (x, y)" and xy: "(x, y) \<in> merge R a b" by (cases p) auto
  from xy show "p \<in> S"
    unfolding merge_iff p using assms by (meson equiv_sym equiv_trans subsetD)
qed

lemma merge_extends: "R \<subseteq> merge R a b"
  by (auto simp: merge_def)

lemma merge_relates: "equiv U R \<Longrightarrow> a \<in> U \<Longrightarrow> b \<in> U \<Longrightarrow> (a, b) \<in> merge R a b"
  by (simp add: merge_iff equiv_refl)

lemma merge_idle:
  assumes "equiv U R" and "(a, b) \<in> R"
  shows "merge R a b = R"
  by (intro subset_antisym merge_extends merge_least [OF assms(1) subset_refl assms(2)])

lemma merge_mono_sub:
  assumes E: "equiv U R" and "a \<in> U" "b \<in> U" "c \<in> U" "d \<in> U"
  shows "merge (merge R a b) c d \<subseteq> merge (merge R c d) a b"
proof (rule merge_least)
  show E1: "equiv U (merge (merge R c d) a b)"
    by (intro equiv_merge E)
  show "merge R a b \<subseteq> merge (merge R c d) a b"
  proof (rule merge_least [OF E1])
    show "R \<subseteq> merge (merge R c d) a b"
      by (rule subset_trans [OF merge_extends merge_extends])
    show "(a, b) \<in> merge (merge R c d) a b"
      using assms by (intro merge_relates equiv_merge)
  qed
  have "(c, d) \<in> merge R c d" using assms by (intro merge_relates)
  then show "(c, d) \<in> merge (merge R c d) a b" by (rule subsetD [OF merge_extends])
qed

lemma merge_commute:
  assumes "equiv U R" and "a \<in> U" "b \<in> U" "c \<in> U" "d \<in> U"
  shows "merge (merge R a b) c d = merge (merge R c d) a b"
  by (rule subset_antisym) (rule merge_mono_sub [where U = U]; fact assms)+

lemma isolate_commute: "isolate (isolate R L) M = isolate (isolate R M) L"
  by (auto simp: isolate_def)

lemma equiv_reflD: "equiv U R \<Longrightarrow> (a, s) \<in> R \<Longrightarrow> (s, s) \<in> R"
  by (meson equiv_dom equiv_refl)

lemma merge_isolate_other:
  assumes E: "equiv U R" and ab: "a \<noteq> s" "b \<noteq> s"
  shows "isolate (merge R a b) {s} = merge (isolate R {s}) a b"
proof -
  have "(s, s) \<in> merge R a b \<longleftrightarrow> (s, s) \<in> R"
    unfolding merge_iff by (metis E equiv_reflD)
  then show ?thesis
    using ab by (intro set_eqI) (auto simp: isolate_iff merge_iff)
qed

lemma merge_cong_rep:
  assumes E: "equiv U R" and "(a, a') \<in> R" and "(b, b') \<in> R"
  shows "merge R a b = merge R a' b'"
proof -
  have "R `` {a} = R `` {a'}" and "R `` {b} = R `` {b'}"
    using assms by (auto dest: equiv_class_eq)
  then show ?thesis by (simp add: merge_def)
qed

lemma merge_isolate_rep:
  assumes E: "equiv U R" and b: "b \<noteq> s" and r: "(s, r) \<in> R" "r \<noteq> s"
  shows "isolate (merge R s b) {s} = merge (isolate R {s}) r b"
proof -
  have "merge R s b = merge R r b"
    by (simp add: merge_def equiv_class_eq [OF E r(1)])
  then show ?thesis
    using b r merge_isolate_other [OF E] by simp
qed

lemma merge_isolate_alone:
  assumes E: "equiv U R" and b: "b \<noteq> s" and alone: "R `` {s} \<subseteq> {s}"
  shows "isolate (merge R s b) {s} = isolate R {s}"
proof -
  have only: "(s, x) \<in> R \<Longrightarrow> x = s" for x using alone by auto
  show ?thesis
  proof (intro set_eqI, clarify)
    fix x y
    have "(x, y) \<in> R" if "x \<noteq> s" "y \<noteq> s" "(x, y) \<in> merge R s b"
    proof (cases "(x, y) \<in> R")
      case False
      with that only have "(b, x) \<in> R" "(b, y) \<in> R" by (auto simp: merge_iff)
      then show ?thesis by (meson E equiv_sym equiv_trans)
    qed
    moreover have "(s, s) \<in> merge R s b \<Longrightarrow> (s, s) \<in> R"
      unfolding merge_iff by (metis E equiv_reflD)
    moreover have "(x, y) \<in> R \<Longrightarrow> (x, y) \<in> merge R s b"
      by (simp add: merge_iff)
    ultimately show "(x, y) \<in> isolate (merge R s b) {s} \<longleftrightarrow> (x, y) \<in> isolate R {s}"
      unfolding isolate_iff by (metis singleton_iff)
  qed
qed

lemma merge_commute_args:
  "merge R a b = merge R b a"
  by (auto simp: merge_def)

section \<open>Operations of the object and their effect\<close>

text \<open>
  An argument of the commands names one element or several elements of one class. A union whose
  argument is \<^verbatim>\<open>*\<close> and a split of \<^verbatim>\<open>*\<close> do nothing.
\<close>

datatype 'a aop = AUnion "'a list" "'a list" | ASplit "'a list" | ANop

fun aapply :: "'a aop \<Rightarrow> ('a \<times> 'a) set \<Rightarrow> ('a \<times> 'a) set" where
  "aapply (AUnion A B) R = merge R (hd A) (hd B)"
| "aapply (ASplit L) R = isolate R (set L)"
| "aapply ANop R = R"

text \<open>One class holds all the elements of an argument; the class is in the universe.\<close>

definition within_class :: "('a \<times> 'a) set \<Rightarrow> 'a list \<Rightarrow> bool" where
  "within_class R A \<longleftrightarrow> A \<noteq> [] \<and> (\<forall>x \<in> set A. \<forall>y \<in> set A. (x, y) \<in> R)"

fun avalid :: "('a \<times> 'a) set \<Rightarrow> 'a aop \<Rightarrow> bool" where
  "avalid R (AUnion A B) \<longleftrightarrow> within_class R A \<and> within_class R B"
| "avalid R (ASplit L) \<longleftrightarrow> within_class R L"
| "avalid R ANop \<longleftrightarrow> True"

definition single_split :: "'a aop \<Rightarrow> bool" where
  "single_split op \<longleftrightarrow> (case op of ASplit L \<Rightarrow> length L = 1 | _ \<Rightarrow> True)"

lemma within_class_hd: "within_class R A \<Longrightarrow> x \<in> set A \<Longrightarrow> (hd A, x) \<in> R"
  by (auto simp: within_class_def)

lemma within_class_single [simp]: "within_class R [x] \<longleftrightarrow> (x, x) \<in> R"
  by (auto simp: within_class_def)

lemma within_class_mono: "within_class R A \<Longrightarrow> R \<subseteq> S \<Longrightarrow> within_class S A"
  by (auto simp: within_class_def)

lemma within_class_isolate: "within_class R A \<Longrightarrow> s \<notin> set A \<Longrightarrow> within_class (isolate R {s}) A"
  by (auto simp: within_class_def isolate_iff)

lemma within_class_dom: "equiv U R \<Longrightarrow> within_class R A \<Longrightarrow> set A \<subseteq> U \<and> hd A \<in> U"
  by (metis equiv_dom hd_in_set subsetI within_class_def)

lemma equiv_aapply: "equiv U R \<Longrightarrow> equiv U (aapply op R)"
  by (cases op) (auto intro: equiv_merge equiv_isolate)

text \<open>
  How an argument of a union has to change when a concurrent split has taken \<^term>\<open>s\<close> out of
  its class: an argument without \<^term>\<open>s\<close> stays, any other argument becomes some other
  element of the class of \<^term>\<open>s\<close> (\<^const>\<open>None\<close> if there is none).
\<close>

inductive arg_after_split :: "('a \<times> 'a) set \<Rightarrow> 'a \<Rightarrow> 'a list \<Rightarrow> 'a list option \<Rightarrow> bool"
  for R s where
  keep: "s \<notin> set A \<Longrightarrow> arg_after_split R s A (Some A)"
| rep: "s \<in> set A \<Longrightarrow> (s, r) \<in> R \<Longrightarrow> r \<noteq> s \<Longrightarrow> arg_after_split R s A (Some [r])"
| alone: "s \<in> set A \<Longrightarrow> R `` {s} \<subseteq> {s} \<Longrightarrow> arg_after_split R s A None"

inductive_simps arg_after_split_Some: "arg_after_split R s A (Some A')"
inductive_simps arg_after_split_None: "arg_after_split R s A None"

fun union_of :: "'a list option \<Rightarrow> 'a list option \<Rightarrow> 'a aop" where
  "union_of (Some A) (Some B) = AUnion A B"
| "union_of _ _ = ANop"

lemma arg_after_split_within_class:
  assumes E: "equiv U R" and A: "arg_after_split R s A (Some A')" and v: "within_class R A"
  shows "within_class (isolate R {s}) A'"
proof (cases "s \<in> set A")
  case True
  with A obtain r where "A' = [r]" "(s, r) \<in> R" "r \<noteq> s" by (auto simp: arg_after_split_Some)
  then show ?thesis using equiv_reflD [OF E] by (simp add: isolate_iff)
next
  case False
  with A v show ?thesis by (simp add: arg_after_split_Some within_class_isolate)
qed

lemma arg_after_split_hd:
  assumes E: "equiv U R" and A: "arg_after_split R s A (Some A')" and v: "within_class R A"
  shows "hd A' \<noteq> s \<and> (hd A, hd A') \<in> R"
proof (cases "s \<in> set A")
  case True
  with A obtain r where r: "A' = [r]" "(s, r) \<in> R" "r \<noteq> s" by (auto simp: arg_after_split_Some)
  from True v have "(hd A, s) \<in> R" by (simp add: within_class_hd)
  with r E show ?thesis by (auto intro: equiv_trans [OF E])
next
  case False
  with A v show ?thesis
    by (metis arg_after_split_Some hd_in_set within_class_def)
qed

text \<open>
  The commutation square of a union and a concurrent split of one element: with its arguments
  changed as above, the union after the split reaches the state of the split after the union.
\<close>

lemma union_split_square:
  assumes E: "equiv U R" and vA: "within_class R A" and vB: "within_class R B"
    and A: "arg_after_split R s A A'" and B: "arg_after_split R s B B'"
  shows "aapply (union_of A' B') (isolate R {s}) = isolate (merge R (hd A) (hd B)) {s}"
proof (cases "A' = None \<or> B' = None")
  case True
  have alone: "R `` {s} \<subseteq> {s}"
    using True A B by (auto simp: arg_after_split_None)
  show ?thesis
  proof (cases "hd A = s \<and> hd B = s")
    case same: True
    then have "(s, s) \<in> R" using vA by (auto simp: within_class_def)
    then show ?thesis
      using True same E by (cases A'; cases B') (auto simp: merge_idle)
  next
    case False
    have only: "(s, x) \<in> R \<Longrightarrow> x = s" for x using alone by auto
    from True have "s \<in> set A \<or> s \<in> set B"
      using A B by (auto simp: arg_after_split_None)
    then have "hd A = s \<or> hd B = s"
      using vA vB only E by (metis equiv_sym within_class_hd)
    then have "isolate (merge R (hd A) (hd B)) {s} = isolate R {s}"
    proof
      assume "hd A = s"
      then show ?thesis using False by (simp add: merge_isolate_alone [OF E _ alone])
    next
      assume "hd B = s"
      then show ?thesis
        using False merge_isolate_alone [OF E _ alone, of "hd A"] merge_commute_args [of R s "hd A"]
        by simp
    qed
    then show ?thesis
      using True by (cases A'; cases B') auto
  qed
next
  case False
  then obtain A1 B1 where AB: "A' = Some A1" "B' = Some B1" by auto
  from arg_after_split_hd [OF E A [unfolded AB] vA] arg_after_split_hd [OF E B [unfolded AB] vB]
  have hds: "hd A1 \<noteq> s" "hd B1 \<noteq> s" "(hd A, hd A1) \<in> R" "(hd B, hd B1) \<in> R" by auto
  have "isolate (merge R (hd A) (hd B)) {s} = isolate (merge R (hd A1) (hd B1)) {s}"
    using merge_cong_rep [OF E hds(3,4)] by simp
  also have "\<dots> = merge (isolate R {s}) (hd A1) (hd B1)"
    using hds E by (simp add: merge_isolate_other)
  finally show ?thesis by (simp add: AB)
qed

lemma union_of_valid:
  assumes E: "equiv U R" and vA: "within_class R A" and vB: "within_class R B"
    and A: "arg_after_split R s A A'" and B: "arg_after_split R s B B'"
  shows "avalid (isolate R {s}) (union_of A' B')"
proof (cases "A' = None \<or> B' = None")
  case True
  then show ?thesis by (cases A'; cases B') auto
next
  case False
  then show ?thesis
    using arg_after_split_within_class [OF E _ vA] arg_after_split_within_class [OF E _ vB] A B by auto
qed

end
