(* ===== verification/Ufs_Graph.thy ===== *)
theory Ufs_Graph
  imports Sds Partition_Spec
begin

text \<open>
  The replica of a union-find-split object, \<^verbatim>\<open>src/ufs.c\<close>: an array of vertices, each with its
  name and the chain of its adjacent vertices. Every class is stored as a clique, so two elements
  are in one class iff there is an edge between them.

  A chain of \<^verbatim>\<open>edge\<close> nodes is the list of its \<^verbatim>\<open>adjvex\<close> values in chain order. The loops
  that walk a chain while edges are created keep their position, because \<^verbatim>\<open>createEdge\<close> only
  puts nodes in front of a chain; walking the list that the chain was at the start of the walk is
  the same walk. An index out of the initialised part of \<^verbatim>\<open>dlist\<close> is undefined (\<^const>\<open>None\<close>);
  \<^verbatim>\<open>locateVex\<close> returns \<open>-1\<close> for a name it does not find, which is such an index.
\<close>

section \<open>Data and lookups\<close>

record vertex =
  data :: string
  firstedge :: "int list"

record cudGraph =
  key :: string
  vertexnum :: int
  edgenum :: int
  dlist :: "vertex list"

definition vat :: "cudGraph \<Rightarrow> int \<Rightarrow> vertex option" where
  "vat g i =
     (if 0 \<le> i \<and> i < int (length (dlist g)) then Some (dlist g ! nat i) else None)"

function locateVex_loop :: "cudGraph \<Rightarrow> string \<Rightarrow> int \<Rightarrow> int option" where
  "locateVex_loop g e i =
     (if i < vertexnum g then
        do { v \<leftarrow> vat g i;
             if streq e (data v) then Some i else locateVex_loop g e (i + 1) }
      else Some (-1))"
  by pat_completeness auto
termination
  by (relation "measure (\<lambda>(g, e, i). nat (vertexnum g - i))") auto

declare locateVex_loop.simps [simp del]

definition locateVex :: "cudGraph \<Rightarrow> string \<Rightarrow> int option" where
  "locateVex g e = locateVex_loop g e 0"

definition existEdge :: "cudGraph \<Rightarrow> int \<Rightarrow> int \<Rightarrow> bool option" where
  "existEdge g v1 v2 = do { v \<leftarrow> vat g v1; Some (v2 \<in> set (firstedge v)) }"

definition existElement :: "cudGraph \<Rightarrow> string \<Rightarrow> bool option" where
  "existElement g e = do { i \<leftarrow> locateVex_loop g e 0; Some (i \<noteq> -1) }"

text \<open>The search for one list element breaks at the first element that is not found.\<close>

fun existElements :: "cudGraph \<Rightarrow> string list \<Rightarrow> bool option" where
  "existElements g [] = Some True"
| "existElements g (e # es) =
     do { i \<leftarrow> locateVex_loop g e 0;
          if i = -1 then Some False else existElements g es }"

fun isConnected_inner :: "cudGraph \<Rightarrow> string \<Rightarrow> string list \<Rightarrow> bool option" where
  "isConnected_inner g e [] = Some True"
| "isConnected_inner g e (f # fs) =
     do { i \<leftarrow> locateVex g e;
          j \<leftarrow> locateVex g f;
          b \<leftarrow> existEdge g i j;
          if b then isConnected_inner g e fs else Some False }"

fun isConnected :: "cudGraph \<Rightarrow> string list \<Rightarrow> bool option" where
  "isConnected g [] = Some True"
| "isConnected g (e # es) =
     do { b \<leftarrow> isConnected_inner g e es;
          if b then isConnected g es else Some False }"

section \<open>Creating edges\<close>

definition push_edge :: "cudGraph \<Rightarrow> int \<Rightarrow> int \<Rightarrow> cudGraph option" where
  "push_edge g v1 v2 =
     do { v \<leftarrow> vat g v1;
          Some (g\<lparr>dlist := (dlist g)[nat v1 := v\<lparr>firstedge := v2 # firstedge v\<rparr>],
                  edgenum := edgenum g + 1\<rparr>) }"

definition createEdge :: "cudGraph \<Rightarrow> int \<Rightarrow> int \<Rightarrow> cudGraph option" where
  "createEdge g v1 v2 =
     (if v1 = v2 then Some g
      else do {
        e \<leftarrow> existEdge g v1 v2;
        both \<leftarrow> (if e then existEdge g v2 v1 else Some False);
        if both then Some g
        else do {
          e1 \<leftarrow> existEdge g v1 v2;
          g1 \<leftarrow> (if \<not> e1 then push_edge g v1 v2 else Some g);
          e2 \<leftarrow> existEdge g1 v2 v1;
          if \<not> e2 then push_edge g1 v2 v1 else Some g1 } })"

fun links_inner :: "cudGraph \<Rightarrow> int \<Rightarrow> int \<Rightarrow> int list \<Rightarrow> cudGraph option" where
  "links_inner g p j [] = Some g"
| "links_inner g p j (q # qs) =
     do { g1 \<leftarrow> (if p \<noteq> j then createEdge g p j else Some g);
          g2 \<leftarrow> createEdge g1 p q;
          links_inner g2 p j qs }"

fun links_outer :: "cudGraph \<Rightarrow> int list \<Rightarrow> int \<Rightarrow> cudGraph option" where
  "links_outer g [] j = Some g"
| "links_outer g (p # ps) j =
     do { v \<leftarrow> vat g j;
          g1 \<leftarrow> links_inner g p j (firstedge v);
          links_outer g1 ps j }"

definition createLinks :: "cudGraph \<Rightarrow> int \<Rightarrow> int \<Rightarrow> cudGraph option" where
  "createLinks g i j =
     do { g1 \<leftarrow> createEdge g i j;
          v \<leftarrow> vat g1 i;
          g2 \<leftarrow> links_outer g1 (firstedge v) j;
          w \<leftarrow> vat g2 j;
          links_outer g2 (firstedge w) i }"

section \<open>Removing edges\<close>

text \<open>Unlinking the first node of chain \<^term>\<open>i\<close> whose \<^verbatim>\<open>adjvex\<close> is \<^term>\<open>j\<close>, if any.\<close>

definition unlink :: "cudGraph \<Rightarrow> int \<Rightarrow> int \<Rightarrow> cudGraph option" where
  "unlink g i j =
     do { v \<leftarrow> vat g i;
          Some (if j \<in> set (firstedge v)
                then g\<lparr>dlist := (dlist g)[nat i := v\<lparr>firstedge := remove1 j (firstedge v)\<rparr>],
                       edgenum := edgenum g - 1\<rparr>
                else g) }"

definition removeEdge :: "cudGraph \<Rightarrow> string \<Rightarrow> string \<Rightarrow> cudGraph option" where
  "removeEdge g v1 v2 =
     do { i \<leftarrow> locateVex g v1;
          j \<leftarrow> locateVex g v2;
          g1 \<leftarrow> unlink g i j;
          unlink g1 j i }"

text \<open>
  \<^verbatim>\<open>find(list,v,len)\<close> of \<^verbatim>\<open>src/ot.c\<close>: membership by \<^verbatim>\<open>strcmp\<close>.
\<close>

fun find_sds :: "string list \<Rightarrow> string \<Rightarrow> bool" where
  "find_sds [] v = False"
| "find_sds (x # xs) v = (if streq v x then True else find_sds xs v)"

text \<open>Whether \<^verbatim>\<open>removeAdjEdge\<close> keeps an edge to the vertex named \<^term>\<open>v\<close>.\<close>

definition kept :: "string list option \<Rightarrow> string \<Rightarrow> bool" where
  "kept list v = (case list of None \<Rightarrow> False | Some l \<Rightarrow> find_sds l v)"

fun filter_chain :: "cudGraph \<Rightarrow> string list option \<Rightarrow> int list \<Rightarrow> int list option" where
  "filter_chain g list [] = Some []"
| "filter_chain g list (p # ps) =
     do { b \<leftarrow> (case list of None \<Rightarrow> Some False
                | Some l \<Rightarrow> do { v \<leftarrow> vat g p; Some (find_sds l (data v)) });
          rest \<leftarrow> filter_chain g list ps;
          Some (if b then p # rest else rest) }"

definition drop_back_edges :: "string list option \<Rightarrow> int \<Rightarrow> vertex \<Rightarrow> vertex" where
  "drop_back_edges list i v =
     v\<lparr>firstedge := filter (\<lambda>p. p \<noteq> i \<or> kept list (data v)) (firstedge v)\<rparr>"

definition removeAdjEdge :: "cudGraph \<Rightarrow> string \<Rightarrow> string list option \<Rightarrow> cudGraph option" where
  "removeAdjEdge g v list =
     do { i \<leftarrow> locateVex g v;
          x \<leftarrow> vat g i;
          if firstedge x \<noteq> [] then
            do { c \<leftarrow> filter_chain g list (firstedge x);
                 let d = (dlist g)[nat i := x\<lparr>firstedge := c\<rparr>];
                 if vertexnum g \<le> int (length d) then
                   Some (g\<lparr>dlist := map (drop_back_edges list i) (take (nat (vertexnum g)) d)
                                   @ drop (nat (vertexnum g)) d\<rparr>)
                 else None }
          else Some g }"

section \<open>The union and split procedures\<close>

fun links_to :: "cudGraph \<Rightarrow> string list \<Rightarrow> string \<Rightarrow> cudGraph option" where
  "links_to g [] b = Some g"
| "links_to g (a # as) b =
     do { i \<leftarrow> locateVex g a;
          j \<leftarrow> locateVex g b;
          g1 \<leftarrow> createLinks g i j;
          links_to g1 as b }"

fun links_row :: "cudGraph \<Rightarrow> string \<Rightarrow> string list \<Rightarrow> cudGraph option" where
  "links_row g a [] = Some g"
| "links_row g a (b # bs) =
     do { i \<leftarrow> locateVex g a;
          j \<leftarrow> locateVex g b;
          g1 \<leftarrow> createLinks g i j;
          links_row g1 a bs }"

fun links_all :: "cudGraph \<Rightarrow> string list \<Rightarrow> string list \<Rightarrow> cudGraph option" where
  "links_all g [] bs = Some g"
| "links_all g (a # as) bs = do { g1 \<leftarrow> links_row g a bs; links_all g1 as bs }"

text \<open>\<^verbatim>\<open>elements[0]\<close> of the array that \<^verbatim>\<open>sdssplitlen\<close> returned.\<close>

definition first :: "'a list \<Rightarrow> 'a option" where
  "first xs = (case xs of [] \<Rightarrow> None | x # _ \<Rightarrow> Some x)"

definition joined :: "cudGraph \<Rightarrow> string \<Rightarrow> string \<Rightarrow> bool option" where
  "joined g a b = do { i \<leftarrow> locateVex g a; j \<leftarrow> locateVex g b; existEdge g i j }"

definition star :: string where
  "star = ''*''"

text \<open>
  \<^verbatim>\<open>unionProc\<close>: the effect on the graph. In every branch the client's \<^verbatim>\<open>flag_ufs\<close> is set to 1
  and the reply is \<^verbatim>\<open>+OK\<close>.
\<close>

definition unionProc :: "cudGraph \<Rightarrow> string \<Rightarrow> string \<Rightarrow> cudGraph option" where
  "unionProc g argv1 argv2 =
     (let argv1len = (if strchr argv1 COMMA then 2 else (1::nat));
          argv2len = (if strchr argv2 COMMA then 2 else (1::nat)) in
      if streq argv1 star \<or> streq argv2 star then Some g
      else if argv1len > 1 \<and> argv2len = 1 then
        do { elements \<leftarrow> sdssplitlen argv1 (int (strlen argv1)) [COMMA];
             e \<leftarrow> first elements;
             b \<leftarrow> joined g e argv2;
             if \<not> b then links_to g elements argv2 else Some g }
      else if argv2len > 1 \<and> argv1len = 1 then
        do { elements \<leftarrow> sdssplitlen argv2 (int (strlen argv2)) [COMMA];
             e \<leftarrow> first elements;
             b \<leftarrow> joined g e argv1;
             if \<not> b then links_to g elements argv1 else Some g }
      else if argv1len > 1 \<and> argv2len > 1 then
        do { elements1 \<leftarrow> sdssplitlen argv1 (int (strlen argv1)) [COMMA];
             elements2 \<leftarrow> sdssplitlen argv2 (int (strlen argv2)) [COMMA];
             e1 \<leftarrow> first elements1;
             e2 \<leftarrow> first elements2;
             b \<leftarrow> joined g e1 e2;
             if \<not> b then links_all g elements1 elements2 else Some g }
      else
        do { i \<leftarrow> locateVex g argv1; j \<leftarrow> locateVex g argv2; createLinks g i j })"

fun removeAdjEdges :: "cudGraph \<Rightarrow> string list \<Rightarrow> string list \<Rightarrow> cudGraph option" where
  "removeAdjEdges g [] l = Some g"
| "removeAdjEdges g (v # vs) l =
     do { g1 \<leftarrow> removeAdjEdge g v (Some l); removeAdjEdges g1 vs l }"

definition splitProc :: "cudGraph \<Rightarrow> string \<Rightarrow> cudGraph option" where
  "splitProc g argv1 =
     (if strchr argv1 COMMA then
        do { elements \<leftarrow> sdssplitlen argv1 (int (strlen argv1)) [COMMA];
             removeAdjEdges g elements elements }
      else if \<not> streq argv1 star then removeAdjEdge g argv1 None
      else Some g)"

section \<open>Chains, frames and the invariant\<close>

definition chain :: "cudGraph \<Rightarrow> int \<Rightarrow> int list" where
  "chain g i = (case vat g i of None \<Rightarrow> [] | Some v \<Rightarrow> firstedge v)"

definition verts :: "cudGraph \<Rightarrow> int set" where
  "verts g = {0 ..< int (length (dlist g))}"

definition erel :: "cudGraph \<Rightarrow> (int \<times> int) set" where
  "erel g = {(i, j). j \<in> set (chain g i)}"

text \<open>Everything but the edges is the same.\<close>

definition frame :: "cudGraph \<Rightarrow> cudGraph \<Rightarrow> bool" where
  "frame g g' \<longleftrightarrow> key g' = key g \<and> vertexnum g' = vertexnum g \<and>
     map data (dlist g') = map data (dlist g)"

text \<open>The chains describe an undirected graph without loops and parallel edges.\<close>

definition graph_ok :: "cudGraph \<Rightarrow> bool" where
  "graph_ok g \<longleftrightarrow> vertexnum g = int (length (dlist g)) \<and> erel g \<subseteq> verts g \<times> verts g \<and>
     sym (erel g) \<and> irrefl (erel g) \<and> (\<forall>i. distinct (chain g i))"

definition edge_count :: "cudGraph \<Rightarrow> int" where
  "edge_count g = int (sum_list (map (\<lambda>v. length (firstedge v)) (dlist g)))"

lemma vat_Some [simp]: "i \<in> verts g \<Longrightarrow> vat g i = Some (dlist g ! nat i)"
  by (auto simp: vat_def verts_def)

lemma vat_None: "i \<notin> verts g \<Longrightarrow> vat g i = None"
  by (auto simp: vat_def verts_def)

lemma chain_in: "i \<in> verts g \<Longrightarrow> chain g i = firstedge (dlist g ! nat i)"
  by (simp add: chain_def)

lemma chain_out: "i \<notin> verts g \<Longrightarrow> chain g i = []"
  by (simp add: chain_def vat_None)

lemma erel_iff [simp]: "(i, j) \<in> erel g \<longleftrightarrow> j \<in> set (chain g i)"
  by (simp add: erel_def)

lemma frame_refl [simp]: "frame g g"
  by (simp add: frame_def)

lemma frame_trans: "frame g h \<Longrightarrow> frame h k \<Longrightarrow> frame g k"
  by (simp add: frame_def)

lemma frame_length: "frame g h \<Longrightarrow> length (dlist h) = length (dlist g)"
  by (metis frame_def length_map)

lemma frame_verts: "frame g h \<Longrightarrow> verts h = verts g"
  by (simp add: verts_def frame_length)

lemma frame_data: "frame g h \<Longrightarrow> n < length (dlist g) \<Longrightarrow> data (dlist h ! n) = data (dlist g ! n)"
  by (metis frame_def frame_length nth_map)

lemma graph_ok_verts: "graph_ok g \<Longrightarrow> j \<in> set (chain g i) \<Longrightarrow> i \<in> verts g \<and> j \<in> verts g"
  by (auto simp: graph_ok_def erel_def)

lemma graph_ok_sym: "graph_ok g \<Longrightarrow> j \<in> set (chain g i) \<Longrightarrow> i \<in> set (chain g j)"
  by (auto simp: graph_ok_def erel_def dest: symD)

lemma graph_ok_irrefl: "graph_ok g \<Longrightarrow> i \<notin> set (chain g i)"
  by (auto simp: graph_ok_def irrefl_def)

lemma existEdge_eq [simp]: "i \<in> verts g \<Longrightarrow> existEdge g i j = Some (j \<in> set (chain g i))"
  by (simp add: existEdge_def chain_in)

lemma push_edge_eq:
  assumes "i \<in> verts g"
  obtains g' where "push_edge g i j = Some g'" and "frame g g'"
    and "\<And>k. chain g' k = (if k = i then j # chain g i else chain g k)"
    and "edgenum g' = edgenum g + 1" and "edge_count g' = edge_count g + 1"
proof -
  let ?v = "dlist g ! nat i"
  let ?g = "g\<lparr>dlist := (dlist g)[nat i := ?v\<lparr>firstedge := j # firstedge ?v\<rparr>],
              edgenum := edgenum g + 1\<rparr>"
  have i: "0 \<le> i" "nat i < length (dlist g)" using assms by (auto simp: verts_def)
  show ?thesis
  proof
    show "push_edge g i j = Some ?g" using assms by (simp add: push_edge_def)
    show "frame g ?g" using i by (auto simp: frame_def map_update list_update_id
        intro!: list_update_same_conv [THEN iffD2])
    show "chain ?g k = (if k = i then j # chain g i else chain g k)" for k
    proof (cases "k \<in> verts g")
      case True
      then have "k \<in> verts ?g" and "0 \<le> k" by (auto simp: verts_def)
      then show ?thesis
        using True i assms by (auto simp: chain_in nth_list_update nat_eq_iff)
    next
      case False
      then have "k \<notin> verts ?g" by (simp add: verts_def)
      then show ?thesis using False assms by (auto simp: chain_out)
    qed
    have "sum_list (map (\<lambda>v. length (firstedge v)) (dlist ?g)) + length (firstedge ?v) =
      sum_list (map (\<lambda>v. length (firstedge v)) (dlist g)) + Suc (length (firstedge ?v))"
      using sum_list_upd [of "nat i" "map (\<lambda>v. length (firstedge v)) (dlist g)"
          "Suc (length (firstedge ?v))"] i
      by (simp add: map_update)
    then show "edge_count ?g = edge_count g + 1" by (simp add: edge_count_def)
  qed simp
qed

section \<open>Edges that are created\<close>

text \<open>The edges of \<^verbatim>\<open>createEdge\<close> between two vertices, none for a vertex and itself.\<close>

definition pair :: "int \<Rightarrow> int \<Rightarrow> (int \<times> int) set" where
  "pair a b = (if a = b then {} else {(a, b), (b, a)})"

definition excess :: "cudGraph \<Rightarrow> int" where
  "excess g = edgenum g - edge_count g"

text \<open>
  One execution that adds edges only: it ends, keeps the graph well-formed and the counter
  \<^verbatim>\<open>edgenum\<close> in step with the edges.
\<close>

definition grows :: "cudGraph \<Rightarrow> cudGraph option \<Rightarrow> (int \<times> int) set \<Rightarrow> bool" where
  "grows g r E \<longleftrightarrow> (\<exists>g'. r = Some g' \<and> graph_ok g' \<and> frame g g' \<and> excess g' = excess g \<and>
     erel g' = erel g \<union> E)"

lemma grows_refl: "graph_ok g \<Longrightarrow> grows g (Some g) {}"
  by (simp add: grows_def)

lemma growsE:
  assumes "grows g r E"
  obtains g' where "r = Some g'" "graph_ok g'" "frame g g'" "excess g' = excess g"
    "erel g' = erel g \<union> E"
  using assms by (auto simp: grows_def)

lemma grows_bind:
  assumes "grows g r E" and "\<And>g'. r = Some g' \<Longrightarrow> graph_ok g' \<Longrightarrow> frame g g' \<Longrightarrow>
      erel g' = erel g \<union> E \<Longrightarrow> grows g' (f g') F"
  shows "grows g (r \<bind> f) (E \<union> F)"
proof -
  from assms(1) obtain g' where g': "r = Some g'" "graph_ok g'" "frame g g'"
    "excess g' = excess g" "erel g' = erel g \<union> E" by (rule growsE)
  with assms(2) obtain g'' where "f g' = Some g''" "graph_ok g''" "frame g' g''"
    "excess g'' = excess g'" "erel g'' = erel g' \<union> F" by (metis growsE)
  with g' show ?thesis
    by (auto simp: grows_def intro: frame_trans)
qed

lemma grows_cong: "grows g r E \<Longrightarrow> erel g \<union> E = erel g \<union> F \<Longrightarrow> grows g r F"
  by (auto simp: grows_def)

lemma graph_okI_add:
  assumes ok: "graph_ok g" and ab: "a \<in> verts g" "b \<in> verts g" "a \<noteq> b"
    and new: "b \<notin> set (chain g a)" "a \<notin> set (chain g b)" and fr: "frame g g'"
    and ch: "\<And>k. chain g' k =
      (if k = b then a # chain g b else if k = a then b # chain g a else chain g k)"
  shows "graph_ok g' \<and> erel g' = erel g \<union> {(a, b), (b, a)}"
proof -
  have er: "erel g' = erel g \<union> {(a, b), (b, a)}"
    using ab ch by (auto simp: erel_def split: if_splits)
  have "sym (erel g')"
    unfolding er using ok by (auto simp: graph_ok_def sym_def)
  moreover have "irrefl (erel g')"
    unfolding er using ok ab by (auto simp: graph_ok_def irrefl_def)
  moreover have "erel g' \<subseteq> verts g' \<times> verts g'"
    unfolding er frame_verts [OF fr] using ok ab by (auto simp: graph_ok_def)
  moreover have "distinct (chain g' k)" for k
    using ok new ab by (auto simp: ch graph_ok_def)
  moreover have "vertexnum g' = int (length (dlist g'))"
    using ok fr frame_length [OF fr] by (auto simp: graph_ok_def frame_def)
  ultimately show ?thesis using er by (simp add: graph_ok_def)
qed

lemma createEdge_grows:
  assumes ok: "graph_ok g" and ab: "a \<in> verts g" "b \<in> verts g"
  shows "grows g (createEdge g a b) (pair a b)"
proof (cases "a = b \<or> b \<in> set (chain g a)")
  case True
  then have "createEdge g a b = Some g"
    using ok ab graph_ok_sym [OF ok, of b a] by (auto simp: createEdge_def)
  moreover have "erel g \<union> pair a b = erel g"
    using True graph_ok_sym [OF ok, of b a] by (auto simp: pair_def)
  ultimately show ?thesis using ok by (simp add: grows_def)
next
  case False
  then have ne: "a \<noteq> b" and nb: "b \<notin> set (chain g a)" by auto
  then have na: "a \<notin> set (chain g b)" using graph_ok_sym [OF ok] by blast
  obtain g1 where g1: "push_edge g a b = Some g1" "frame g g1"
    "\<And>k. chain g1 k = (if k = a then b # chain g a else chain g k)"
    "edgenum g1 = edgenum g + 1" "edge_count g1 = edge_count g + 1"
    using push_edge_eq [OF ab(1)] by metis
  have b1: "b \<in> verts g1" using ab frame_verts [OF g1(2)] by simp
  obtain g2 where g2: "push_edge g1 b a = Some g2" "frame g1 g2"
    "\<And>k. chain g2 k = (if k = b then a # chain g1 b else chain g1 k)"
    "edgenum g2 = edgenum g1 + 1" "edge_count g2 = edge_count g1 + 1"
    using push_edge_eq [OF b1] by metis
  have "createEdge g a b = Some g2"
    using ne nb na ab b1 g1 g2 by (simp add: createEdge_def)
  moreover have fr: "frame g g2" using g1(2) g2(2) by (rule frame_trans)
  moreover have "graph_ok g2 \<and> erel g2 = erel g \<union> {(a, b), (b, a)}"
    by (rule graph_okI_add [OF ok ab ne nb na fr]) (use ne in \<open>auto simp: g1 g2\<close>)
  ultimately show ?thesis
    using ne g1 g2 by (simp add: grows_def pair_def excess_def)
qed

text \<open>The edges the two nested walks of \<^verbatim>\<open>createLinks\<close> ask for.\<close>

definition star_edges :: "int \<Rightarrow> int \<Rightarrow> int set \<Rightarrow> (int \<times> int) set" where
  "star_edges p j Q = (\<Union>q \<in> Q. pair p j \<union> pair p q)"

lemma pair_self [simp]: "pair a a = {}"
  by (simp add: pair_def)

lemma star_edges_empty [simp]: "star_edges p j {} = {}"
  by (simp add: star_edges_def)

lemma star_edges_insert [simp]:
  "star_edges p j (insert q Q) = pair p j \<union> pair p q \<union> star_edges p j Q"
  by (simp add: star_edges_def)

lemma links_inner_grows:
  assumes "graph_ok g" and "p \<in> verts g" and "j \<in> verts g" and "set qs \<subseteq> verts g"
  shows "grows g (links_inner g p j qs) (star_edges p j (set qs))"
  using assms
proof (induction qs arbitrary: g)
  case Nil
  then show ?case by (simp add: grows_refl)
next
  case (Cons q qs)
  have "grows g (if p \<noteq> j then createEdge g p j else Some g) (pair p j)"
    using Cons.prems by (auto simp: createEdge_grows grows_refl)
  then have "grows g ((if p \<noteq> j then createEdge g p j else Some g) \<bind>
      (\<lambda>g1. createEdge g1 p q \<bind> (\<lambda>g2. links_inner g2 p j qs)))
      (pair p j \<union> (pair p q \<union> star_edges p j (set qs)))"
  proof (rule grows_bind)
    fix g1
    assume g1: "graph_ok g1" "frame g g1"
    then have "grows g1 (createEdge g1 p q) (pair p q)"
      using Cons.prems by (intro createEdge_grows) (auto simp: frame_verts)
    then show "grows g1 (createEdge g1 p q \<bind> (\<lambda>g2. links_inner g2 p j qs))
        (pair p q \<union> star_edges p j (set qs))"
    proof (rule grows_bind)
      fix g2
      assume "graph_ok g2" "frame g1 g2"
      then show "grows g2 (links_inner g2 p j qs) (star_edges p j (set qs))"
        using g1 Cons.prems by (intro Cons.IH) (auto simp: frame_verts)
    qed
  qed
  then show ?case by (simp add: Un_assoc)
qed

lemma pair_sub: "a \<in> C \<Longrightarrow> b \<in> C \<Longrightarrow> pair a b \<subseteq> C \<times> C"
  by (auto simp: pair_def)

lemma links_outer_grows:
  assumes "graph_ok g" and "C \<subseteq> verts g" and "j \<in> C" and "set ps \<subseteq> C"
    and "set (chain g j) \<subseteq> C"
  shows "\<exists>E. grows g (links_outer g ps j) E \<and> E \<subseteq> C \<times> C \<and>
    (\<forall>p \<in> set ps. \<forall>q \<in> set (chain g j). pair p j \<union> pair p q \<subseteq> erel g \<union> E)"
  using assms
proof (induction ps arbitrary: g)
  case Nil
  then show ?case by (auto intro!: exI [of _ "{}"] simp: grows_refl)
next
  case (Cons p ps)
  let ?E1 = "star_edges p j (set (chain g j))"
  have jv: "j \<in> verts g" and pC: "p \<in> C" using Cons.prems by auto
  have gr1: "grows g (links_inner g p j (chain g j)) ?E1"
    using Cons.prems by (intro links_inner_grows) auto
  then obtain g1 where g1: "links_inner g p j (chain g j) = Some g1" "graph_ok g1" "frame g g1"
    "erel g1 = erel g \<union> ?E1" by (rule growsE)
  have E1: "?E1 \<subseteq> C \<times> C"
    using Cons.prems pC unfolding star_edges_def by (auto simp: pair_def)
  have sub: "set (chain g1 j) \<subseteq> C" and sup: "set (chain g j) \<subseteq> set (chain g1 j)"
    using Cons.prems E1 g1(4) unfolding set_eq_iff by (force simp: erel_def)+
  have "\<exists>E. grows g1 (links_outer g1 ps j) E \<and> E \<subseteq> C \<times> C \<and>
    (\<forall>p \<in> set ps. \<forall>q \<in> set (chain g1 j). pair p j \<union> pair p q \<subseteq> erel g1 \<union> E)"
    using Cons.prems g1 sub by (intro Cons.IH) (auto simp: frame_verts)
  then obtain E2 where E2: "grows g1 (links_outer g1 ps j) E2" "E2 \<subseteq> C \<times> C"
    "\<forall>p \<in> set ps. \<forall>q \<in> set (chain g1 j). pair p j \<union> pair p q \<subseteq> erel g1 \<union> E2" by blast
  have "links_outer g (p # ps) j =
      links_inner g p j (chain g j) \<bind> (\<lambda>g1. links_outer g1 ps j)"
    using jv by (simp add: chain_in)
  moreover have "grows g (links_inner g p j (chain g j) \<bind> (\<lambda>g1. links_outer g1 ps j)) (?E1 \<union> E2)"
    by (rule grows_bind [OF gr1]) (use g1 E2 in auto)
  moreover have "pair p' j \<union> pair p' q \<subseteq> erel g \<union> (?E1 \<union> E2)"
    if p': "p' \<in> set (p # ps)" and q: "q \<in> set (chain g j)" for p' q
  proof (cases "p' = p")
    case True
    then have "pair p' j \<union> pair p' q \<subseteq> ?E1"
      unfolding star_edges_def using q by blast
    then show ?thesis by blast
  next
    case False
    then have "p' \<in> set ps" and "q \<in> set (chain g1 j)" using p' q sup by auto
    then have "pair p' j \<union> pair p' q \<subseteq> erel g1 \<union> E2"
      by (rule bspec [OF bspec [OF E2(3)]])
    then show ?thesis unfolding g1(4) by (simp only: Un_assoc)
  qed
  ultimately show ?case
    using E1 E2(2) by (intro exI [of _ "?E1 \<union> E2"] conjI ballI) (simp_all only: Un_least)
qed

section \<open>Classes\<close>

text \<open>
  The invariant of the replica: an undirected graph that is a disjoint union of cliques, on
  vertices with different NUL-free names. The classes are an equivalence relation on the names.
\<close>

definition base_ok :: "cudGraph \<Rightarrow> bool" where
  "base_ok g \<longleftrightarrow> graph_ok g \<and>
     distinct (map data (dlist g)) \<and> (\<forall>v \<in> set (dlist g). nul_free (data v))"

definition ufs_ok :: "cudGraph \<Rightarrow> bool" where
  "ufs_ok g \<longleftrightarrow> base_ok g \<and>
     (\<forall>i j k. j \<in> set (chain g i) \<longrightarrow> k \<in> set (chain g j) \<longrightarrow> i \<noteq> k \<longrightarrow> k \<in> set (chain g i))"

definition irel :: "cudGraph \<Rightarrow> (int \<times> int) set" where
  "irel g = erel g \<union> Id_on (verts g)"

definition names :: "cudGraph \<Rightarrow> string set" where
  "names g = data ` set (dlist g)"

definition name_of :: "cudGraph \<Rightarrow> int \<Rightarrow> string" where
  "name_of g i = data (dlist g ! nat i)"

text \<open>Two names are related iff the vertices are equal or adjacent.\<close>

definition ufs_rel :: "cudGraph \<Rightarrow> (string \<times> string) set" where
  "ufs_rel g = map_prod (name_of g) (name_of g) ` irel g"

lemma irel_iff: "(i, j) \<in> irel g \<longleftrightarrow> j \<in> set (chain g i) \<or> (i = j \<and> i \<in> verts g)"
  by (auto simp: irel_def)

lemma ufs_ok_base [simp]: "ufs_ok g \<Longrightarrow> base_ok g"
  by (simp add: ufs_ok_def)

lemma base_ok_graph: "base_ok g \<Longrightarrow> graph_ok g"
  by (simp add: base_ok_def)

lemma ufs_ok_graph [simp]: "ufs_ok g \<Longrightarrow> graph_ok g"
  by (simp add: base_ok_graph)

lemma base_okI:
  assumes "graph_ok g'" and "frame g g'" and "base_ok g"
  shows "base_ok g'"
proof -
  have "data ` set (dlist g') = data ` set (dlist g)"
    using assms(2) by (metis frame_def set_map)
  then have "\<forall>v \<in> set (dlist g'). nul_free (data v)"
    using assms(3) unfolding base_ok_def by (metis (no_types, lifting) image_iff)
  moreover have "distinct (map data (dlist g'))"
    using assms(2,3) by (simp add: frame_def base_ok_def)
  ultimately show ?thesis using assms(1) unfolding base_ok_def by blast
qed

lemma equiv_irel:
  assumes "ufs_ok g"
  shows "equiv (verts g) (irel g)"
proof (rule equivI_all)
  note ok = ufs_ok_graph [OF assms]
  fix i j k
  assume ij: "(i, j) \<in> irel g"
  then show "i \<in> verts g \<and> j \<in> verts g"
    using graph_ok_verts [OF ok] by (auto simp: irel_iff)
  show "(j, i) \<in> irel g"
    using ij graph_ok_sym [OF ok] by (auto simp: irel_iff)
  assume "(j, k) \<in> irel g"
  with ij show "(i, k) \<in> irel g"
    using assms graph_ok_verts [OF ok] unfolding irel_iff ufs_ok_def by blast
qed (simp add: irel_iff)

lemma ufs_okI:
  assumes "graph_ok g'" and "frame g g'" and "ufs_ok g" and "trans (irel g')"
  shows "ufs_ok g'"
proof -
  have "k \<in> set (chain g' i)" if "j \<in> set (chain g' i)" "k \<in> set (chain g' j)" "i \<noteq> k" for i j k
  proof -
    have "(i, j) \<in> irel g'" "(j, k) \<in> irel g'" using that by (auto simp: irel_iff)
    then have "(i, k) \<in> irel g'" using assms(4) by (auto dest: transD)
    then show ?thesis using that by (auto simp: irel_iff)
  qed
  moreover have "base_ok g'"
    using assms(1-3) by (auto intro: base_okI)
  ultimately show ?thesis unfolding ufs_ok_def by blast
qed

section \<open>Linking two vertices merges their classes\<close>

lemma chain_erel: "set (chain g i) = erel g `` {i}"
  by auto

lemma createLinks_edges:
  assumes ok: "ufs_ok g" and ij: "i \<in> verts g" "j \<in> verts g"
  defines "C \<equiv> irel g `` {i} \<union> irel g `` {j}"
  shows "\<exists>E. grows g (createLinks g i j) E \<and> E \<subseteq> C \<times> C \<and> pair i j \<subseteq> erel g \<union> E \<and>
    (i \<noteq> j \<longrightarrow> (\<forall>p \<in> set (chain g i). \<forall>q \<in> insert j (set (chain g j)). pair p q \<subseteq> erel g \<union> E) \<and>
      (\<forall>q \<in> set (chain g j). pair q i \<subseteq> erel g \<union> E))"
proof -
  note gok = ufs_ok_graph [OF ok]
  have iC: "i \<in> C" "j \<in> C" using ij by (auto simp: C_def irel_iff)
  have CV: "C \<subseteq> verts g" using graph_ok_verts [OF gok] ij by (auto simp: C_def irel_iff)
  have chC: "set (chain g i) \<subseteq> C" "set (chain g j) \<subseteq> C" by (auto simp: C_def irel_iff)
  have gr1: "grows g (createEdge g i j) (pair i j)" using gok ij by (rule createEdge_grows)
  then obtain g1 where g1: "createEdge g i j = Some g1" "graph_ok g1" "frame g g1"
    "erel g1 = erel g \<union> pair i j" by (rule growsE)
  have ch1: "set (chain g1 k) \<subseteq> C" if "k = i \<or> k = j" for k
    using that chC iC unfolding chain_erel g1(4) by (auto simp: pair_def)
  obtain E1 where E1: "grows g1 (links_outer g1 (chain g1 i) j) E1" "E1 \<subseteq> C \<times> C"
    "\<forall>p \<in> set (chain g1 i). \<forall>q \<in> set (chain g1 j). pair p j \<union> pair p q \<subseteq> erel g1 \<union> E1"
    using links_outer_grows [of g1 C j "chain g1 i"] g1 CV iC ch1 by (auto simp: frame_verts)
  from E1(1) obtain g2 where g2: "links_outer g1 (chain g1 i) j = Some g2" "graph_ok g2"
    "frame g1 g2" "erel g2 = erel g1 \<union> E1" by (rule growsE)
  have fr2: "frame g g2" using g1 g2 by (metis frame_trans)
  have ch2: "set (chain g2 k) \<subseteq> C" if "k = i \<or> k = j" for k
    using that ch1 [OF that] E1(2) unfolding chain_erel g2(4) by auto
  obtain E2 where E2: "grows g2 (links_outer g2 (chain g2 j) i) E2" "E2 \<subseteq> C \<times> C"
    "\<forall>p \<in> set (chain g2 j). \<forall>q \<in> set (chain g2 i). pair p i \<union> pair p q \<subseteq> erel g2 \<union> E2"
    using links_outer_grows [of g2 C i "chain g2 j"] g2(2) CV iC ch2 frame_verts [OF fr2] by auto
  let ?E = "pair i j \<union> (E1 \<union> E2)"
  have v: "i \<in> verts g1" "j \<in> verts g2" using ij g1 fr2 by (auto simp: frame_verts)
  have "createLinks g i j = createEdge g i j \<bind> (\<lambda>g1. links_outer g1 (chain g1 i) j \<bind>
      (\<lambda>g2. links_outer g2 (chain g2 j) i))"
    using g1(1) g2(1) v by (simp add: createLinks_def chain_in)
  moreover have "grows g (createEdge g i j \<bind> (\<lambda>g1. links_outer g1 (chain g1 i) j \<bind>
      (\<lambda>g2. links_outer g2 (chain g2 j) i))) ?E"
  proof (rule grows_bind [OF gr1])
    fix h
    assume "createEdge g i j = Some h"
    then have h: "h = g1" using g1(1) by simp
    show "grows h (links_outer h (chain h i) j \<bind> (\<lambda>g2. links_outer g2 (chain g2 j) i)) (E1 \<union> E2)"
      unfolding h by (rule grows_bind [OF E1(1)]) (use g2(1) E2(1) in simp)
  qed
  moreover have "?E \<subseteq> C \<times> C" using E1(2) E2(2) pair_sub [OF iC] by blast
  moreover have low1: "pair p q \<subseteq> erel g \<union> ?E"
    if "i \<noteq> j" "p \<in> set (chain g i)" "q \<in> insert j (set (chain g j))" for p q
  proof -
    have p: "p \<in> set (chain g1 i)" and q: "i \<in> set (chain g1 j)"
      using that unfolding chain_erel g1(4) by (auto simp: pair_def)
    have "q \<in> insert j (set (chain g1 j))"
      using that unfolding chain_erel g1(4) by auto
    then have "pair p q \<subseteq> erel g1 \<union> E1"
      using bspec [OF bspec [OF E1(3) p], of q] bspec [OF bspec [OF E1(3) p] q] by auto
    then show ?thesis unfolding g1(4) by blast
  qed
  moreover have low2: "pair q i \<subseteq> erel g \<union> ?E" if "i \<noteq> j" "q \<in> set (chain g j)" for q
  proof -
    have q: "q \<in> set (chain g2 j)" and j: "j \<in> set (chain g2 i)"
      using that unfolding chain_erel g2(4) g1(4) by (auto simp: pair_def)
    have "pair q i \<subseteq> erel g2 \<union> E2"
      using bspec [OF bspec [OF E2(3) q] j] by blast
    then show ?thesis unfolding g2(4) g1(4) by blast
  qed
  ultimately show ?thesis by (intro exI [of _ ?E] conjI impI ballI) (simp_all only: Un_upper1, blast+)
qed

lemma pair_subD: "pair a b \<subseteq> S \<Longrightarrow> a \<noteq> b \<Longrightarrow> (a, b) \<in> S \<and> (b, a) \<in> S"
  by (auto simp: pair_def)

lemma createLinks_merge:
  assumes ok: "ufs_ok g" and ij: "i \<in> verts g" "j \<in> verts g"
  obtains g' where "createLinks g i j = Some g'" and "ufs_ok g'" and "frame g g'"
    and "excess g' = excess g" and "irel g' = merge (irel g) i j"
proof -
  let ?C = "irel g `` {i} \<union> irel g `` {j}"
  note E = equiv_irel [OF ok]
  obtain D where D: "grows g (createLinks g i j) D" "D \<subseteq> ?C \<times> ?C" "pair i j \<subseteq> erel g \<union> D"
    "i \<noteq> j \<Longrightarrow> \<forall>p \<in> set (chain g i). \<forall>q \<in> insert j (set (chain g j)). pair p q \<subseteq> erel g \<union> D"
    "i \<noteq> j \<Longrightarrow> \<forall>q \<in> set (chain g j). pair q i \<subseteq> erel g \<union> D"
    using createLinks_edges [OF ok ij] by blast
  from D(1) obtain g' where g': "createLinks g i j = Some g'" "graph_ok g'" "frame g g'"
    "excess g' = excess g" "erel g' = erel g \<union> D" by (rule growsE)
  have ir: "irel g' = irel g \<union> D"
    using g'(5) frame_verts [OF g'(3)] by (auto simp: irel_def)
  have cross: "(x, y) \<in> irel g \<union> D \<and> (y, x) \<in> irel g \<union> D"
    if x: "(i, x) \<in> irel g" and y: "(j, y) \<in> irel g" for x y
  proof (cases "i = j \<or> x = y")
    case True
    then have "(x, y) \<in> irel g"
      using x y equiv_euclid [OF E] equiv_reflD [OF E] by metis
    then show ?thesis using equiv_sym [OF E] by blast
  next
    case False
    then have ne: "i \<noteq> j" "x \<noteq> y" by auto
    have "pair x y \<subseteq> erel g \<union> D"
    proof (cases "x = i")
      case True
      show ?thesis
      proof (cases "y = j")
        case True
        with \<open>x = i\<close> D(3) show ?thesis by simp
      next
        case False
        then have "y \<in> set (chain g j)" using y by (auto simp: irel_iff)
        then have "pair y i \<subseteq> erel g \<union> D" using D(5) [OF ne(1)] by blast
        moreover have "pair x y = pair y i" using True by (auto simp: pair_def)
        ultimately show ?thesis by (simp only:)
      qed
    next
      case False
      then have "x \<in> set (chain g i)" and "y \<in> insert j (set (chain g j))"
        using x y by (auto simp: irel_iff)
      then show ?thesis using D(4) [OF ne(1)] by blast
    qed
    then have "(x, y) \<in> erel g \<union> D \<and> (y, x) \<in> erel g \<union> D" by (rule pair_subD) (fact ne(2))
    then show ?thesis unfolding irel_def by blast
  qed
  have mg: "irel g' = merge (irel g) i j"
  proof
    show "irel g' \<subseteq> merge (irel g) i j" using D(2) by (auto simp: ir merge_def)
    show "merge (irel g) i j \<subseteq> irel g'"
    proof
      fix e
      assume "e \<in> merge (irel g) i j"
      then obtain x y where e: "e = (x, y)" "(x, y) \<in> merge (irel g) i j" by (cases e) auto
      then consider "(x, y) \<in> irel g" | "(i, x) \<in> irel g" "(i, y) \<in> irel g"
        | "(j, x) \<in> irel g" "(j, y) \<in> irel g" | "(i, x) \<in> irel g" "(j, y) \<in> irel g"
        | "(j, x) \<in> irel g" "(i, y) \<in> irel g"
        by (auto simp: merge_iff)
      then show "e \<in> irel g'"
        unfolding ir e(1)
      proof cases
        case 2
        then show "(x, y) \<in> irel g \<union> D" by (rule UnI1 [OF equiv_euclid [OF E]])
      next
        case 3
        then show "(x, y) \<in> irel g \<union> D" by (rule UnI1 [OF equiv_euclid [OF E]])
      next
        case 4
        then show "(x, y) \<in> irel g \<union> D" using cross by blast
      next
        case 5
        then show "(x, y) \<in> irel g \<union> D" using cross by blast
      qed simp
    qed
  qed
  have "trans (irel g')"
    unfolding mg using equiv_merge [OF E, of i j] by (simp add: equiv_def)
  then have "ufs_ok g'" by (rule ufs_okI [OF g'(2,3) ok])
  then show thesis using mg g' by (intro that) auto
qed

end
