(* ===== verification/Ufs_Classes.thy ===== *)
theory Ufs_Classes
  imports Ufs_Graph
begin

text \<open>
  The graph operations of \<^verbatim>\<open>src/ufs.c\<close> seen through the names of the elements: the classes
  of a well-formed graph are an equivalence relation on the names, \<^verbatim>\<open>unionProc\<close> refines the
  merging of classes and \<^verbatim>\<open>splitProc\<close> their isolation.
\<close>

section \<open>Transport along an injection\<close>

definition img :: "('a \<Rightarrow> 'b) \<Rightarrow> ('a \<times> 'a) set \<Rightarrow> ('b \<times> 'b) set" where
  "img f R = map_prod f f ` R"

lemma img_iff: "(x, y) \<in> img f R \<longleftrightarrow> (\<exists>i j. (i, j) \<in> R \<and> x = f i \<and> y = f j)"
  by (auto simp: img_def)

lemma img_iff_inj:
  assumes "inj_on f U" and "R \<subseteq> U \<times> U" and "i \<in> U" and "j \<in> U"
  shows "(f i, f j) \<in> img f R \<longleftrightarrow> (i, j) \<in> R"
proof
  assume "(f i, f j) \<in> img f R"
  then obtain i' j' where "(i', j') \<in> R" "f i = f i'" "f j = f j'" by (auto simp: img_iff)
  then show "(i, j) \<in> R" using assms by (metis SigmaD1 SigmaD2 inj_onD subsetD)
qed (auto simp: img_iff)

lemma equiv_sub: "equiv U R \<Longrightarrow> R \<subseteq> U \<times> U"
  by (simp add: equiv_def)

lemma equiv_img:
  assumes E: "equiv U R" and inj: "inj_on f U"
  shows "equiv (f ` U) (img f R)"
proof (rule equivI_all)
  note iff = img_iff_inj [OF inj equiv_sub [OF E]]
  fix x y z
  assume xy: "(x, y) \<in> img f R"
  then obtain i j where ij: "(i, j) \<in> R" "x = f i" "y = f j" by (auto simp: img_iff)
  then have ijU: "i \<in> U" "j \<in> U" using equiv_dom [OF E] by auto
  then show "x \<in> f ` U \<and> y \<in> f ` U" using ij by simp
  show "(y, x) \<in> img f R" using ij equiv_sym [OF E] by (auto simp: img_iff)
  assume yz: "(y, z) \<in> img f R"
  then obtain k where k: "k \<in> U" "z = f k" using equiv_dom [OF E] by (auto simp: img_iff)
  with yz ij ijU have "(j, k) \<in> R" by (simp add: iff)
  with ij have "(i, k) \<in> R" using equiv_trans [OF E] by blast
  then show "(x, z) \<in> img f R" using ij k by (auto simp: img_iff)
next
  fix x
  assume "x \<in> f ` U"
  then show "(x, x) \<in> img f R" using equiv_refl [OF E] by (auto simp: img_iff)
qed

lemma img_merge:
  assumes E: "equiv U R" and inj: "inj_on f U" and ab: "a \<in> U" "b \<in> U"
  shows "img f (merge R a b) = merge (img f R) (f a) (f b)"
proof -
  note iff = img_iff_inj [OF inj equiv_sub [OF E]]
  have cls: "img f R `` {f c} = f ` (R `` {c})" if "c \<in> U" for c
  proof -
    have "y \<in> img f R `` {f c} \<longleftrightarrow> y \<in> f ` (R `` {c})" for y
    proof
      assume "y \<in> img f R `` {f c}"
      then obtain i j where "(i, j) \<in> R" "f c = f i" "y = f j" by (auto simp: img_iff)
      then show "y \<in> f ` (R `` {c})"
        using that inj equiv_dom [OF E] by (metis Image_singleton_iff image_eqI inj_onD)
    qed (auto simp: img_iff)
    then show ?thesis by blast
  qed
  have "img f (R \<union> C \<times> C) = img f R \<union> f ` C \<times> f ` C" for C
    by (auto simp: img_def map_prod_def)
  then show ?thesis by (simp add: merge_def cls ab image_Un)
qed

lemma img_isolate:
  assumes E: "equiv U R" and inj: "inj_on f U" and L: "L \<subseteq> U"
  shows "img f (isolate R L) = isolate (img f R) (f ` L)"
proof -
  have mem: "f i \<in> f ` L \<longleftrightarrow> i \<in> L" if "i \<in> U" for i
    using that L inj by (auto dest: inj_onD)
  show ?thesis
  proof (intro set_eqI, clarify)
    fix x y
    show "(x, y) \<in> img f (isolate R L) \<longleftrightarrow> (x, y) \<in> isolate (img f R) (f ` L)"
    proof
      assume "(x, y) \<in> img f (isolate R L)"
      then obtain i j where "(i, j) \<in> R" "i \<in> L \<longleftrightarrow> j \<in> L" "x = f i" "y = f j"
        by (auto simp: img_iff isolate_iff)
      then show "(x, y) \<in> isolate (img f R) (f ` L)"
        using mem equiv_dom [OF E] unfolding isolate_iff img_iff by metis
    next
      assume "(x, y) \<in> isolate (img f R) (f ` L)"
      then have xy: "(x, y) \<in> img f R" and side: "x \<in> f ` L \<longleftrightarrow> y \<in> f ` L"
        by (simp_all add: isolate_iff)
      from xy obtain i j where "(i, j) \<in> R" "x = f i" "y = f j" by (auto simp: img_iff)
      with side show "(x, y) \<in> img f (isolate R L)"
        using mem equiv_dom [OF E] unfolding isolate_iff img_iff by metis
    qed
  qed
qed

section \<open>Names and vertices\<close>

lemma ufs_rel_img: "ufs_rel g = img (name_of g) (irel g)"
  by (simp add: ufs_rel_def img_def)

lemma inj_name_of:
  assumes "base_ok g"
  shows "inj_on (name_of g) (verts g)"
proof (rule inj_onI)
  fix i j
  assume ij: "i \<in> verts g" "j \<in> verts g" "name_of g i = name_of g j"
  then have "map data (dlist g) ! nat i = map data (dlist g) ! nat j"
    by (simp add: name_of_def verts_def nat_less_iff)
  moreover have "distinct (map data (dlist g))" using assms by (simp add: base_ok_def)
  ultimately have "nat i = nat j"
    using ij nth_eq_iff_index_eq [of "map data (dlist g)" "nat i" "nat j"]
    by (auto simp: verts_def nat_less_iff)
  then show "i = j" using ij by (auto simp: verts_def eq_nat_nat_iff)
qed

lemma names_verts: "names g = name_of g ` verts g"
proof -
  have "verts g = int ` {..< length (dlist g)}"
    by (auto simp: verts_def image_iff intro!: bexI [of _ "nat x" for x])
  then show ?thesis
    by (auto simp: names_def name_of_def image_image set_conv_nth)
qed

lemma equiv_ufs_rel: "ufs_ok g \<Longrightarrow> equiv (names g) (ufs_rel g)"
  unfolding names_verts ufs_rel_img by (intro equiv_img equiv_irel inj_name_of ufs_ok_base)

lemma ufs_rel_iff:
  assumes "ufs_ok g" and "i \<in> verts g" and "j \<in> verts g"
  shows "(name_of g i, name_of g j) \<in> ufs_rel g \<longleftrightarrow> (i, j) \<in> irel g"
  unfolding ufs_rel_img
  by (rule img_iff_inj [OF inj_name_of [OF ufs_ok_base [OF assms(1)]] equiv_sub [OF equiv_irel [OF assms(1)]]
        assms(2,3)])

lemma frame_name_of: "frame g h \<Longrightarrow> i \<in> verts g \<Longrightarrow> name_of h i = name_of g i"
  by (simp add: name_of_def verts_def frame_data nat_less_iff)

lemma frame_names: "frame g h \<Longrightarrow> names h = names g"
  by (metis frame_def names_def set_map)

lemma frame_img:
  assumes "frame g h" and "R \<subseteq> verts g \<times> verts g"
  shows "img (name_of h) R = img (name_of g) R"
  unfolding img_def
  by (rule image_cong [OF refl]) (use assms(2) frame_name_of [OF assms(1)] in auto)

lemma nul_free_names: "base_ok g \<Longrightarrow> a \<in> names g \<Longrightarrow> nul_free a"
  by (auto simp: base_ok_def names_def)

section \<open>Locating a name\<close>

lemma locateVex_loop_eq:
  assumes "vertexnum g = int (length (dlist g))" and "k \<le> length (dlist g)"
  shows "locateVex_loop g e (int k) =
    Some (case first_index (\<lambda>v. streq e (data v)) (drop k (dlist g)) of
      None \<Rightarrow> -1 | Some m \<Rightarrow> int (k + m))"
  using assms
proof (induction "length (dlist g) - k" arbitrary: k)
  case 0
  then show ?case by (subst locateVex_loop.simps) simp
next
  case (Suc n)
  then have k: "k < length (dlist g)" by simp
  then have dr: "drop k (dlist g) = dlist g ! k # drop (Suc k) (dlist g)"
    by (simp add: Cons_nth_drop_Suc)
  have IH: "locateVex_loop g e (int (Suc k)) =
    Some (case first_index (\<lambda>v. streq e (data v)) (drop (Suc k) (dlist g)) of
      None \<Rightarrow> -1 | Some m \<Rightarrow> int (Suc k + m))"
    using Suc k by (intro Suc.hyps) auto
  have "vat g (int k) = Some (dlist g ! k)" using k by (simp add: vat_def)
  then show ?case
    using Suc.prems k IH
    by (subst locateVex_loop.simps) (auto simp: dr add.commute split: option.splits)
qed

lemma locateVex_eq:
  assumes "base_ok g"
  shows "locateVex g e = Some (case first_index (\<lambda>v. streq e (data v)) (dlist g) of
      None \<Rightarrow> -1 | Some m \<Rightarrow> int m)"
  using locateVex_loop_eq [of g 0 e] assms
  by (simp add: locateVex_def base_ok_def graph_ok_def split: option.split)

lemma locateVex_base:
  assumes ok: "base_ok g" and a: "a \<in> names g"
  obtains i where "locateVex g a = Some i" and "i \<in> verts g" and "name_of g i = a"
proof -
  have nf: "nul_free (data v)" if "v \<in> set (dlist g)" for v
    using ok that by (simp add: base_ok_def)
  have "\<exists>v \<in> set (dlist g). streq a (data v)"
    using a unfolding names_def by (metis imageE streq_refl)
  then obtain m where m: "first_index (\<lambda>v. streq a (data v)) (dlist g) = Some m"
    by (metis first_index_None not_None_eq)
  then have "m < length (dlist g)" and "streq a (data (dlist g ! m))"
    by (auto simp: first_index_Some)
  then have "data (dlist g ! m) = a"
    using nf nul_free_names [OF ok a] by (simp add: streq_iff)
  then show thesis
    using m \<open>m < length (dlist g)\<close> locateVex_eq [OF ok, of a]
    by (intro that [of "int m"]) (auto simp: verts_def name_of_def)
qed

lemmas locateVex_name = locateVex_base [OF ufs_ok_base]

lemma locateVex_missing:
  assumes ok: "base_ok g" and "nul_free a" and a: "a \<notin> names g"
  shows "locateVex g a = Some (-1)"
proof -
  have "\<forall>v \<in> set (dlist g). \<not> streq a (data v)"
    using assms by (auto simp: names_def base_ok_def streq_iff)
  then have "first_index (\<lambda>v. streq a (data v)) (dlist g) = None"
    by (simp add: first_index_None)
  then show ?thesis using locateVex_eq [OF ok, of a] by simp
qed

lemma existElement_iff:
  assumes "ufs_ok g" and "nul_free a"
  shows "existElement g a = Some (a \<in> names g)"
proof (cases "a \<in> names g")
  case True
  then obtain i where "locateVex g a = Some i" "i \<in> verts g"
    using locateVex_name [OF assms(1)] by metis
  then show ?thesis using True by (auto simp: existElement_def locateVex_def verts_def)
next
  case False
  then show ?thesis
    using locateVex_missing [OF ufs_ok_base [OF assms(1)] assms(2)] by (simp add: existElement_def locateVex_def)
qed

lemma existElements_iff:
  assumes "ufs_ok g" and "\<forall>a \<in> set as. nul_free a"
  shows "existElements g as = Some (set as \<subseteq> names g)"
  using assms(2)
proof (induction as)
  case Nil
  then show ?case by simp
next
  case (Cons a as)
  have "existElement g a = Some (a \<in> names g)"
    using Cons.prems assms(1) by (intro existElement_iff) auto
  then obtain i where "locateVex_loop g a 0 = Some i" "(i \<noteq> -1) = (a \<in> names g)"
    by (auto simp: existElement_def bind_eq_Some_conv)
  then show ?case using Cons by auto
qed

section \<open>Unions\<close>

text \<open>The element names in an argument of the union and split commands.\<close>

definition args :: "string \<Rightarrow> string list" where
  "args s = split_on COMMA s"

text \<open>The operation a pair of union arguments, and a split argument, stands for.\<close>

definition union_op :: "string \<Rightarrow> string \<Rightarrow> string aop" where
  "union_op a b = (if a = star \<or> b = star then ANop else AUnion (args a) (args b))"

definition split_op :: "string \<Rightarrow> string aop" where
  "split_op a = (if a = star then ANop else ASplit (args a))"

text \<open>One operation on the graph that ends in a graph whose classes are the given ones.\<close>

definition refines :: "cudGraph \<Rightarrow> cudGraph option \<Rightarrow> (string \<times> string) set \<Rightarrow> bool" where
  "refines g r R \<longleftrightarrow>
     (\<exists>g'. r = Some g' \<and> ufs_ok g' \<and> frame g g' \<and> ufs_rel g' = R)"

lemma refines_refl: "ufs_ok g \<Longrightarrow> R = ufs_rel g \<Longrightarrow> refines g (Some g) R"
  by (simp add: refines_def)

lemma refinesE:
  assumes "refines g r R"
  obtains g' where "r = Some g'" "ufs_ok g'" "frame g g'" "ufs_rel g' = R"
  using assms by (auto simp: refines_def)

lemma refines_bind:
  assumes "refines g r R" and "\<And>h. ufs_ok h \<Longrightarrow> frame g h \<Longrightarrow> ufs_rel h = R \<Longrightarrow> refines h (f h) S"
  shows "refines g (r \<bind> f) S"
proof -
  from assms(1) obtain h where h: "r = Some h" "ufs_ok h" "frame g h" "ufs_rel h = R"
    by (rule refinesE)
  with assms(2) have "refines h (f h) S" by blast
  with h show ?thesis by (auto simp: refines_def intro: frame_trans)
qed

lemma createLinks_refines:
  assumes ok: "ufs_ok g" and ab: "a \<in> names g" "b \<in> names g"
  shows "refines g (do { i \<leftarrow> locateVex g a; j \<leftarrow> locateVex g b; createLinks g i j })
    (merge (ufs_rel g) a b)"
proof -
  obtain i where i: "locateVex g a = Some i" "i \<in> verts g" "name_of g i = a"
    using locateVex_name [OF ok ab(1)] .
  obtain j where j: "locateVex g b = Some j" "j \<in> verts g" "name_of g j = b"
    using locateVex_name [OF ok ab(2)] .
  obtain g' where g': "createLinks g i j = Some g'" "ufs_ok g'" "frame g g'"
    "irel g' = merge (irel g) i j"
    using createLinks_merge [OF ok i(2) j(2)] by metis
  have "irel g' \<subseteq> verts g \<times> verts g"
    using equiv_sub [OF equiv_irel [OF g'(2)]] frame_verts [OF g'(3)] by simp
  then have "ufs_rel g' = img (name_of g) (merge (irel g) i j)"
    using frame_img [OF g'(3)] g'(4) by (simp add: ufs_rel_img)
  also have "\<dots> = merge (ufs_rel g) a b"
    using img_merge [OF equiv_irel [OF ok] inj_name_of [OF ufs_ok_base [OF ok]] i(2) j(2)] i j
    by (simp add: ufs_rel_img)
  finally show ?thesis using g' i j by (simp add: refines_def)
qed

lemma merge_absorb:
  assumes E: "equiv U R" and "(a, b) \<in> R" and "c \<in> U"
  shows "merge (merge R a c) b c = merge R a c"
proof (rule merge_idle [OF equiv_merge [OF E]])
  have "(a, c) \<in> merge R a c"
    using assms equiv_dom [OF E assms(2)] by (intro merge_relates [OF E]) auto
  moreover have "(a, b) \<in> merge R a c" using assms(2) merge_extends by (rule rev_subsetD)
  ultimately show "(b, c) \<in> merge R a c" by (meson equiv_euclid [OF equiv_merge [OF E]])
qed

lemma links_to_refines:
  assumes "ufs_ok g" and "within_class (ufs_rel g) as" and "b \<in> names g"
  shows "refines g (links_to g as b) (merge (ufs_rel g) (hd as) b)"
  using assms
proof (induction as arbitrary: g)
  case Nil
  then show ?case by (simp add: within_class_def)
next
  case (Cons a as)
  note E = equiv_ufs_rel [OF Cons.prems(1)]
  have a: "a \<in> names g" using within_class_dom [OF E Cons.prems(2)] by simp
  have eq: "links_to g (a # as) b =
      do { i \<leftarrow> locateVex g a; j \<leftarrow> locateVex g b; createLinks g i j } \<bind> (\<lambda>h. links_to h as b)"
    by (simp add: bind_assoc)
  show ?case
    unfolding eq list.sel
  proof (rule refines_bind [OF createLinks_refines [OF Cons.prems(1) a Cons.prems(3)]])
    fix h
    assume h: "ufs_ok h" "frame g h" "ufs_rel h = merge (ufs_rel g) a b"
    show "refines h (links_to h as b) (merge (ufs_rel g) a b)"
    proof (cases "as = []")
      case True
      then show ?thesis using h by (simp add: refines_refl)
    next
      case False
      then have hd: "(a, hd as) \<in> ufs_rel g" and as: "within_class (ufs_rel g) as"
        using Cons.prems(2) by (auto simp: within_class_def)
      from as have "within_class (ufs_rel h) as"
        unfolding h(3) by (rule within_class_mono [OF _ merge_extends])
      then have "refines h (links_to h as b) (merge (ufs_rel h) (hd as) b)"
        using Cons.prems h frame_names [OF h(2)] by (intro Cons.IH) auto
      then show ?thesis
        using merge_absorb [OF E hd Cons.prems(3)] by (simp add: h(3))
    qed
  qed
qed

lemma merge_absorb2:
  assumes "equiv U R" and "(b, c) \<in> R" and "a \<in> U"
  shows "merge (merge R a b) a c = merge R a b"
  using merge_absorb [OF assms] merge_commute_args [of R b a]
    merge_commute_args [of "merge R b a" c a] by simp

lemma links_row_refines:
  assumes "ufs_ok g" and "a \<in> names g" and "within_class (ufs_rel g) bs"
  shows "refines g (links_row g a bs) (merge (ufs_rel g) a (hd bs))"
  using assms
proof (induction bs arbitrary: g)
  case Nil
  then show ?case by (simp add: within_class_def)
next
  case (Cons b bs)
  note E = equiv_ufs_rel [OF Cons.prems(1)]
  have b: "b \<in> names g" using within_class_dom [OF E Cons.prems(3)] by simp
  have eq: "links_row g a (b # bs) =
      do { i \<leftarrow> locateVex g a; j \<leftarrow> locateVex g b; createLinks g i j } \<bind> (\<lambda>h. links_row h a bs)"
    by (simp add: bind_assoc)
  show ?case
    unfolding eq list.sel
  proof (rule refines_bind [OF createLinks_refines [OF Cons.prems(1,2) b]])
    fix h
    assume h: "ufs_ok h" "frame g h" "ufs_rel h = merge (ufs_rel g) a b"
    show "refines h (links_row h a bs) (merge (ufs_rel g) a b)"
    proof (cases "bs = []")
      case True
      then show ?thesis using h by (simp add: refines_refl)
    next
      case False
      then have hd: "(b, hd bs) \<in> ufs_rel g" and bs: "within_class (ufs_rel g) bs"
        using Cons.prems(3) by (auto simp: within_class_def)
      from bs have "within_class (ufs_rel h) bs"
        unfolding h(3) by (rule within_class_mono [OF _ merge_extends])
      then have "refines h (links_row h a bs) (merge (ufs_rel h) a (hd bs))"
        using Cons.prems h frame_names [OF h(2)] by (intro Cons.IH) auto
      then show ?thesis
        using merge_absorb2 [OF E hd Cons.prems(2)] by (simp add: h(3))
    qed
  qed
qed

lemma links_all_refines:
  assumes "ufs_ok g" and "within_class (ufs_rel g) as" and "within_class (ufs_rel g) bs"
  shows "refines g (links_all g as bs) (merge (ufs_rel g) (hd as) (hd bs))"
  using assms
proof (induction as arbitrary: g)
  case Nil
  then show ?case by (simp add: within_class_def)
next
  case (Cons a as)
  note E = equiv_ufs_rel [OF Cons.prems(1)]
  have a: "a \<in> names g" using within_class_dom [OF E Cons.prems(2)] by simp
  have hb: "hd bs \<in> names g" using within_class_dom [OF E Cons.prems(3)] by simp
  show ?case
    unfolding links_all.simps list.sel
  proof (rule refines_bind [OF links_row_refines [OF Cons.prems(1) a Cons.prems(3)]])
    fix h
    assume h: "ufs_ok h" "frame g h" "ufs_rel h = merge (ufs_rel g) a (hd bs)"
    show "refines h (links_all h as bs) (merge (ufs_rel g) a (hd bs))"
    proof (cases "as = []")
      case True
      then show ?thesis using h by (simp add: refines_refl)
    next
      case False
      then have hd: "(a, hd as) \<in> ufs_rel g" and as: "within_class (ufs_rel g) as"
        using Cons.prems(2) by (auto simp: within_class_def)
      from as have as': "within_class (ufs_rel h) as"
        unfolding h(3) by (rule within_class_mono [OF _ merge_extends])
      from Cons.prems(3) have bs': "within_class (ufs_rel h) bs"
        unfolding h(3) by (rule within_class_mono [OF _ merge_extends])
      have "refines h (links_all h as bs) (merge (ufs_rel h) (hd as) (hd bs))"
        using h(1) as' bs' by (rule Cons.IH)
      then show ?thesis
        using merge_absorb [OF E hd hb] by (simp add: h(3))
    qed
  qed
qed

lemma joined_iff:
  assumes ok: "ufs_ok g" and ab: "a \<in> names g" "b \<in> names g"
  obtains c where "joined g a b = Some c" and "c \<Longrightarrow> (a, b) \<in> ufs_rel g"
proof -
  obtain i where i: "locateVex g a = Some i" "i \<in> verts g" "name_of g i = a"
    using locateVex_name [OF ok ab(1)] .
  obtain j where j: "locateVex g b = Some j" "j \<in> verts g" "name_of g j = b"
    using locateVex_name [OF ok ab(2)] .
  have "j \<in> set (chain g i) \<Longrightarrow> (a, b) \<in> ufs_rel g"
    using ufs_rel_iff [OF ok i(2) j(2)] i j by (auto simp: irel_iff)
  moreover have "joined g a b = Some (j \<in> set (chain g i))"
    using i j by (simp add: joined_def)
  ultimately show thesis using that by blast
qed

lemma args_single: "COMMA \<notin> set s \<Longrightarrow> args s = [s]"
  by (simp add: args_def)

lemma split_args:
  assumes "nul_free s" and "COMMA \<in> set s"
  shows "sdssplitlen s (int (strlen s)) [COMMA] = Some (args s)"
  using assms by (auto simp: args_def pieces_def)

lemma first_args: "first (args s) = Some (hd (args s))"
  by (auto simp: args_def first_def split: list.splits)

text \<open>
  \<^verbatim>\<open>unionProc\<close> on arguments that each name elements of one class: it does not fail and merges
  the two classes.
\<close>

lemma nul_free_star [simp]: "nul_free star"
  by (simp add: star_def nul_free_def)

lemma unionProc_refines:
  assumes ok: "ufs_ok g" and nf: "nul_free a" "nul_free b"
    and valid: "avalid (ufs_rel g) (union_op a b)"
  shows "refines g (unionProc g a b) (aapply (union_op a b) (ufs_rel g))"
proof (cases "a = star \<or> b = star")
  case True
  then have "unionProc g a b = Some g" by (auto simp: unionProc_def)
  then show ?thesis using True ok by (simp add: union_op_def refines_refl)
next
  case False
  note E = equiv_ufs_rel [OF ok]
  have st: "\<not> streq a star" "\<not> streq b star" using False nf by (simp_all add: streq_iff)
  have op: "union_op a b = AUnion (args a) (args b)" using False by (simp add: union_op_def)
  have vA: "within_class (ufs_rel g) (args a)" and vB: "within_class (ufs_rel g) (args b)"
    using valid op by auto
  have hA: "hd (args a) \<in> names g" and hB: "hd (args b) \<in> names g"
    using within_class_dom [OF E] vA vB by auto
  obtain c where c: "joined g (hd (args a)) (hd (args b)) = Some c"
    "c \<Longrightarrow> (hd (args a), hd (args b)) \<in> ufs_rel g" using joined_iff [OF ok hA hB] by metis
  obtain d where d: "joined g (hd (args b)) (hd (args a)) = Some d"
    "d \<Longrightarrow> (hd (args b), hd (args a)) \<in> ufs_rel g" using joined_iff [OF ok hB hA] by metis
  have idle: "refines g (Some g) (merge (ufs_rel g) (hd (args a)) (hd (args b)))"
    if "(hd (args a), hd (args b)) \<in> ufs_rel g \<or> (hd (args b), hd (args a)) \<in> ufs_rel g"
    using that merge_idle [OF E] merge_commute_args ok by (metis refines_refl)
  show ?thesis
  proof (cases "COMMA \<in> set a"; cases "COMMA \<in> set b")
    assume "COMMA \<notin> set a" "COMMA \<notin> set b"
    then show ?thesis
      using st nf hA hB createLinks_refines [OF ok] op
      by (simp add: unionProc_def strchr_iff args_single)
  next
    assume "COMMA \<in> set a" "COMMA \<notin> set b"
    then show ?thesis
      using st nf split_args c first_args idle links_to_refines [OF ok vA hB] op
      by (auto simp: unionProc_def strchr_iff args_single [of b])
  next
    assume "COMMA \<notin> set a" "COMMA \<in> set b"
    then show ?thesis
      using st nf split_args d first_args idle links_to_refines [OF ok vB hA] op
      by (auto simp: unionProc_def strchr_iff args_single [of a]
          merge_commute_args [of _ "hd (args b)"])
  next
    assume "COMMA \<in> set a" "COMMA \<in> set b"
    then show ?thesis
      using st nf split_args c first_args idle links_all_refines [OF ok vA vB] op
      by (auto simp: unionProc_def strchr_iff)
  qed
qed

section \<open>Splits\<close>

lemma find_sds_iff: "nul_free v \<Longrightarrow> \<forall>x \<in> set l. nul_free x \<Longrightarrow> find_sds l v \<longleftrightarrow> v \<in> set l"
  by (induction l) (auto simp: streq_iff)

text \<open>The vertices to which \<^verbatim>\<open>removeAdjEdge\<close> leaves the edges.\<close>

definition keepers :: "cudGraph \<Rightarrow> string list option \<Rightarrow> int set" where
  "keepers g list = {k \<in> verts g. kept list (name_of g k)}"

lemma filter_chain_eq:
  "set c \<subseteq> verts g \<Longrightarrow> filter_chain g list c = Some (filter (\<lambda>p. p \<in> keepers g list) c)"
proof (induction c)
  case Nil
  then show ?case by simp
next
  case (Cons p c)
  have "(case list of None \<Rightarrow> Some False
      | Some l \<Rightarrow> do { v \<leftarrow> vat g p; Some (find_sds l (data v)) }) = Some (p \<in> keepers g list)"
    using Cons.prems by (cases list) (auto simp: keepers_def kept_def name_of_def)
  then show ?case using Cons by simp
qed

text \<open>The edges between a vertex and the vertices outside a set.\<close>

definition cut :: "int \<Rightarrow> int set \<Rightarrow> (int \<times> int) set" where
  "cut i K = {(x, y). x = i \<and> y \<notin> K \<or> y = i \<and> x \<notin> K}"

lemma graph_okI_remove:
  assumes ok: "graph_ok g" and fr: "frame g g'" and er: "erel g' = erel g - cut i K"
    and dist: "\<And>k. distinct (chain g' k)"
  shows "graph_ok g'"
proof -
  have "sym (erel g')"
    unfolding er using ok by (auto simp: graph_ok_def sym_def cut_def)
  moreover have "irrefl (erel g')"
    unfolding er using ok by (auto simp: graph_ok_def irrefl_def)
  moreover have "erel g' \<subseteq> verts g' \<times> verts g'"
    unfolding er frame_verts [OF fr] using ok by (auto simp: graph_ok_def)
  moreover have "vertexnum g' = int (length (dlist g'))"
    using ok fr frame_length [OF fr] by (auto simp: graph_ok_def frame_def)
  ultimately show ?thesis using dist by (simp add: graph_ok_def)
qed

lemma removeAdjEdge_cut:
  assumes ok: "base_ok g" and v: "locateVex g v = Some i" "i \<in> verts g"
  obtains g' where "removeAdjEdge g v list = Some g'" and "base_ok g'" and "frame g g'"
    and "erel g' = erel g - cut i (keepers g list)" and "edgenum g' = edgenum g"
proof -
  let ?K = "keepers g list"
  note gok = base_ok_graph [OF ok]
  have n: "vertexnum g = int (length (dlist g))" using gok by (simp add: graph_ok_def)
  have i: "0 \<le> i" "nat i < length (dlist g)" using v by (auto simp: verts_def)
  have chv: "set (chain g i) \<subseteq> verts g" using graph_ok_verts [OF gok] by blast
  show thesis
  proof (cases "chain g i = []")
    case True
    then have run: "removeAdjEdge g v list = Some g"
      using v by (simp add: removeAdjEdge_def chain_in)
    have "(x, i) \<notin> erel g" "(i, x) \<notin> erel g" for x
      using True graph_ok_sym [OF gok, of i x] by auto
    then have er: "erel g = erel g - cut i ?K" by (auto simp: cut_def)
    show thesis by (rule that [OF run ok frame_refl er refl])
  next
    case False
    let ?c = "filter (\<lambda>p. p \<in> ?K) (chain g i)"
    let ?x = "dlist g ! nat i"
    let ?d = "(dlist g)[nat i := ?x\<lparr>firstedge := ?c\<rparr>]"
    let ?g = "g\<lparr>dlist := map (drop_back_edges list i) ?d\<rparr>"
    have run: "removeAdjEdge g v list = Some ?g"
      using False v n filter_chain_eq [OF chv] by (simp add: removeAdjEdge_def chain_in)
    have fr: "frame g ?g"
    proof -
      have "map data ?d = map data (dlist g)"
        using i by (simp add: map_update list_update_same_conv)
      then show ?thesis by (simp add: frame_def drop_back_edges_def comp_def)
    qed
    have vs: "verts ?g = verts g" using fr by (rule frame_verts)
    have ch: "chain ?g k = filter (\<lambda>p. p \<noteq> i \<or> k \<in> ?K) (if k = i then ?c else chain g k)"
      if k: "k \<in> verts g" for k
    proof -
      have kk: "0 \<le> k" "nat k < length (dlist g)" using k by (auto simp: verts_def)
      have "k = i \<longleftrightarrow> nat k = nat i" using kk i by auto
      moreover have "kept list (data (dlist g ! nat k)) \<longleftrightarrow> k \<in> ?K"
        using k by (simp add: keepers_def name_of_def)
      ultimately show ?thesis
        using k kk i vs by (auto simp: chain_in drop_back_edges_def nth_list_update)
    qed
    have "(x, y) \<in> erel ?g \<longleftrightarrow> (x, y) \<in> erel g - cut i ?K" for x y
    proof (cases "x \<in> verts g")
      case True
      then show ?thesis
        using graph_ok_irrefl [OF gok, of i] by (auto simp: ch cut_def)
    next
      case False
      then show ?thesis using vs by (simp add: chain_out)
    qed
    then have er: "erel ?g = erel g - cut i ?K" by auto
    have "distinct (chain ?g k)" for k
      using gok by (cases "k \<in> verts g") (auto simp: ch vs chain_out graph_ok_def)
    then have "graph_ok ?g" by (rule graph_okI_remove [OF gok fr er])
    then have ok': "base_ok ?g" by (rule base_okI [OF _ fr ok])
    show thesis by (rule that [OF run ok' fr er]) simp
  qed
qed

lemma isolate_irel:
  "frame g g' \<Longrightarrow> erel g' = erel g \<inter> {(x, y). x \<in> L \<longleftrightarrow> y \<in> L} \<Longrightarrow> irel g' = isolate (irel g) L"
  by (auto simp: irel_def isolate_def frame_verts)

lemma refines_isolate:
  assumes ok: "ufs_ok g" and g': "base_ok g'" "frame g g'" and L: "L \<subseteq> verts g"
    and er: "erel g' = erel g \<inter> {(x, y). x \<in> L \<longleftrightarrow> y \<in> L}"
  shows "refines g (Some g') (isolate (ufs_rel g) (name_of g ` L))"
proof -
  note E = equiv_irel [OF ok]
  have ir: "irel g' = isolate (irel g) L" using g'(2) er by (rule isolate_irel)
  have "trans (irel g')"
    unfolding ir using equiv_isolate [OF E, of L] by (simp add: equiv_def)
  then have ok': "ufs_ok g'" by (rule ufs_okI [OF base_ok_graph [OF g'(1)] g'(2) ok])
  have "irel g' \<subseteq> verts g \<times> verts g"
    using equiv_sub [OF equiv_irel [OF ok']] frame_verts [OF g'(2)] by simp
  then have "ufs_rel g' = img (name_of g) (isolate (irel g) L)"
    using frame_img [OF g'(2)] ir by (simp add: ufs_rel_img)
  also have "\<dots> = isolate (ufs_rel g) (name_of g ` L)"
    using img_isolate [OF E inj_name_of [OF ufs_ok_base [OF ok]] L] by (simp add: ufs_rel_img)
  finally show ?thesis using ok' g' by (simp add: refines_def)
qed

text \<open>The walk over the elements of a set argument removes exactly the edges that leave the set.\<close>

definition leaving :: "cudGraph \<Rightarrow> string set \<Rightarrow> string set \<Rightarrow> (int \<times> int) set" where
  "leaving g V L = {(x, y). name_of g x \<in> V \<and> name_of g y \<notin> L \<or>
     name_of g y \<in> V \<and> name_of g x \<notin> L}"

lemma removeAdjEdges_cut:
  assumes "base_ok g" and "set vs \<subseteq> names g" and "\<forall>x \<in> set l. nul_free x"
    and "set vs \<subseteq> set l"
  obtains g' where "removeAdjEdges g vs l = Some g'" and "base_ok g'" and "frame g g'"
    and "erel g' = erel g - leaving g (set vs) (set l)"
  using assms
proof (induction vs arbitrary: g thesis)
  case Nil
  show ?case by (rule Nil(1) [of g]) (use Nil in \<open>auto simp: leaving_def\<close>)
next
  case (Cons v vs)
  note ok = Cons.prems(2)
  obtain i where i: "locateVex g v = Some i" "i \<in> verts g" "name_of g i = v"
    using locateVex_base [OF ok] Cons.prems(3) by (metis insert_subset list.simps(15))
  obtain h where h: "removeAdjEdge g v (Some l) = Some h" "base_ok h" "frame g h"
    "erel h = erel g - cut i (keepers g (Some l))"
    using removeAdjEdge_cut [OF ok i(1,2)] by metis
  obtain g' where g': "removeAdjEdges h vs l = Some g'" "base_ok g'" "frame h g'"
    "erel g' = erel h - leaving h (set vs) (set l)"
    using Cons.IH [of h] h(2) Cons.prems frame_names [OF h(3)] by auto
  have nm: "name_of h x = name_of g x" if "x \<in> verts g" for x
    using frame_name_of [OF h(3) that] .
  have inL: "x \<in> keepers g (Some l) \<longleftrightarrow> name_of g x \<in> set l" if "x \<in> verts g" for x
    using that nul_free_names [OF ok] Cons.prems(4) names_verts [of g]
    by (auto simp: keepers_def kept_def find_sds_iff)
  have iv: "x = i \<longleftrightarrow> name_of g x = v" if "x \<in> verts g" for x
    using that i inj_onD [OF inj_name_of [OF ok], of x i] by auto
  have vt: "x \<in> verts g \<and> y \<in> verts g" if "(x, y) \<in> erel g" for x y
    using that graph_ok_verts [OF base_ok_graph [OF ok]] by auto
  have "erel g' = erel g - leaving g (set (v # vs)) (set l)"
  proof (intro set_eqI, clarify)
    fix x y
    show "(x, y) \<in> erel g' \<longleftrightarrow> (x, y) \<in> erel g - leaving g (set (v # vs)) (set l)"
    proof (cases "(x, y) \<in> erel g")
      case True
      then have x: "x \<in> verts g" and y: "y \<in> verts g" using vt by auto
      show ?thesis
        using True nm [OF x] nm [OF y] inL [OF x] inL [OF y] iv [OF x] iv [OF y]
        unfolding g'(4) h(4) cut_def leaving_def by auto
    next
      case False
      then show ?thesis unfolding g'(4) h(4) by blast
    qed
  qed
  moreover have "removeAdjEdges g (v # vs) l = Some g'" using h(1) g'(1) by simp
  ultimately show ?case
    using g'(2) frame_trans [OF h(3) g'(3)] by (intro Cons.prems(1))
qed

text \<open>\<^verbatim>\<open>splitProc\<close> on existing elements: it does not fail and isolates the elements.\<close>

lemma splitProc_refines:
  assumes ok: "ufs_ok g" and nf: "nul_free a" and ex: "a = star \<or> set (args a) \<subseteq> names g"
  shows "refines g (splitProc g a) (aapply (split_op a) (ufs_rel g))"
proof (cases "COMMA \<in> set a")
  case True
  then have ns: "a \<noteq> star" by (auto simp: star_def)
  let ?l = "args a"
  have sub: "set ?l \<subseteq> names g" using ex ns by simp
  have nfl: "\<forall>x \<in> set ?l. nul_free x" using sub nul_free_names [OF ufs_ok_base [OF ok]] by blast
  obtain g' where g': "removeAdjEdges g ?l ?l = Some g'" "base_ok g'" "frame g g'"
    "erel g' = erel g - leaving g (set ?l) (set ?l)"
    by (rule removeAdjEdges_cut [OF ufs_ok_base [OF ok] sub nfl subset_refl])
  let ?L = "{k \<in> verts g. name_of g k \<in> set ?l}"
  have "erel g' = erel g \<inter> {(x, y). x \<in> ?L \<longleftrightarrow> y \<in> ?L}"
    unfolding g'(4) leaving_def using graph_ok_verts [OF ufs_ok_graph [OF ok]] by auto
  then have "refines g (Some g') (isolate (ufs_rel g) (name_of g ` ?L))"
    using g' by (intro refines_isolate [OF ok]) auto
  moreover have "name_of g ` ?L = set ?l" using sub by (auto simp: names_verts)
  moreover have "splitProc g a = Some g'"
    using True nf split_args g' by (simp add: splitProc_def strchr_iff)
  ultimately show ?thesis using ns by (simp add: split_op_def)
next
  case False
  show ?thesis
  proof (cases "a = star")
    case True
    then show ?thesis
      using False ok nf by (simp add: splitProc_def split_op_def strchr_iff refines_refl)
  next
    case ns: False
    have aargs: "args a = [a]" using False by (rule args_single)
    then have "a \<in> names g" using ex ns by simp
    then obtain i where i: "locateVex g a = Some i" "i \<in> verts g" "name_of g i = a"
      using locateVex_name [OF ok] by metis
    obtain g' where g': "removeAdjEdge g a None = Some g'" "base_ok g'" "frame g g'"
      "erel g' = erel g - cut i (keepers g None)"
      using removeAdjEdge_cut [OF ufs_ok_base [OF ok] i(1,2)] by metis
    have "erel g' = erel g \<inter> {(x, y). x \<in> {i} \<longleftrightarrow> y \<in> {i}}"
      unfolding g'(4) using graph_ok_irrefl [OF ufs_ok_graph [OF ok]]
      by (auto simp: cut_def keepers_def kept_def)
    then have "refines g (Some g') (isolate (ufs_rel g) (name_of g ` {i}))"
      using g' i by (intro refines_isolate [OF ok]) auto
    then show ?thesis
      using False ns nf i g' aargs
      by (simp add: splitProc_def split_op_def strchr_iff streq_iff)
  qed
qed

section \<open>Structures of singletons\<close>

lemma discrete_ok:
  assumes "vertexnum g = int (length (dlist g))" "distinct (map data (dlist g))"
    and v: "\<forall>v \<in> set (dlist g). firstedge v = [] \<and> nul_free (data v)"
  shows "ufs_ok g" and "ufs_rel g = Id_on (names g)"
proof -
  have chain: "chain g i = []" for i
    using v by (cases "i \<in> verts g") (auto simp: chain_in chain_out verts_def nat_less_iff)
  then have erel: "erel g = {}" by auto
  show "ufs_ok g"
    using assms chain erel by (simp add: ufs_ok_def base_ok_def graph_ok_def sym_def irrefl_def)
  show "ufs_rel g = Id_on (names g)"
    by (auto simp: ufs_rel_def irel_def erel names_verts Id_on_def image_iff)
qed

definition singletons :: "string \<Rightarrow> string list \<Rightarrow> cudGraph" where
  "singletons k ns = \<lparr>key = k, vertexnum = int (length ns), edgenum = 0,
     dlist = map (\<lambda>n. \<lparr>data = n, firstedge = []\<rparr>) ns\<rparr>"

lemma singletons_ok:
  assumes "distinct ns" "\<forall>n \<in> set ns. nul_free n"
  shows "ufs_ok (singletons k ns)" "ufs_rel (singletons k ns) = Id_on (set ns)"
    "names (singletons k ns) = set ns"
  using assms discrete_ok [of "singletons k ns"]
  by (auto simp: singletons_def names_def o_def image_image)

section \<open>Properties\<close>

text \<open>
  C11. \<^verbatim>\<open>unionProc\<close> on a structure whose classes are cliques, with arguments that each name
  elements of one class, runs without undefined behaviour, keeps the invariant and the vertices, and
  the classes afterwards are those of the least equivalence that also relates the first elements of
  the two arguments (unchanged when one argument is \<open>*\<close>).
\<close>

theorem unionProc_correct:
  assumes "ufs_ok g" "nul_free a" "nul_free b" "avalid (ufs_rel g) (union_op a b)"
  shows "\<exists>g'. unionProc g a b = Some g' \<and> ufs_ok g' \<and> frame g g' \<and>
    ufs_rel g' = aapply (union_op a b) (ufs_rel g)"
  using unionProc_refines [OF assms] by (simp add: refines_def)

theorem unionProc_correct_witness:
  "\<exists>g'. unionProc (singletons ''k'' [''a'', ''b'', ''c'']) ''a'' ''c'' = Some g' \<and> ufs_ok g' \<and>
     frame (singletons ''k'' [''a'', ''b'', ''c'']) g' \<and>
     ufs_rel g' = aapply (union_op ''a'' ''c'') (Id_on {''a'', ''b'', ''c''})"
  using unionProc_correct [of "singletons ''k'' [''a'', ''b'', ''c'']" "''a''" "''c''"]
    singletons_ok [of "[''a'', ''b'', ''c'']" "''k''"]
  by (simp add: union_op_def star_def args_def within_class_def Id_on_iff)

text \<open>
  C12. \<^verbatim>\<open>splitProc\<close> on elements of the structure runs without undefined behaviour, keeps the
  invariant and the vertices, and afterwards two elements are in one class iff they were before and
  are both named by the argument or both not (unchanged when the argument is \<open>*\<close>).
\<close>

theorem splitProc_correct:
  assumes "ufs_ok g" "nul_free a" "a = star \<or> set (args a) \<subseteq> names g"
  shows "\<exists>g'. splitProc g a = Some g' \<and> ufs_ok g' \<and> frame g g' \<and>
    ufs_rel g' = aapply (split_op a) (ufs_rel g)"
  using splitProc_refines [OF assms] by (simp add: refines_def)

theorem splitProc_correct_witness:
  "\<exists>g'. splitProc (singletons ''k'' [''a'', ''b'', ''c'']) ''b'' = Some g' \<and> ufs_ok g' \<and>
     frame (singletons ''k'' [''a'', ''b'', ''c'']) g' \<and>
     ufs_rel g' = aapply (split_op ''b'') (Id_on {''a'', ''b'', ''c''})"
  using splitProc_correct [of "singletons ''k'' [''a'', ''b'', ''c'']" "''b''"]
    singletons_ok [of "[''a'', ''b'', ''c'']" "''k''"]
  by (simp add: args_def)

end
