(* ===== verification/Ot_Strings.thy ===== *)
theory Ot_Strings
  imports Sds "HOL-Library.Multiset"
begin

text \<open>
  The string routines of \<^verbatim>\<open>src/ot.c\<close> on the printed form of a union-find-split
  structure: classes separated by \<open>/\<close>, the names of a class separated by \<open>,\<close>. The scanning
  routines work on byte positions; a read behind the terminating NUL, or a write behind the end of
  one of the ten-byte buffers, makes the result \<^const>\<open>None\<close>.
\<close>

section \<open>Deleting names from a class\<close>

text \<open>
  Deleting position \<^term>\<open>i\<close> shifts the later strings down by one, each copied with
  \<^const>\<open>sdscat\<close> into a cleared string.
\<close>

definition shift_down :: "string list \<Rightarrow> nat \<Rightarrow> string list" where
  "shift_down xs i = take i xs @ map (sdscat (sdsclear [])) (drop (Suc i) xs)"

lemma length_shift_down [simp]: "i < length xs \<Longrightarrow> length (shift_down xs i) = length xs - 1"
  by (simp add: shift_down_def)

function del_loop :: "string list \<Rightarrow> string list \<Rightarrow> nat \<Rightarrow> string list" where
  "del_loop elements del i =
     (if i < length elements then
        case first_index (\<lambda>d. sdscmp (elements ! i) d = 0) del of
          Some j \<Rightarrow> del_loop (shift_down elements i) (shift_down del j) i
        | None \<Rightarrow> del_loop elements del (Suc i)
      else elements)"
  by pat_completeness auto
termination
  by (relation "measure (\<lambda>(elements, del, i). length elements - i)") auto

declare del_loop.simps [simp del]

fun del_print :: "string \<Rightarrow> string list \<Rightarrow> string" where
  "del_print acc [] = acc"
| "del_print acc (e # es) =
     (let acc1 = (if length e \<noteq> 0 then sdscat acc e else acc);
          acc2 = (if es \<noteq> [] then sdscat acc1 [COMMA] else acc1)
      in del_print acc2 es)"

definition sdsDel :: "string \<Rightarrow> string \<Rightarrow> string option" where
  "sdsDel list t = do {
     elements \<leftarrow> sdssplitlen list (int (length list)) [COMMA];
     del \<leftarrow> sdssplitlen t (int (strlen t)) [COMMA];
     Some (del_print sdsempty (del_loop elements del 0))
   }"

fun first_nonempty :: "string \<Rightarrow> string list \<Rightarrow> string" where
  "first_nonempty acc [] = acc"
| "first_nonempty acc (e # es) = (if length e \<noteq> 0 then sdscat acc e else first_nonempty acc es)"

definition firstOfsdsDel :: "string \<Rightarrow> string \<Rightarrow> string option" where
  "firstOfsdsDel list t = do {
     elements \<leftarrow> sdssplitlen list (int (length list)) [COMMA];
     del \<leftarrow> sdssplitlen t (int (strlen t)) [COMMA];
     Some (first_nonempty sdsempty (del_loop elements del 0))
   }"

section \<open>Scanning\<close>

text \<open>
  The inner comparison loop of the scanners: it stops at the first difference, or when all of
  \<^term>\<open>s\<close> has been matched. The result is the number of bytes matched and whether the end of
  \<^term>\<open>s\<close> was reached.
\<close>

function match_loop :: "string \<Rightarrow> nat \<Rightarrow> string \<Rightarrow> nat \<Rightarrow> (nat \<times> bool) option" where
  "match_loop buf j s i =
     (case (rd buf (j + i), rd s i) of
        (Some b, Some c) \<Rightarrow>
          if b = c then
            (case rd s (Suc i) of
               Some d \<Rightarrow> if d = NUL then Some (Suc i, True) else match_loop buf j s (Suc i)
             | None \<Rightarrow> None)
          else Some (i, False)
      | _ \<Rightarrow> None)"
  by pat_completeness auto
termination
  by (relation "measure (\<lambda>(buf, j, s, i). length s - i)") (auto simp: rd_def split: if_splits)

declare match_loop.simps [simp del]

text \<open>The byte before and the byte behind a match.\<close>

definition starts_at :: "char set \<Rightarrow> string \<Rightarrow> nat \<Rightarrow> nat \<Rightarrow> bool" where
  "starts_at seps buf start j \<longleftrightarrow>
     j = start \<or> (case rd buf (j - 1) of Some c \<Rightarrow> c \<in> seps | None \<Rightarrow> False)"

definition ends_at :: "char set \<Rightarrow> string \<Rightarrow> nat \<Rightarrow> bool" where
  "ends_at seps buf j \<longleftrightarrow> (case rd buf j of Some c \<Rightarrow> c = NUL \<or> c \<in> seps | None \<Rightarrow> False)"

text \<open>The first name of an argument, copied into \<^verbatim>\<open>char r[10]\<close> when the argument is a set.\<close>

definition first_arg :: "string \<Rightarrow> string option" where
  "first_arg v =
     (if strchr v COMMA then
        let r = takeWhile (\<lambda>c. c \<noteq> COMMA) (cstr v) in if length r < 10 then Some r else None
      else Some (cstr v))"

text \<open>Skip to the next comma: \<open>Some None\<close> when the string ends first.\<close>

function next_comma :: "string \<Rightarrow> nat \<Rightarrow> nat option option" where
  "next_comma buf j =
     (case rd buf j of
        None \<Rightarrow> None
      | Some c \<Rightarrow> if c = COMMA then Some (Some j) else if c = NUL then Some None
                 else next_comma buf (Suc j))"
  by pat_completeness auto
termination
  by (relation "measure (\<lambda>(buf, j). Suc (length buf) - j)") (auto simp: rd_def split: if_splits)

declare next_comma.simps [simp del]

lemma next_comma_bounds: "next_comma buf j = Some (Some n) \<Longrightarrow> j \<le> n \<and> n < length buf"
proof (induction buf j rule: next_comma.induct)
  case (1 buf j)
  then show ?case
    by (subst (asm) (2) next_comma.simps)
      (fastforce simp: rd_def split: option.splits if_splits)
qed

function findstr_loop :: "string \<Rightarrow> string \<Rightarrow> nat \<Rightarrow> bool option" where
  "findstr_loop buf s j =
     (case match_loop buf j s 0 of
        None \<Rightarrow> None
      | Some (i, full) \<Rightarrow>
          if full \<and> starts_at {COMMA} buf 0 j \<and> ends_at {COMMA} buf (j + i) then Some True
          else
            let j1 = (if i = 0 then j + 1 else j + i) in
            case rd buf j1 of
              None \<Rightarrow> None
            | Some c \<Rightarrow>
                if c = NUL then Some False
                else case next_comma buf j1 of
                    None \<Rightarrow> None
                  | Some None \<Rightarrow> Some False
                  | Some (Some n) \<Rightarrow>
                      (case rd buf (Suc n) of
                         None \<Rightarrow> None
                       | Some d \<Rightarrow> if d = NUL then Some False else findstr_loop buf s (Suc n)))"
  by pat_completeness auto
termination
proof (relation "measure (\<lambda>(buf, s, j). Suc (length buf) - j)", goal_cases)
  case 1
  then show ?case by simp
next
  case (2 buf s j a i full j1 c z n d)
  then have "j < j1" "j1 \<le> n" "n < length buf"
    using next_comma_bounds [of buf j1 n] by (auto split: if_splits)
  then show ?case by simp
qed

declare findstr_loop.simps [simp del]

definition findstr :: "string \<Rightarrow> string \<Rightarrow> bool option" where
  "findstr buf v = do { s \<leftarrow> first_arg v; findstr_loop (cstr buf) s 0 }"

text \<open>\<^verbatim>\<open>findSds\<close> compares a name, or the first name of a set, with the names of a class.\<close>

definition fenced :: "string \<Rightarrow> string" where
  "fenced s = sdscat (sdscat (sdsnew [COMMA]) s) [COMMA]"

definition findSds :: "string \<Rightarrow> string \<Rightarrow> bool option" where
  "findSds temp s =
     (if strchr s COMMA then
        if strchr temp COMMA then do { r \<leftarrow> first_arg s; Some (strstr (fenced temp) (fenced r)) }
        else Some False
      else if strchr temp COMMA then Some (strstr (fenced temp) (fenced s))
      else Some (streq temp s))"

section \<open>Classes of a printed structure\<close>

abbreviation SEPS :: "char set" where
  "SEPS \<equiv> {COMMA, SLASH}"

text \<open>\<^verbatim>\<open>while (buf[j]!=',' && buf[j]!='/') j++\<close> has no test for the end of the string.\<close>

function next_sep :: "string \<Rightarrow> nat \<Rightarrow> (nat \<times> char) option" where
  "next_sep buf j =
     (case rd buf j of
        None \<Rightarrow> None
      | Some c \<Rightarrow> if c \<in> SEPS then Some (j, c) else next_sep buf (Suc j))"
  by pat_completeness auto
termination
  by (relation "measure (\<lambda>(buf, j). Suc (length buf) - j)") (auto simp: rd_def split: if_splits)

declare next_sep.simps [simp del]

lemma next_sep_bounds: "next_sep buf j = Some (n, c) \<Longrightarrow> j \<le> n \<and> n < length buf"
proof (induction buf j rule: next_sep.induct)
  case (1 buf j)
  then show ?case
    by (subst (asm) (2) next_sep.simps)
      (fastforce simp: rd_def split: option.splits if_splits)
qed

function findClass_loop :: "string \<Rightarrow> string \<Rightarrow> nat \<Rightarrow> int \<Rightarrow> int option" where
  "findClass_loop buf s j result =
     (case match_loop buf j s 0 of
        None \<Rightarrow> None
      | Some (i, full) \<Rightarrow>
          if full \<and> starts_at SEPS buf 0 j \<and> ends_at SEPS buf (j + i) then Some result
          else case next_sep buf (if i = 0 then j + 1 else j + i) of
              None \<Rightarrow> None
            | Some (n, c) \<Rightarrow>
                let result' = (if c = SLASH then result + 1 else result) in
                (case rd buf (Suc n) of
                   None \<Rightarrow> None
                 | Some d \<Rightarrow> if d = NUL then Some (- 1) else findClass_loop buf s (Suc n) result'))"
  by pat_completeness auto
termination
proof (relation "measure (\<lambda>(buf, s, j, result). Suc (length buf) - j)", goal_cases)
  case 1
  then show ?case by simp
next
  case (2 buf s j result a i full y n c r d)
  then have "j < n \<or> j = n" "j \<le> n" "n < length buf"
    using next_sep_bounds [of buf "if i = 0 then j + 1 else j + i" n c] by (auto split: if_splits)
  then show ?case by auto
qed

declare findClass_loop.simps [simp del]

definition findClass :: "string \<Rightarrow> string \<Rightarrow> int option" where
  "findClass buf s = findClass_loop (cstr buf) (cstr s) 0 0"

text \<open>
  \<^verbatim>\<open>sameClass\<close>: the first loop looks for \<^term>\<open>s\<close> and returns the start of its class (of the
  last class, when the string ends with a separator before \<^term>\<open>s\<close> is found); the second loop
  looks for \<^term>\<open>v\<close> in that class.
\<close>

function class_start :: "string \<Rightarrow> string \<Rightarrow> nat \<Rightarrow> nat \<Rightarrow> nat option" where
  "class_start buf s j start =
     (case match_loop buf j s 0 of
        None \<Rightarrow> None
      | Some (i, full) \<Rightarrow>
          if full \<and> starts_at SEPS buf 0 j \<and> ends_at SEPS buf (j + i) then Some start
          else case next_sep buf (if i = 0 then j + 1 else j + i) of
              None \<Rightarrow> None
            | Some (n, c) \<Rightarrow>
                let start' = (if c = SLASH then Suc n else start) in
                (case rd buf (Suc n) of
                   None \<Rightarrow> None
                 | Some d \<Rightarrow> if d = NUL then Some start' else class_start buf s (Suc n) start'))"
  by pat_completeness auto
termination
proof (relation "measure (\<lambda>(buf, s, j, start). Suc (length buf) - j)", goal_cases)
  case 1
  then show ?case by simp
next
  case (2 buf s j start a i full y n c r d)
  then have "j \<le> n" "n < length buf"
    using next_sep_bounds [of buf "if i = 0 then j + 1 else j + i" n c] by (auto split: if_splits)
  then show ?case by auto
qed

declare class_start.simps [simp del]

function in_class :: "string \<Rightarrow> string \<Rightarrow> nat \<Rightarrow> nat \<Rightarrow> bool option" where
  "in_class buf v start j =
     (case rd buf j of
        None \<Rightarrow> None
      | Some b \<Rightarrow>
          if b = SLASH \<or> b = NUL then Some False
          else case match_loop buf j v 0 of
              None \<Rightarrow> None
            | Some (i, full) \<Rightarrow>
                if full \<and> starts_at {COMMA} buf start j \<and> ends_at SEPS buf (j + i) then Some True
                else in_class buf v start (if i = 0 then j + 1 else j + i))"
  by pat_completeness auto
termination
  by (relation "measure (\<lambda>(buf, v, start, j). Suc (length buf) - j)")
    (auto simp: rd_def split: if_splits)

declare in_class.simps [simp del]

definition sameClass :: "string \<Rightarrow> string \<Rightarrow> string \<Rightarrow> bool option" where
  "sameClass buf s v = do {
     start \<leftarrow> class_start (cstr buf) (cstr s) 0 0;
     in_class (cstr buf) (cstr v) start start
   }"

section \<open>The rest of a class\<close>

text \<open>The end of the class that starts at \<^term>\<open>start\<close>, and the commas counted on the way.\<close>

function class_end :: "string \<Rightarrow> nat \<Rightarrow> nat \<Rightarrow> (nat \<times> nat) option" where
  "class_end buf e commas =
     (case rd buf (Suc e) of
        None \<Rightarrow> None
      | Some c \<Rightarrow>
          if c = SLASH \<or> c = NUL then Some (e, commas)
          else class_end buf (Suc e) (if rd buf e = Some COMMA then Suc commas else commas))"
  by pat_completeness auto
termination
  by (relation "measure (\<lambda>(buf, e, commas). Suc (length buf) - e)") (auto simp: rd_def split: if_splits)

declare class_end.simps [simp del]

text \<open>
  The comparison loop of \<^verbatim>\<open>cpltClass\<close>. Other than in the loops above, a match of all of
  \<^term>\<open>sub\<close> at a wrong place does not leave the loop: the comparison goes on behind the
  end of \<^term>\<open>sub\<close>.
\<close>

function cplt_match :: "string \<Rightarrow> nat \<Rightarrow> string \<Rightarrow> nat \<Rightarrow> nat \<Rightarrow> bool option" where
  "cplt_match buf start sub j k =
     (case (rd buf (j + k), rd sub k) of
        (Some b, Some c) \<Rightarrow>
          if b \<noteq> c then Some False
          else if Suc k = length sub \<and> starts_at {COMMA} buf start j \<and> ends_at SEPS buf (j + Suc k)
          then Some True
          else cplt_match buf start sub j (Suc k)
      | _ \<Rightarrow> None)"
  by pat_completeness auto
termination
  by (relation "measure (\<lambda>(buf, start, sub, j, k). Suc (length sub) - k)")
    (auto simp: rd_def split: if_splits)

declare cplt_match.simps [simp del]

fun cplt_scan :: "string \<Rightarrow> nat \<Rightarrow> string \<Rightarrow> nat \<Rightarrow> nat \<Rightarrow> bool option" where
  "cplt_scan buf start sub j 0 = Some False"
| "cplt_scan buf start sub j (Suc n) =
     (case cplt_match buf start sub j 0 of
        None \<Rightarrow> None
      | Some hit \<Rightarrow> if hit then Some True else cplt_scan buf start sub (Suc j) n)"

lemma class_end_bounds: "class_end buf e n = Some (e', m) \<Longrightarrow> e \<le> e' \<and> e' < length buf"
proof (induction buf e n rule: class_end.induct)
  case (1 buf e n)
  from "1.prems" obtain c where c: "rd buf (Suc e) = Some c"
    "c = SLASH \<or> c = NUL \<Longrightarrow> e' = e"
    "\<not> (c = SLASH \<or> c = NUL) \<Longrightarrow>
       class_end buf (Suc e) (if rd buf e = Some COMMA then Suc n else n) = Some (e', m)"
    by (subst (asm) class_end.simps) (auto split: option.splits if_splits)
  have "Suc e \<le> length buf" using c(1) by (auto simp: rd_def split: if_splits)
  then show ?case using "1.IH" [OF c(1)] c by (cases "c = SLASH \<or> c = NUL") auto
qed

definition STAR :: string where
  "STAR = ''*''"

function cplt_loop :: "string \<Rightarrow> string \<Rightarrow> string \<Rightarrow> nat \<Rightarrow> int \<Rightarrow> nat \<Rightarrow> string option" where
  "cplt_loop buf s sub comma_s type start =
     (case rd buf start of
        None \<Rightarrow> None
      | Some b \<Rightarrow>
          if b = NUL then Some sdsempty
          else
            let st = (if b = SLASH then Suc start else start) in
            case class_end buf st 0 of
              None \<Rightarrow> None
            | Some (e, comma_class) \<Rightarrow>
                let len = e - st + 1; ls = strlen s in
                (case (if comma_s < comma_class \<and> ls < len \<or> comma_s = comma_class \<and> len = ls
                       then cplt_scan buf st sub st (e + 2 - (length sub + st)) else Some False) of
                   None \<Rightarrow> None
                 | Some hit \<Rightarrow>
                     if \<not> hit then cplt_loop buf s sub comma_s type (Suc e)
                     else if len = ls then Some (sdscat sdsempty STAR)
                     else let temp = sdscat sdsempty (take len (drop st buf)) in
                       if type = 1 then sdsDel temp s else firstOfsdsDel temp s))"
  by pat_completeness auto
termination
proof (relation "measure (\<lambda>(buf, s, sub, comma_s, type, start). Suc (length buf) - start)", goal_cases)
  case 1
  then show ?case by simp
next
  case (2 buf s sub comma_s type start b st a e comma_class len ls hit)
  then have "start \<le> st" "st \<le> e" "e < length buf"
    using class_end_bounds [of buf st 0 e comma_class] by (auto split: if_splits)
  then show ?case by simp
qed

declare cplt_loop.simps [simp del]

definition cpltClass :: "string \<Rightarrow> string option \<Rightarrow> int \<Rightarrow> string option" where
  "cpltClass buf so type =
     (case so of
        None \<Rightarrow> Some (sdscat sdsempty STAR)
      | Some s \<Rightarrow> do {
          sub \<leftarrow> first_arg s;
          let comma_s = count_list (cstr s) COMMA;
          cplt_loop (cstr buf) s sub comma_s type 0
        })"

section \<open>Comparing sets of names\<close>

definition countstr :: "string \<Rightarrow> char \<Rightarrow> int" where
  "countstr s t = int (count_list (cstr s) t)"

text \<open>
  \<^verbatim>\<open>sdslistsds\<close> looks for a string among the first \<^term>\<open>len\<close> entries of a list and
  replaces the entry by NULL.
\<close>

fun listsds_loop :: "string option list \<Rightarrow> string \<Rightarrow> nat \<Rightarrow> nat \<Rightarrow> (bool \<times> string option list) option" where
  "listsds_loop list v i 0 = Some (False, list)"
| "listsds_loop list v i (Suc n) =
     (if i < length list then
        if list ! i = Some v then Some (True, list[i := None]) else listsds_loop list v (Suc i) n
      else None)"

definition sdslistsds :: "string option list \<Rightarrow> string \<Rightarrow> nat \<Rightarrow> (bool \<times> string option list) option" where
  "sdslistsds list v len = listsds_loop list v 0 len"

fun all_listed :: "string list \<Rightarrow> string option list \<Rightarrow> nat \<Rightarrow> bool option" where
  "all_listed [] list len = Some True"
| "all_listed (x # xs) list len =
     (case sdslistsds list x len of
        None \<Rightarrow> None
      | Some (found, list') \<Rightarrow> if found then all_listed xs list' len else Some False)"

definition eqccmp :: "string \<Rightarrow> string \<Rightarrow> int option" where
  "eqccmp s1 s2 =
     (let n1 = countstr s1 COMMA + 1; n2 = countstr s2 COMMA + 1 in
      if n1 \<noteq> n2 then Some 1
      else if n1 = 1 then Some (if streq s1 s2 then 0 else 1)
      else do {
        oids1 \<leftarrow> sdssplitlen s1 (int (strlen s1)) [COMMA];
        oids2 \<leftarrow> sdssplitlen s2 (int (strlen s2)) [COMMA];
        if length oids1 \<noteq> length oids2 then Some 1
        else do {
          all \<leftarrow> all_listed oids1 (map Some oids2) (length oids1);
          Some (if all then 0 else 1)
        }
      })"

definition oidscmp :: "string \<Rightarrow> string \<Rightarrow> int option" where
  "oidscmp s1 s2 = do {
     oids1 \<leftarrow> sdssplitlen s1 (int (length s1)) [COMMA];
     oids2 \<leftarrow> sdssplitlen s2 (int (length s2)) [COMMA];
     all \<leftarrow> all_listed oids1 (map Some oids2) (length oids1);
     Some (if all then 0 else 1)
   }"

end
