(* ===== verification/Ot_Scan.thy ===== *)
theory Ot_Scan
  imports Ot_Strings
begin

text \<open>
  What the string routines of \<^verbatim>\<open>src/ot.c\<close> compute on printed structures: the deletion
  routines delete names, the scanners decide membership, and none of them reads outside of its
  strings.
\<close>

section \<open>Names and printed classes\<close>

definition nm :: "string \<Rightarrow> bool" where
  "nm w \<longleftrightarrow> w \<noteq> [] \<and> nul_free w \<and> COMMA \<notin> set w \<and> SLASH \<notin> set w"

definition nms :: "string list \<Rightarrow> bool" where
  "nms ns \<longleftrightarrow> ns \<noteq> [] \<and> (\<forall>n \<in> set ns. nm n)"

lemma nm_nul_free [simp]: "nm w \<Longrightarrow> nul_free w"
  and nm_not_Nil [simp]: "nm w \<Longrightarrow> w \<noteq> []"
  and nm_no_comma [simp]: "nm w \<Longrightarrow> COMMA \<notin> set w"
  and nm_no_slash [simp]: "nm w \<Longrightarrow> SLASH \<notin> set w"
  by (simp_all add: nm_def)

lemma nms_Cons: "nms (n # ns) \<longleftrightarrow> nm n \<and> (ns = [] \<or> nms ns)"
  by (auto simp: nms_def)

lemma nms_nm [dest]: "nms ns \<Longrightarrow> n \<in> set ns \<Longrightarrow> nm n"
  by (simp add: nms_def)

lemma nms_not_Nil [simp]: "nms ns \<Longrightarrow> ns \<noteq> []"
  by (simp add: nms_def)

lemma nul_free_class [simp]: "nms ns \<Longrightarrow> nul_free (join COMMA ns)"
  by (simp add: nul_free_join nms_def)

lemma split_class [simp]: "nms ns \<Longrightarrow> split_on COMMA (join COMMA ns) = ns"
  by (rule split_on_join) (auto simp: nms_def)

lemma class_not_Nil [simp]: "nms ns \<Longrightarrow> join COMMA ns \<noteq> []"
  unfolding join_eq_Nil_iff nms_def using nm_not_Nil by fastforce

lemma pieces_class [simp]: "nms ns \<Longrightarrow> pieces COMMA (join COMMA ns) = ns"
  by (simp add: pieces_def)

lemma slash_class [simp]: "nms ns \<Longrightarrow> SLASH \<notin> set (join COMMA ns)"
  using set_join [of COMMA ns] by (fastforce simp: nms_def)

text \<open>The rules above are left out where concrete names are evaluated with the definitions.\<close>

lemmas name_rules = nm_nul_free nm_not_Nil nm_no_comma nm_no_slash nms_not_Nil nul_free_class
  split_class class_not_Nil pieces_class slash_class

section \<open>Deletion\<close>

lemma shift_down_nul_free:
  "\<forall>x \<in> set xs. nul_free x \<Longrightarrow> shift_down xs i = take i xs @ drop (Suc i) xs"
  by (auto simp: shift_down_def sdsclear_def intro!: map_idI dest: in_set_dropD)

lemma del_loop_filter:
  assumes "distinct es" "\<forall>x \<in> set es. nul_free x" "\<forall>x \<in> set ds. nul_free x" "i \<le> length es"
  shows "del_loop es ds i = take i es @ filter (\<lambda>x. x \<notin> set ds) (drop i es)"
  using assms
proof (induction es ds i rule: del_loop.induct)
  case (1 es ds i)
  show ?case
  proof (cases "i < length es")
    case False
    then show ?thesis using "1.prems" by (subst del_loop.simps) simp
  next
    case True
    then have es: "drop i es = es ! i # drop (Suc i) es" by (simp add: Cons_nth_drop_Suc)
    show ?thesis
    proof (cases "first_index (\<lambda>d. sdscmp (es ! i) d = 0) ds")
      case None
      then have "es ! i \<notin> set ds" by (auto simp: first_index_None sdscmp_eq_0)
      then show ?thesis
        using "1.IH"(1) [OF True None] "1.prems" True None es
        by (subst del_loop.simps) (simp add: take_Suc_conv_app_nth)
    next
      case (Some j)
      then have j: "j < length ds" "ds ! j = es ! i"
        by (auto simp: first_index_Some sdscmp_eq_0)
      define es' where "es' = take i es @ drop (Suc i) es"
      define ds' where "ds' = take j ds @ drop (Suc j) ds"
      have "set ds = set (take j ds @ ds ! j # drop (Suc j) ds)"
        using id_take_nth_drop [OF j(1)] by simp
      then have mem: "x \<in> set ds \<longleftrightarrow> x \<in> set ds' \<or> x = es ! i" for x
        using j(2) by (auto simp: ds'_def)
      have es'': "take i es' = take i es" "drop i es' = drop (Suc i) es" "i \<le> length es'"
        using True by (simp_all add: es'_def)
      have "distinct (take i es @ es ! i # drop (Suc i) es)"
        using "1.prems"(1) id_take_nth_drop [OF True] by simp
      then have "distinct es'" and fresh: "es ! i \<notin> set (drop (Suc i) es)"
        unfolding es'_def by auto
      moreover have "\<forall>x \<in> set es'. nul_free x" "\<forall>x \<in> set ds'. nul_free x"
        using "1.prems" by (auto simp: es'_def ds'_def dest: in_set_takeD in_set_dropD)
      ultimately have "del_loop es' ds' i = take i es @ filter (\<lambda>x. x \<notin> set ds') (drop (Suc i) es)"
        using "1.IH"(2) [OF True Some] "1.prems" es'' True
        by (simp add: shift_down_nul_free es'_def ds'_def)
      moreover have "filter (\<lambda>x. x \<notin> set ds') (drop (Suc i) es) = filter (\<lambda>x. x \<notin> set ds) (drop i es)"
        using fresh mem unfolding es
        by (auto intro!: filter_cong)
      ultimately show ?thesis
        using True Some "1.prems"
        by (subst del_loop.simps) (simp add: shift_down_nul_free es'_def ds'_def)
    qed
  qed
qed

lemma del_print_join:
  "\<forall>x \<in> set es. nul_free x \<Longrightarrow> del_print acc es = acc @ join COMMA es"
  by (induction acc es rule: del_print.induct) (auto simp: Let_def join_Cons)

lemma sdsDel_class:
  assumes "nms es" "distinct es" "nms ds"
  shows "sdsDel (join COMMA es) (join COMMA ds) = Some (join COMMA (filter (\<lambda>x. x \<notin> set ds) es))"
  using assms del_loop_filter [of es ds 0]
  by (auto simp: sdsDel_def del_print_join sdsempty_def nms_def)

lemma first_nonempty_hd:
  "\<forall>x \<in> set es. nm x \<Longrightarrow> first_nonempty [] es = (if es = [] then [] else hd es)"
  by (cases es) auto

lemma firstOfsdsDel_class:
  assumes "nms es" "distinct es" "nms ds"
  shows "firstOfsdsDel (join COMMA es) (join COMMA ds) =
    Some (let rest = filter (\<lambda>x. x \<notin> set ds) es in if rest = [] then [] else hd rest)"
  using assms del_loop_filter [of es ds 0]
  by (auto simp: firstOfsdsDel_def first_nonempty_hd sdsempty_def nms_def Let_def)

section \<open>Matching\<close>

fun lcp :: "'a list \<Rightarrow> 'a list \<Rightarrow> nat" where
  "lcp (x # xs) (y # ys) = (if x = y then Suc (lcp xs ys) else 0)"
| "lcp [] ys = 0"
| "lcp (x # xs) [] = 0"

lemma lcp_Nil2 [simp]: "lcp s [] = 0"
  by (cases s) simp_all

lemma lcp_le: "lcp s t \<le> length s" "lcp s t \<le> length t"
  by (induction s t rule: lcp.induct) auto

lemma lcp_sep: "c \<notin> set s \<Longrightarrow> lcp s (c # t) = 0"
  by (cases s) auto

lemma lcp_append_sep: "c \<notin> set s \<Longrightarrow> lcp s (e @ c # t) = lcp s e"
  by (induction s e rule: lcp.induct) (auto simp: lcp_sep)

lemma take_lcp: "take (lcp s t) s = take (lcp s t) t"
  by (induction s t rule: lcp.induct) auto

lemma lcp_full: "lcp s e = length s \<Longrightarrow> length e = length s \<Longrightarrow> s = e"
  using take_lcp [of s e] by (metis take_all order_refl)

lemma lcp_self [simp]: "lcp s s = length s"
  by (induction s) auto

lemma match_loop_lcp_aux:
  assumes "nul_free (u @ v)" "nul_free t" "v \<noteq> []"
  shows "match_loop (pre @ u @ t) (length pre) (u @ v) (length u) =
    Some (length u + lcp v t, lcp v t = length v)"
  using assms
proof (induction v t arbitrary: u rule: lcp.induct)
  case (1 x xs y ys)
  have r: "rd (pre @ u @ y # ys) (length pre + length u) = Some y" "rd (u @ x # xs) (length u) = Some x"
    by simp_all
  have r2: "rd (u @ x # xs) (Suc (length u)) = rd xs 0"
    using rd_append_right [of u "x # xs" 1] by simp
  show ?case
  proof (cases "x = y \<and> xs \<noteq> []")
    case True
    then obtain z zs where "xs = z # zs" by (cases xs) auto
    moreover have "match_loop (pre @ (u @ [x]) @ ys) (length pre) ((u @ [x]) @ xs) (length (u @ [x])) =
        Some (length (u @ [x]) + lcp xs ys, lcp xs ys = length xs)"
      using "1.IH" [of "u @ [x]"] "1.prems" True by simp
    ultimately show ?thesis
      using True r r2 "1.prems" by (subst match_loop.simps) simp
  next
    case False
    then show ?thesis using r r2 by (subst match_loop.simps) auto
  qed
next
  case (2 t)
  then show ?case by simp
next
  case (3 x xs)
  have "rd (pre @ u @ []) (length pre + length u) = Some NUL"
    using rd_append_right [of pre "u @ []" "length u"] by simp
  moreover have "rd (u @ x # xs) (length u) = Some x" by simp
  ultimately show ?case using 3 by (subst match_loop.simps) auto
qed

lemma match_loop_lcp:
  assumes "nul_free s" "nul_free t" "s \<noteq> []" "j = length pre"
  shows "match_loop (pre @ t) j s 0 = Some (lcp s t, lcp s t = length s)"
  using match_loop_lcp_aux [of "[]" s t pre] assms by simp

text \<open>The string behind a name: it ends there or goes on with a separator.\<close>

definition sep_tail :: "char set \<Rightarrow> string \<Rightarrow> bool" where
  "sep_tail S t \<longleftrightarrow> t = [] \<or> hd t \<in> S"

definition at_name :: "char set \<Rightarrow> nat \<Rightarrow> string \<Rightarrow> bool" where
  "at_name S start pre \<longleftrightarrow> length pre = start \<or> pre \<noteq> [] \<and> last pre \<in> S"

lemma starts_at_iff: "starts_at S (pre @ t) start (length pre) \<longleftrightarrow>
    length pre = start \<or> (pre \<noteq> [] \<or> t \<noteq> []) \<and> (pre \<noteq> [] \<longrightarrow> last pre \<in> S) \<and> (pre = [] \<longrightarrow> hd t \<in> S)
      \<or> pre = [] \<and> t = [] \<and> NUL \<in> S"
  by (cases pre rule: rev_cases; cases t) (auto simp: starts_at_def rd_def nth_append)

lemma starts_at_name: "at_name S start pre \<Longrightarrow> starts_at S (pre @ t) start (length pre)"
  by (auto simp: starts_at_iff at_name_def)

lemma name_matches:
  assumes "nm e" "nm s" "sep_tail S t" "nul_free t" "S \<subseteq> SEPS"
  shows "match_loop (pre @ e @ t) (length pre) s 0 = Some (lcp s e, lcp s e = length s)"
    and "lcp s e = length s \<and> ends_at S (pre @ e @ t) (length pre + lcp s e) \<longleftrightarrow> s = e"
proof -
  have lcp: "lcp s (e @ t) = lcp s e"
    using assms(2,3,5) lcp_append_sep [of _ s e] by (cases t) (auto simp: sep_tail_def)
  show "match_loop (pre @ e @ t) (length pre) s 0 = Some (lcp s e, lcp s e = length s)"
    using match_loop_lcp [of s "e @ t" "length pre" pre] assms lcp by simp
  have rd: "rd (pre @ e @ t) (length pre + length e) = rd t 0" by simp
  show "lcp s e = length s \<and> ends_at S (pre @ e @ t) (length pre + lcp s e) \<longleftrightarrow> s = e"
  proof (cases "lcp s e = length e")
    case True
    then have "ends_at S (pre @ e @ t) (length pre + lcp s e)"
      using rd assms(3) by (cases t) (auto simp: ends_at_def sep_tail_def)
    then show ?thesis using True lcp_full [of s e] by auto
  next
    case False
    then have "lcp s e < length e" using lcp_le(2) [of s e] by simp
    then have "rd (pre @ e @ t) (length pre + lcp s e) = Some (e ! lcp s e)"
      by (simp add: rd_def nth_append)
    moreover have "e ! lcp s e \<in> set e" using \<open>lcp s e < length e\<close> by simp
    moreover have "NUL \<notin> set e" "SEPS \<inter> set e = {}" 
      using assms(1) nm_nul_free [of e] by (auto simp: nul_free_def)
    ultimately have "\<not> ends_at S (pre @ e @ t) (length pre + lcp s e)"
      using assms(5) unfolding ends_at_def by auto
    then show ?thesis using False by auto
  qed
qed

text \<open>The position a scanner goes on from is inside of the name, or directly behind it.\<close>

lemma after_match:
  assumes "nm e"
  obtains u v where "e = u @ v" "(if lcp s e = 0 then j + 1 else j + lcp s e) = j + length u" "u \<noteq> []"
proof -
  define n where "n = (if lcp s e = 0 then 1 else lcp s e)"
  have "n \<le> length e" "n \<noteq> 0" using assms lcp_le(2) [of s e] by (cases e, auto simp: n_def)
  then show thesis
    by (intro that [of "take n e" "drop n e"]) (auto simp: n_def min_absorb2)
qed

lemma next_comma_skip:
  assumes "nul_free w" "COMMA \<notin> set w" "sep_tail {COMMA} t"
  shows "next_comma (pre @ w @ t) (length pre) =
    Some (if t = [] then None else Some (length pre + length w))"
  using assms
proof (induction w arbitrary: pre)
  case Nil
  then show ?case by (cases t) (subst next_comma.simps; auto simp: sep_tail_def)+
next
  case (Cons x w)
  then show ?case using Cons.IH [of "pre @ [x]"] by (subst next_comma.simps) auto
qed

lemma next_sep_skip:
  assumes "COMMA \<notin> set w" "SLASH \<notin> set w" "nul_free w" "t = c # t'" "c \<in> SEPS"
  shows "next_sep (pre @ w @ t) (length pre) = Some (length pre + length w, c)"
  using assms
proof (induction w arbitrary: pre)
  case Nil
  then show ?case by (subst next_sep.simps) auto
next
  case (Cons x w)
  then show ?case using Cons.IH [of "pre @ [x]"] by (subst next_sep.simps) auto
qed

section \<open>Membership in a class\<close>

lemma rd_here: "rd (pre @ t) (length pre) = rd t 0"
  by simp

lemma rd_next: "rd (pre @ x # t) (Suc (length pre)) = rd t 0"
  using rd_append_right [of pre "x # t" 1] by simp

lemma findstr_loop_mem:
  assumes "nms es" "nm s" "at_name {COMMA} 0 pre"
  shows "findstr_loop (pre @ join COMMA es) s (length pre) = Some (s \<in> set es)"
  using assms
proof (induction es arbitrary: pre)
  case Nil
  then show ?case by (simp add: nms_def)
next
  case (Cons e es)
  define t where "t = (if es = [] then [] else COMMA # join COMMA es)"
  have buf: "join COMMA (e # es) = e @ t" by (simp add: t_def join_Cons)
  have e: "nm e" and es: "es = [] \<or> nms es" using Cons.prems by (auto simp: nms_Cons)
  have t: "sep_tail {COMMA} t" "nul_free t" using es by (auto simp: t_def sep_tail_def)
  note m = name_matches [OF e Cons.prems(2) t, of pre]
  note st = starts_at_name [OF Cons.prems(3), of "e @ t"]
  show ?case
  proof (cases "s = e")
    case True
    then show ?thesis unfolding buf using m st by (subst findstr_loop.simps) simp
  next
    case False
    obtain u v where uv: "e = u @ v" "u \<noteq> []"
      "(if lcp s e = 0 then length pre + 1 else length pre + lcp s e) = length (pre @ u)"
      using after_match [OF e, where s = s and j = "length pre"] by (metis length_append)
    have v: "nul_free v" "COMMA \<notin> set v" using nm_nul_free [OF e] nm_no_comma [OF e] uv(1) by auto
    have skip: "next_comma (pre @ e @ t) (length (pre @ u)) =
        Some (if t = [] then None else Some (length (pre @ e)))"
      using next_comma_skip [OF v t(1), of "pre @ u"] uv(1) by (auto simp: add.assoc)
    have step: "findstr_loop (pre @ e @ t) s (length pre) =
       (if t = [] then Some False else findstr_loop (pre @ e @ t) s (Suc (length (pre @ e))))"
    proof (cases "t = []")
      case True
      then obtain c where c: "rd (pre @ e @ t) (length (pre @ u)) = Some c"
        using uv(1) rd_here [of "pre @ u" v] by (cases v) auto
      show ?thesis
        using False m skip True c uv(3) by (subst findstr_loop.simps) (auto simp: Let_def)
    next
      case nt: False
      then obtain t' where t': "t = COMMA # t'" "t' \<noteq> []" "nul_free t'"
        using t es by (auto simp: t_def split: if_splits)
      obtain c where c: "rd (pre @ e @ t) (length (pre @ u)) = Some c" "c \<noteq> NUL"
        using uv(1) rd_here [of "pre @ u" "v @ t"] v t' by (cases v) auto
      obtain d where d: "rd (pre @ e @ t) (Suc (length (pre @ e))) = Some d" "d \<noteq> NUL"
        using rd_next [of "pre @ e" COMMA t'] t' by (cases t') auto
      show ?thesis
        using False m skip nt c d uv(3) by (subst findstr_loop.simps) (auto simp: Let_def)
    qed
    show ?thesis
    proof (cases "es = []")
      case True
      then show ?thesis using step False buf by (simp add: t_def)
    next
      case nes: False
      have "findstr_loop ((pre @ e @ [COMMA]) @ join COMMA es) s (length (pre @ e @ [COMMA])) =
          Some (s \<in> set es)"
        using Cons.IH [of "pre @ e @ [COMMA]"] es nes Cons.prems(2) by (simp add: at_name_def)
      then show ?thesis using step nes False unfolding buf by (simp add: t_def)
    qed
  qed
qed

lemma first_arg_name: "nm s \<Longrightarrow> first_arg s = Some s"
  by (simp add: first_arg_def strchr_iff)

lemma takeWhile_comma: "COMMA \<notin> set e \<Longrightarrow> takeWhile (\<lambda>c. c \<noteq> COMMA) (e @ COMMA # t) = e"
  by (subst takeWhile_append2) auto

text \<open>For a set of names the first one is copied; it fits when it has fewer than ten bytes.\<close>

lemma first_arg_class:
  assumes "nms ss" "length ss = 1 \<or> length (hd ss) < 10"
  shows "first_arg (join COMMA ss) = Some (hd ss)"
proof (cases "\<exists>s. ss = [s]")
  case True
  then show ?thesis using assms(1) by (auto simp: nms_Cons first_arg_name)
next
  case False
  then obtain s t ts where ss: "ss = s # t # ts" using assms(1) by (metis neq_Nil_conv nms_not_Nil)
  then show ?thesis
    using assms nul_free_class [OF assms(1)]
    by (auto simp: first_arg_def strchr_iff takeWhile_comma nms_Cons)
qed

lemma first_arg_overflow:
  assumes "nms ss" "length ss \<noteq> 1" "\<not> length (hd ss) < 10"
  shows "first_arg (join COMMA ss) = None"
proof -
  obtain s t ts where "ss = s # t # ts" using assms(1,2) by (cases ss; cases "tl ss") (auto simp: nms_def)
  then show ?thesis using assms nul_free_class [OF assms(1)]
    by (auto simp: first_arg_def strchr_iff takeWhile_comma nms_Cons)
qed

lemma findstr_class:
  assumes "nms es" "nms ss" "length ss = 1 \<or> length (hd ss) < 10"
  shows "findstr (join COMMA es) (join COMMA ss) = Some (hd ss \<in> set es)"
  using assms findstr_loop_mem [of es "hd ss" "[]"]
  by (auto simp: findstr_def first_arg_class at_name_def nms_def)

section \<open>Printed structures\<close>

text \<open>
  The rest of a printed structure: the names left in the current class and the classes behind it.
\<close>

fun rest_str :: "string list \<Rightarrow> string list list \<Rightarrow> string" where
  "rest_str [] cs = []"
| "rest_str [e] [] = e"
| "rest_str [e] (c # cs) = e @ SLASH # rest_str c cs"
| "rest_str (e # f # ns) cs = e @ COMMA # rest_str (f # ns) cs"

definition show_state :: "string list list \<Rightarrow> string" where
  "show_state cs = join SLASH (map (join COMMA) cs)"

definition state_ok :: "string list list \<Rightarrow> bool" where
  "state_ok cs \<longleftrightarrow> cs \<noteq> [] \<and> (\<forall>c \<in> set cs. nms c) \<and> distinct (concat cs)"

lemma join_prepend: "join c ((u @ w) # ws) = u @ join c (w # ws)"
  by (cases ws) auto

lemma rest_str_join: "ns \<noteq> [] \<Longrightarrow> rest_str ns cs = show_state (ns # cs)" if "\<forall>c \<in> set cs. c \<noteq> []"
  using that
proof (induction ns cs rule: rest_str.induct)
  case (4 e f ns cs)
  then show ?case
    using join_prepend [of SLASH "e @ [COMMA]" "join COMMA (f # ns)" "map (join COMMA) cs"]
    by (simp add: show_state_def)
qed (auto simp: show_state_def)

lemma nul_free_rest: "nms ns \<Longrightarrow> \<forall>c \<in> set cs. nms c \<Longrightarrow> nul_free (rest_str ns cs)"
  by (induction ns cs rule: rest_str.induct) (auto simp: nms_Cons)

lemma rest_str_not_Nil: "nms ns \<Longrightarrow> rest_str ns cs \<noteq> []"
  by (induction ns cs rule: rest_str.induct) (auto simp: nms_Cons nms_def)

text \<open>Going on from the current name: to the next name of the class, to the next class, or nowhere.\<close>

fun rest_step :: "string list \<Rightarrow> string list list \<Rightarrow> (char \<times> string list \<times> string list list) option" where
  "rest_step [] cs = None"
| "rest_step [e] [] = None"
| "rest_step [e] (c # cs) = Some (SLASH, c, cs)"
| "rest_step (e # f # ns) cs = Some (COMMA, f # ns, cs)"

definition tail_str :: "string list \<Rightarrow> string list list \<Rightarrow> string" where
  "tail_str ns cs =
     (case rest_step ns cs of None \<Rightarrow> [] | Some (c, ns', cs') \<Rightarrow> c # rest_str ns' cs')"

lemma rest_str_tail: "ns \<noteq> [] \<Longrightarrow> rest_str ns cs = hd ns @ tail_str ns cs"
  by (induction ns cs rule: rest_str.induct) (auto simp: tail_str_def)

lemma tail_str_sep:
  "nms ns \<Longrightarrow> \<forall>c \<in> set cs. nms c \<Longrightarrow> sep_tail SEPS (tail_str ns cs) \<and> nul_free (tail_str ns cs)"
  by (induction ns cs rule: rest_str.induct)
    (auto simp: tail_str_def sep_tail_def nms_Cons nul_free_rest)

lemma rest_step_ok:
  assumes "rest_step ns cs = Some (c, ns', cs')" "nms ns" "\<forall>c \<in> set cs. nms c"
  shows "c \<in> SEPS" "nms ns'" "\<forall>c \<in> set cs'. nms c"
  using assms by (cases "(ns, cs)" rule: rest_str.cases; simp add: nms_Cons; blast?)+

text \<open>
  At the start of a name, a scanner finds the name or goes on behind the next separator; behind the
  last name it would leave the string.
\<close>

lemma scan_name:
  assumes "nms ns" "\<forall>c \<in> set cs. nms c" "nm s" and buf_def: "buf = pre @ rest_str ns cs"
  obtains i full where "match_loop buf (length pre) s 0 = Some (i, full)"
    "full \<and> ends_at SEPS buf (length pre + i) \<longleftrightarrow> s = hd ns"
    "next_sep buf (if i = 0 then length pre + 1 else length pre + i) =
       (case rest_step ns cs of None \<Rightarrow> None
        | Some (c, ns', cs') \<Rightarrow> Some (length (pre @ hd ns), c))"
    "\<And>c ns' cs'. rest_step ns cs = Some (c, ns', cs') \<Longrightarrow>
       buf = (pre @ hd ns @ [c]) @ rest_str ns' cs' \<and>
       (\<exists>d. rd buf (Suc (length (pre @ hd ns))) = Some d \<and> d \<noteq> NUL)"
proof -
  define e where "e = hd ns"
  define t where "t = tail_str ns cs"
  have e: "nm e" using assms(1) by (auto simp: e_def nms_def)
  have buf: "buf = pre @ e @ t"
    using assms(1) by (simp add: buf_def e_def t_def rest_str_tail)
  have t: "sep_tail SEPS t" "nul_free t" using tail_str_sep [OF assms(1,2)] by (auto simp: t_def)
  note m = name_matches [OF e assms(3) t subset_refl, of pre, folded buf]
  obtain u v where uv: "e = u @ v" "u \<noteq> []"
    "(if lcp s e = 0 then length pre + 1 else length pre + lcp s e) = length (pre @ u)"
    using after_match [OF e, where s = s and j = "length pre"] by (metis length_append)
  have v: "COMMA \<notin> set v" "SLASH \<notin> set v" "nul_free v"
    using nm_nul_free [OF e] nm_no_comma [OF e] nm_no_slash [OF e] uv(1) by auto
  have skip: "next_sep buf (length (pre @ u)) =
      (case rest_step ns cs of None \<Rightarrow> None | Some (c, ns', cs') \<Rightarrow> Some (length (pre @ e), c))"
  proof (cases "rest_step ns cs")
    case None
    then have "buf = (pre @ u) @ v" using buf uv(1) by (simp add: t_def tail_str_def)
    moreover have "next_sep (p @ v) (length p) = None" for p
      using v
    proof (induction v arbitrary: p)
      case Nil
      have "next_sep p (Suc (length p)) = None" by (subst next_sep.simps) (simp add: rd_def)
      then show ?case by (subst next_sep.simps) simp
    next
      case (Cons x v)
      then show ?case using Cons.IH [of "p @ [x]"] by (subst next_sep.simps) auto
    qed
    ultimately have "next_sep buf (length (pre @ u)) = None" by metis
    then show ?thesis using None by simp
  next
    case (Some x)
    then obtain c ns' cs' where x: "rest_step ns cs = Some (c, ns', cs')" by (cases x) auto
    then have "t = c # rest_str ns' cs'" "c \<in> SEPS"
      using rest_step_ok [OF x assms(1,2)] by (auto simp: t_def tail_str_def)
    then show ?thesis
      using next_sep_skip [OF v, of t c "rest_str ns' cs'" "pre @ u"] buf uv(1) x
      by (simp add: add.assoc)
  qed
  have "buf = (pre @ hd ns @ [c]) @ rest_str ns' cs' \<and>
       (\<exists>d. rd buf (Suc (length (pre @ hd ns))) = Some d \<and> d \<noteq> NUL)"
    if x: "rest_step ns cs = Some (c, ns', cs')" for c ns' cs'
  proof -
    have b: "buf = (pre @ hd ns) @ c # rest_str ns' cs'"
      using buf x by (simp add: e_def t_def tail_str_def)
    have "rest_str ns' cs' \<noteq> []" "nul_free (rest_str ns' cs')"
      using rest_step_ok [OF x assms(1,2)] by (simp_all add: rest_str_not_Nil nul_free_rest)
    then have "\<exists>d. rd (rest_str ns' cs') 0 = Some d \<and> d \<noteq> NUL" by (cases "rest_str ns' cs'") auto
    then show ?thesis using b rd_next [of "pre @ hd ns" c "rest_str ns' cs'"] by simp
  qed
  moreover have "next_sep buf (if lcp s e = 0 then length pre + 1 else length pre + lcp s e) =
      (case rest_step ns cs of None \<Rightarrow> None | Some (c, ns', cs') \<Rightarrow> Some (length (pre @ hd ns), c))"
    using skip unfolding e_def [symmetric] uv(3) .
  ultimately show thesis
    using that [OF m(1)] m(2) unfolding e_def by blast
qed

lemma class_start_step:
  assumes "nms ns" "\<forall>c \<in> set cs. nms c" "nm s" "at_name SEPS 0 pre" "buf = pre @ rest_str ns cs"
  shows "class_start buf s (length pre) st =
    (if s = hd ns then Some st
     else case rest_step ns cs of None \<Rightarrow> None
       | Some (c, ns', cs') \<Rightarrow> class_start buf s (length (pre @ hd ns @ [c]))
           (if c = SLASH then length (pre @ hd ns @ [c]) else st))"
proof -
  obtain i full where *: "match_loop buf (length pre) s 0 = Some (i, full)"
    "full \<and> ends_at SEPS buf (length pre + i) \<longleftrightarrow> s = hd ns"
    "next_sep buf (if i = 0 then length pre + 1 else length pre + i) =
       (case rest_step ns cs of None \<Rightarrow> None | Some (c, ns', cs') \<Rightarrow> Some (length (pre @ hd ns), c))"
    "\<And>c ns' cs'. rest_step ns cs = Some (c, ns', cs') \<Longrightarrow>
       buf = (pre @ hd ns @ [c]) @ rest_str ns' cs' \<and>
       (\<exists>d. rd buf (Suc (length (pre @ hd ns))) = Some d \<and> d \<noteq> NUL)"
    by (rule scan_name [OF assms(1,2,3,5)]) blast
  have st: "starts_at SEPS buf 0 (length pre)" unfolding assms(5) by (rule starts_at_name [OF assms(4)])
  show ?thesis
  proof (cases "rest_step ns cs")
    case None
    then show ?thesis using * st by (subst class_start.simps) auto
  next
    case (Some x)
    then obtain c ns' cs' where "rest_step ns cs = Some (c, ns', cs')" by (cases x) auto
    then show ?thesis using * st by (subst class_start.simps) (auto simp: Let_def)
  qed
qed

lemma findClass_step:
  assumes "nms ns" "\<forall>c \<in> set cs. nms c" "nm s" "at_name SEPS 0 pre" "buf = pre @ rest_str ns cs"
  shows "findClass_loop buf s (length pre) r =
    (if s = hd ns then Some r
     else case rest_step ns cs of None \<Rightarrow> None
       | Some (c, ns', cs') \<Rightarrow> findClass_loop buf s (length (pre @ hd ns @ [c]))
           (if c = SLASH then r + 1 else r))"
proof -
  obtain i full where *: "match_loop buf (length pre) s 0 = Some (i, full)"
    "full \<and> ends_at SEPS buf (length pre + i) \<longleftrightarrow> s = hd ns"
    "next_sep buf (if i = 0 then length pre + 1 else length pre + i) =
       (case rest_step ns cs of None \<Rightarrow> None | Some (c, ns', cs') \<Rightarrow> Some (length (pre @ hd ns), c))"
    "\<And>c ns' cs'. rest_step ns cs = Some (c, ns', cs') \<Longrightarrow>
       buf = (pre @ hd ns @ [c]) @ rest_str ns' cs' \<and>
       (\<exists>d. rd buf (Suc (length (pre @ hd ns))) = Some d \<and> d \<noteq> NUL)"
    by (rule scan_name [OF assms(1,2,3,5)]) blast
  have st: "starts_at SEPS buf 0 (length pre)" unfolding assms(5) by (rule starts_at_name [OF assms(4)])
  show ?thesis
  proof (cases "rest_step ns cs")
    case None
    then show ?thesis using * st by (subst findClass_loop.simps) auto
  next
    case (Some x)
    then obtain c ns' cs' where "rest_step ns cs = Some (c, ns', cs')" by (cases x) auto
    then show ?thesis using * st by (subst findClass_loop.simps) (auto simp: Let_def)
  qed
qed

lemma at_name_snoc [simp]: "c \<in> S \<Longrightarrow> at_name S k (pre @ e @ [c])"
  by (simp add: at_name_def)

lemma findClass_loop_index:
  assumes "nms ns" "\<forall>c \<in> set cs. nms c" "nm s" "at_name SEPS 0 pre"
  shows "findClass_loop (pre @ rest_str ns cs) s (length pre) r =
    map_option (\<lambda>k. r + int k) (first_index (\<lambda>c. s \<in> set c) (ns # cs))"
  using assms
proof (induction ns cs arbitrary: pre r rule: rest_str.induct)
  case (1 cs)
  then show ?case by (simp add: nms_def)
next
  case (2 e)
  then show ?case using findClass_step [OF "2.prems" refl] by simp
next
  case (3 e c cs)
  then show ?case
    using findClass_step [OF "3.prems" refl, of r] "3.IH" [of "pre @ e @ [SLASH]" "r + 1"]
    by (auto simp: option.map_comp o_def nms_Cons ac_simps split: if_splits)
next
  case (4 e f ns cs)
  then show ?case
    using findClass_step [OF "4.prems" refl, of r] "4.IH" [of "pre @ e @ [COMMA]" r]
    by (auto simp: nms_Cons split: if_splits)
qed

lemma class_start_found:
  assumes "nms ns" "\<forall>c \<in> set cs. nms c" "nm s" "at_name SEPS 0 pre"
  shows "class_start (pre @ rest_str ns cs) s (length pre) st =
    (if s \<in> set ns then Some st
     else map_option (\<lambda>k. length (pre @ rest_str ns (take k cs)) + 1) (first_index (\<lambda>c. s \<in> set c) cs))"
  using assms
proof (induction ns cs arbitrary: pre st rule: rest_str.induct)
  case (1 cs)
  then show ?case by (simp add: nms_def)
next
  case (2 e)
  then show ?case using class_start_step [OF "2.prems" refl] by simp
next
  case (3 e c cs)
  have "\<not> s \<in> set c \<Longrightarrow> first_index (\<lambda>c. s \<in> set c) (c # cs) = map_option Suc (first_index (\<lambda>c. s \<in> set c) cs)"
    by simp
  then show ?case
    using class_start_step [OF "3.prems" refl, of st]
      "3.IH" [of "pre @ e @ [SLASH]" "length (pre @ e @ [SLASH])"] "3.prems"
    by (auto simp: option.map_comp o_def nms_Cons)
next
  case (4 e f ns cs)
  then show ?case
    using class_start_step [OF "4.prems" refl, of st] "4.IH" [of "pre @ e @ [COMMA]" st]
    by (auto simp: nms_Cons split: if_splits intro!: option.map_cong)
qed

text \<open>The second loop of \<^verbatim>\<open>sameClass\<close>, inside of a name and at the start of a name.\<close>

lemma in_class_inside:
  assumes "nul_free w" "COMMA \<notin> set w" "SLASH \<notin> set w" "sep_tail SEPS t" "nul_free t" "nm v"
    "u \<noteq> []" "COMMA \<notin> set u" "start \<le> length p"
  shows "in_class (p @ u @ w @ t) v start (length (p @ u)) =
    in_class (p @ u @ w @ t) v start (length (p @ u @ w))"
  using assms
proof (induction "length w" arbitrary: u w rule: less_induct)
  case less
  show ?case
  proof (cases w)
    case Nil
    then show ?thesis by simp
  next
    case (Cons x w')
    let ?buf = "p @ u @ w @ t"
    have lcp: "lcp v (w @ t) = lcp v w"
      using less.prems(4,6) lcp_append_sep [of _ v w] by (cases t) (auto simp: sep_tail_def)
    have m: "match_loop ?buf (length (p @ u)) v 0 = Some (lcp v w, lcp v w = length v)"
      using match_loop_lcp [of v "w @ t" "length (p @ u)" "p @ u"] less.prems lcp by simp
    have "last u \<noteq> COMMA" using less.prems(7,8) last_in_set [of u] by metis
    then have st: "\<not> starts_at {COMMA} ?buf start (length (p @ u))"
      using starts_at_iff [of "{COMMA}" "p @ u" "w @ t" start] less.prems by auto
    define n where "n = (if lcp v w = 0 then 1 else lcp v w)"
    have td: "take n w @ drop n w @ t = w @ t" by (metis append_assoc append_take_drop_id)
    have n: "n \<le> length w" "n \<noteq> 0" using lcp_le(2) [of v w] Cons by (auto simp: n_def)
    have b: "rd ?buf (length (p @ u)) = Some x" "x \<noteq> SLASH" "x \<noteq> NUL"
      using less.prems Cons by (auto simp: rd_def nth_append)
    have "in_class ?buf v start (length (p @ u)) = in_class ?buf v start (length (p @ u) + n)"
      using b m st by (subst in_class.simps) (auto simp: n_def)
    also have "\<dots> = in_class (p @ (u @ take n w) @ drop n w @ t) v start (length (p @ (u @ take n w)))"
      using n by (simp add: min_absorb2 td add.assoc)
    also have "\<dots> = in_class (p @ (u @ take n w) @ drop n w @ t) v start
        (length (p @ (u @ take n w) @ drop n w))"
      using less.prems n
      by (intro less.hyps) (auto simp: nul_free_def dest: in_set_takeD in_set_dropD)
    finally show ?thesis by (simp add: td)
  qed
qed

lemma in_class_mem:
  assumes "nms ns" "\<forall>c \<in> set cs. nms c" "nm v" "at_name {COMMA} start pre" "start \<le> length pre"
  shows "in_class (pre @ rest_str ns cs) v start (length pre) = Some (v \<in> set ns)"
  using assms
proof (induction ns arbitrary: pre)
  case Nil
  then show ?case by (simp add: nms_def)
next
  case (Cons e ns)
  define t where "t = tail_str (e # ns) cs"
  let ?buf = "pre @ e @ t"
  have buf: "rest_str (e # ns) cs = e @ t" by (simp add: t_def rest_str_tail)
  have e: "nm e" using Cons.prems(1) by (simp add: nms_Cons)
  have t: "sep_tail SEPS t" "nul_free t" using tail_str_sep [OF Cons.prems(1,2)] by (auto simp: t_def)
  note m = name_matches [OF e Cons.prems(3) t subset_refl, of pre]
  obtain x where x: "rd ?buf (length pre) = Some x" "x \<noteq> SLASH" "x \<noteq> NUL"
    using nm_not_Nil [OF e] nm_nul_free [OF e] nm_no_slash [OF e] by (cases e) auto
  have st: "starts_at {COMMA} ?buf start (length pre)" by (rule starts_at_name [OF Cons.prems(4)])
  show ?case
  proof (cases "v = e")
    case True
    then show ?thesis using m x st unfolding buf by (subst in_class.simps) auto
  next
    case False
    obtain u w where uw: "e = u @ w" "u \<noteq> []"
      "(if lcp v e = 0 then length pre + 1 else length pre + lcp v e) = length (pre @ u)"
      using after_match [OF e, where s = v and j = "length pre"] by (metis length_append)
    have w: "nul_free w" "COMMA \<notin> set w" "SLASH \<notin> set w" "COMMA \<notin> set u"
      using nm_nul_free [OF e] nm_no_comma [OF e] nm_no_slash [OF e] uw(1) by auto
    have "in_class ?buf v start (length pre) = in_class ?buf v start (length (pre @ u))"
      using m x st False uw(3) by (subst in_class.simps) auto
    also have "\<dots> = in_class ?buf v start (length (pre @ e))"
      using in_class_inside [OF w(1-3) t Cons.prems(3) uw(2) w(4) Cons.prems(5)] uw(1) by simp
    finally have go: "in_class ?buf v start (length pre) = in_class ?buf v start (length (pre @ e))" .
    show ?thesis
    proof (cases ns)
      case Nil
      then have "\<exists>c. rd ?buf (length (pre @ e)) = Some c \<and> (c = SLASH \<or> c = NUL)"
        using rd_here [of "pre @ e" t] by (cases cs) (auto simp: t_def tail_str_def)
      then have "in_class ?buf v start (length (pre @ e)) = Some False"
        by (subst in_class.simps) auto
      then show ?thesis using go Nil False buf by simp
    next
      case ns: (Cons f fs)
      let ?t' = "rest_str ns cs"
      have t': "t = COMMA # ?t'" by (simp add: t_def tail_str_def ns)
      have nf: "nul_free (COMMA # ?t')" using t(2) t' by simp
      have m': "match_loop ?buf (length (pre @ e)) v 0 = Some (0, False)"
        using match_loop_lcp [OF nm_nul_free [OF Cons.prems(3)] nf _ refl, of "pre @ e"] Cons.prems(3)
        by (simp add: t' lcp_sep)
      have "in_class ?buf v start (length (pre @ e)) = in_class ?buf v start (length (pre @ e @ [COMMA]))"
        using m' rd_here [of "pre @ e" t] t' by (subst in_class.simps) auto
      also have "\<dots> = Some (v \<in> set ns)"
        using Cons.IH [of "pre @ e @ [COMMA]"] Cons.prems ns by (simp add: t' nms_Cons)
      finally show ?thesis using go False buf by simp
    qed
  qed
qed

text \<open>
  \<^verbatim>\<open>findClass\<close> and \<^verbatim>\<open>sameClass\<close> on a printed structure. A name that is in no class makes
  both leave the string.
\<close>

lemma nul_free_state: "\<forall>c \<in> set cs. nms c \<Longrightarrow> nul_free (show_state cs)"
  using nms_nm nm_nul_free by (auto simp: show_state_def nul_free_join)

lemma show_state_rest:
  "\<forall>c \<in> set (c # cs). nms c \<Longrightarrow> show_state (c # cs) = rest_str c cs"
  by (subst rest_str_join) auto

lemma findClass_state:
  assumes "cs \<noteq> []" "\<forall>c \<in> set cs. nms c" "nm s"
  shows "findClass (show_state cs) s = map_option int (first_index (\<lambda>c. s \<in> set c) cs)"
proof -
  obtain c ds where cs: "cs = c # ds" using assms(1) by (cases cs) auto
  show ?thesis
    using findClass_loop_index [of c ds s "[]" 0] assms nul_free_state [OF assms(2)]
    by (simp add: findClass_def cs show_state_rest at_name_def)
qed

lemma show_state_append:
  "us \<noteq> [] \<Longrightarrow> vs \<noteq> [] \<Longrightarrow> show_state (us @ vs) = show_state us @ SLASH # show_state vs"
  by (simp add: show_state_def join_append)

definition upto_class :: "string list list \<Rightarrow> string" where
  "upto_class us = (if us = [] then [] else show_state us @ [SLASH])"

lemma show_state_split:
  assumes "\<forall>c \<in> set (us @ c # vs). nms c"
  shows "show_state (us @ c # vs) = upto_class us @ rest_str c vs"
  using assms show_state_append [of us "c # vs"] show_state_rest [of c vs]
  by (cases "us = []") (auto simp: upto_class_def)

lemma first_index_at:
  "\<forall>u \<in> set us. \<not> P u \<Longrightarrow> P c \<Longrightarrow> first_index P (us @ c # vs) = Some (length us)"
  by (induction us) auto

lemma class_start_state:
  assumes "\<forall>c \<in> set (us @ c # vs). nms c" "nm s" "s \<in> set c" "\<forall>u \<in> set us. s \<notin> set u"
  shows "class_start (show_state (us @ c # vs)) s 0 0 = Some (length (upto_class us))"
proof (cases us)
  case Nil
  then show ?thesis
    using class_start_found [of c vs s "[]" 0] assms by (simp add: show_state_rest at_name_def upto_class_def)
next
  case (Cons u us')
  then have eq: "show_state (us @ c # vs) = rest_str u (us' @ c # vs)" "show_state us = rest_str u us'"
    using assms(1) by (simp_all add: show_state_rest)
  have "first_index (\<lambda>c. s \<in> set c) (us' @ c # vs) = Some (length us')"
    using assms(3,4) Cons by (intro first_index_at) auto
  then show ?thesis
    using class_start_found [of u "us' @ c # vs" s "[]" 0] assms Cons eq
    by (simp add: at_name_def upto_class_def)
qed

lemma sameClass_state:
  assumes "state_ok cs" "nm v" "c \<in> set cs" "s \<in> set c"
  shows "sameClass (show_state cs) s v = Some (v \<in> set c)"
proof -
  obtain us vs where cs: "cs = us @ c # vs" using assms(3) by (metis split_list)
  have all: "\<forall>d \<in> set (us @ c # vs). nms d" using assms(1) by (simp add: state_ok_def cs)
  have s: "nm s" using all assms(4) by auto
  have "\<forall>u \<in> set us. s \<notin> set u" using assms(1,4) by (auto simp: state_ok_def cs)
  then have "class_start (show_state cs) s 0 0 = Some (length (upto_class us))"
    unfolding cs using class_start_state [OF all s assms(4)] by blast
  moreover have "in_class (show_state cs) v (length (upto_class us)) (length (upto_class us)) = Some (v \<in> set c)"
    unfolding cs show_state_split [OF all] using all assms(2)
    by (intro in_class_mem) (auto simp: at_name_def)
  ultimately show ?thesis
    using s assms(2) nul_free_state [OF all] by (simp add: sameClass_def cs)
qed

section \<open>Properties\<close>

text \<open>
  C22. \<^verbatim>\<open>findstr\<close> on a printed class and an argument of one or more names. When the argument is a set whose
  first name has ten or more bytes, its copy overflows the buffer \<^verbatim>\<open>r[10]\<close>. Otherwise \<^verbatim>\<open>findstr\<close> reads only
  inside of its strings and decides whether the first name of the argument is in the class.
\<close>

theorem findstr_decides_membership:
  assumes "nms es" "nms ss"
  shows "findstr (join COMMA es) (join COMMA ss) =
    (if length ss = 1 \<or> length (hd ss) < 10 then Some (hd ss \<in> set es) else None)"
  using findstr_class [OF assms] first_arg_overflow [OF assms(2)] by (auto simp: findstr_def)

theorem findstr_decides_membership_witness:
  "findstr (join COMMA [''aa'', ''ab'', ''b'']) (join COMMA [''ab'', ''c'']) = Some True \<and>
   findstr (join COMMA [''a'', ''b'']) (join COMMA [''abcdefghij'', ''c'']) = None"
  using findstr_decides_membership [of "[''aa'', ''ab'', ''b'']" "[''ab'', ''c'']"]
    findstr_decides_membership [of "[''a'', ''b'']" "[''abcdefghij'', ''c'']"]
  by (simp add: nms_def nm_def del: name_rules)

end
