(* ===== verification/Ot_Cplt.thy ===== *)
theory Ot_Cplt
  imports Ot_Scan
begin

text \<open>
  What \<^verbatim>\<open>cpltClass\<close> of \<^verbatim>\<open>src/ot.c\<close> computes on a printed structure: the rest of the
  class that contains a given set of names, or \<open>*\<close> when there is no rest.
\<close>

section \<open>Names inside of a printed class\<close>

lemma split_on_append_gen: "split_on c (x @ c # z) = split_on c x @ split_on c z"
proof (induction x)
  case Nil
  then show ?case by simp
next
  case (Cons a x)
  then show ?case by (cases "split_on c x") auto
qed

lemma infix_name:
  assumes "nms ns" "join COMMA ns = x @ s @ y" "nm s" "x = [] \<or> last x = COMMA" "y = [] \<or> hd y = COMMA"
  shows "s \<in> set ns"
proof -
  have s: "split_on COMMA (s @ y) = s # (if y = [] then [] else split_on COMMA (tl y))"
    using assms(3,5) split_on_append [of COMMA s "tl y"] by (cases y) auto
  have "s \<in> set (split_on COMMA (x @ s @ y))"
  proof (cases "x = []")
    case True
    then show ?thesis using s by simp
  next
    case False
    then have "x @ s @ y = butlast x @ COMMA # (s @ y)"
      using assms(4) append_butlast_last_id [OF False] by (metis append.assoc append_Cons append_Nil)
    then have "split_on COMMA (x @ s @ y) = split_on COMMA (butlast x) @ split_on COMMA (s @ y)"
      using split_on_append_gen by metis
    then show ?thesis using s by simp
  qed
  then show ?thesis using split_class [OF assms(1)] assms(2) by simp
qed

lemma name_infix:
  assumes "nms ns" "s \<in> set ns"
  obtains x y where "join COMMA ns = x @ s @ y" "x = [] \<or> last x = COMMA" "y = [] \<or> hd y = COMMA"
proof -
  obtain us vs where ns: "ns = us @ s # vs" using assms(2) by (metis split_list)
  define x where "x = (if us = [] then [] else join COMMA us @ [COMMA])"
  define y where "y = (if vs = [] then [] else COMMA # join COMMA vs)"
  have "join COMMA (s # vs) = s @ y" by (simp add: y_def join_Cons)
  then have "join COMMA ns = x @ s @ y"
    using join_append [of us "s # vs" COMMA] by (cases "us = []") (simp_all add: ns x_def)
  then show thesis by (rule that) (auto simp: x_def y_def)
qed

lemma count_commas: "nms ns \<Longrightarrow> count_list (join COMMA ns) COMMA = length ns - 1"
proof (induction ns)
  case (Cons n ns)
  have "count_list n COMMA = 0" using Cons.prems by (simp add: nms_Cons count_list_0_iff)
  then show ?case using Cons by (cases ns) (auto simp: nms_Cons)
qed (simp add: nms_def)

lemma last_class: "nms ns \<Longrightarrow> last (join COMMA ns) \<noteq> COMMA"
proof (induction ns)
  case (Cons n ns)
  have "last n \<noteq> COMMA" using Cons.prems nm_no_comma [of n] last_in_set [of n] by (metis nms_Cons nm_not_Nil)
  then show ?case using Cons by (cases ns) (auto simp: nms_Cons)
qed (simp add: nms_def)

lemma count_commas_butlast:
  assumes "nms ns"
  shows "count_list (butlast (join COMMA ns)) COMMA = length ns - 1"
proof -
  have "count_list (butlast (join COMMA ns) @ [last (join COMMA ns)]) COMMA = length ns - 1"
    using assms by (simp add: count_commas)
  then show ?thesis using last_class [OF assms] by simp
qed

section \<open>The loops of \<^verbatim>\<open>cpltClass\<close>\<close>

lemma class_end_eq:
  assumes "w \<noteq> []" "nul_free w" "SLASH \<notin> set w" "sep_tail {SLASH} t"
  shows "class_end (p @ w @ t) (length p) n =
    Some (length p + length w - 1, n + count_list (butlast w) COMMA)"
  using assms
proof (induction w arbitrary: p n rule: list_nonempty_induct)
  case (single x)
  then have "\<exists>c. rd (p @ [x] @ t) (Suc (length p)) = Some c \<and> (c = SLASH \<or> c = NUL)"
    using rd_next [of p x t] by (cases t) (auto simp: sep_tail_def)
  then show ?case by (subst class_end.simps) auto
next
  case (cons x w)
  then obtain y w' where w: "w = y # w'" by (cases w) auto
  have "rd (p @ (x # w) @ t) (Suc (length p)) = Some y" using rd_next [of p x "w @ t"] by (simp add: w)
  moreover have "y \<noteq> SLASH" "y \<noteq> NUL" using cons.prems w by auto
  moreover have "rd (p @ (x # w) @ t) (length p) = Some x" by simp
  ultimately have "class_end (p @ (x # w) @ t) (length p) n =
      class_end ((p @ [x]) @ w @ t) (length (p @ [x])) (if x = COMMA then Suc n else n)"
    by (subst class_end.simps) simp
  also have "\<dots> = Some (length (p @ [x]) + length w - 1,
      (if x = COMMA then Suc n else n) + count_list (butlast w) COMMA)"
    using cons.prems by (intro cons.IH) auto
  finally show ?case using w by auto
qed

lemma cplt_match_aux:
  assumes "nul_free (u @ v)" "nul_free r" "v \<noteq> []"
  shows "cplt_match (q @ u @ r) start (u @ v) (length q) (length u) =
    (if lcp v r < length v then Some False
     else if starts_at {COMMA} (q @ u @ r) start (length q) \<and>
       ends_at SEPS (q @ u @ r) (length q + length (u @ v)) then Some True
     else if length r = length v then None else Some False)"
  using assms
proof (induction v r arbitrary: u rule: lcp.induct)
  case (1 x xs y ys)
  let ?buf = "q @ u @ y # ys"
  have r: "rd ?buf (length q + length u) = Some y" "rd (u @ x # xs) (length u) = Some x" by simp_all
  consider (neq) "x \<noteq> y" | (more) "x = y" "xs \<noteq> []" | (full) "x = y" "xs = []" by blast
  then show ?case
  proof cases
    case neq
    then show ?thesis using r by (subst cplt_match.simps) simp
  next
    case more
    have "cplt_match (q @ (u @ [x]) @ ys) start ((u @ [x]) @ xs) (length q) (length (u @ [x])) =
      (if lcp xs ys < length xs then Some False
       else if starts_at {COMMA} (q @ (u @ [x]) @ ys) start (length q) \<and>
         ends_at SEPS (q @ (u @ [x]) @ ys) (length q + length ((u @ [x]) @ xs)) then Some True
       else if length ys = length xs then None else Some False)"
      using "1.IH" [of "u @ [x]"] "1.prems" more by simp
    then show ?thesis using more r by (subst cplt_match.simps) simp
  next
    case full
    have r1: "rd (u @ [x]) (Suc (length u)) = Some NUL" by (simp add: rd_def)
    have r2: "rd ?buf (Suc (length q + length u)) = rd ys 0"
      using rd_next [of "q @ u" y ys] by simp
    have r3: "rd (u @ [x]) (Suc (Suc (length u))) = None" by (simp add: rd_def)
    have nxt: "cplt_match ?buf start (u @ [x]) (length q) (Suc (length u)) =
        (if ys = [] then None else Some False)"
    proof (cases ys)
      case Nil
      have "cplt_match ?buf start (u @ [x]) (length q) (Suc (Suc (length u))) = None"
        by (subst cplt_match.simps) (simp add: r3 split: option.splits)
      then show ?thesis using Nil r1 r2 by (subst cplt_match.simps) simp
    next
      case (Cons z zs)
      then show ?thesis using r1 r2 "1.prems" by (subst cplt_match.simps) simp
    qed
    show ?thesis using r full nxt by (subst cplt_match.simps) auto
  qed
next
  case (2 t)
  then show ?case by simp
next
  case (3 x xs)
  have "rd (q @ u @ []) (length q + length u) = Some NUL"
    using rd_append_right [of q "u @ []" "length u"] by simp
  moreover have "rd (u @ x # xs) (length u) = Some x" by simp
  ultimately show ?case using 3 by (subst cplt_match.simps) auto
qed

lemma cplt_match_eq:
  assumes "nm sub" "nul_free r"
  shows "cplt_match (q @ r) start sub (length q) 0 =
    (if lcp sub r < length sub then Some False
     else if starts_at {COMMA} (q @ r) start (length q) \<and>
       ends_at SEPS (q @ r) (length q + length sub) then Some True
     else if length r = length sub then None else Some False)"
  using cplt_match_aux [of "[]" sub r q start] assms by simp

lemma lcp_prefix: "lcp s r = length s \<Longrightarrow> r = s @ drop (length s) r"
  using take_lcp [of s r] by (metis append_take_drop_id take_all order_refl)

text \<open>
  One comparison inside of a class \<^term>\<open>ns\<close>, at a position \<open>length x\<close> where the name would
  still fit: it is safe unless it ends with the string, and it succeeds only on a name of the class.
\<close>

lemma cplt_match_class:
  assumes "nms ns" "nm sub" "join COMMA ns = x @ z" "length sub \<le> length z"
    "sep_tail {SLASH} t" "nul_free t" "t \<noteq> [] \<or> length sub < length z"
  shows "\<exists>hit. cplt_match (p @ x @ z @ t) (length p) sub (length (p @ x)) 0 = Some hit \<and> (hit \<longrightarrow> sub \<in> set ns)"
proof -
  let ?buf = "(p @ x) @ z @ t"
  have nf: "nul_free (z @ t)" using nul_free_class [OF assms(1)] assms(3,6) by simp
  have m: "cplt_match ?buf (length p) sub (length (p @ x)) 0 =
    (if lcp sub (z @ t) < length sub then Some False
     else if starts_at {COMMA} ?buf (length p) (length (p @ x)) \<and>
       ends_at SEPS ?buf (length (p @ x) + length sub) then Some True
     else if length (z @ t) = length sub then None else Some False)"
    by (rule cplt_match_eq [OF assms(2) nf])
  have "length (z @ t) \<noteq> length sub" using assms(4,7) by (cases t) auto
  moreover have "sub \<in> set ns"
    if full: "\<not> lcp sub (z @ t) < length sub"
      and st: "starts_at {COMMA} ?buf (length p) (length (p @ x))"
      and en: "ends_at SEPS ?buf (length (p @ x) + length sub)"
  proof -
    have "lcp sub (z @ t) = length sub" using full lcp_le(1) [of sub "z @ t"] by simp
    then have "take (length sub) (z @ t) = sub" using take_lcp [of sub "z @ t"] by simp
    then have "take (length sub) z = sub" using assms(4) by simp
    then obtain y where z: "z = sub @ y" by (metis append_take_drop_id)
    have "x = [] \<or> last x = COMMA"
      using st starts_at_iff [of "{COMMA}" "p @ x" "z @ t" "length p"] by (cases "x = []") auto
    moreover have "y = [] \<or> hd y = COMMA"
    proof (cases y)
      case (Cons a y')
      have "rd ?buf (length (p @ x) + length sub) = Some a"
        using rd_here [of "p @ x @ sub" "y @ t"] by (simp add: z Cons add.assoc)
      moreover have "a \<in> set (join COMMA ns)" by (simp add: assms(3) z Cons)
      ultimately show ?thesis
        using en slash_class [OF assms(1)] nul_free_class [OF assms(1)]
        by (auto simp: ends_at_def Cons nul_free_def)
    qed simp
    ultimately show ?thesis using infix_name [OF assms(1) _ assms(2), of x y] assms(3) z by simp
  qed
  ultimately show ?thesis using m by auto
qed

lemma cplt_scan_miss:
  assumes "nms ns" "nm sub" "sub \<notin> set ns" "join COMMA ns = x @ z" "n + length sub \<le> length z + 1"
    "sep_tail {SLASH} t" "nul_free t" "t \<noteq> []"
  shows "cplt_scan (p @ x @ z @ t) (length p) sub (length (p @ x)) n = Some False"
  using assms(4,5)
proof (induction n arbitrary: x z)
  case 0
  then show ?case by simp
next
  case (Suc n)
  then have len: "length sub \<le> length z" by simp
  moreover have "sub \<noteq> []" using assms(2) by simp
  ultimately obtain a z' where z: "z = a # z'" by (cases z) auto
  have m: "cplt_match (p @ x @ z @ t) (length p) sub (length (p @ x)) 0 = Some False"
    using cplt_match_class [OF assms(1,2) Suc.prems(1) len assms(6,7), of p] assms(3,8) by auto
  have "cplt_scan (p @ (x @ [a]) @ z' @ t) (length p) sub (length (p @ (x @ [a]))) n = Some False"
    using Suc.prems z by (intro Suc.IH) auto
  then show ?case using m by (simp add: z)
qed

lemma cplt_scan_hit:
  assumes "nms ns" "nm sub" "join COMMA ns = x @ z @ sub @ y" "length z < n"
    "x @ z = [] \<or> last (x @ z) = COMMA" "y = [] \<or> hd y = COMMA" "sep_tail {SLASH} t" "nul_free t"
  shows "cplt_scan (p @ x @ (z @ sub @ y) @ t) (length p) sub (length (p @ x)) n = Some True"
  using assms(3,4,5)
proof (induction n arbitrary: x z)
  case 0
  then show ?case by simp
next
  case (Suc n)
  let ?buf = "p @ x @ (z @ sub @ y) @ t"
  show ?case
  proof (cases z)
    case Nil
    have nf: "nul_free (sub @ y @ t)"
      using nul_free_class [OF assms(1)] assms(8) Suc.prems(1) by simp
    have "lcp sub (sub @ r) = length sub" for r by (induction sub) auto
    moreover have "starts_at {COMMA} ((p @ x) @ sub @ y @ t) (length p) (length (p @ x))"
      using Suc.prems(3) Nil starts_at_iff [of "{COMMA}" "p @ x" "sub @ y @ t" "length p"] by auto
    moreover have "ends_at SEPS ((p @ x) @ sub @ y @ t) (length (p @ x) + length sub)"
      using assms(6,7) rd_here [of "p @ x @ sub" "y @ t"]
      by (cases y; cases t) (auto simp: ends_at_def sep_tail_def add.assoc)
    ultimately have "cplt_match ((p @ x) @ sub @ y @ t) (length p) sub (length (p @ x)) 0 = Some True"
      using cplt_match_eq [OF assms(2) nf, of "p @ x" "length p"] by simp
    then show ?thesis by (simp add: Nil)
  next
    case (Cons a z')
    have "\<exists>hit. cplt_match ?buf (length p) sub (length (p @ x)) 0 = Some hit"
      using cplt_match_class [OF assms(1,2), of x "z @ sub @ y" t p] Suc.prems(1) assms(7,8) Cons by auto
    moreover have "cplt_scan (p @ (x @ [a]) @ (z' @ sub @ y) @ t) (length p) sub (length (p @ (x @ [a]))) n = Some True"
      using Suc.prems Cons by (intro Suc.IH) auto
    ultimately show ?thesis by (auto simp: Cons)
  qed
qed

section \<open>The rest of the class\<close>

text \<open>The first byte the outer loop looks at: the start of the string, or the \<open>/\<close> before a class.\<close>

definition entry :: "string \<Rightarrow> nat" where
  "entry p = (if p = [] then 0 else length p - 1)"

definition after_class :: "string list list \<Rightarrow> string" where
  "after_class vs = (if vs = [] then [] else SLASH # show_state vs)"

lemma after_class_ok:
  "\<forall>c \<in> set vs. nms c \<Longrightarrow> sep_tail {SLASH} (after_class vs) \<and> nul_free (after_class vs)"
  by (simp add: after_class_def sep_tail_def nul_free_state)

lemma show_state_Cons: "show_state (c # vs) = join COMMA c @ after_class vs"
  by (simp add: show_state_def after_class_def join_Cons)

text \<open>One round of the outer loop, on the class \<^term>\<open>c\<close> between \<^term>\<open>p\<close> and \<^term>\<open>t\<close>.\<close>

lemma cplt_loop_step:
  assumes "nms c" "p = [] \<or> last p = SLASH" "sep_tail {SLASH} t" "nul_free t"
  defines "w \<equiv> join COMMA c"
  shows "cplt_loop (p @ w @ t) s sub comma_s type (entry p) =
    (case (if comma_s < length c - 1 \<and> strlen s < length w \<or> comma_s = length c - 1 \<and> length w = strlen s
           then cplt_scan (p @ w @ t) (length p) sub (length p) (length w + 1 - length sub) else Some False) of
       None \<Rightarrow> None
     | Some hit \<Rightarrow>
         if \<not> hit then cplt_loop (p @ w @ t) s sub comma_s type (length (p @ w))
         else if length w = strlen s then Some STAR
         else if type = 1 then sdsDel w s else firstOfsdsDel w s)"
proof -
  have w: "w \<noteq> []" "nul_free w" "SLASH \<notin> set w" using assms(1) by (simp_all add: w_def)
  then have lw: "length w \<ge> 1" by (cases w) auto
  have e: "class_end (p @ w @ t) (length p) 0 = Some (length p + length w - 1, length c - 1)"
    using class_end_eq [OF w assms(3), of p 0] assms(1) by (simp add: w_def count_commas_butlast)
  obtain b where b: "rd (p @ w @ t) (entry p) = Some b" "b \<noteq> NUL"
    "(if b = SLASH then Suc (entry p) else entry p) = length p"
  proof (cases "p = []")
    case True
    then show thesis using w by (intro that [of "hd w"]) (cases w, auto simp: entry_def)+
  next
    case False
    then have "p = butlast p @ [SLASH]" using assms(2) append_butlast_last_id [OF False] by simp
    then have "rd (p @ w @ t) (entry p) = Some SLASH"
      using False rd_here [of "butlast p" "SLASH # w @ t"]
      by (metis append.assoc append_Cons append_Nil entry_def length_butlast rd_Cons_0)
    then show thesis using False by (intro that [of SLASH]) (auto simp: entry_def Suc_diff_1)
  qed
  have "length p + length w - 1 - length p + 1 = length w"
    "length p + length w - 1 + 2 - (length sub + length p) = length w + 1 - length sub"
    "Suc (length p + length w - 1) = length (p @ w)"
    using lw by simp_all
  moreover have "take (length w) (drop (length p) (p @ w @ t)) = w" by simp
  moreover have "sdscat sdsempty w = w" "sdscat sdsempty STAR = STAR"
    using w by (simp_all add: sdsempty_def STAR_def)
  ultimately show ?thesis
    using b e by (subst cplt_loop.simps) (simp add: Let_def cong: if_cong option.case_cong)
qed

lemma length_class: "nms ns \<Longrightarrow> length (join COMMA ns) + 1 = sum_list (map length ns) + length ns"
  by (rule length_join) simp

lemma sum_list_mset_eq: "mset xs = mset ys \<Longrightarrow> sum_list (map f xs) = sum_list (map f ys)" for f :: "'a \<Rightarrow> nat"
  by (metis mset_map sum_mset_sum_list)

lemma subset_size:
  assumes "nms c" "distinct c" "nms ss" "distinct ss" "set ss \<subseteq> set c"
  shows "set ss = set c \<Longrightarrow> length ss = length c \<and> length (join COMMA ss) = length (join COMMA c)"
    and "set ss \<noteq> set c \<Longrightarrow> length ss < length c \<and> length (join COMMA ss) < length (join COMMA c)"
proof -
  note l = length_class [OF assms(1)] length_class [OF assms(3)]
  have sum: "sum_list (map length xs) = sum length (set xs)" if "distinct xs" for xs :: "string list"
    using that by (simp add: sum_list_distinct_conv_sum_set)
  have le: "sum length (set ss) \<le> sum length (set c)" using assms(5) by (intro sum_mono2) auto
  {
    assume "set ss = set c"
    then show "length ss = length c \<and> length (join COMMA ss) = length (join COMMA c)"
      using l sum assms(2,4) by (metis distinct_card add_right_cancel)
  }
  {
    assume "set ss \<noteq> set c"
    then have "card (set ss) < card (set c)" using assms(5) by (simp add: psubset_card_mono psubsetI)
    then have "length ss < length c" using assms(2,4) by (simp add: distinct_card)
    then show "length ss < length c \<and> length (join COMMA ss) < length (join COMMA c)"
      using l le sum [OF assms(2)] sum [OF assms(4)] by linarith
  }
qed

definition rest_of :: "int \<Rightarrow> string list \<Rightarrow> string list \<Rightarrow> string" where
  "rest_of type c ss =
     (if set c \<subseteq> set ss then STAR
      else if type = 1 then join COMMA (filter (\<lambda>x. x \<notin> set ss) c)
      else hd (filter (\<lambda>x. x \<notin> set ss) c))"

lemma cplt_loop_class:
  assumes "nms c" "distinct c" "nms ss" "distinct ss" "set ss \<subseteq> set c"
    "p = [] \<or> last p = SLASH" "sep_tail {SLASH} t" "nul_free t"
  shows "cplt_loop (p @ join COMMA c @ t) (join COMMA ss) (hd ss) (length ss - 1) type (entry p) =
    Some (rest_of type c ss)"
proof -
  let ?w = "join COMMA c" and ?s = "join COMMA ss"
  have sub: "nm (hd ss)" "hd ss \<in> set c" using assms(3,5) by (auto simp: nms_def)
  have ls: "strlen ?s = length ?s" using assms(3) by (simp add: strlen_eq)
  have "length ss \<noteq> 0" using assms(3) by (auto simp: nms_def)
  then have pos: "length ss < length c \<Longrightarrow> length ss - 1 < length c - 1" by linarith
  have cond: "length ss - 1 < length c - 1 \<and> length ?s < length ?w \<or>
      length ss - 1 = length c - 1 \<and> length ?w = length ?s"
    using subset_size [OF assms(1-5)] pos by (cases "set ss = set c") auto
  obtain x y where xy: "?w = x @ hd ss @ y" "x = [] \<or> last x = COMMA" "y = [] \<or> hd y = COMMA"
    by (rule name_infix [OF assms(1) sub(2)])
  have scan: "cplt_scan (p @ ?w @ t) (length p) (hd ss) (length p) (length ?w + 1 - length (hd ss)) = Some True"
    using cplt_scan_hit [OF assms(1) sub(1), of "[]" x y "length ?w + 1 - length (hd ss)" t p] xy assms(7,8)
    by simp
  have ne: "filter (\<lambda>x. x \<notin> set ss) c \<noteq> []" if "\<not> set c \<subseteq> set ss" using that by (auto simp: filter_empty_conv)
  have eq: "length ?w = length ?s \<longleftrightarrow> set c \<subseteq> set ss"
    using subset_size [OF assms(1-5)] assms(5) by (cases "set ss = set c") auto
  show ?thesis
    using cond scan eq ne sdsDel_class [OF assms(1,2,3)] firstOfsdsDel_class [OF assms(1,2,3)]
    unfolding cplt_loop_step [OF assms(1,6,7,8)] ls by (auto simp: rest_of_def Let_def)
qed

lemma cplt_loop_state:
  assumes "\<forall>d \<in> set (us @ c # vs). nms d" "distinct c" "nms ss" "distinct ss" "set ss \<subseteq> set c"
    "\<forall>u \<in> set us. hd ss \<notin> set u" "p = [] \<or> last p = SLASH"
  shows "cplt_loop (p @ show_state (us @ c # vs)) (join COMMA ss) (hd ss) (length ss - 1) type (entry p) =
    Some (rest_of type c ss)"
  using assms
proof (induction us arbitrary: p)
  case Nil
  then show ?case
    using after_class_ok [of vs] cplt_loop_class [of c ss p "after_class vs" type]
    by (simp add: show_state_Cons)
next
  case (Cons u us)
  define t where "t = after_class (us @ c # vs)"
  have t: "sep_tail {SLASH} t" "nul_free t" "t = SLASH # show_state (us @ c # vs)"
    using after_class_ok [of "us @ c # vs"] Cons.prems(1) by (auto simp: t_def after_class_def)
  have u: "nms u" "hd ss \<notin> set u" "nm (hd ss)" using Cons.prems by (auto simp: nms_def)
  have buf: "p @ show_state ((u # us) @ c # vs) = p @ join COMMA u @ t"
    by (simp add: show_state_Cons t_def)
  have miss: "cplt_scan (p @ join COMMA u @ t) (length p) (hd ss) (length p)
      (length (join COMMA u) + 1 - length (hd ss)) = Some False"
  proof (cases "length (hd ss) \<le> length (join COMMA u) + 1")
    case True
    then show ?thesis
      using cplt_scan_miss [OF u(1,3,2), of "[]" "join COMMA u" _ t p] t by simp
  qed simp
  have "cplt_loop (p @ join COMMA u @ t) (join COMMA ss) (hd ss) (length ss - 1) type (entry p) =
      cplt_loop (p @ join COMMA u @ t) (join COMMA ss) (hd ss) (length ss - 1) type (length (p @ join COMMA u))"
    unfolding cplt_loop_step [OF u(1) Cons.prems(7) t(1,2)] using miss by simp
  also have "\<dots> = cplt_loop ((p @ join COMMA u @ [SLASH]) @ show_state (us @ c # vs)) (join COMMA ss) (hd ss)
      (length ss - 1) type (entry (p @ join COMMA u @ [SLASH]))"
    by (simp add: t(3) entry_def)
  also have "\<dots> = Some (rest_of type c ss)"
    using Cons.prems by (intro Cons.IH) auto
  finally show ?case unfolding buf .
qed

text \<open>
  \<^verbatim>\<open>cpltClass\<close> on a printed structure, for a set of names of one class: no read outside of the
  strings, and the result is the rest of the class (\<^verbatim>\<open>type\<close> 1), its first name (any other
  \<^verbatim>\<open>type\<close>), or \<open>*\<close> when nothing is left.
\<close>

lemma cpltClass_state:
  assumes "state_ok cs" "c \<in> set cs" "nms ss" "distinct ss" "set ss \<subseteq> set c"
    "length ss = 1 \<or> length (hd ss) < 10"
  shows "cpltClass (show_state cs) (Some (join COMMA ss)) type = Some (rest_of type c ss)"
proof -
  obtain us vs where cs: "cs = us @ c # vs" using assms(2) by (metis split_list)
  have all: "\<forall>d \<in> set (us @ c # vs). nms d" using assms(1) by (simp add: state_ok_def cs)
  have hd: "hd ss \<in> set c" using assms(3,5) by (auto simp: nms_def)
  have "distinct c" "\<forall>u \<in> set us. hd ss \<notin> set u" using assms(1) hd by (auto simp: state_ok_def cs)
  then have "cplt_loop (show_state cs) (join COMMA ss) (hd ss) (length ss - 1) type 0 = Some (rest_of type c ss)"
    using cplt_loop_state [OF all _ assms(3,4,5), of "[]" type] by (simp add: cs entry_def)
  then show ?thesis
    using first_arg_class [OF assms(3,6)] nul_free_state [OF all] assms(3) count_commas [OF assms(3)]
    by (simp add: cpltClass_def cs Let_def)
qed

lemma cpltClass_None: "cpltClass buf None type = Some STAR"
  by (simp add: cpltClass_def sdsempty_def STAR_def)

section \<open>Comparison of sets of operation identifiers\<close>

definition left :: "string option list \<Rightarrow> string multiset" where
  "left list = mset (map the (filter (\<lambda>x. x \<noteq> None) list))"

lemma left_simps [simp]:
  "left [] = {#}"
  "left (x # xs) = (case x of None \<Rightarrow> left xs | Some v \<Rightarrow> add_mset v (left xs))"
  "left (xs @ ys) = left xs + left ys"
  by (auto simp: left_def split: option.splits)

lemma listsds_loop_eq:
  assumes "i + n = length list"
  shows "\<exists>list'. listsds_loop list v i n = Some (Some v \<in> set (drop i list), list') \<and>
    length list' = length list \<and>
    left list' = (if Some v \<in> set (drop i list) then left list - {#v#} else left list)"
  using assms
proof (induction list v i n rule: listsds_loop.induct)
  case (1 list v i)
  then show ?case by simp
next
  case (2 list v i n)
  then have i: "i < length list" by simp
  then have d: "drop i list = list ! i # drop (Suc i) list" by (simp add: Cons_nth_drop_Suc)
  show ?case
  proof (cases "list ! i = Some v")
    case True
    have "left list = add_mset v (left (list[i := None]))"
      using arg_cong [OF id_take_nth_drop [OF i], of left] True
      unfolding upd_conv_take_nth_drop [OF i] by simp
    then show ?thesis using True i d by simp
  next
    case False
    then show ?thesis using 2 i d by auto
  qed
qed

lemma in_left_iff: "v \<in># left list \<longleftrightarrow> Some v \<in> set list"
  by (induction list) (auto split: option.splits)

lemma all_listed_eq:
  assumes "len = length list"
  shows "all_listed xs list len = Some (mset xs \<subseteq># left list)"
  using assms
proof (induction xs arbitrary: list)
  case Nil
  then show ?case by simp
next
  case (Cons x xs)
  obtain list' where l: "sdslistsds list x len = Some (Some x \<in> set list, list')"
    "length list' = length list" "left list' = (if Some x \<in> set list then left list - {#x#} else left list)"
    using listsds_loop_eq [of 0 len list x] Cons.prems by (auto simp: sdslistsds_def)
  show ?case
  proof (cases "Some x \<in> set list")
    case True
    then have "mset (x # xs) \<subseteq># left list \<longleftrightarrow> mset xs \<subseteq># left list'"
      using l(3) by (simp add: in_left_iff insert_subset_eq_iff)
    then show ?thesis using Cons.IH [of list'] Cons.prems l True by simp
  next
    case False
    then have "\<not> mset (x # xs) \<subseteq># left list"
      by (metis in_left_iff insert_subset_eq_iff mset.simps(2))
    then show ?thesis using l False by simp
  qed
qed

lemma left_map_Some [simp]: "left (map Some xs) = mset xs"
  by (induction xs) auto

text \<open>
  With equally many entries on both sides the comparison decides equality of multisets.
\<close>

lemma oidscmp_eq:
  assumes "length (pieces COMMA s1) = length (pieces COMMA s2)"
  shows "oidscmp s1 s2 = Some (if mset (pieces COMMA s1) = mset (pieces COMMA s2) then 0 else 1)"
proof -
  have "mset (pieces COMMA s1) \<subseteq># mset (pieces COMMA s2) \<longleftrightarrow>
      mset (pieces COMMA s1) = mset (pieces COMMA s2)"
    using assms by (metis size_mset subset_mset.order_refl subset_mset.le_imp_less_or_eq mset_subset_size order_less_irrefl)
  then show ?thesis
    using assms by (simp add: oidscmp_def all_listed_eq)
qed

section \<open>Properties\<close>

text \<open>
  C21. \<^verbatim>\<open>cpltClass\<close> on a printed structure, for distinct names of one of its classes. When there are
  several names and the first one has ten or more bytes, its copy overflows the buffer \<^verbatim>\<open>r_s[10]\<close>. Otherwise
  the function reads only inside of its strings and returns \<open>*\<close> when the names are the whole class, and else
  the rest of the class (for type 1) or the first name of the rest (for the other types).
\<close>

theorem cpltClass_rest:
  assumes "state_ok cs" "c \<in> set cs" "nms ss" "distinct ss" "set ss \<subseteq> set c"
  shows "cpltClass (show_state cs) (Some (join COMMA ss)) type =
    (if length ss \<noteq> 1 \<and> 10 \<le> length (hd ss) then None
     else Some (if set c \<subseteq> set ss then STAR
       else if type = 1 then join COMMA (filter (\<lambda>x. x \<notin> set ss) c)
       else hd (filter (\<lambda>x. x \<notin> set ss) c)))"
proof (cases "length ss = 1 \<or> length (hd ss) < 10")
  case True
  then show ?thesis using cpltClass_state [OF assms True] by (auto simp: rest_of_def)
next
  case False
  then show ?thesis using first_arg_overflow [OF assms(3)] by (simp add: cpltClass_def)
qed

theorem cpltClass_rest_witness:
  "cpltClass (show_state [[''a''], [''b'', ''c'', ''d'']]) (Some (join COMMA [''c''])) 2 = Some ''b'' \<and>
   cpltClass (show_state [[''abcdefghij'', ''c'', ''d'']]) (Some (join COMMA [''abcdefghij'', ''c''])) 2 = None"
  using cpltClass_rest [of "[[''a''], [''b'', ''c'', ''d'']]" "[''b'', ''c'', ''d'']" "[''c'']" 2]
    cpltClass_rest [of "[[''abcdefghij'', ''c'', ''d'']]" "[''abcdefghij'', ''c'', ''d'']" "[''abcdefghij'', ''c'']" 2]
  by (simp add: state_ok_def nms_def nm_def del: name_rules)

end
