(* ===== verification/Ufs_State.thy ===== *)
theory Ufs_State
  imports Ufs_Classes Ot_Cplt
begin

text \<open>
  The printed form of a union-find-split structure that the vertices of the OT state space carry
  (\<^verbatim>\<open>updateVerticeUfsFromState\<close> of \<^verbatim>\<open>src/ufs.c\<close>): the effect of an operation on the text,
  and that it implements the operation on the classes the text stands for.
\<close>

section \<open>Operations on the printed form\<close>

definition OPTYPE_UNION :: int where
  "OPTYPE_UNION = 1"

definition OPTYPE_SPLIT :: int where
  "OPTYPE_SPLIT = 2"

text \<open>The search loop of the union branch; \<open>-1\<close> stands for an argument not found yet.\<close>

fun arg_classes :: "string list \<Rightarrow> int \<Rightarrow> string \<Rightarrow> string \<Rightarrow> int \<Rightarrow> int \<Rightarrow> (int \<times> int) option" where
  "arg_classes [] i argv1 argv2 c1 c2 = Some (c1, c2)"
| "arg_classes (e # es) i argv1 argv2 c1 c2 = do {
     f1 \<leftarrow> (if c1 = -1 then findstr e argv1 else Some False);
     let c1' = (if f1 then i else c1);
     f2 \<leftarrow> (if c2 = -1 then findstr e argv2 else Some False);
     let c2' = (if f2 then i else c2);
     if c1' \<noteq> -1 \<and> c2' \<noteq> -1 then Some (c1', c2') else arg_classes es (i + 1) argv1 argv2 c1' c2'
   }"

text \<open>The printing loop of the union branch: class \<open>high\<close> is left out, class \<open>low\<close> replaced.\<close>

fun print_union :: "string \<Rightarrow> string list \<Rightarrow> nat \<Rightarrow> nat \<Rightarrow> nat \<Rightarrow> nat \<Rightarrow> string \<Rightarrow> string" where
  "print_union acc [] i low high len temp = acc"
| "print_union acc (e # es) i low high len temp =
     (if i = high then print_union acc es (Suc i) low high len temp
      else
        let acc1 = sdscat acc (if i = low then temp else e);
            acc2 = (if high \<noteq> len - 1
                    then (if i \<noteq> len - 1 then sdscat acc1 [SLASH] else acc1)
                    else (if i \<noteq> len - 2 then sdscat acc1 [SLASH] else acc1))
        in print_union acc2 es (Suc i) low high len temp)"

definition union_state :: "string list \<Rightarrow> string \<Rightarrow> string \<Rightarrow> string option" where
  "union_state elements argv1 argv2 =
     (if streq argv1 star \<or> streq argv2 star then Some sdsempty
      else do {
        (c1, c2) \<leftarrow> arg_classes elements 0 argv1 argv2 (-1) (-1);
        if c1 \<noteq> c2 then
          let low = (if c1 < c2 then c1 else c2);
              high = (if c1 > c2 then c1 else c2)
          in if low < 0 then None
             else
               let temp = sdscat (sdscat (sdsnew (elements ! nat low)) [COMMA]) (elements ! nat high)
               in Some (print_union sdsempty elements 0 (nat low) (nat high) (length elements) temp)
        else Some sdsempty
      })"

text \<open>The search loop of the split branch breaks at the first class that has the argument.\<close>

fun split_class_at :: "string list \<Rightarrow> int \<Rightarrow> string \<Rightarrow> int option" where
  "split_class_at [] i argv1 = Some (-1)"
| "split_class_at (e # es) i argv1 = do {
     f \<leftarrow> findstr e argv1;
     if f then Some (if length e \<noteq> strlen argv1 then i else -1)
     else split_class_at es (i + 1) argv1
   }"

fun print_split :: "string \<Rightarrow> string list \<Rightarrow> nat \<Rightarrow> nat \<Rightarrow> nat \<Rightarrow> string \<Rightarrow> string \<Rightarrow> string" where
  "print_split acc [] i k len temp argv1 = acc"
| "print_split acc (e # es) i k len temp argv1 =
     (let acc' =
        (if i \<noteq> k then
           let acc1 = sdscat acc e in if i \<noteq> len - 1 then sdscat acc1 [SLASH] else acc1
         else
           let acc1 = sdscat (sdscat (sdscat acc temp) [SLASH]) argv1
           in if k \<noteq> len - 1 then sdscat acc1 [SLASH] else acc1)
      in print_split acc' es (Suc i) k len temp argv1)"

definition split_state :: "string list \<Rightarrow> string \<Rightarrow> string option" where
  "split_state elements argv1 =
     (if streq argv1 star then Some sdsempty
      else do {
        k \<leftarrow> split_class_at elements 0 argv1;
        if k \<noteq> -1 then do {
          temp \<leftarrow> sdsDel (sdsnew (elements ! nat k)) argv1;
          Some (print_split sdsempty elements 0 (nat k) (length elements) temp argv1)
        }
        else Some sdsempty
      })"

text \<open>
  \<^verbatim>\<open>updateVerticeUfsFromState(u,type,argv1,argv2,v,len_u)\<close>: the new \<^verbatim>\<open>v->content\<close>. An
  empty text stands for no change.
\<close>

definition updateVerticeUfsFromState ::
  "string \<Rightarrow> int \<Rightarrow> string \<Rightarrow> string \<Rightarrow> int \<Rightarrow> string option" where
  "updateVerticeUfsFromState u type argv1 argv2 len_u = do {
     elements \<leftarrow> sdssplitlen u len_u [SLASH];
     v_ufs \<leftarrow> (if type = OPTYPE_UNION then union_state elements argv1 argv2
               else split_state elements argv1);
     Some (if length v_ufs = 0 then u else v_ufs)
   }"

section \<open>Classes of a printed form\<close>

definition parse_state :: "string \<Rightarrow> string list list" where
  "parse_state u = map (split_on COMMA) (split_on SLASH u)"

definition part_rel :: "string list list \<Rightarrow> (string \<times> string) set" where
  "part_rel cs = (\<Union>c \<in> set cs. set c \<times> set c)"

definition elems :: "string list list \<Rightarrow> string set" where
  "elems cs = set (concat cs)"

text \<open>The relation on names that a text stands for, and the well-formed texts.\<close>

definition text_rel :: "string \<Rightarrow> (string \<times> string) set" where
  "text_rel u = part_rel (parse_state u)"

definition text_ok :: "string \<Rightarrow> bool" where
  "text_ok u \<longleftrightarrow> state_ok (parse_state u)"

lemma show_parse [simp]: "show_state (parse_state u) = u"
  by (simp add: show_state_def parse_state_def o_def map_idI)

lemma parse_show [simp]:
  assumes "state_ok cs"
  shows "parse_state (show_state cs) = cs"
proof -
  have nms: "\<forall>c \<in> set cs. nms c" "cs \<noteq> []" using assms by (auto simp: state_ok_def)
  then have "split_on SLASH (show_state cs) = map (join COMMA) cs"
    unfolding show_state_def by (intro split_on_join) auto
  then show ?thesis using nms by (simp add: parse_state_def map_idI)
qed

lemma text_ok_show [simp]: "state_ok cs \<Longrightarrow> text_ok (show_state cs)"
  by (simp add: text_ok_def)

lemma text_rel_show [simp]: "state_ok cs \<Longrightarrow> text_rel (show_state cs) = part_rel cs"
  by (simp add: text_rel_def)

lemma text_cases:
  assumes "text_ok u"
  obtains cs where "u = show_state cs" "state_ok cs" "text_rel u = part_rel cs"
  using assms that [of "parse_state u"] by (simp add: text_ok_def text_rel_def)

lemma part_rel_iff: "(x, y) \<in> part_rel cs \<longleftrightarrow> (\<exists>c \<in> set cs. x \<in> set c \<and> y \<in> set c)"
  by (auto simp: part_rel_def)

lemma part_class:
  assumes "state_ok cs" "c \<in> set cs" "x \<in> set c"
  shows "(x, y) \<in> part_rel cs \<longleftrightarrow> y \<in> set c"
proof -
  have "d = c" if "d \<in> set cs" "x \<in> set d" for d
  proof (rule ccontr)
    assume "d \<noteq> c"
    obtain us vs where cs: "cs = us @ c # vs" using assms(2) by (metis split_list)
    then have "d \<in> set us \<or> d \<in> set vs" using that(1) \<open>d \<noteq> c\<close> by auto
    then have "x \<in> set (concat us) \<or> x \<in> set (concat vs)" using that(2) by auto
    moreover have "distinct (concat us @ c @ concat vs)" using assms(1) by (simp add: state_ok_def cs)
    then have "x \<notin> set (concat us)" "x \<notin> set (concat vs)" using assms(3) by auto
    ultimately show False by blast
  qed
  then show ?thesis using assms(2,3) unfolding part_rel_iff by blast
qed

lemma equiv_part_rel: "state_ok cs \<Longrightarrow> equiv (elems cs) (part_rel cs)"
proof (rule equivI_all)
  fix x y z
  assume ok: "state_ok cs" and xy: "(x, y) \<in> part_rel cs"
  show "x \<in> elems cs \<and> y \<in> elems cs" using xy by (auto simp: part_rel_iff elems_def)
  show "(y, x) \<in> part_rel cs" using xy by (auto simp: part_rel_iff)
  assume yz: "(y, z) \<in> part_rel cs"
  obtain c where c: "c \<in> set cs" "x \<in> set c" "y \<in> set c" using xy by (auto simp: part_rel_iff)
  then show "(x, z) \<in> part_rel cs"
    using yz part_class [OF ok c(1,2), of z] part_class [OF ok c(1,3), of z] by simp
qed (auto simp: part_rel_iff elems_def)
section \<open>The search loops\<close>

definition class_pos :: "string list list \<Rightarrow> int \<Rightarrow> string \<Rightarrow> int" where
  "class_pos cs i a = (case first_index (\<lambda>c. a \<in> set c) cs of None \<Rightarrow> -1 | Some k \<Rightarrow> i + int k)"

lemma class_pos_Cons: "class_pos (c # cs) i a = (if a \<in> set c then i else class_pos cs (i + 1) a)"
  by (auto simp: class_pos_def split: option.splits)

definition arg_ok :: "string list \<Rightarrow> bool" where
  "arg_ok ss \<longleftrightarrow> nms ss \<and> (length ss = 1 \<or> length (hd ss) < 10)"

lemma arg_ok_nms [simp]: "arg_ok ss \<Longrightarrow> nms ss"
  by (simp add: arg_ok_def)

lemma findstr_arg: "nms c \<Longrightarrow> arg_ok ss \<Longrightarrow> findstr (join COMMA c) (join COMMA ss) = Some (hd ss \<in> set c)"
  by (simp add: arg_ok_def findstr_class)

lemma arg_classes_pos:
  assumes "\<forall>c \<in> set cs. nms c" "arg_ok A" "arg_ok B" "0 \<le> i"
  shows "arg_classes (map (join COMMA) cs) i (join COMMA A) (join COMMA B) c1 c2 =
    Some (if c1 \<noteq> -1 then c1 else class_pos cs i (hd A), if c2 \<noteq> -1 then c2 else class_pos cs i (hd B))"
  using assms
proof (induction cs arbitrary: i c1 c2)
  case Nil
  then show ?case by (simp add: class_pos_def)
next
  case (Cons c cs)
  have f: "findstr (join COMMA c) (join COMMA A) = Some (hd A \<in> set c)"
    "findstr (join COMMA c) (join COMMA B) = Some (hd B \<in> set c)"
    using Cons.prems by (simp_all add: findstr_arg)
  have "i + 1 \<noteq> 0 \<and> i \<noteq> -1" using Cons.prems(4) by simp
  then show ?case
    using Cons.IH [of "i + 1"] Cons.prems f by (auto simp: class_pos_Cons Let_def)
qed

lemma split_class_at_pos:
  assumes "\<forall>c \<in> set cs. nms c" "arg_ok ss"
  shows "split_class_at (map (join COMMA) cs) i (join COMMA ss) =
    Some (case first_index (\<lambda>c. hd ss \<in> set c) cs of None \<Rightarrow> -1
      | Some k \<Rightarrow> if length (join COMMA (cs ! k)) \<noteq> length (join COMMA ss) then i + int k else -1)"
  using assms
proof (induction cs arbitrary: i)
  case Nil
  then show ?case by simp
next
  case (Cons c cs)
  have f: "findstr (join COMMA c) (join COMMA ss) = Some (hd ss \<in> set c)"
    "strlen (join COMMA ss) = length (join COMMA ss)"
    using Cons.prems by (simp_all add: findstr_arg strlen_eq)
  then show ?case
    using Cons.IH [of "i + 1"] Cons.prems by (auto split: option.splits)
qed

section \<open>The printing loops\<close>

fun sel :: "'a list \<Rightarrow> nat \<Rightarrow> nat \<Rightarrow> nat \<Rightarrow> 'a \<Rightarrow> 'a list" where
  "sel [] i low high t = []"
| "sel (e # es) i low high t =
     (if i = high then sel es (Suc i) low high t
      else (if i = low then t else e) # sel es (Suc i) low high t)"

fun ins :: "'a list \<Rightarrow> nat \<Rightarrow> nat \<Rightarrow> 'a \<Rightarrow> 'a \<Rightarrow> 'a list" where
  "ins [] i k t a = []"
| "ins (e # es) i k t a = (if i = k then t # a # ins es (Suc i) k t a else e # ins es (Suc i) k t a)"

lemma sel_Nil_iff: "sel es i low high t = [] \<longleftrightarrow> es = [] \<or> length es = 1 \<and> i = high"
  by (cases es; cases "tl es") auto

lemma print_union_join:
  assumes "i + length es = len" "high < len" "2 \<le> len"
    "\<forall>e \<in> set es. nul_free e" "nul_free temp"
  shows "print_union acc es i low high len temp = acc @ join SLASH (sel es i low high temp)"
  using assms
proof (induction es arbitrary: acc i)
  case Nil
  then show ?case by simp
next
  case (Cons e es)
  show ?case
  proof (cases "i = high")
    case True
    then show ?thesis using Cons by simp
  next
    case False
    define x where "x = (if i = low then temp else e)"
    define rest where "rest = sel es (Suc i) low high temp"
    define slash where "slash = (if rest \<noteq> [] then [SLASH] else [])"
    have nf: "nul_free x" using Cons.prems by (simp add: x_def)
    have "rest \<noteq> [] \<longleftrightarrow> \<not> (length es = 0 \<or> length es = 1 \<and> Suc i = high)"
      by (simp add: rest_def sel_Nil_iff)
    moreover have "len = Suc (i + length es)" using Cons.prems(1) by simp
    moreover have "\<not> (n = 0 \<or> n = 1 \<and> Suc i = high) \<longleftrightarrow>
        (if high \<noteq> len - 1 then i \<noteq> len - 1 else i \<noteq> len - 2)" if "len = Suc (i + n)" for n
      using that Cons.prems(2,3) False by (cases "high = i + n") auto
    ultimately have sep: "rest \<noteq> [] \<longleftrightarrow> (if high \<noteq> len - 1 then i \<noteq> len - 1 else i \<noteq> len - 2)"
      by metis
    have "print_union acc (e # es) i low high len temp =
        print_union (acc @ x @ slash) es (Suc i) low high len temp"
      using False sep nf unfolding slash_def by (simp add: Let_def x_def [symmetric])
    also have "\<dots> = (acc @ x @ slash) @ join SLASH rest"
      unfolding rest_def using Cons.prems by (intro Cons.IH) auto
    also have "\<dots> = acc @ join SLASH (x # rest)" by (simp add: slash_def join_Cons)
    also have "x # rest = sel (e # es) i low high temp" using False by (simp add: x_def rest_def)
    finally show ?thesis .
  qed
qed

lemma ins_Nil_iff [simp]: "ins es i k t a = [] \<longleftrightarrow> es = []"
  by (cases es) auto

lemma print_split_join:
  assumes "i + length es = len" "\<forall>e \<in> set es. nul_free e" "nul_free temp" "nul_free a"
  shows "print_split acc es i k len temp a = acc @ join SLASH (ins es i k temp a)"
  using assms
proof (induction acc es i k len temp a rule: print_split.induct)
  case (1 acc i k len temp a)
  then show ?case by simp
next
  case (2 acc e es i k len temp a)
  have sep: "i \<noteq> len - 1 \<longleftrightarrow> es \<noteq> []" using "2.prems" by auto
  then show ?case
    using "2.IH" [OF refl] "2.prems" by (cases "es = []") (auto simp: Let_def join_Cons)
qed

lemma sel_append: "sel (us @ vs) i low high t = sel us i low high t @ sel vs (i + length us) low high t"
  by (induction us arbitrary: i) auto

lemma sel_id: "i + length us \<le> low \<or> low < i \<Longrightarrow> i + length us \<le> high \<or> high < i \<Longrightarrow> sel us i low high t = us"
  by (induction us arbitrary: i) auto

lemma sel_at:
  "sel (xs @ L # ys @ H # zs) 0 (length xs) (Suc (length xs + length ys)) t = xs @ t # ys @ zs"
  by (simp add: sel_append sel_id)

lemma ins_append: "ins (us @ vs) i k t a = ins us i k t a @ ins vs (i + length us) k t a"
  by (induction us arbitrary: i) auto

lemma ins_id: "i + length us \<le> k \<or> k < i \<Longrightarrow> ins us i k t a = us"
  by (induction us arbitrary: i) auto

lemma ins_at: "ins (xs @ c # ys) 0 (length xs) t a = xs @ t # a # ys"
  by (simp add: ins_append ins_id)

section \<open>Union and split of classes\<close>

lemma part_rel_perm: "set cs = set ds \<Longrightarrow> part_rel cs = part_rel ds"
  by (simp add: part_rel_def)

lemma part_image: "state_ok cs \<Longrightarrow> c \<in> set cs \<Longrightarrow> a \<in> set c \<Longrightarrow> part_rel cs `` {a} = set c"
  using part_class by fastforce

lemma part_rel_merge:
  assumes "state_ok (xs @ L # ys @ H # zs)" "a \<in> set L" "b \<in> set H"
  shows "part_rel (xs @ (L @ H) # ys @ zs) = merge (part_rel (xs @ L # ys @ H # zs)) a b"
proof -
  let ?cs = "xs @ L # ys @ H # zs"
  have "part_rel ?cs `` {a} = set L" "part_rel ?cs `` {b} = set H"
    by (rule part_image [OF assms(1) _ assms(2)], simp) (rule part_image [OF assms(1) _ assms(3)], simp)
  then show ?thesis unfolding merge_def by (auto simp: part_rel_def)
qed

lemma merge_sym: "merge R a b = merge R b a"
  by (auto simp: merge_def)

lemma state_ok_merge:
  assumes "state_ok (xs @ L # ys @ H # zs)"
  shows "state_ok (xs @ (L @ H) # ys @ zs)"
proof -
  have "mset (concat (xs @ (L @ H) # ys @ zs)) = mset (concat (xs @ L # ys @ H # zs))" by simp
  then have "distinct (concat (xs @ (L @ H) # ys @ zs))"
    using assms mset_eq_imp_distinct_iff unfolding state_ok_def by blast
  moreover have "nms (L @ H)" using assms by (auto simp: state_ok_def nms_def)
  ultimately show ?thesis using assms unfolding state_ok_def by simp
qed

definition rest_class :: "string list \<Rightarrow> string list \<Rightarrow> string list" where
  "rest_class c ss = filter (\<lambda>x. x \<notin> set ss) c"

lemma part_rel_isolate:
  assumes "state_ok (xs @ c # ys)" "set ss \<subseteq> set c"
  shows "part_rel (xs @ rest_class c ss # ss # ys) = isolate (part_rel (xs @ c # ys)) (set ss)"
proof -
  have "distinct (concat xs @ c @ concat ys)" using assms(1) by (simp add: state_ok_def)
  then have "set ss \<inter> set d = {}" if "d \<in> set xs \<or> d \<in> set ys" for d
    using that assms(2) by (auto 0 3)
  then show ?thesis
    using assms(2) unfolding isolate_def part_rel_def rest_class_def by fastforce
qed

lemma state_ok_isolate:
  assumes "state_ok (xs @ c # ys)" "set ss \<subset> set c" "nms ss" "distinct ss"
  shows "state_ok (xs @ rest_class c ss # ss # ys)"
proof -
  have d: "distinct (concat xs @ c @ concat ys)" and c: "nms c"
    using assms(1) by (simp_all add: state_ok_def)
  have "distinct (concat (xs @ rest_class c ss # ss # ys))"
    using d assms(2,4) by (auto simp: rest_class_def)
  moreover have "nms (rest_class c ss)"
    using c assms(2) unfolding nms_def rest_class_def by (auto simp: filter_empty_conv)
  ultimately show ?thesis using assms(1,3) unfolding state_ok_def by simp
qed

lemma two_at:
  assumes "i < j" "j < length cs"
  obtains xs ys zs where "cs = xs @ cs ! i # ys @ cs ! j # zs" "i = length xs" "j = Suc (length xs + length ys)"
proof -
  let ?xs = "take i cs" and ?ys = "take (j - Suc i) (drop (Suc i) cs)" and ?zs = "drop (Suc j) cs"
  have "cs = ?xs @ cs ! i # drop (Suc i) cs" using assms by (simp add: id_take_nth_drop)
  moreover have "drop (Suc i) cs = ?ys @ cs ! j # ?zs"
    using id_take_nth_drop [of "j - Suc i" "drop (Suc i) cs"] assms by simp
  ultimately have "cs = ?xs @ cs ! i # ?ys @ cs ! j # ?zs" by metis
  moreover have "i = length ?xs" "j = Suc (length ?xs + length ?ys)" using assms by auto
  ultimately show thesis by (rule that)
qed

lemma length_show:
  assumes "cs \<noteq> []"
  shows "length (show_state cs) + 1 = sum_list (map (\<lambda>c. length (join COMMA c)) cs) + length cs"
  using length_join [of "map (join COMMA) cs" SLASH] assms by (simp add: show_state_def o_def)

lemma length_merge:
  assumes "L \<noteq> []" "H \<noteq> []"
  shows "length (show_state (xs @ (L @ H) # ys @ zs)) = length (show_state (xs @ L # ys @ H # zs))"
  using length_show [of "xs @ (L @ H) # ys @ zs"] length_show [of "xs @ L # ys @ H # zs"] assms
  by (simp add: join_append)

lemma length_isolate:
  assumes "nms c" "distinct c" "nms ss" "distinct ss" "set ss \<subset> set c"
  shows "length (show_state (xs @ rest_class c ss # ss # ys)) = length (show_state (xs @ c # ys))"
proof -
  have "mset c = mset (rest_class c ss) + mset (filter (\<lambda>x. x \<in> set ss) c)"
    by (simp add: rest_class_def)
  moreover have "mset (filter (\<lambda>x. x \<in> set ss) c) = mset ss"
    using assms(2,4,5) by (subst set_eq_iff_mset_eq_distinct [symmetric]) auto
  ultimately have m: "mset c = mset (rest_class c ss @ ss)" by simp
  then have "length c = length (rest_class c ss) + length ss"
    "sum_list (map length c) = sum_list (map length (rest_class c ss)) + sum_list (map length ss)"
    using mset_eq_length [OF m] sum_list_mset_eq [OF m, of length] by simp_all
  moreover have "nms (rest_class c ss)"
    using assms(1,5) unfolding nms_def rest_class_def by (auto simp: filter_empty_conv)
  ultimately have "length (join COMMA c) = length (join COMMA (rest_class c ss)) + length (join COMMA ss) + 1"
    using length_class [OF assms(1)] length_class [OF assms(3)] length_class [of "rest_class c ss"] by linarith
  then show ?thesis
    using length_show [of "xs @ rest_class c ss # ss # ys"] length_show [of "xs @ c # ys"] by simp
qed

text \<open>What an operation on a text does to the classes, and that the length of the text stays.\<close>

definition text_refines :: "string \<Rightarrow> string option \<Rightarrow> (string \<times> string) set \<Rightarrow> bool" where
  "text_refines u r R \<longleftrightarrow>
     (\<exists>u'. r = Some u' \<and> text_ok u' \<and> text_rel u' = R \<and> length u' = length u)"

lemma text_refinesI:
  assumes "state_ok cs'" "r = Some (show_state cs')" "part_rel cs' = R" "length (show_state cs') = length u"
  shows "text_refines u r R"
  using assms by (auto simp: text_refines_def)

lemma text_refines_same: "text_ok u \<Longrightarrow> R = text_rel u \<Longrightarrow> text_refines u (Some u) R"
  by (simp add: text_refines_def)

lemma show_not_Nil: "state_ok cs \<Longrightarrow> show_state cs \<noteq> []"
proof -
  assume ok: "state_ok cs"
  then obtain c ds where "cs = c # ds" by (cases cs) (auto simp: state_ok_def)
  then show ?thesis using ok by (simp add: state_ok_def show_state_Cons)
qed

lemma split_show: "state_ok cs \<Longrightarrow> sdssplitlen (show_state cs) (int (length (show_state cs))) [SLASH] =
    Some (map (join COMMA) cs)"
proof -
  assume ok: "state_ok cs"
  then have "split_on SLASH (show_state cs) = map (join COMMA) cs"
    unfolding show_state_def by (intro split_on_join) (auto simp: state_ok_def)
  then show ?thesis using show_not_Nil [OF ok] by (simp add: pieces_def)
qed

lemma print_union_state:
  assumes "state_ok (xs @ L # ys @ H # zs)" "low = length xs" "high = Suc (length xs + length ys)"
  shows "print_union [] (map (join COMMA) (xs @ L # ys @ H # zs)) 0 low high (length (xs @ L # ys @ H # zs))
      (join COMMA L @ COMMA # join COMMA H) = show_state (xs @ (L @ H) # ys @ zs)"
proof -
  have nms: "\<forall>c \<in> set (xs @ L # ys @ H # zs). nms c" using assms(1) unfolding state_ok_def by blast
  then have "L \<noteq> []" "H \<noteq> []" by auto
  then have t: "join COMMA L @ COMMA # join COMMA H = join COMMA (L @ H)" by (simp add: join_append)
  have "sel (map (join COMMA) (xs @ L # ys @ H # zs)) 0 low high (join COMMA (L @ H)) =
      map (join COMMA) (xs @ (L @ H) # ys @ zs)"
    using sel_at [of "map (join COMMA) xs" "join COMMA L" "map (join COMMA) ys"] assms(2,3) by simp
  then show ?thesis
    unfolding t show_state_def using nms assms(2,3)
    by (subst print_union_join) (auto simp flip: t)
qed

section \<open>Refinement\<close>

text \<open>The arguments of operations: \<open>*\<close>, or distinct names of one class of the structure.\<close>

definition targ :: "(string \<times> string) set \<Rightarrow> string \<Rightarrow> bool" where
  "targ R a \<longleftrightarrow> a = star \<or> arg_ok (args a) \<and> distinct (args a) \<and> within_class R (args a)"

lemma join_args [simp]: "join COMMA (args a) = a"
  by (simp add: args_def)

lemma nul_free_targ [simp]: "targ R a \<Longrightarrow> nul_free a"
  by (metis targ_def arg_ok_nms nul_free_class join_args nul_free_star)

lemma targ_streq: "targ R a \<Longrightarrow> streq a star \<longleftrightarrow> a = star"
  by (simp add: streq_iff)

lemma class_pos_found:
  assumes "state_ok cs" "within_class (part_rel cs) A"
  obtains k where "k < length cs" "hd A \<in> set (cs ! k)" "set A \<subseteq> set (cs ! k)"
    "first_index (\<lambda>c. hd A \<in> set c) cs = Some k" "class_pos cs i (hd A) = i + int k"
proof -
  have A: "A \<noteq> []" "\<forall>y \<in> set A. (hd A, y) \<in> part_rel cs"
    using assms(2) by (auto simp: within_class_def)
  then have "(hd A, hd A) \<in> part_rel cs" by simp
  then have "\<exists>c \<in> set cs. hd A \<in> set c" by (auto simp: part_rel_iff)
  then obtain k where k: "first_index (\<lambda>c. hd A \<in> set c) cs = Some k"
    by (metis first_index_None not_None_eq)
  then have kl: "k < length cs" "hd A \<in> set (cs ! k)" by (auto simp: first_index_Some)
  moreover have "set A \<subseteq> set (cs ! k)"
    using A(2) part_class [OF assms(1) nth_mem [OF kl(1)] kl(2)] by blast
  ultimately show thesis using k by (intro that [of k]) (auto simp: class_pos_def)
qed

lemma union_state_refines:
  assumes ok: "state_ok cs" and A: "arg_ok A" "within_class (part_rel cs) A"
    and B: "arg_ok B" "within_class (part_rel cs) B"
    and ns: "join COMMA A \<noteq> star" "join COMMA B \<noteq> star"
  shows "text_refines (show_state cs)
    (updateVerticeUfsFromState (show_state cs) OPTYPE_UNION (join COMMA A) (join COMMA B)
       (int (length (show_state cs))))
    (merge (part_rel cs) (hd A) (hd B))"
proof -
  have nms: "\<forall>c \<in> set cs. nms c" using ok by (simp add: state_ok_def)
  obtain k where k: "k < length cs" "hd A \<in> set (cs ! k)" "class_pos cs 0 (hd A) = int k"
    using class_pos_found [OF ok A(2), of 0] by auto
  obtain m where m: "m < length cs" "hd B \<in> set (cs ! m)" "class_pos cs 0 (hd B) = int m"
    using class_pos_found [OF ok B(2), of 0] by auto
  have pos: "arg_classes (map (join COMMA) cs) 0 (join COMMA A) (join COMMA B) (-1) (-1) = Some (int k, int m)"
    using arg_classes_pos [OF nms A(1) B(1), of 0] k m by simp
  have nost: "\<not> streq (join COMMA A) star" "\<not> streq (join COMMA B) star"
    using ns A(1) B(1) by (simp_all add: streq_iff)
  let ?upd = "updateVerticeUfsFromState (show_state cs) OPTYPE_UNION (join COMMA A) (join COMMA B)
       (int (length (show_state cs)))"
  have merged: ?thesis
    if lt: "i < j" "j < length cs" and ab: "a \<in> set (cs ! i)" "b \<in> set (cs ! j)"
      and ij: "i = k \<and> j = m \<or> i = m \<and> j = k"
      and R: "merge (part_rel cs) a b = merge (part_rel cs) (hd A) (hd B)" for i j a b
  proof -
    obtain xs ys zs where cs: "cs = xs @ cs ! i # ys @ cs ! j # zs" "i = length xs" "j = Suc (length xs + length ys)"
      by (rule two_at [OF lt])
    define cs' where "cs' = xs @ (cs ! i @ cs ! j) # ys @ zs"
    have ok': "state_ok (xs @ cs ! i # ys @ cs ! j # zs)" using ok cs(1) by metis
    have nf: "nul_free (join COMMA (cs ! i))" "nul_free (join COMMA (cs ! j))" using nms lt by auto
    have "print_union [] (map (join COMMA) cs) 0 i j (length cs)
        (join COMMA (cs ! i) @ COMMA # join COMMA (cs ! j)) = show_state cs'"
      using print_union_state [OF ok' cs(2,3)] cs(1) unfolding cs'_def by metis
    then have "union_state (map (join COMMA) cs) (join COMMA A) (join COMMA B) = Some (show_state cs')"
      using pos nost ij lt nf by (auto simp: union_state_def Let_def)
    then have upd: "?upd = Some (show_state cs')"
      using state_ok_merge [OF ok'] show_not_Nil [of cs'] split_show [OF ok]
      by (simp add: updateVerticeUfsFromState_def cs'_def)
    have "nms (cs ! i)" "nms (cs ! j)" using nms lt by auto
    then have "length (show_state cs') = length (show_state cs)"
      using length_merge [of "cs ! i" "cs ! j" xs ys zs] cs(1) unfolding cs'_def by (metis nms_not_Nil)
    moreover have "part_rel cs' = merge (part_rel cs) (hd A) (hd B)"
      using part_rel_merge [OF ok' ab] R cs(1) unfolding cs'_def by metis
    ultimately show ?thesis
      using upd state_ok_merge [OF ok'] by (intro text_refinesI [of cs']) (simp_all add: cs'_def)
  qed
  consider "k = m" | "k < m" | "m < k" by linarith
  then show ?thesis
  proof cases
    case 1
    then have "(hd A, hd B) \<in> part_rel cs" using k m by (auto simp: part_rel_iff)
    then have "merge (part_rel cs) (hd A) (hd B) = part_rel cs"
      using merge_idle [OF equiv_part_rel [OF ok]] by blast
    moreover have "?upd = Some (show_state cs)"
      using pos nost 1 split_show [OF ok] by (simp add: updateVerticeUfsFromState_def union_state_def)
    ultimately show ?thesis using ok by (simp add: text_refines_same)
  next
    case 2
    then show ?thesis using merged [of k m] k m by blast
  next
    case 3
    then show ?thesis
      using merged [of m k "hd B" "hd A"] k m merge_sym [of "part_rel cs" "hd B" "hd A"] by blast
  qed
qed

lemma isolate_whole_class:
  assumes "state_ok cs" "c \<in> set cs" "set ss = set c"
  shows "isolate (part_rel cs) (set ss) = part_rel cs"
proof -
  have "x \<in> set ss \<longleftrightarrow> y \<in> set ss" if "(x, y) \<in> part_rel cs" for x y
  proof -
    obtain d where "d \<in> set cs" "x \<in> set d" "y \<in> set d" using \<open>(x, y) \<in> part_rel cs\<close> by (auto simp: part_rel_iff)
    then show ?thesis
      using that part_class [OF assms(1,2), of x y] part_class [OF assms(1,2), of y x] assms(3)
      by (auto simp: part_rel_iff)
  qed
  then show ?thesis by (auto simp: isolate_def)
qed

lemma split_state_refines:
  assumes ok: "state_ok cs" and S: "arg_ok ss" "distinct ss" "within_class (part_rel cs) ss"
    and ns: "join COMMA ss \<noteq> star"
  shows "text_refines (show_state cs)
    (updateVerticeUfsFromState (show_state cs) OPTYPE_SPLIT (join COMMA ss) b (int (length (show_state cs))))
    (isolate (part_rel cs) (set ss))"
proof -
  have nms: "\<forall>c \<in> set cs. nms c" using ok by (simp add: state_ok_def)
  have nost: "\<not> streq (join COMMA ss) star" using ns S(1) by (simp add: streq_iff)
  obtain k where k: "k < length cs" "set ss \<subseteq> set (cs ! k)" "first_index (\<lambda>c. hd ss \<in> set c) cs = Some k"
    using class_pos_found [OF ok S(3), of 0] by metis
  define c where "c = cs ! k"
  have c: "nms c" "distinct c" "c \<in> set cs"
    using nms k(1) ok by (auto simp: c_def state_ok_def distinct_concat_iff)
  have pos: "split_class_at (map (join COMMA) cs) 0 (join COMMA ss) =
      Some (if length (join COMMA c) \<noteq> length (join COMMA ss) then int k else -1)"
    using split_class_at_pos [OF nms S(1), of 0] k(3) by (simp add: c_def)
  note size = subset_size [OF c(1,2) arg_ok_nms [OF S(1)] S(2)]
  have type: "OPTYPE_SPLIT \<noteq> OPTYPE_UNION" by (simp add: OPTYPE_SPLIT_def OPTYPE_UNION_def)
  let ?upd = "updateVerticeUfsFromState (show_state cs) OPTYPE_SPLIT (join COMMA ss) b (int (length (show_state cs)))"
  show ?thesis
  proof (cases "set ss = set c")
    case True
    then have "length (join COMMA c) = length (join COMMA ss)" using size by auto
    then have "?upd = Some (show_state cs)"
      using pos nost split_show [OF ok] type by (simp add: updateVerticeUfsFromState_def split_state_def)
    moreover have "isolate (part_rel cs) (set ss) = part_rel cs"
      by (rule isolate_whole_class [OF ok c(3) True])
    ultimately show ?thesis using ok by (simp add: text_refines_same)
  next
    case False
    then have ne: "length (join COMMA c) \<noteq> length (join COMMA ss)" and sub: "set ss \<subset> set c"
      using size k(2) by (auto simp: c_def)
    define xs where "xs = take k cs"
    define ys where "ys = drop (Suc k) cs"
    have cs: "cs = xs @ c # ys" "k = length xs"
      using k(1) id_take_nth_drop [OF k(1)] by (simp_all add: xs_def ys_def c_def)
    have ok': "state_ok (xs @ c # ys)" using ok cs(1) by simp
    define cs' where "cs' = xs @ rest_class c ss # ss # ys"
    have ok'': "state_ok cs'"
      unfolding cs'_def by (rule state_ok_isolate [OF ok' sub arg_ok_nms [OF S(1)] S(2)])
    then have r: "nms (rest_class c ss)" by (simp add: state_ok_def cs'_def)
    have del: "sdsDel (sdsnew (map (join COMMA) cs ! k)) (join COMMA ss) = Some (join COMMA (rest_class c ss))"
      using sdsDel_class [OF c(1,2) arg_ok_nms [OF S(1)]] c(1) k(1) by (simp add: c_def rest_class_def)
    have "print_split [] (map (join COMMA) cs) 0 k (length cs) (join COMMA (rest_class c ss)) (join COMMA ss) =
        show_state cs'"
      using ins_at [of "map (join COMMA) xs" "join COMMA c" "map (join COMMA) ys" "join COMMA (rest_class c ss)" "join COMMA ss"]
        nms r S(1) cs
      by (subst print_split_join) (auto simp: show_state_def cs'_def)
    then have "split_state (map (join COMMA) cs) (join COMMA ss) = Some (show_state cs')"
      using pos nost ne del by (simp add: split_state_def)
    then have upd: "?upd = Some (show_state cs')"
      using show_not_Nil [OF ok''] split_show [OF ok] type by (simp add: updateVerticeUfsFromState_def)
    have "length (show_state cs') = length (show_state cs)"
      using length_isolate [OF c(1,2) arg_ok_nms [OF S(1)] S(2) sub, of xs ys] cs(1) by (simp add: cs'_def)
    moreover have "part_rel cs' = isolate (part_rel cs) (set ss)"
      using part_rel_isolate [OF ok', of ss] sub cs(1) by (auto simp: cs'_def)
    ultimately show ?thesis using upd ok'' by (intro text_refinesI [of cs']) simp_all
  qed
qed

definition op_of :: "int \<Rightarrow> string \<Rightarrow> string \<Rightarrow> string aop" where
  "op_of type a b = (if type = OPTYPE_UNION then union_op a b else split_op a)"

lemma update_refines:
  assumes "text_ok u" "targ (text_rel u) a" "type = OPTYPE_UNION \<Longrightarrow> targ (text_rel u) b"
    "type = OPTYPE_UNION \<or> type = OPTYPE_SPLIT"
  shows "text_refines u (updateVerticeUfsFromState u type a b (int (length u))) (aapply (op_of type a b) (text_rel u))"
proof -
  obtain cs where cs: "u = show_state cs" "state_ok cs" "text_rel u = part_rel cs"
    by (rule text_cases [OF assms(1)])
  have same: "text_refines u (Some u) (text_rel u)" by (rule text_refines_same [OF assms(1) refl])
  have type: "OPTYPE_SPLIT \<noteq> OPTYPE_UNION" by (simp add: OPTYPE_SPLIT_def OPTYPE_UNION_def)
  show ?thesis
  proof (cases "type = OPTYPE_UNION")
    case True
    then have b: "targ (text_rel u) b" using assms(3) by simp
    show ?thesis
    proof (cases "a = star \<or> b = star")
      case True
      then have "updateVerticeUfsFromState u type a b (int (length u)) = Some u"
        using \<open>type = OPTYPE_UNION\<close> by (auto simp: updateVerticeUfsFromState_def union_state_def)
      then show ?thesis using True \<open>type = OPTYPE_UNION\<close> same by (auto simp: op_of_def union_op_def)
    next
      case False
      then show ?thesis
        using union_state_refines [OF cs(2), of "args a" "args b"] assms(2) b True
        by (auto simp: targ_def op_of_def union_op_def cs)
    qed
  next
    case False
    then have t: "type = OPTYPE_SPLIT" using assms(4) by simp
    show ?thesis
    proof (cases "a = star")
      case True
      then have "updateVerticeUfsFromState u type a b (int (length u)) = Some u"
        using t type by (simp add: updateVerticeUfsFromState_def split_state_def)
      then show ?thesis using True t type same by (auto simp: op_of_def split_op_def)
    next
      case False
      then show ?thesis
        using split_state_refines [OF cs(2), of "args a" b] assms(2) t type
        by (auto simp: targ_def op_of_def split_op_def cs)
    qed
  qed
qed

end
