(* ===== verification/Ufs_Sort.thy ===== *)
theory Ufs_Sort
  imports Ufs_Classes "HOL-Library.Multiset"
begin

text \<open>
  The three sort routines of \<^verbatim>\<open>src/ufs.c\<close>, which order element names by the position of
  their vertex (\<^verbatim>\<open>locateVex\<close>). The routines are written over the key function
  \<^term>\<open>k\<close> of the comparisons, and instantiated with the positions in a graph. Arrays are
  lists; indices are natural numbers, where the \<open>pivotloc-1\<close> of the first recursive call of
  \<^verbatim>\<open>quickSort\<close> truncates at 0: for \<open>pivotloc = 0\<close> the call has \<open>low = 0\<close>, and
  \<open>low >= high\<close> holds for \<open>high = -1\<close> as it does for \<open>high = 0\<close>.
\<close>

section \<open>Bubble sort and insertion sort\<close>

definition swap :: "'a list \<Rightarrow> nat \<Rightarrow> nat \<Rightarrow> 'a list" where
  "swap xs i j = xs[i := xs ! j, j := xs ! i]"

fun bubble_inner :: "('a \<Rightarrow> int) \<Rightarrow> 'a list \<Rightarrow> nat \<Rightarrow> nat \<Rightarrow> 'a list" where
  "bubble_inner k xs j 0 = xs"
| "bubble_inner k xs j (Suc n) =
     bubble_inner k (if k (xs ! j) > k (xs ! Suc j) then swap xs j (Suc j) else xs) (Suc j) n"

text \<open>Round \<^term>\<open>i\<close> compares the positions \<open>0 \<dots> len-i-2\<close> with their successors.\<close>

fun bubble_outer :: "('a \<Rightarrow> int) \<Rightarrow> 'a list \<Rightarrow> nat \<Rightarrow> 'a list" where
  "bubble_outer k xs 0 = xs"
| "bubble_outer k xs (Suc m) = bubble_outer k (bubble_inner k xs 0 (Suc m)) m"

definition bubbleSort :: "('a \<Rightarrow> int) \<Rightarrow> 'a list \<Rightarrow> 'a list" where
  "bubbleSort k xs = bubble_outer k xs (length xs - 1)"

fun insert_inner :: "('a \<Rightarrow> int) \<Rightarrow> 'a list \<Rightarrow> 'a \<Rightarrow> nat \<Rightarrow> 'a list" where
  "insert_inner k xs temp 0 = xs[0 := temp]"
| "insert_inner k xs temp (Suc j) =
     (if k (xs ! j) > k temp then insert_inner k (xs[Suc j := xs ! j]) temp j
      else xs[Suc j := temp])"

fun insert_outer :: "('a \<Rightarrow> int) \<Rightarrow> 'a list \<Rightarrow> nat \<Rightarrow> nat \<Rightarrow> 'a list" where
  "insert_outer k xs i 0 = xs"
| "insert_outer k xs i (Suc n) = insert_outer k (insert_inner k xs (xs ! i) i) (Suc i) n"

definition insertSort :: "('a \<Rightarrow> int) \<Rightarrow> 'a list \<Rightarrow> 'a list" where
  "insertSort k xs = insert_outer k xs 1 (length xs - 1)"

section \<open>Quick sort\<close>

fun scan_down :: "('a \<Rightarrow> int) \<Rightarrow> 'a list \<Rightarrow> int \<Rightarrow> nat \<Rightarrow> nat \<Rightarrow> nat" where
  "scan_down k xs t low 0 = 0"
| "scan_down k xs t low (Suc high) =
     (if low < Suc high \<and> k (xs ! Suc high) \<ge> t then scan_down k xs t low high else Suc high)"

function scan_up :: "('a \<Rightarrow> int) \<Rightarrow> 'a list \<Rightarrow> int \<Rightarrow> nat \<Rightarrow> nat \<Rightarrow> nat" where
  "scan_up k xs t low high =
     (if low < high \<and> k (xs ! low) \<le> t then scan_up k xs t (Suc low) high else low)"
  by pat_completeness auto
termination
  by (relation "measure (\<lambda>(k, xs, t, low, high). high - low)") auto

declare scan_up.simps [simp del]

lemma scan_down_bounds: "low \<le> high \<Longrightarrow> low \<le> scan_down k xs t low high \<and> scan_down k xs t low high \<le> high"
  by (induction high) (auto simp: le_Suc_eq)

lemma scan_up_bounds:
  "low \<le> high \<Longrightarrow> low \<le> scan_up k xs t low high \<and> scan_up k xs t low high \<le> high"
proof (induction k xs t low high rule: scan_up.induct)
  case (1 k xs t low high)
  then show ?case by (subst (1 2) scan_up.simps) auto
qed

lemma scan_down_stop:
  "low \<le> high \<Longrightarrow> scan_down k xs t low high = low \<or> k (xs ! scan_down k xs t low high) < t"
  by (induction high) (auto simp: le_Suc_eq)

lemma scan_up_moves: "low < high \<Longrightarrow> k (xs ! low) \<le> t \<Longrightarrow> low < scan_up k xs t low high"
  using scan_up_bounds [of "Suc low" high k xs t] by (subst scan_up.simps) auto

text \<open>
  The outer loop of \<^verbatim>\<open>partition\<close>. The bound \<open>high < length xs\<close> always holds: it is part
  of the loop condition here so that the loop is a total function.
\<close>

function part_loop :: "('a \<Rightarrow> int) \<Rightarrow> 'a list \<Rightarrow> int \<Rightarrow> nat \<Rightarrow> nat \<Rightarrow> 'a list \<times> nat" where
  "part_loop k xs t low high =
     (if low < high \<and> high < length xs then
        let high' = scan_down k xs t low high;
            xs1 = xs[low := xs ! high'];
            low' = scan_up k xs1 t low high';
            xs2 = xs1[high' := xs1 ! low']
        in part_loop k xs2 t low' high'
      else (xs, low))"
  by pat_completeness auto
termination
proof (relation "measure (\<lambda>(k, xs, t, low, high). high - low)", goal_cases)
  case 1
  then show ?case by simp
next
  case (2 k xs t low high h xs1 l xs2)
  then have lh: "low < high" "high < length xs" by auto
  have h: "low \<le> h" "h \<le> high" "h = low \<or> k (xs ! h) < t"
    using 2 scan_down_bounds [of low high k xs t] scan_down_stop [of low high k xs t] by auto
  have l: "low \<le> l" "l \<le> h"
    using 2 h scan_up_bounds [of low h k xs1 t] by auto
  have "h - l < high - low"
  proof (cases "h = high")
    case True
    then have "k (xs1 ! low) \<le> t" using 2 h lh by auto
    then have "low < l" using 2 True lh scan_up_moves [of low h k xs1 t] by auto
    then show ?thesis using l h lh True by linarith
  next
    case False
    then show ?thesis using l h lh by linarith
  qed
  then show ?case by simp
qed

declare part_loop.simps [simp del]

definition partition :: "('a \<Rightarrow> int) \<Rightarrow> 'a list \<Rightarrow> nat \<Rightarrow> nat \<Rightarrow> 'a list \<times> nat" where
  "partition k xs low high =
     (let temp = xs ! low; (ys, p) = part_loop k xs (k temp) low high in (ys[p := temp], p))"

lemma part_loop_bounds:
  "low \<le> high \<Longrightarrow> low \<le> snd (part_loop k xs t low high) \<and> snd (part_loop k xs t low high) \<le> high"
proof (induction k xs t low high rule: part_loop.induct)
  case (1 k xs t low high)
  show ?case
  proof (cases "low < high \<and> high < length xs")
    case True
    define h where "h = scan_down k xs t low high"
    define xs1 where "xs1 = xs[low := xs ! h]"
    define l where "l = scan_up k xs1 t low h"
    have b: "low \<le> h" "h \<le> high" "low \<le> l" "l \<le> h"
      using scan_down_bounds [of low high k xs t] scan_up_bounds [of low h k xs1 t] True
      by (auto simp: h_def l_def)
    have "part_loop k xs t low high = part_loop k (xs1[h := xs1 ! l]) t l h"
      using True by (subst part_loop.simps) (simp add: Let_def h_def xs1_def l_def)
    then show ?thesis
      using "1.IH" [OF True h_def xs1_def l_def refl] b by auto
  next
    case False
    then show ?thesis using "1.prems" by (subst (1 2) part_loop.simps) auto
  qed
qed

lemma partition_bounds:
  "low \<le> high \<Longrightarrow> partition k xs low high = (ys, p) \<Longrightarrow> low \<le> p \<and> p \<le> high"
  using part_loop_bounds [of low high k xs "k (xs ! low)"]
  by (auto simp: partition_def Let_def split: prod.splits)

function quickSort :: "('a \<Rightarrow> int) \<Rightarrow> 'a list \<Rightarrow> nat \<Rightarrow> nat \<Rightarrow> 'a list" where
  "quickSort k xs low high =
     (if low \<ge> high then xs
      else case partition k xs low high of
        (ys, pivotloc) \<Rightarrow>
          quickSort k (quickSort k ys low (pivotloc - 1)) (pivotloc + 1) high)"
  by pat_completeness auto
termination
proof (relation "measure (\<lambda>(k, xs, low, high). high + 1 - low)", goal_cases)
  case 1
  then show ?case by simp
next
  case (2 k xs low high ys p)
  then show ?case using partition_bounds [of low high k xs ys p] by auto
next
  case (3 k xs low high ys p)
  then show ?case using partition_bounds [of low high k xs ys p] by auto
qed

declare quickSort.simps [simp del]

section \<open>Rearranging a range of an array\<close>

definition shuffled :: "nat \<Rightarrow> nat \<Rightarrow> 'a list \<Rightarrow> 'a list \<Rightarrow> bool" where
  "shuffled l h xs ys \<longleftrightarrow>
     take l ys = take l xs \<and> drop (Suc h) ys = drop (Suc h) xs \<and> mset ys = mset xs"

lemma shuffled_refl [simp]: "shuffled l h xs xs"
  by (simp add: shuffled_def)

lemma shuffled_trans [trans]:
  "shuffled l h xs ys \<Longrightarrow> shuffled l h ys zs \<Longrightarrow> shuffled l h xs zs"
  by (simp add: shuffled_def)

lemma shuffled_length: "shuffled l h xs ys \<Longrightarrow> length ys = length xs"
  by (metis shuffled_def mset_eq_length)

lemma shuffled_weaken:
  assumes "shuffled l h xs ys" "l' \<le> l" "h \<le> h'"
  shows "shuffled l' h' xs ys"
proof -
  have "take l' zs = take l' (take l zs)" "drop (Suc h') zs = drop (h' - h) (drop (Suc h) zs)"
    for zs :: "'a list"
    using assms(2,3) by (simp_all add: min_absorb1)
  then show ?thesis using assms(1) unfolding shuffled_def by metis
qed

lemma shuffled_outside:
  assumes "shuffled l h xs ys" "i < l \<or> h < i" "i < length xs"
  shows "ys ! i = xs ! i"
proof (cases "i < l")
  case True
  then show ?thesis using assms(1) by (metis shuffled_def nth_take)
next
  case False
  then have i: "i = Suc h + (i - Suc h)" using assms(2) by simp
  have "zs ! i = drop (Suc h) zs ! (i - Suc h)" if "length zs = length xs" for zs :: "'a list"
    using that assms(3) i by (subst nth_drop) simp_all
  then show ?thesis
    using assms(1) shuffled_length [OF assms(1)] unfolding shuffled_def by metis
qed

lemma shuffled_inside:
  assumes "shuffled l h xs ys" "l \<le> i" "i \<le> h" "h < length xs"
  obtains j where "l \<le> j" "j \<le> h" "ys ! i = xs ! j"
proof -
  define mid where "mid zs = drop l (take (Suc h) zs)" for zs :: "'a list"
  have len: "length ys = length xs" using assms(1) by (rule shuffled_length)
  have cut: "zs = take l zs @ mid zs @ drop (Suc h) zs" if "length zs = length xs" for zs
  proof -
    have "take l zs = take l (take (Suc h) zs)" using assms(2,3) by (simp add: min_absorb1)
    then have "take l zs @ mid zs = take (Suc h) zs"
      by (metis mid_def append_take_drop_id)
    then show ?thesis by (metis append.assoc append_take_drop_id)
  qed
  have "mset (take l ys) + (mset (mid ys) + mset (drop (Suc h) ys)) =
        mset (take l xs) + (mset (mid xs) + mset (drop (Suc h) xs))"
    using assms(1) cut [OF len] cut [OF refl] by (metis mset_append shuffled_def)
  then have "mset (mid ys) = mset (mid xs)" using assms(1) by (simp add: shuffled_def)
  moreover have "ys ! i = mid ys ! (i - l)" "i - l < length (mid ys)"
    using assms len by (simp_all add: mid_def)
  ultimately have "ys ! i \<in> set (mid xs)" by (metis nth_mem mset_eq_setD)
  then obtain n where "n < length (mid xs)" "ys ! i = mid xs ! n" by (metis in_set_conv_nth)
  then show thesis using assms by (intro that [of "l + n"]) (auto simp: mid_def)
qed

lemma shuffled_swap:
  assumes "l \<le> i" "i \<le> h" "l \<le> j" "j \<le> h" "h < length xs"
  shows "shuffled l h xs (swap xs i j)"
  using assms mset_swap [of j xs i] by (simp add: shuffled_def swap_def)

section \<open>Bubble sort sorts\<close>

abbreviation key_sorted :: "('a \<Rightarrow> int) \<Rightarrow> 'a list \<Rightarrow> bool" where
  "key_sorted k xs \<equiv> sorted (map k xs)"

definition top_at :: "('a \<Rightarrow> int) \<Rightarrow> 'a list \<Rightarrow> nat \<Rightarrow> bool" where
  "top_at k xs j \<longleftrightarrow> (\<forall>i\<le>j. k (xs ! i) \<le> k (xs ! j))"

lemma bubble_inner_ok:
  assumes "j + n < length xs" "top_at k xs j"
  shows "shuffled 0 (j + n) xs (bubble_inner k xs j n) \<and> top_at k (bubble_inner k xs j n) (j + n)"
  using assms
proof (induction k xs j n rule: bubble_inner.induct)
  case (1 k xs j)
  then show ?case by simp
next
  case (2 k xs j n)
  define ys where "ys = (if k (xs ! j) > k (xs ! Suc j) then swap xs j (Suc j) else xs)"
  have s: "shuffled 0 (j + Suc n) xs ys"
    using "2.prems" by (simp add: ys_def shuffled_swap)
  have "top_at k ys (Suc j)"
    using "2.prems" by (auto simp: top_at_def ys_def swap_def nth_list_update le_Suc_eq)
  then have "shuffled 0 (Suc j + n) ys (bubble_inner k ys (Suc j) n) \<and>
      top_at k (bubble_inner k ys (Suc j) n) (Suc j + n)"
    using "2.IH" [folded ys_def] "2.prems" shuffled_length [OF s] by auto
  then show ?case using s shuffled_trans by (auto simp: ys_def [symmetric])
qed

definition placed :: "('a \<Rightarrow> int) \<Rightarrow> 'a list \<Rightarrow> nat \<Rightarrow> bool" where
  "placed k xs m \<longleftrightarrow> (\<forall>i j. i < j \<and> m < j \<and> j < length xs \<longrightarrow> k (xs ! i) \<le> k (xs ! j))"

lemma bubble_outer_ok:
  assumes "m < length xs" "placed k xs m"
  shows "mset (bubble_outer k xs m) = mset xs \<and> key_sorted k (bubble_outer k xs m)"
  using assms
proof (induction k xs m rule: bubble_outer.induct)
  case (1 k xs)
  then have "k (xs ! i) \<le> k (xs ! j)" if "i \<le> j" "j < length xs" for i j
    using that by (cases "i = j") (auto simp: placed_def)
  then show ?case by (auto simp: sorted_iff_nth_mono)
next
  case (2 k xs m)
  define ys where "ys = bubble_inner k xs 0 (Suc m)"
  have s: "shuffled 0 (Suc m) xs ys" and t: "top_at k ys (Suc m)"
    using bubble_inner_ok [of 0 "Suc m" xs k] "2.prems" by (auto simp: ys_def top_at_def)
  have len: "length ys = length xs" using s by (rule shuffled_length)
  have "k (ys ! i) \<le> k (ys ! j)" if ij: "i < j" "m < j" "j < length ys" for i j
  proof (cases "j = Suc m")
    case True
    then show ?thesis using t ij by (simp add: top_at_def)
  next
    case False
    then have j: "ys ! j = xs ! j" using shuffled_outside [OF s] ij len by simp
    have "\<exists>i'<j. ys ! i = xs ! i'"
    proof (cases "i \<le> Suc m")
      case True
      then obtain i' where "i' \<le> Suc m" "ys ! i = xs ! i'"
        using shuffled_inside [OF s, of i] "2.prems" by auto
      then show ?thesis using False ij by (intro exI [of _ i']) auto
    next
      case False
      then have "ys ! i = xs ! i" using shuffled_outside [OF s, of i] ij len by simp
      then show ?thesis using ij by blast
    qed
    then show ?thesis using j "2.prems"(2) False ij len by (auto simp: placed_def)
  qed
  then have "placed k ys m" by (simp add: placed_def)
  then have "mset (bubble_outer k ys m) = mset ys \<and> key_sorted k (bubble_outer k ys m)"
    using "2.IH" [folded ys_def] "2.prems" len by simp
  moreover have "bubble_outer k xs (Suc m) = bubble_outer k ys m"
    unfolding ys_def by (rule bubble_outer.simps)
  ultimately show ?case using s by (simp add: shuffled_def)
qed

section \<open>Insertion sort sorts\<close>

text \<open>The while loop moves a hole from position \<^term>\<open>i\<close> down to the place of the inserted name.\<close>

definition hole_sorted :: "('a \<Rightarrow> int) \<Rightarrow> 'a list \<Rightarrow> 'a \<Rightarrow> nat \<Rightarrow> nat \<Rightarrow> bool" where
  "hole_sorted k xs temp j i \<longleftrightarrow>
     (\<forall>a b. a < b \<and> b \<le> i \<and> a \<noteq> j \<and> b \<noteq> j \<longrightarrow> k (xs ! a) \<le> k (xs ! b)) \<and>
     (\<forall>b. j < b \<and> b \<le> i \<longrightarrow> k temp \<le> k (xs ! b))"

definition sorted_to :: "('a \<Rightarrow> int) \<Rightarrow> 'a list \<Rightarrow> nat \<Rightarrow> bool" where
  "sorted_to k xs i \<longleftrightarrow> (\<forall>a b. a < b \<and> b \<le> i \<longrightarrow> k (xs ! a) \<le> k (xs ! b))"

lemma insert_inner_ok:
  assumes "j \<le> i" "i < length xs" "hole_sorted k xs temp j i"
  shows "mset (insert_inner k xs temp j) = mset (xs[j := temp]) \<and> sorted_to k (insert_inner k xs temp j) i"
  using assms
proof (induction k xs temp j rule: insert_inner.induct)
  case (1 k xs temp)
  then have "0 < length xs" by linarith
  then show ?case using 1 by (auto simp: hole_sorted_def sorted_to_def nth_list_update)
next
  case (2 k xs temp j)
  show ?case
  proof (cases "k (xs ! j) > k temp")
    case True
    define ys where "ys = xs[Suc j := xs ! j]"
    have "hole_sorted k ys temp j i"
      using "2.prems" True unfolding hole_sorted_def ys_def
      by (auto simp: nth_list_update less_Suc_eq)
    then have "mset (insert_inner k ys temp j) = mset (ys[j := temp]) \<and>
        sorted_to k (insert_inner k ys temp j) i"
      using "2.IH" [OF True, folded ys_def] "2.prems" by (simp add: ys_def)
    moreover have "mset (ys[j := temp]) = mset (xs[Suc j := temp])"
      using mset_swap [of j "xs[Suc j := temp]" "Suc j"] "2.prems"
      by (simp add: ys_def list_update_swap)
    ultimately show ?thesis using True by (simp add: ys_def)
  next
    case False
    have "sorted_to k (xs[Suc j := temp]) i"
    proof (unfold sorted_to_def, intro allI impI)
      fix a b assume ab: "a < b \<and> b \<le> i"
      have "k (xs ! a) \<le> k (xs ! j)" if "a < Suc j"
        using that "2.prems" by (cases "a = j") (auto simp: hole_sorted_def)
      then have "k (xs ! a) \<le> k temp" if "a < Suc j" using that False by fastforce
      then show "k (xs[Suc j := temp] ! a) \<le> k (xs[Suc j := temp] ! b)"
        using "2.prems" ab by (auto simp: nth_list_update hole_sorted_def)
    qed
    then show ?thesis using False by simp
  qed
qed

lemma insert_outer_ok:
  assumes "0 < i" "i + n = length xs" "sorted_to k xs (i - 1)"
  shows "mset (insert_outer k xs i n) = mset xs \<and> key_sorted k (insert_outer k xs i n)"
  using assms
proof (induction k xs i n rule: insert_outer.induct)
  case (1 k xs i)
  have "k (xs ! a) \<le> k (xs ! b)" if "a \<le> b" "b < length xs" for a b
    using that 1 by (cases "a = b") (auto simp: sorted_to_def)
  then show ?case by (auto simp: sorted_iff_nth_mono)
next
  case (2 k xs i n)
  define ys where "ys = insert_inner k xs (xs ! i) i"
  have "hole_sorted k xs (xs ! i) i i"
    using "2.prems" by (auto simp: hole_sorted_def sorted_to_def)
  then have ys: "mset ys = mset xs" "sorted_to k ys i"
    using insert_inner_ok [of i i xs k "xs ! i"] "2.prems" by (auto simp: ys_def)
  then have "length ys = length xs" by (metis mset_eq_length)
  then show ?case using "2.IH" [folded ys_def] "2.prems" ys by (simp add: ys_def [symmetric])
qed

section \<open>Quick sort sorts\<close>

lemma scan_down_above:
  "scan_down k xs t low high < j \<Longrightarrow> j \<le> high \<Longrightarrow> k (xs ! j) \<ge> t"
  by (induction high) (auto simp: le_Suc_eq split: if_splits)

lemma scan_up_below:
  "low \<le> j \<Longrightarrow> j < scan_up k xs t low high \<Longrightarrow> k (xs ! j) \<le> t"
proof (induction k xs t low high rule: scan_up.induct)
  case (1 k xs t low high)
  show ?case
  proof (cases "low < high \<and> k (xs ! low) \<le> t")
    case True
    then have "j < scan_up k xs t (Suc low) high" using "1.prems" by (subst (asm) scan_up.simps) simp
    then show ?thesis using "1.IH" [OF True] True "1.prems" by (cases "j = low") auto
  next
    case False
    then show ?thesis using "1.prems" by (subst (asm) scan_up.simps) auto
  qed
qed

lemma scan_up_stop:
  "low \<le> high \<Longrightarrow> scan_up k xs t low high = high \<or> k (xs ! scan_up k xs t low high) > t"
proof (induction k xs t low high rule: scan_up.induct)
  case (1 k xs t low high)
  then show ?case by (subst (1 2) scan_up.simps) auto
qed

text \<open>
  The loop of \<^verbatim>\<open>partition\<close> keeps, for the array with the pivot put into the hole at
  \<^term>\<open>low\<close>: it is a rearrangement of the range, everything left of the hole is at most the
  pivot and everything right of \<^term>\<open>high\<close> is at least the pivot.
\<close>

definition split_around :: "('a \<Rightarrow> int) \<Rightarrow> 'a list \<Rightarrow> int \<Rightarrow> nat \<Rightarrow> nat \<Rightarrow> nat \<Rightarrow> nat \<Rightarrow> bool" where
  "split_around k xs t l low high h \<longleftrightarrow>
     (\<forall>j. l \<le> j \<and> j < low \<longrightarrow> k (xs ! j) \<le> t) \<and> (\<forall>j. high < j \<and> j \<le> h \<longrightarrow> t \<le> k (xs ! j))"

lemma part_loop_ok:
  assumes "t = k temp" "l \<le> low" "low \<le> high" "high \<le> h" "h < length xs"
    "split_around k xs t l low high h"
  shows "case part_loop k xs t low high of (ys, p) \<Rightarrow>
    shuffled l h (xs[low := temp]) (ys[p := temp]) \<and> split_around k ys t l p p h"
  using assms
proof (induction k xs t low high rule: part_loop.induct)
  case (1 k xs t low high)
  show ?case
  proof (cases "low < high")
    case True
    define hi where "hi = scan_down k xs t low high"
    define xs1 where "xs1 = xs[low := xs ! hi]"
    define lo where "lo = scan_up k xs1 t low hi"
    define xs2 where "xs2 = xs1[hi := xs1 ! lo]"
    have hi: "low \<le> hi" "hi \<le> high" "hi = low \<or> k (xs ! hi) < t"
      using scan_down_bounds [of low high k xs t] scan_down_stop [of low high k xs t] True
      by (auto simp: hi_def)
    have lo: "low \<le> lo" "lo \<le> hi" "lo = hi \<or> k (xs1 ! lo) > t"
      using scan_up_bounds [of low hi k xs1 t] scan_up_stop [of low hi k xs1 t] hi
      by (auto simp: lo_def)
    have c: "low < high \<and> high < length xs" using True "1.prems" by simp
    have step: "part_loop k xs t low high = part_loop k xs2 t lo hi"
      using c by (subst part_loop.simps) (simp add: Let_def hi_def xs1_def lo_def xs2_def)
    have sw1: "xs1[hi := temp] = swap (xs[low := temp]) low hi"
      using hi lo "1.prems" by (auto simp: swap_def xs1_def nth_list_update list_update_swap)
    have sw2: "xs2[lo := temp] = swap (xs1[hi := temp]) hi lo"
      using hi lo "1.prems" by (auto simp: swap_def xs1_def xs2_def nth_list_update list_update_swap)
    have sh: "shuffled l h (xs[low := temp]) (xs2[lo := temp])"
      unfolding sw2 sw1 using hi lo "1.prems"
      by (intro shuffled_trans [OF shuffled_swap shuffled_swap]) (auto simp: swap_def)
    have "k (xs2 ! j) \<le> t" if "l \<le> j" "j < lo" for j
      using that scan_up_below [of low j k xs1 t hi] "1.prems" lo hi
      by (cases "low \<le> j") (auto simp: xs2_def xs1_def lo_def split_around_def)
    moreover have "t \<le> k (xs2 ! j)" if "hi < j" "j \<le> h" for j
      using that scan_down_above [of k xs t low high j] "1.prems" lo hi
      by (cases "j \<le> high") (auto simp: xs2_def xs1_def hi_def split_around_def)
    ultimately have "split_around k xs2 t l lo hi h" by (simp add: split_around_def)
    then have "case part_loop k xs2 t lo hi of (ys, p) \<Rightarrow>
        shuffled l h (xs2[lo := temp]) (ys[p := temp]) \<and> split_around k ys t l p p h"
      using "1.IH" [OF c hi_def xs1_def lo_def xs2_def] "1.prems" lo hi
      by (simp add: xs1_def xs2_def)
    then show ?thesis
      unfolding step using sh by (auto split: prod.splits intro: shuffled_trans)
  next
    case False
    then show ?thesis using "1.prems" by (subst part_loop.simps) (simp add: split_around_def)
  qed
qed

lemma partition_ok:
  assumes "low \<le> high" "high < length xs" "partition k xs low high = (ys, p)"
  shows "shuffled low high xs ys" "split_around k ys (k (ys ! p)) low p p high"
proof -
  obtain zs where zs: "part_loop k xs (k (xs ! low)) low high = (zs, p)" "ys = zs[p := xs ! low]"
    using assms(3) by (auto simp: partition_def Let_def split: prod.splits)
  have "split_around k xs (k (xs ! low)) low low high high" by (simp add: split_around_def)
  then have sh: "shuffled low high xs ys" and sp: "split_around k zs (k (xs ! low)) low p p high"
    using part_loop_ok [of "k (xs ! low)" k "xs ! low" low low high high xs] assms zs by auto
  show "shuffled low high xs ys" by (rule sh)
  have "p < length zs"
    using partition_bounds [OF assms(1,3)] assms(2) shuffled_length [OF sh] zs(2) by simp
  then show "split_around k ys (k (ys ! p)) low p p high"
    using sp by (auto simp: split_around_def zs(2))
qed

definition sorted_in :: "('a \<Rightarrow> int) \<Rightarrow> 'a list \<Rightarrow> nat \<Rightarrow> nat \<Rightarrow> bool" where
  "sorted_in k xs l h \<longleftrightarrow> (\<forall>a b. l \<le> a \<and> a < b \<and> b \<le> h \<longrightarrow> k (xs ! a) \<le> k (xs ! b))"

lemma split_around_shuffled:
  assumes "split_around k xs t low p p high" "shuffled l h xs ys" "h < length xs"
    "high < length xs" "h < p \<and> low \<le> l \<or> p < l \<and> h \<le> high" "p \<le> high"
  shows "split_around k ys t low p p high"
proof -
  have "\<exists>j'. low \<le> j' \<and> j' < p \<and> ys ! j = xs ! j'" if "low \<le> j" "j < p" for j
  proof (cases "l \<le> j \<and> j \<le> h")
    case True
    then obtain j' where "l \<le> j'" "j' \<le> h" "ys ! j = xs ! j'"
      using shuffled_inside [OF assms(2), of j] assms(3) by auto
    then show ?thesis using assms(5) that True by (intro exI [of _ j']) auto
  next
    case False
    then show ?thesis using shuffled_outside [OF assms(2), of j] that assms(4,6) by auto
  qed
  moreover have "\<exists>j'. p < j' \<and> j' \<le> high \<and> ys ! j = xs ! j'" if "p < j" "j \<le> high" for j
  proof (cases "l \<le> j \<and> j \<le> h")
    case True
    then obtain j' where "l \<le> j'" "j' \<le> h" "ys ! j = xs ! j'"
      using shuffled_inside [OF assms(2), of j] assms(3) by auto
    then show ?thesis using assms(5) that True by (intro exI [of _ j']) auto
  next
    case False
    then show ?thesis using shuffled_outside [OF assms(2), of j] that assms(4) by auto
  qed
  ultimately show ?thesis using assms(1) unfolding split_around_def by metis
qed

lemma quickSort_ok:
  assumes "high < length xs"
  shows "shuffled low high xs (quickSort k xs low high) \<and> sorted_in k (quickSort k xs low high) low high"
  using assms
proof (induction k xs low high rule: quickSort.induct)
  case (1 k xs low high)
  show ?case
  proof (cases "low \<ge> high")
    case True
    then show ?thesis by (subst (1 2) quickSort.simps) (auto simp: sorted_in_def)
  next
    case False
    obtain ys p where part: "partition k xs low high = (ys, p)" by fastforce
    have p: "low \<le> p" "p \<le> high" using partition_bounds [OF _ part] False by auto
    have ys: "shuffled low high xs ys" "split_around k ys (k (ys ! p)) low p p high"
      using partition_ok [OF _ "1.prems" part] False by auto
    define zs where "zs = quickSort k ys low (p - 1)"
    define us where "us = quickSort k zs (p + 1) high"
    have q: "quickSort k xs low high = us"
      using False part by (subst quickSort.simps) (simp add: zs_def us_def)
    have ylen: "length ys = length xs" using ys(1) by (rule shuffled_length)
    have zs: "shuffled low (p - 1) ys zs" "sorted_in k zs low (p - 1)"
      using "1.IH"(1) [OF False part [symmetric]] "1.prems" p ylen by (auto simp: zs_def)
    have zlen: "length zs = length xs" using shuffled_length [OF zs(1)] ylen by simp
    have us: "shuffled (p + 1) high zs us" "sorted_in k us (p + 1) high"
      using "1.IH"(2) [OF False part [symmetric]] "1.prems" p zlen
      by (auto simp: zs_def us_def)
    have zs': "split_around k zs (k (ys ! p)) low p p high \<and> zs ! p = ys ! p"
    proof (cases "p = low")
      case True
      then have "zs = ys" unfolding zs_def by (subst quickSort.simps) auto
      then show ?thesis using ys(2) by simp
    next
      case False
      then show ?thesis
        using split_around_shuffled [OF ys(2) zs(1)] shuffled_outside [OF zs(1), of p] p ylen "1.prems"
        by auto
    qed
    then have us': "split_around k us (k (ys ! p)) low p p high"
      using split_around_shuffled [OF _ us(1)] zlen "1.prems" p by auto
    have low: "us ! j = zs ! j" if "j \<le> p" for j
      using shuffled_outside [OF us(1), of j] that p "1.prems" zlen by auto
    have pivot: "us ! p = ys ! p" using zs' low by simp
    have "k (us ! a) \<le> k (us ! b)" if ab: "low \<le> a" "a < b" "b \<le> high" for a b
    proof -
      consider "b < p" | "p < a" | "a \<le> p" "p \<le> b" using ab by linarith
      then show ?thesis
      proof cases
        case 1
        then show ?thesis using zs(2) ab low [of a] low [of b] by (simp add: sorted_in_def)
      next
        case 2
        then show ?thesis using us(2) ab by (simp add: sorted_in_def)
      next
        case 3
        have "k (us ! a) \<le> k (ys ! p)"
          using us' 3 ab pivot by (cases "a = p") (auto simp: split_around_def)
        moreover have "k (ys ! p) \<le> k (us ! b)"
          using us' 3 ab pivot by (cases "b = p") (auto simp: split_around_def)
        ultimately show ?thesis by simp
      qed
    qed
    then have "sorted_in k us low high" by (simp add: sorted_in_def)
    moreover have "shuffled low high xs us"
      using ys(1) shuffled_weaken [OF zs(1), of low high] shuffled_weaken [OF us(1), of low high] p
        shuffled_trans by (metis le_add1 diff_le_self order_refl order_trans)
    ultimately show ?thesis using q by simp
  qed
qed

section \<open>The contract of a sort routine\<close>

text \<open>
  What \<^verbatim>\<open>find\<close> and \<^verbatim>\<open>umembers\<close> rely on: the array is rearranged, and ends ordered by
  position. For keys that tell the names apart the result is determined by the array's contents.
\<close>

locale sort_routine =
  fixes srt :: "('a \<Rightarrow> int) \<Rightarrow> 'a list \<Rightarrow> 'a list"
  assumes srt_mset: "mset (srt k xs) = mset xs"
    and srt_sorted: "key_sorted k (srt k xs)"
begin

lemma srt_set: "set (srt k xs) = set xs"
  using srt_mset by (rule mset_eq_setD)

lemma srt_length: "length (srt k xs) = length xs"
  using srt_mset by (metis mset_eq_length)

lemma srt_distinct: "distinct (srt k xs) \<longleftrightarrow> distinct xs"
  using srt_mset by (metis mset_eq_imp_distinct_iff)

lemma srt_unique:
  assumes "mset ys = mset xs" "key_sorted k ys" "inj_on k (set xs)"
  shows "srt k xs = ys"
proof -
  have "mset (map k (srt k xs)) = mset (map k ys)" using assms(1) srt_mset by simp
  then have "map k (srt k xs) = map k ys"
    using srt_sorted assms(2) by (metis sorted_sort_id properties_for_sort)
  moreover have "set (srt k xs) \<union> set ys = set xs"
    using assms(1) srt_set by (metis mset_eq_setD sup.idem)
  ultimately show ?thesis using assms(3) by (metis inj_on_map_eq_map)
qed

end

lemma bubbleSort_correct:
  "mset (bubbleSort k xs) = mset xs \<and> key_sorted k (bubbleSort k xs)"
  using bubble_outer_ok [of "length xs - 1" xs k]
  by (cases xs) (auto simp: bubbleSort_def placed_def)

lemma insertSort_correct:
  "mset (insertSort k xs) = mset xs \<and> key_sorted k (insertSort k xs)"
  using insert_outer_ok [of 1 "length xs - 1" xs k]
  by (cases xs) (auto simp: insertSort_def sorted_to_def)

lemma quickSort_correct:
  "mset (quickSort k xs 0 (length xs - 1)) = mset xs \<and>
   key_sorted k (quickSort k xs 0 (length xs - 1))"
proof (cases xs)
  case Nil
  then show ?thesis by (subst (1 2) quickSort.simps) simp
next
  case (Cons y ys)
  define zs where "zs = quickSort k xs 0 (length xs - 1)"
  have *: "shuffled 0 (length xs - 1) xs zs" "sorted_in k zs 0 (length xs - 1)"
    using quickSort_ok [of "length xs - 1" xs 0 k] Cons by (auto simp: zs_def)
  have "k (zs ! a) \<le> k (zs ! b)" if "a \<le> b" "b < length zs" for a b
    using *(2) that shuffled_length [OF *(1)] by (cases "a = b") (auto simp: sorted_in_def)
  then have "key_sorted k zs" by (auto simp: sorted_iff_nth_mono)
  then show ?thesis using *(1) unfolding zs_def [symmetric] by (simp add: shuffled_def)
qed

interpretation bubble: sort_routine bubbleSort
  by unfold_locales (simp_all add: bubbleSort_correct)

interpretation ins: sort_routine insertSort
  by unfold_locales (simp_all add: insertSort_correct)

interpretation quick: sort_routine "\<lambda>k xs. quickSort k xs 0 (length xs - 1)"
  by unfold_locales (use quickSort_correct in \<open>blast+\<close>)

section \<open>Sorting the elements of a structure\<close>

text \<open>
  The call \<^verbatim>\<open>quickSort(ufs,elements,0,len-1)\<close> of \<^verbatim>\<open>find\<close> and \<^verbatim>\<open>umembers\<close>. A
  \<^verbatim>\<open>locateVex\<close> that would read behind the vertices makes the result undefined.
\<close>

definition sort_elements :: "cudGraph \<Rightarrow> string list \<Rightarrow> string list option" where
  "sort_elements g xs =
     (if list_all (\<lambda>x. locateVex g x \<noteq> None) xs
      then Some (quickSort (\<lambda>x. the (locateVex g x)) xs 0 (length xs - 1)) else None)"

definition vertex_order :: "cudGraph \<Rightarrow> string set \<Rightarrow> string list" where
  "vertex_order g X = filter (\<lambda>n. n \<in> X) (map data (dlist g))"

lemma locateVex_nth:
  assumes "base_ok g" "i < length (dlist g)"
  shows "locateVex g (data (dlist g ! i)) = Some (int i)"
proof -
  have "data (dlist g ! i) \<in> names g" using assms(2) by (simp add: names_def)
  then obtain j where j: "locateVex g (data (dlist g ! i)) = Some j" "j \<in> verts g"
    "name_of g j = data (dlist g ! i)"
    by (rule locateVex_base [OF assms(1)])
  have "int i \<in> verts g" "name_of g (int i) = data (dlist g ! i)"
    using assms(2) by (simp_all add: verts_def name_of_def)
  then have "j = int i" using j inj_name_of [OF assms(1)] by (metis inj_onD)
  then show ?thesis using j by simp
qed

lemma vertex_order_sorted:
  assumes "base_ok g"
  shows "key_sorted (\<lambda>x. the (locateVex g x)) (vertex_order g X)"
proof -
  let ?k = "\<lambda>x. the (locateVex g x)"
  have "map ?k (map data (dlist g)) = map int [0 ..< length (dlist g)]"
    using locateVex_nth [OF assms] by (intro nth_equalityI) auto
  then have "key_sorted ?k (map data (dlist g))" by (simp add: sorted_map)
  then show ?thesis unfolding vertex_order_def by (rule sorted_filter)
qed

lemma sort_elements_order:
  assumes ok: "base_ok g" and xs: "distinct xs" "set xs \<subseteq> names g"
  shows "sort_elements g xs = Some (vertex_order g (set xs))"
proof -
  let ?k = "\<lambda>x. the (locateVex g x)"
  have loc: "\<exists>i. locateVex g x = Some i \<and> name_of g i = x" if "x \<in> names g" for x
    by (rule locateVex_base [OF ok that]) blast
  have "inj_on ?k (set xs)" using loc xs(2) by (intro inj_onI) (metis option.sel subsetD)
  moreover have "mset (vertex_order g (set xs)) = mset xs"
  proof -
    have "distinct (vertex_order g (set xs))"
      using ok unfolding vertex_order_def by (intro distinct_filter) (simp add: base_ok_def)
    moreover have "set (vertex_order g (set xs)) = set xs"
      using xs(2) by (auto simp: vertex_order_def names_def)
    ultimately show ?thesis using xs(1) by (simp add: set_eq_iff_mset_eq_distinct [symmetric])
  qed
  moreover have "list_all (\<lambda>x. locateVex g x \<noteq> None) xs" using loc xs(2) by (fastforce simp: list_all_iff)
  ultimately show ?thesis
    using quick.srt_unique [of "vertex_order g (set xs)" xs ?k] vertex_order_sorted [OF ok]
    by (simp add: sort_elements_def)
qed

section \<open>Properties\<close>

text \<open>
  C23. The three sort routines are interchangeable: on elements that the positions tell apart they
  return the same list.
\<close>

theorem sorts_agree:
  assumes "inj_on k (set xs)"
  shows "bubbleSort k xs = quickSort k xs 0 (length xs - 1) \<and>
    insertSort k xs = quickSort k xs 0 (length xs - 1)"
  using assms bubble.srt_unique ins.srt_unique quickSort_correct by blast

theorem sorts_agree_witness:
  "bubbleSort id [3, 1, 2 :: int] = quickSort id [3, 1, 2] 0 2 \<and>
   insertSort id [3, 1, 2 :: int] = quickSort id [3, 1, 2] 0 2"
  using sorts_agree [of id "[3, 1, 2 :: int]"] by (simp add: numeral_2_eq_2)

end
