(* ===== verification/Ufs_Print.thy ===== *)
theory Ufs_Print
  imports Ufs_State Ufs_Sort
begin

text \<open>
  Printing the classes of a graph: \<^verbatim>\<open>updateVerticeUfs\<close>, which gives a vertex of the OT state
  space its content, and the texts that the commands \<^verbatim>\<open>umembers\<close> and \<^verbatim>\<open>find\<close> reply
  (\<^verbatim>\<open>src/ufs.c\<close>). \<^verbatim>\<open>updateVerticeUfs\<close> and \<^verbatim>\<open>umembers\<close> share their outer loop; they
  differ in how the names of one class are put together.
\<close>

section \<open>The loops\<close>

text \<open>Whether a vertex has an edge to a vertex of smaller number.\<close>

fun linked_below :: "cudGraph \<Rightarrow> int \<Rightarrow> int \<Rightarrow> nat \<Rightarrow> bool option" where
  "linked_below g i j 0 = Some False"
| "linked_below g i j (Suc n) = do {
     b \<leftarrow> existEdge g i j;
     if b then Some True else linked_below g i (j + 1) n
   }"

fun cat_names :: "cudGraph \<Rightarrow> string \<Rightarrow> int list \<Rightarrow> string option" where
  "cat_names g acc [] = Some acc"
| "cat_names g acc (p # ps) = do {
     v \<leftarrow> vat g p;
     let acc1 = sdscat acc (data v);
     cat_names g (if ps \<noteq> [] then sdscat acc1 [COMMA] else acc1) ps
   }"

fun cat_elements :: "string \<Rightarrow> string list \<Rightarrow> string" where
  "cat_elements acc [] = acc"
| "cat_elements acc (e # es) =
     cat_elements (let acc1 = sdscat acc e in if es \<noteq> [] then sdscat acc1 [COMMA] else acc1) es"

fun print_loop ::
  "(cudGraph \<Rightarrow> int \<Rightarrow> string option) \<Rightarrow> cudGraph \<Rightarrow> int \<Rightarrow> nat \<Rightarrow> string \<Rightarrow> int \<Rightarrow> bool \<Rightarrow> (string \<times> int \<times> bool) option"
where
  "print_loop cls g i 0 result skip flag = Some (result, skip, flag)"
| "print_loop cls g i (Suc n) result skip flag = do {
     b \<leftarrow> linked_below g i 0 (nat i);
     if b then print_loop cls g (i + 1) n result (skip + 1) (i = vertexnum g - 1 \<or> flag)
     else do {
       l \<leftarrow> cls g i;
       let result1 = sdscat result l;
       print_loop cls g (i + 1) n
         (if i \<noteq> vertexnum g - 1 then sdscat result1 [SLASH] else result1) skip flag
     }
   }"

definition print_all :: "(cudGraph \<Rightarrow> int \<Rightarrow> string option) \<Rightarrow> cudGraph \<Rightarrow> string option" where
  "print_all cls g = do {
     (result, skip, flag) \<leftarrow> print_loop cls g 0 (nat (vertexnum g)) sdsempty 0 False;
     Some (if skip = vertexnum g - 1 \<or> flag then sdsrange result 0 (int (length result) - 2) else result)
   }"

section \<open>The contents of state space vertices\<close>

definition state_class :: "cudGraph \<Rightarrow> int \<Rightarrow> string option" where
  "state_class g i = do {
     v \<leftarrow> vat g i;
     let start = sdscat (sdsnew (data v)) [COMMA];
     list \<leftarrow> (if firstedge v \<noteq> [] then cat_names g start (firstedge v)
              else Some (sdstrim start [COMMA]));
     elements \<leftarrow> sdssplitlen list (int (length list)) [COMMA];
     Some (cat_elements (sdsclear list) elements)
   }"

text \<open>The content is copied with \<^verbatim>\<open>strcpy\<close>.\<close>

definition updateVerticeUfs :: "cudGraph \<Rightarrow> string option" where
  "updateVerticeUfs g = do { result \<leftarrow> print_all state_class g; Some (cstr result) }"

section \<open>The replies of umembers and find\<close>

definition members_class :: "cudGraph \<Rightarrow> int \<Rightarrow> string option" where
  "members_class g i = do {
     v \<leftarrow> vat g i;
     let start = sdsnew (data v);
     list \<leftarrow> (if firstedge v \<noteq> [] then cat_names g (sdscat start [COMMA]) (firstedge v) else Some start);
     elements \<leftarrow> sdssplitlen list (int (length list)) [COMMA];
     sorted \<leftarrow> sort_elements g elements;
     Some (cat_elements (sdsclear list) sorted)
   }"

definition umembers_text :: "cudGraph \<Rightarrow> string option" where
  "umembers_text g = print_all members_class g"

text \<open>\<^verbatim>\<open>find\<close> puts the sorted names together without a separator.\<close>

fun cat_plain :: "string \<Rightarrow> string list \<Rightarrow> string" where
  "cat_plain acc [] = acc"
| "cat_plain acc (e # es) = cat_plain (sdscat acc e) es"

definition find_text :: "cudGraph \<Rightarrow> string \<Rightarrow> string option" where
  "find_text g e = do {
     i \<leftarrow> locateVex g e;
     let start = sdscat (sdscat sdsempty e) [COMMA];
     v \<leftarrow> vat g i;
     list \<leftarrow> (if firstedge v \<noteq> [] then cat_names g start (firstedge v) else Some start);
     elements \<leftarrow> sdssplitlen list (int (length list)) [COMMA];
     sorted \<leftarrow> sort_elements g elements;
     Some (cat_plain (sdsclear list) sorted)
   }"

section \<open>What the loops print\<close>

definition names_ok :: "cudGraph \<Rightarrow> bool" where
  "names_ok g \<longleftrightarrow> (\<forall>n \<in> names g. nm n)"

lemma linked_below_eq:
  assumes "i \<in> verts g"
  shows "linked_below g i j n = Some (\<exists>p \<in> set (chain g i). j \<le> p \<and> p < j + int n)"
  using assms
proof (induction n arbitrary: j)
  case 0
  then show ?case by simp
next
  case (Suc n)
  have *: "j \<le> p \<and> p < j + int (Suc n) \<longleftrightarrow> p = j \<or> j + 1 \<le> p \<and> p < j + 1 + int n" for p
    by presburger
  have "(\<exists>p \<in> set (chain g i). j \<le> p \<and> p < j + int (Suc n)) \<longleftrightarrow>
      j \<in> set (chain g i) \<or> (\<exists>p \<in> set (chain g i). j + 1 \<le> p \<and> p < j + 1 + int n)"
    unfolding * by blast
  then show ?case using Suc by auto
qed

lemma cat_names_eq:
  assumes "set ps \<subseteq> verts g" "\<forall>n \<in> names g. nul_free n"
  shows "cat_names g acc ps = Some (acc @ join COMMA (map (name_of g) ps))"
  using assms
proof (induction ps arbitrary: acc)
  case (Cons p ps)
  have "nul_free (name_of g p)" using Cons.prems by (auto simp: names_verts)
  then show ?case using Cons by (cases ps) (auto simp: name_of_def Let_def)
qed simp

lemma cat_elements_eq:
  "\<forall>e \<in> set es. nul_free e \<Longrightarrow> cat_elements acc es = acc @ join COMMA es"
  by (induction es arbitrary: acc) (auto simp: Let_def join_Cons)

text \<open>The names of the class of a vertex in the order of the text before sorting.\<close>

definition class_names :: "cudGraph \<Rightarrow> int \<Rightarrow> string list" where
  "class_names g i = name_of g i # map (name_of g) (chain g i)"

lemma class_names_nms:
  assumes "ufs_ok g" "names_ok g" "i \<in> verts g"
  shows "nms (class_names g i)"
proof -
  have "set (chain g i) \<subseteq> verts g" using graph_ok_verts [OF ufs_ok_graph [OF assms(1)]] by blast
  then show ?thesis using assms(2,3) by (auto simp: class_names_def nms_def names_ok_def names_verts)
qed

lemma class_names_distinct:
  assumes "ufs_ok g" "i \<in> verts g"
  shows "distinct (class_names g i)"
proof -
  have g: "graph_ok g" by (rule ufs_ok_graph [OF assms(1)])
  have "distinct (i # chain g i)" using g graph_ok_irrefl [OF g] by (auto simp: graph_ok_def)
  moreover have "set (i # chain g i) \<subseteq> verts g" using assms(2) graph_ok_verts [OF g] by auto
  moreover have "inj_on (name_of g) (verts g)" by (rule inj_name_of [OF ufs_ok_base [OF assms(1)]])
  ultimately have "distinct (map (name_of g) (i # chain g i))"
    by (subst distinct_map) (blast intro: inj_on_subset)
  then show ?thesis by (simp add: class_names_def)
qed
lemma dropWhile_stop: "xs \<noteq> [] \<Longrightarrow> \<not> P (hd xs) \<Longrightarrow> dropWhile P xs = xs"
  by (cases xs) auto

lemma sdstrim_comma:
  assumes "nm n"
  shows "sdstrim (n @ [COMMA]) [COMMA] = n"
proof -
  have P: "\<not> in_cset [COMMA] c" if "c \<in> set n" for c
    using that assms nm_nul_free [OF assms] nm_no_comma [OF assms] by (auto simp: in_cset_def nul_free_def)
  have "\<not> in_cset [COMMA] (hd n)" "\<not> in_cset [COMMA] (last n)"
    using P nm_not_Nil [OF assms] by simp_all
  then show ?thesis
    using nm_not_Nil [OF assms]
    by (simp add: sdstrim_strip strip_def dropWhile_stop in_cset_def hd_rev)
qed

lemma chain_sub: "ufs_ok g \<Longrightarrow> set (chain g i) \<subseteq> verts g"
  using graph_ok_verts [OF ufs_ok_graph] by blast

lemma names_nul_free: "names_ok g \<Longrightarrow> \<forall>n \<in> names g. nul_free n"
  by (simp add: names_ok_def)

lemma name_nm: "names_ok g \<Longrightarrow> i \<in> verts g \<Longrightarrow> nm (name_of g i)"
  by (simp add: names_ok_def names_verts)

lemma class_text:
  assumes "ufs_ok g" "names_ok g" "i \<in> verts g" "chain g i \<noteq> []"
  shows "cat_names g (name_of g i @ [COMMA]) (chain g i) = Some (join COMMA (class_names g i))"
  using cat_names_eq [OF chain_sub [OF assms(1)] names_nul_free [OF assms(2)]] assms(4)
  by (simp add: class_names_def join_Cons)

lemma state_class_eq:
  assumes "ufs_ok g" "names_ok g" "i \<in> verts g"
  shows "state_class g i = Some (join COMMA (class_names g i))"
proof -
  have nms: "nms (class_names g i)" by (rule class_names_nms [OF assms])
  have v: "vat g i = Some (dlist g ! nat i)" "data (dlist g ! nat i) = name_of g i"
    "firstedge (dlist g ! nat i) = chain g i"
    using assms(3) by (simp_all add: name_of_def chain_in)
  have n: "nm (name_of g i)" by (rule name_nm [OF assms(2,3)])
  show ?thesis
  proof (cases "chain g i = []")
    case True
    then have "class_names g i = [name_of g i]" by (simp add: class_names_def)
    then show ?thesis
      using v n nms True sdstrim_comma [OF n]
      by (simp add: state_class_def Let_def cat_elements_eq pieces_def)
  next
    case False
    then show ?thesis
      using v n nms class_text [OF assms False] nms_nm [OF nms]
      by (simp add: state_class_def Let_def cat_elements_eq)
  qed
qed

lemma class_names_sub: "ufs_ok g \<Longrightarrow> i \<in> verts g \<Longrightarrow> set (class_names g i) \<subseteq> names g"
  using chain_sub [of g i] by (auto simp: class_names_def names_verts)

lemma vertex_order_set: "X \<subseteq> names g \<Longrightarrow> set (vertex_order g X) = X"
  by (auto simp: vertex_order_def names_def)

lemma members_class_eq:
  assumes "ufs_ok g" "names_ok g" "i \<in> verts g"
  shows "members_class g i = Some (join COMMA (vertex_order g (set (class_names g i))))"
proof -
  let ?c = "class_names g i"
  have nms: "nms ?c" by (rule class_names_nms [OF assms])
  have v: "vat g i = Some (dlist g ! nat i)" "data (dlist g ! nat i) = name_of g i"
    "firstedge (dlist g ! nat i) = chain g i"
    using assms(3) by (simp_all add: name_of_def chain_in)
  have n: "nm (name_of g i)" by (rule name_nm [OF assms(2,3)])
  have srt: "sort_elements g ?c = Some (vertex_order g (set ?c))"
    using sort_elements_order [OF ufs_ok_base [OF assms(1)] class_names_distinct [OF assms(1,3)]
        class_names_sub [OF assms(1,3)]] .
  have "(if chain g i \<noteq> [] then cat_names g (name_of g i @ [COMMA]) (chain g i) else Some (name_of g i)) =
      Some (join COMMA ?c)"
    using class_text [OF assms] by (simp add: class_names_def)
  moreover have "\<forall>e \<in> set (vertex_order g (set ?c)). nul_free e"
    using vertex_order_set [OF class_names_sub [OF assms(1,3)]] nms_nm [OF nms] by auto
  ultimately show ?thesis
    using v n nms srt by (simp add: members_class_def Let_def cat_elements_eq cong: if_cong)
qed

section \<open>Representatives\<close>

text \<open>A class is printed at its vertex of smallest number.\<close>

definition rep :: "cudGraph \<Rightarrow> int \<Rightarrow> bool" where
  "rep g i \<longleftrightarrow> (\<forall>p \<in> set (chain g i). i \<le> p)"

definition reps :: "cudGraph \<Rightarrow> nat \<Rightarrow> nat \<Rightarrow> int list" where
  "reps g a b = filter (rep g) (map int [a ..< b])"

lemma linked_below_rep:
  assumes "ufs_ok g" "i \<in> verts g"
  shows "linked_below g i 0 (nat i) = Some (\<not> rep g i)"
proof -
  have "\<forall>p \<in> set (chain g i). 0 \<le> p" using chain_sub [OF assms(1), of i] by (auto simp: verts_def)
  moreover have "0 \<le> i" using assms(2) by (simp add: verts_def)
  ultimately show ?thesis using linked_below_eq [OF assms(2), of 0 "nat i"] by (force simp: rep_def not_le)
qed

definition seg :: "(int \<Rightarrow> string) \<Rightarrow> int \<Rightarrow> int \<Rightarrow> string" where
  "seg L m k = L k @ (if k \<noteq> m - 1 then [SLASH] else [])"

lemma reps_Cons: "a < b \<Longrightarrow> reps g a b = (if rep g (int a) then int a # reps g (Suc a) b else reps g (Suc a) b)"
  by (simp add: reps_def upt_conv_Cons)

lemma print_loop_eq:
  assumes ok: "ufs_ok g" and cls: "\<forall>i \<in> verts g. cls g i = Some (L i) \<and> nul_free (L i)"
    and m: "a + n = length (dlist g)"
  shows "print_loop cls g (int a) n result skip flag =
    Some (result @ concat (map (seg L (vertexnum g)) (reps g a (a + n))),
      skip + int n - int (length (reps g a (a + n))),
      flag \<or> n \<noteq> 0 \<and> \<not> rep g (vertexnum g - 1))"
  using m
proof (induction n arbitrary: a result skip flag)
  case 0
  then show ?case by (simp add: reps_def)
next
  case (Suc n)
  have vn: "vertexnum g = int (length (dlist g))" using ok by (simp add: ufs_ok_def base_ok_def graph_ok_def)
  have a: "int a \<in> verts g" using Suc.prems by (simp add: verts_def)
  have La: "cls g (int a) = Some (L (int a))" "nul_free (L (int a))" using cls a by blast+
  note IH = Suc.IH [of "Suc a"]
  have last: "int a = vertexnum g - 1 \<longleftrightarrow> n = 0" using Suc.prems vn by auto
  have r: "reps g a (a + Suc n) = (if rep g (int a) then int a # reps g (Suc a) (Suc a + n) else reps g (Suc a) (Suc a + n))"
    using reps_Cons [of a "a + Suc n" g] by simp
  show ?case
  proof (cases "rep g (int a)")
    case True
    have "(if int a \<noteq> vertexnum g - 1 then sdscat (sdscat result (L (int a))) [SLASH] else sdscat result (L (int a))) =
        result @ seg L (vertexnum g) (int a)"
      using La(2) by (cases "int a = vertexnum g - 1") (simp_all add: seg_def)
    moreover have "print_loop cls g (int a + 1) n (result @ seg L (vertexnum g) (int a)) skip flag =
        Some (result @ seg L (vertexnum g) (int a) @ concat (map (seg L (vertexnum g)) (reps g (Suc a) (Suc a + n))),
          skip + int n - int (length (reps g (Suc a) (Suc a + n))), flag \<or> n \<noteq> 0 \<and> \<not> rep g (vertexnum g - 1))"
      using IH [of "result @ seg L (vertexnum g) (int a)" skip flag] Suc.prems by (simp add: ac_simps)
    moreover have "n \<noteq> 0 \<and> \<not> rep g (vertexnum g - 1) \<longleftrightarrow> \<not> rep g (vertexnum g - 1)"
      using True last by auto
    ultimately show ?thesis
      using True r La(1) linked_below_rep [OF ok a] by (simp add: Let_def)
  next
    case False
    have "(int a = vertexnum g - 1 \<or> flag) \<or> n \<noteq> 0 \<and> \<not> rep g (vertexnum g - 1) \<longleftrightarrow>
        flag \<or> \<not> rep g (vertexnum g - 1)"
      using False last by auto
    then show ?thesis
      using False r linked_below_rep [OF ok a]
        IH [of result "skip + 1" "int a = vertexnum g - 1 \<or> flag"] Suc.prems
      by (simp add: ac_simps)
  qed
qed

lemma concat_seg:
  assumes "xs \<noteq> []" "\<forall>k \<in> set (butlast xs). k \<noteq> m - 1"
  shows "concat (map (seg L m) xs) = join SLASH (map L xs) @ (if last xs \<noteq> m - 1 then [SLASH] else [])"
  using assms
proof (induction xs rule: list_nonempty_induct)
  case (single x)
  then show ?case by (simp add: seg_def)
next
  case (cons x xs)
  then show ?case by (auto simp: seg_def join_Cons)
qed

lemma sdsrange_chop: "s \<noteq> [] \<Longrightarrow> sdsrange (s @ [x]) 0 (int (length (s @ [x])) - 2) = s"
proof -
  assume "s \<noteq> []"
  then have "0 \<le> int (length (s @ [x])) - 2" by (cases s) auto
  then show ?thesis by (simp add: sdsrange_nonneg)
qed

lemma reps_snoc: "reps g 0 (Suc b) = reps g 0 b @ (if rep g (int b) then [int b] else [])"
  by (simp add: reps_def)

lemma reps_bound: "k \<in> set (reps g a b) \<Longrightarrow> int a \<le> k \<and> k < int b \<and> rep g k"
  by (auto simp: reps_def)

lemma reps_verts: "k \<in> set (reps g 0 (length (dlist g))) \<Longrightarrow> k \<in> verts g"
  using reps_bound [of k g 0 "length (dlist g)"] by (simp add: verts_def)

lemma rep_0: "ufs_ok g \<Longrightarrow> rep g 0"
  using chain_sub [of g 0] by (auto simp: rep_def verts_def)

lemma reps_ne: "ufs_ok g \<Longrightarrow> 0 < b \<Longrightarrow> reps g 0 b \<noteq> []"
  by (cases b) (auto simp: reps_Cons rep_0)

lemma reps_last:
  assumes "ufs_ok g" "b = Suc c"
  shows "last (reps g 0 b) = int c \<longleftrightarrow> rep g (int c)"
    and "\<forall>k \<in> set (butlast (reps g 0 b)). k \<noteq> int c"
proof -
  show "last (reps g 0 b) = int c \<longleftrightarrow> rep g (int c)"
    using reps_bound [of "int c" g 0 b] last_in_set [OF reps_ne [OF assms(1), of b]] assms(2)
    by (auto simp: reps_snoc)
  show "\<forall>k \<in> set (butlast (reps g 0 b)). k \<noteq> int c"
    using reps_bound [of _ g 0 c] assms(2) by (auto simp: reps_snoc dest!: in_set_butlastD)
qed

lemma print_all_eq:
  assumes ok: "ufs_ok g" and cls: "\<forall>i \<in> verts g. cls g i = Some (L i) \<and> nul_free (L i) \<and> L i \<noteq> []"
    and n: "2 \<le> length (dlist g)"
  shows "print_all cls g = Some (join SLASH (map L (reps g 0 (length (dlist g)))))"
proof -
  let ?n = "length (dlist g)"
  let ?rs = "reps g 0 ?n"
  let ?s = "join SLASH (map L ?rs)"
  have vn: "vertexnum g = int ?n" using ok by (simp add: ufs_ok_def base_ok_def graph_ok_def)
  obtain c where c: "?n = Suc c" "c \<noteq> 0" using n by (cases ?n) auto
  then have vc: "vertexnum g - 1 = int c" using vn by simp
  have ne: "?rs \<noteq> []" using reps_ne [OF ok, of ?n] c by simp
  have printed: "concat (map (seg L (vertexnum g)) ?rs) = ?s @ (if rep g (int c) then [] else [SLASH])"
    using concat_seg [OF ne, of "vertexnum g" L] reps_last [OF ok c(1)] vc by simp
  have loop: "print_loop cls g 0 (nat (vertexnum g)) [] 0 False =
      Some (?s @ (if rep g (int c) then [] else [SLASH]), int ?n - int (length ?rs), \<not> rep g (int c))"
  proof -
    have "print_loop cls g (int 0) ?n [] 0 False =
        Some ([] @ concat (map (seg L (vertexnum g)) (reps g 0 (0 + ?n))), 0 + int ?n - int (length (reps g 0 (0 + ?n))),
          False \<or> ?n \<noteq> 0 \<and> \<not> rep g (vertexnum g - 1))"
      using cls by (intro print_loop_eq [OF ok]) auto
    moreover have "nat (vertexnum g) = ?n" using vn by simp
    moreover have "?n \<noteq> 0" using c by simp
    ultimately show ?thesis unfolding vc by (simp add: printed)
  qed
  have "?s \<noteq> []"
  proof -
    have "hd ?rs \<in> verts g" using ne by (intro reps_verts) simp
    then have "L (hd ?rs) \<noteq> []" using cls by blast
    then show ?thesis using ne by (cases ?rs) (auto simp: join_eq_Nil_iff)
  qed
  show ?thesis
  proof (cases "rep g (int c)")
    case True
    have "length ?rs \<noteq> 1"
    proof
      assume "length ?rs = 1"
      then have "?rs = [last ?rs]" by (cases ?rs) auto
      moreover have "last ?rs = int c" using True reps_last(1) [OF ok c(1)] by simp
      moreover have "hd ?rs = 0" using reps_Cons [of 0 ?n g] rep_0 [OF ok] c by simp
      ultimately have "int c = 0" by (metis list.sel(1))
      then show False using c(2) by simp
    qed
    then show ?thesis using loop True vn by (simp add: print_all_def)
  next
    case False
    then show ?thesis using loop sdsrange_chop [OF \<open>?s \<noteq> []\<close>, of SLASH] by (simp add: print_all_def)
  qed
qed

section \<open>The printed classes are the classes of the graph\<close>

lemma irel_class: "i \<in> verts g \<Longrightarrow> (i, j) \<in> irel g \<longleftrightarrow> j = i \<or> j \<in> set (chain g i)"
  by (auto simp: irel_iff)

lemma reps_unique:
  assumes "ufs_ok g" "rep g i" "rep g j" "(i, x) \<in> irel g" "(j, x) \<in> irel g"
  shows "i = j"
proof -
  have E: "equiv (verts g) (irel g)" by (rule equiv_irel [OF assms(1)])
  have ij: "(i, j) \<in> irel g" by (rule equiv_trans [OF E assms(4) equiv_sym [OF E assms(5)]])
  then have ji: "(j, i) \<in> irel g" by (rule equiv_sym [OF E])
  have "i \<in> verts g" "j \<in> verts g" using equiv_dom [OF E ij] by auto
  then have "i \<le> j" "j \<le> i" using ij ji assms(2,3) by (auto simp: irel_class rep_def)
  then show ?thesis by simp
qed

lemma reps_cover:
  assumes "ufs_ok g" "x \<in> verts g"
  obtains r where "r \<in> set (reps g 0 (length (dlist g)))" "(r, x) \<in> irel g"
proof -
  have E: "equiv (verts g) (irel g)" by (rule equiv_irel [OF assms(1)])
  define C where "C = insert x (set (chain g x))"
  define r where "r = Min C"
  have "r \<in> C" unfolding r_def by (rule Min_in) (auto simp: C_def)
  then have xr: "(x, r) \<in> irel g" using assms(2) by (auto simp: C_def irel_class)
  have "rep g r"
    unfolding rep_def
  proof
    fix p assume "p \<in> set (chain g r)"
    then have "(r, p) \<in> irel g" by (simp add: irel_iff)
    then have "(x, p) \<in> irel g" by (rule equiv_trans [OF E xr])
    then have "p \<in> C" using assms(2) by (auto simp: C_def irel_class)
    then show "r \<le> p" unfolding r_def by (intro Min_le) (auto simp: C_def)
  qed
  moreover have "r \<in> verts g" using equiv_dom [OF E xr] by simp
  ultimately have "r \<in> set (reps g 0 (length (dlist g)))"
    by (auto simp: reps_def verts_def image_iff intro!: bexI [of _ "nat r"])
  then show thesis using equiv_sym [OF E xr] by (rule that)
qed

lemma distinct_concat_map:
  assumes "distinct xs" "\<forall>x \<in> set xs. distinct (C x)"
    "\<And>x y. x \<in> set xs \<Longrightarrow> y \<in> set xs \<Longrightarrow> x \<noteq> y \<Longrightarrow> set (C x) \<inter> set (C y) = {}"
  shows "distinct (concat (map C xs))"
  using assms
proof (induction xs)
  case Nil
  then show ?case by simp
next
  case (Cons x xs)
  have "set (C x) \<inter> set (C y) = {}" if "y \<in> set xs" for y
    using Cons.prems(1,3) that by force
  moreover have "distinct (concat (map C xs))" using Cons.prems by (intro Cons.IH) auto
  ultimately show ?case using Cons.prems(2) by auto
qed

lemma printed_partition:
  assumes ok: "ufs_ok g" "names_ok g" and n: "dlist g \<noteq> []"
    and C: "\<forall>i \<in> verts g. set (C i) = set (class_names g i) \<and> distinct (C i)"
  defines "rs \<equiv> reps g 0 (length (dlist g))"
  shows "state_ok (map C rs)" "part_rel (map C rs) = ufs_rel g"
proof -
  have E: "equiv (verts g) (irel g)" by (rule equiv_irel [OF ok(1)])
  have inj: "inj_on (name_of g) (verts g)" by (rule inj_name_of [OF ufs_ok_base [OF ok(1)]])
  have mem: "x \<in> set (C i) \<longleftrightarrow> (\<exists>j. (i, j) \<in> irel g \<and> x = name_of g j)" if "i \<in> verts g" for i x
    using C that by (auto simp: class_names_def irel_class)
  have nms: "nms (C i)" if "i \<in> verts g" for i
    using C class_names_nms [OF ok that] that by (auto simp: nms_def)
  have rv: "i \<in> verts g \<and> rep g i" if "i \<in> set rs" for i
    using that reps_verts [of i g] reps_bound [of i g 0] by (simp add: rs_def)
  have disj: "set (C i) \<inter> set (C j) = {}" if ij: "i \<in> set rs" "j \<in> set rs" "i \<noteq> j" for i j
  proof (rule ccontr)
    assume "set (C i) \<inter> set (C j) \<noteq> {}"
    then obtain x where x: "x \<in> set (C i)" "x \<in> set (C j)" by blast
    obtain k where k: "(i, k) \<in> irel g" "x = name_of g k" using mem [of i x] rv [OF ij(1)] x(1) by auto
    obtain l where l: "(j, l) \<in> irel g" "x = name_of g l" using mem [of j x] rv [OF ij(2)] x(2) by auto
    have "k = l" using inj_onD [OF inj] equiv_dom [OF E k(1)] equiv_dom [OF E l(1)] k(2) l(2) by simp
    then show False
      using reps_unique [OF ok(1) _ _ k(1), of j] l(1) rv [OF ij(1)] rv [OF ij(2)] ij(3) by simp
  qed
  have "distinct rs" by (simp add: rs_def reps_def distinct_map inj_on_def)
  then have "distinct (concat (map C rs))"
    using C rv disj by (intro distinct_concat_map) auto
  moreover have "rs \<noteq> []" using reps_ne [OF ok(1), of "length (dlist g)"] n by (simp add: rs_def)
  ultimately show "state_ok (map C rs)" using nms rv by (simp add: state_ok_def)
  show "part_rel (map C rs) = ufs_rel g"
  proof (rule subset_antisym; rule subrelI)
    fix x y assume "(x, y) \<in> part_rel (map C rs)"
    then obtain i where i: "i \<in> set rs" "x \<in> set (C i)" "y \<in> set (C i)" by (auto simp: part_rel_iff)
    obtain k where k: "(i, k) \<in> irel g" "x = name_of g k" using mem [of i x] rv [OF i(1)] i(2) by auto
    obtain l where l: "(i, l) \<in> irel g" "y = name_of g l" using mem [of i y] rv [OF i(1)] i(3) by auto
    have "(k, l) \<in> irel g" by (rule equiv_trans [OF E equiv_sym [OF E k(1)] l(1)])
    then show "(x, y) \<in> ufs_rel g" unfolding ufs_rel_def k(2) l(2) by (auto simp: map_prod_def)
  next
    fix x y assume "(x, y) \<in> ufs_rel g"
    then obtain k l where kl: "(k, l) \<in> irel g" "x = name_of g k" "y = name_of g l"
      by (auto simp: ufs_rel_def)
    obtain r where r: "r \<in> set rs" "(r, k) \<in> irel g"
      using reps_cover [OF ok(1)] equiv_dom [OF E kl(1)] unfolding rs_def by blast
    have "(r, l) \<in> irel g" by (rule equiv_trans [OF E r(2) kl(1)])
    then have "x \<in> set (C r)" "y \<in> set (C r)" using mem rv [OF r(1)] r(2) kl(2,3) by auto
    then show "(x, y) \<in> part_rel (map C rs)" using r(1) by (auto simp: part_rel_iff)
  qed
qed

lemma show_map: "join SLASH (map (\<lambda>i. join COMMA (C i)) rs) = show_state (map C rs)"
  by (simp add: show_state_def o_def)

lemma updateVerticeUfs_ok:
  assumes ok: "ufs_ok g" "names_ok g" and n: "2 \<le> length (dlist g)"
  obtains u where "updateVerticeUfs g = Some u" "text_ok u" "text_rel u = ufs_rel g"
proof -
  let ?cs = "map (class_names g) (reps g 0 (length (dlist g)))"
  have "\<forall>i \<in> verts g. state_class g i = Some (join COMMA (class_names g i)) \<and>
      nul_free (join COMMA (class_names g i)) \<and> join COMMA (class_names g i) \<noteq> []"
    using state_class_eq [OF ok] class_names_nms [OF ok] by simp
  then have "print_all state_class g = Some (show_state ?cs)"
    using print_all_eq [OF ok(1), of state_class "\<lambda>i. join COMMA (class_names g i)"] n show_map by metis
  moreover have cs: "state_ok ?cs" "part_rel ?cs = ufs_rel g"
    using printed_partition [OF ok, of "class_names g"] class_names_distinct [OF ok(1)] n by force+
  moreover have "nul_free (show_state ?cs)" using cs(1) by (intro nul_free_state) (simp add: state_ok_def)
  ultimately have "updateVerticeUfs g = Some (show_state ?cs)" by (simp add: updateVerticeUfs_def)
  then show thesis using text_ok_show [OF cs(1)] text_rel_show [OF cs(1)] cs(2) by (intro that) auto
qed

definition members :: "cudGraph \<Rightarrow> string list list" where
  "members g = map (\<lambda>i. vertex_order g (set (class_names g i))) (reps g 0 (length (dlist g)))"

lemma umembers_ok:
  assumes ok: "ufs_ok g" "names_ok g" and n: "2 \<le> length (dlist g)"
  shows "umembers_text g = Some (show_state (members g))" "state_ok (members g)" "part_rel (members g) = ufs_rel g"
proof -
  let ?C = "\<lambda>i. vertex_order g (set (class_names g i))"
  have C: "\<forall>i \<in> verts g. set (?C i) = set (class_names g i) \<and> distinct (?C i)"
  proof
    fix i assume i: "i \<in> verts g"
    have "distinct (map data (dlist g))" using ok(1) by (simp add: ufs_ok_def base_ok_def)
    then show "set (?C i) = set (class_names g i) \<and> distinct (?C i)"
      using vertex_order_set [OF class_names_sub [OF ok(1) i]] unfolding vertex_order_def
      by (simp add: distinct_filter)
  qed
  show p: "state_ok (members g)" "part_rel (members g) = ufs_rel g"
    unfolding members_def using printed_partition [OF ok _ C] n by force+
  have "nms (?C i)" if "i \<in> verts g" for i
    using C class_names_nms [OF ok that] that by (auto simp: nms_def)
  then have "\<forall>i \<in> verts g. members_class g i = Some (join COMMA (?C i)) \<and>
      nul_free (join COMMA (?C i)) \<and> join COMMA (?C i) \<noteq> []"
    using members_class_eq [OF ok] by simp
  then show "umembers_text g = Some (show_state (members g))"
    using print_all_eq [OF ok(1), of members_class "\<lambda>i. join COMMA (?C i)"] n
    unfolding umembers_text_def members_def show_map by metis
qed

lemma cat_plain_concat: "\<forall>e \<in> set es. nul_free e \<Longrightarrow> cat_plain acc es = acc @ concat es"
  by (induction es arbitrary: acc) auto

lemma class_names_image:
  assumes "ufs_ok g" "i \<in> verts g"
  shows "set (class_names g i) = ufs_rel g `` {name_of g i}"
proof -
  have inj: "inj_on (name_of g) (verts g)" by (rule inj_name_of [OF ufs_ok_base [OF assms(1)]])
  have E: "equiv (verts g) (irel g)" by (rule equiv_irel [OF assms(1)])
  have "y \<in> ufs_rel g `` {name_of g i} \<longleftrightarrow> (\<exists>j. (i, j) \<in> irel g \<and> y = name_of g j)" for y
    using inj_onD [OF inj _ assms(2)] equiv_dom [OF E] by (fastforce simp: ufs_rel_def)
  then show ?thesis using assms(2) by (auto simp: class_names_def irel_class)
qed

lemma find_single:
  assumes ok: "ufs_ok g" "names_ok g" and i: "i \<in> verts g" "locateVex g (name_of g i) = Some i"
  shows "sort_elements g [name_of g i, []] = Some [[], name_of g i]"
proof -
  have "[] \<notin> names g" using ok(2) nm_not_Nil [of "[]"] by (auto simp: names_ok_def)
  then have neg: "locateVex g [] = Some (-1)"
    using locateVex_missing [OF ufs_ok_base [OF ok(1)], of "[]"] by simp
  let ?k = "\<lambda>x. the (locateVex g x)"
  have "0 \<le> i" using i(1) by (simp add: verts_def)
  then have "inj_on ?k (set [name_of g i, []])" "key_sorted ?k [[], name_of g i]"
    using neg i(2) by (auto simp: inj_on_def)
  then have "quickSort ?k [name_of g i, []] 0 (length [name_of g i, []] - 1) = [[], name_of g i]"
    by (intro quick.srt_unique) (auto simp: add_mset_commute)
  then show ?thesis using neg i(2) by (simp add: sort_elements_def)
qed

lemma find_text_eq:
  assumes ok: "ufs_ok g" "names_ok g" and e: "e \<in> names g"
  shows "find_text g e = Some (concat (vertex_order g (ufs_rel g `` {e})))"
proof -
  obtain i where i: "locateVex g e = Some i" "i \<in> verts g" "name_of g i = e"
    by (rule locateVex_name [OF ok(1) e])
  have nms: "nms (class_names g i)" by (rule class_names_nms [OF ok i(2)])
  have v: "vat g i = Some (dlist g ! nat i)" "firstedge (dlist g ! nat i) = chain g i"
    using i(2) by (simp_all add: chain_in)
  have n: "nm e" using ok(2) e by (simp add: names_ok_def)
  have set: "ufs_rel g `` {e} = set (class_names g i)" using class_names_image [OF ok(1) i(2)] i(3) by simp
  have nf: "\<forall>e \<in> set (vertex_order g (set (class_names g i))). nul_free e"
    using vertex_order_set [OF class_names_sub [OF ok(1) i(2)]] nms_nm [OF nms] by auto
  show ?thesis
  proof (cases "chain g i = []")
    case True
    then have c: "class_names g i = [e]" by (simp add: class_names_def i(3))
    have "split_on COMMA (e @ [COMMA]) = [e, []]" using split_on_append [of COMMA e "[]"] n by simp
    moreover have "sort_elements g [e] = Some (vertex_order g {e})"
      using sort_elements_order [OF ufs_ok_base [OF ok(1)], of "[e]"] e by simp
    then have "vertex_order g {e} = [e]" by (simp add: sort_elements_def quickSort.simps split: if_splits)
    ultimately show ?thesis
      using v i True find_single [OF ok i(2)] n set c
      by (simp add: find_text_def Let_def pieces_def cat_plain_concat)
  next
    case False
    have "sort_elements g (class_names g i) = Some (vertex_order g (set (class_names g i)))"
      using sort_elements_order [OF ufs_ok_base [OF ok(1)] class_names_distinct [OF ok(1) i(2)]
          class_names_sub [OF ok(1) i(2)]] .
    then show ?thesis
      using v i False class_text [OF ok i(2) False] n set nf nms
      by (simp add: find_text_def Let_def cat_plain_concat)
  qed
qed

lemma updateVerticeUfs_single:
  assumes "dlist g = [\<lparr>data = n, firstedge = []\<rparr>]" "vertexnum g = 1" "nm n"
  shows "updateVerticeUfs g = Some (if length n = 1 then n else butlast n)"
proof -
  have cls: "state_class g 0 = Some n"
    using assms sdstrim_comma [OF assms(3)]
    by (simp add: state_class_def vat_def Let_def pieces_def cat_elements_eq)
  have "print_all state_class g = Some (sdsrange n 0 (int (length n) - 2))"
    using assms cls by (simp add: print_all_def)
  moreover have "sdsrange n 0 (int (length n) - 2) = (if length n = 1 then n else butlast n)"
  proof (cases "length n = 1")
    case True
    then show ?thesis using sdsrange_last [of n] by simp
  next
    case False
    then have "2 \<le> length n" using nm_not_Nil [OF assms(3)] by (cases n) (auto simp: Suc_le_eq)
    then show ?thesis using False by (simp add: sdsrange_nonneg butlast_conv_take nat_diff_distrib)
  qed
  moreover have "nul_free (butlast n)"
    using nm_nul_free [OF assms(3)] by (auto simp: nul_free_def dest: in_set_butlastD)
  ultimately show ?thesis using assms(3) by (simp add: updateVerticeUfs_def)
qed

end
