(* ===== verification/Ot_Transform.thy ===== *)
theory Ot_Transform
  imports Ufs_State
begin

text \<open>
  \<^verbatim>\<open>otUfs\<close> of \<^verbatim>\<open>src/ot.c\<close>: the transformation of two concurrent operations against each
  other, and the commutation property it is meant to have. The code duplicates each transformation
  for the two orders of its arguments; the copies are one definition here.
\<close>

section \<open>Operations\<close>

record opr =
  optype :: int
  argv1 :: "string option"
  argv2 :: "string option"

text \<open>
  The operation part of an edge (\<^verbatim>\<open>dedge\<close>); \<^verbatim>\<open>setOp\<close> overwrites it and keeps the rest
  of the edge. \<^verbatim>\<open>otUfs\<close> collects the type and arguments of the two results in local
  variables, a triple of which is a value of \<^typ>\<open>opr\<close>.
\<close>

definition setOp :: "'a opr_scheme \<Rightarrow> int \<Rightarrow> string option \<Rightarrow> string option \<Rightarrow> 'a opr_scheme" where
  "setOp e t t1 t2 = e\<lparr>optype := t, argv1 := t1, argv2 := t2\<rparr>"

definition mk_op :: "int \<Rightarrow> string option \<Rightarrow> string option \<Rightarrow> opr" where
  "mk_op t t1 t2 = \<lparr>optype = t, argv1 = t1, argv2 = t2\<rparr>"

definition OT_SPLIT :: int where
  "OT_SPLIT = 1"

definition OT_UNION :: int where
  "OT_UNION = 2"

section \<open>Changing the union (flag 2)\<close>

text \<open>The arguments of the union after a concurrent split of \<^term>\<open>s\<close>.\<close>

definition change_union :: "string \<Rightarrow> string \<Rightarrow> string \<Rightarrow> string \<Rightarrow> (string \<times> string) option" where
  "change_union ufs u1 u2 s =
     (let set1 = strchr u1 COMMA; set2 = strchr u2 COMMA in
      if \<not> set1 \<and> \<not> set2 then
        if streq u1 u2 then Some (u1, u2)
        else if streq u1 star \<or> streq u2 star then Some (u1, u2)
        else if streq u1 s then do { c \<leftarrow> cpltClass ufs (Some s) OT_UNION; Some (c, u2) }
        else if streq u2 s then do { c \<leftarrow> cpltClass ufs (Some s) OT_UNION; Some (u1, c) }
        else Some (u1, u2)
      else if set1 \<and> \<not> set2 then do {
        f \<leftarrow> findstr u1 s;
        a1 \<leftarrow> (if f then cpltClass ufs (Some s) OT_UNION else Some u1);
        a2 \<leftarrow> (if streq u2 s then (if f then Some a1 else cpltClass ufs (Some s) OT_UNION) else Some u2);
        Some (a1, a2)
      }
      else if \<not> set1 \<and> set2 then do {
        f \<leftarrow> findstr u2 s;
        a2 \<leftarrow> (if f then cpltClass ufs (Some s) OT_UNION else Some u2);
        a1 \<leftarrow> (if streq u1 s then (if f then Some a2 else cpltClass ufs (Some s) OT_UNION) else Some u1);
        Some (a1, a2)
      }
      else do {
        f1 \<leftarrow> findstr u1 s;
        a1 \<leftarrow> (if f1 then cpltClass ufs (Some s) OT_UNION else Some u1);
        f2 \<leftarrow> findstr u2 s;
        a2 \<leftarrow> (if f2 then (if f1 then Some a1 else cpltClass ufs (Some s) OT_UNION) else Some u2);
        Some (a1, a2)
      })"

definition ot_union :: "string \<Rightarrow> 'a opr_scheme \<Rightarrow> 'b opr_scheme \<Rightarrow> (opr \<times> opr) option" where
  "ot_union ufs op1 op2 =
     (if optype op1 = OPTYPE_UNION \<and> optype op2 = OPTYPE_SPLIT then do {
        u1 \<leftarrow> argv1 op1; u2 \<leftarrow> argv2 op1; s \<leftarrow> argv1 op2;
        (a1, a2) \<leftarrow> change_union ufs u1 u2 s;
        Some (mk_op OPTYPE_UNION (Some a1) (Some a2), mk_op OPTYPE_SPLIT (Some s) None)
      }
      else if optype op1 = OPTYPE_SPLIT \<and> optype op2 = OPTYPE_UNION then do {
        u1 \<leftarrow> argv1 op2; u2 \<leftarrow> argv2 op2; s \<leftarrow> argv1 op1;
        (a1, a2) \<leftarrow> change_union ufs u1 u2 s;
        Some (mk_op OPTYPE_SPLIT (Some s) None, mk_op OPTYPE_UNION (Some a1) (Some a2))
      }
      else if optype op1 = OPTYPE_UNION \<and> optype op2 = OPTYPE_UNION then
        Some (mk_op OPTYPE_UNION (argv1 op1) (argv2 op1), mk_op OPTYPE_UNION (argv1 op2) (argv2 op2))
      else if optype op1 = OPTYPE_SPLIT \<and> optype op2 = OPTYPE_SPLIT then
        Some (mk_op OPTYPE_SPLIT (argv1 op1) None, mk_op OPTYPE_SPLIT (argv1 op2) None)
      else Some (mk_op 0 None None, mk_op 0 None None))"

section \<open>Changing the split (flag 1)\<close>

definition change_split :: "string \<Rightarrow> string \<Rightarrow> string \<Rightarrow> string \<Rightarrow> string option" where
  "change_split ufs u1 u2 s =
     (if streq u1 u2 then Some s
      else if \<not> strchr s COMMA then
        if streq s star then Some s
        else do {
          same \<leftarrow> sameClass ufs u1 u2;
          if same then Some (if streq u1 s \<or> streq u2 s then star else s)
          else if streq u1 s \<or> streq u2 s then cpltClass ufs (Some s) OT_SPLIT
          else Some s
        }
      else do {
        same \<leftarrow> sameClass ufs u1 u2;
        f1 \<leftarrow> findstr s u1;
        f2 \<leftarrow> (if f1 \<and> \<not> same then Some False else findstr s u2);
        if same then Some (if f1 \<and> f2 then s else if f1 \<or> f2 then star else s)
        else if f1 \<or> f2 then cpltClass ufs (Some s) OT_SPLIT else Some s
      })"

text \<open>
  The two loops over the names of two set splits: the common names, and the names of one that the
  other does not have. The texts are NULL as long as nothing has been added to them.
\<close>

definition add_name :: "string option \<Rightarrow> string \<Rightarrow> string option" where
  "add_name t e = Some (sdscat (case t of None \<Rightarrow> sdsempty | Some u \<Rightarrow> sdscat u [COMMA]) e)"

fun overlap_loop :: "string \<Rightarrow> string list \<Rightarrow> string option \<Rightarrow> nat \<Rightarrow> string option \<Rightarrow> (nat \<times> string option) option" where
  "overlap_loop t [] overlap num rest = Some (num, rest)"
| "overlap_loop t (e # es) overlap num rest = do {
     f \<leftarrow> findstr t e;
     if f then overlap_loop t es (add_name overlap e) (Suc num) rest
     else overlap_loop t es overlap num (add_name rest e)
   }"

fun rest_loop :: "string \<Rightarrow> string list \<Rightarrow> string option \<Rightarrow> string option option" where
  "rest_loop t [] rest = Some rest"
| "rest_loop t (e # es) rest = do {
     f \<leftarrow> findstr t e;
     rest_loop t es (if f then rest else add_name rest e)
   }"

definition overlap_splits :: "string \<Rightarrow> string \<Rightarrow> string \<Rightarrow> (opr \<times> opr) option" where
  "overlap_splits ufs s1 s2 = do {
     elements1 \<leftarrow> sdssplitlen s1 (int (strlen s1)) [COMMA];
     elements2 \<leftarrow> sdssplitlen s2 (int (strlen s2)) [COMMA];
     (num, s1nos2) \<leftarrow> overlap_loop s2 elements1 None 0 None;
     s2nos1 \<leftarrow> (if num \<noteq> 0 then rest_loop s1 elements2 None else Some None);
     if num = 0 then Some (mk_op OPTYPE_SPLIT (Some s1) None, mk_op OPTYPE_SPLIT (Some s2) None)
     else if num = length elements1 \<or> num = length elements2 then
       if length elements1 = length elements2 then do {
         c1 \<leftarrow> cpltClass ufs None 0;
         c2 \<leftarrow> cpltClass ufs None 0;
         Some (mk_op OPTYPE_SPLIT (Some c1) None, mk_op OPTYPE_SPLIT (Some c2) None)
       }
       else if num = length elements1 then do {
         r \<leftarrow> s2nos1;
         Some (mk_op OPTYPE_SPLIT (Some s1) None, mk_op OPTYPE_SPLIT (Some (cstr r)) None)
       }
       else do {
         r \<leftarrow> s1nos2;
         Some (mk_op OPTYPE_SPLIT (Some (cstr r)) None, mk_op OPTYPE_SPLIT (Some s2) None)
       }
     else do {
       r1 \<leftarrow> s1nos2; r2 \<leftarrow> s2nos1;
       e1 \<leftarrow> sdssplitlen r1 (int (length r1)) [COMMA];
       e2 \<leftarrow> sdssplitlen r2 (int (length r2)) [COMMA];
       a \<leftarrow> first e1; b \<leftarrow> first e2;
       Some (mk_op OPTYPE_UNION (Some (cstr a)) (Some (cstr b)), mk_op OPTYPE_UNION (Some (cstr a)) (Some (cstr b)))
     }
   }"

definition change_splits :: "string \<Rightarrow> string \<Rightarrow> string \<Rightarrow> (opr \<times> opr) option" where
  "change_splits ufs s1 s2 =
     (let set1 = strchr s1 COMMA; set2 = strchr s2 COMMA;
          keep = (mk_op OPTYPE_SPLIT (Some s1) None, mk_op OPTYPE_SPLIT (Some s2) None) in
      if \<not> set1 \<and> \<not> set2 then Some keep
      else if \<not> set1 \<and> set2 then
        if streq s1 star then Some keep
        else do {
          f \<leftarrow> findstr s2 s1;
          a2 \<leftarrow> (if f then cpltClass ufs (Some s2) OT_SPLIT else Some s2);
          Some (mk_op OPTYPE_SPLIT (Some s1) None, mk_op OPTYPE_SPLIT (Some a2) None)
        }
      else if set1 \<and> \<not> set2 then
        if streq s2 star then Some keep
        else do {
          f \<leftarrow> findstr s1 s2;
          a1 \<leftarrow> (if f then cpltClass ufs (Some s1) OT_SPLIT else Some s1);
          Some (mk_op OPTYPE_SPLIT (Some a1) None, mk_op OPTYPE_SPLIT (Some s2) None)
        }
      else overlap_splits ufs s1 s2)"

definition ot_split :: "string \<Rightarrow> 'a opr_scheme \<Rightarrow> 'b opr_scheme \<Rightarrow> (opr \<times> opr) option" where
  "ot_split ufs op1 op2 =
     (if optype op1 = OPTYPE_UNION \<and> optype op2 = OPTYPE_SPLIT then do {
        u1 \<leftarrow> argv1 op1; u2 \<leftarrow> argv2 op1; s \<leftarrow> argv1 op2;
        a \<leftarrow> change_split ufs u1 u2 s;
        Some (mk_op OPTYPE_UNION (Some u1) (Some u2), mk_op OPTYPE_SPLIT (Some a) None)
      }
      else if optype op1 = OPTYPE_SPLIT \<and> optype op2 = OPTYPE_UNION then do {
        u1 \<leftarrow> argv1 op2; u2 \<leftarrow> argv2 op2; s \<leftarrow> argv1 op1;
        a \<leftarrow> change_split ufs u1 u2 s;
        Some (mk_op OPTYPE_SPLIT (Some a) None, mk_op OPTYPE_UNION (Some u1) (Some u2))
      }
      else if optype op1 = OPTYPE_SPLIT \<and> optype op2 = OPTYPE_SPLIT then do {
        s1 \<leftarrow> argv1 op1; s2 \<leftarrow> argv1 op2;
        change_splits ufs s1 s2
      }
      else Some (mk_op OPTYPE_UNION (argv1 op1) (argv2 op1), mk_op OPTYPE_UNION (argv1 op2) (argv2 op2)))"

section \<open>otUfs\<close>

definition ot_ops :: "string \<Rightarrow> 'a opr_scheme \<Rightarrow> 'b opr_scheme \<Rightarrow> int \<Rightarrow> (opr \<times> opr) option" where
  "ot_ops ufs op1 op2 flag =
     (if flag = OT_UNION then ot_union ufs op1 op2
      else if flag = OT_SPLIT then ot_split ufs op1 op2
      else Some (mk_op 0 None None, mk_op 0 None None))"

definition otUfs :: "string \<Rightarrow> 'a opr_scheme \<Rightarrow> 'b opr_scheme \<Rightarrow> 'c opr_scheme \<Rightarrow> 'd opr_scheme \<Rightarrow> int
    \<Rightarrow> ('c opr_scheme \<times> 'd opr_scheme) option" where
  "otUfs ufs op1 op2 e1 e2 flag = do {
     (o1, o2) \<leftarrow> ot_ops ufs op1 op2 flag;
     Some (setOp e1 (optype o1) (argv1 o1) (argv2 o1), setOp e2 (optype o2) (argv1 o2) (argv2 o2))
   }"

section \<open>Arguments after a split\<close>

text \<open>What an argument text stands for; \<open>*\<close> stands for no argument.\<close>

definition aarg :: "string \<Rightarrow> string list option" where
  "aarg a = (if a = star then None else Some (args a))"

lemma union_op_of: "union_op a b = union_of (aarg a) (aarg b)"
  by (simp add: union_op_def aarg_def)

text \<open>The arguments of splits of a single element.\<close>

definition sarg :: "(string \<times> string) set \<Rightarrow> string \<Rightarrow> bool" where
  "sarg R s \<longleftrightarrow> nm s \<and> (s, s) \<in> R"

lemma nm_star [simp]: "nm star"
  by (simp add: nm_def star_def)

lemma sarg_nm: "sarg R s \<Longrightarrow> nm s"
  by (auto simp: sarg_def)

lemma args_nm [simp]: "nm s \<Longrightarrow> args s = [s]"
  by (simp add: args_def)

lemma sarg_targ: "sarg R s \<Longrightarrow> targ R s"
  by (auto simp: sarg_def targ_def arg_ok_def nms_def)

lemma comma_args: "COMMA \<in> set a \<longleftrightarrow> length (args a) \<noteq> 1"
proof -
  have "COMMA \<notin> set a" if len: "length (args a) = 1"
  proof -
    obtain w where w: "args a = [w]" using len by (auto simp: length_Suc_conv)
    then have "a = w" using join_args [of a] by simp
    moreover have "COMMA \<notin> set w" using w split_on_pieces_sep_free [of w COMMA a] by (simp add: args_def)
    ultimately show ?thesis by simp
  qed
  moreover have "COMMA \<notin> set a \<Longrightarrow> length (args a) = 1" by (simp add: args_def)
  ultimately show ?thesis by blast
qed

lemma targ_strchr: "targ R a \<Longrightarrow> strchr a COMMA \<longleftrightarrow> length (args a) \<noteq> 1"
  using comma_args by (simp add: strchr_iff)

lemma targ_nms: "targ R a \<Longrightarrow> nms (args a)"
  by (auto simp: targ_def) (simp add: nms_def)

lemma targ_within: "targ R a \<Longrightarrow> a \<noteq> star \<Longrightarrow> within_class R (args a)"
  by (simp add: targ_def)

lemma targ_isolate:
  assumes "targ R a" "s \<notin> set (args a) \<or> args a = [s]"
  shows "targ (isolate R {s}) a"
  using assms by (auto simp: targ_def within_class_isolate isolate_iff)

lemma findstr_targ: "targ R a \<Longrightarrow> nm s \<Longrightarrow> findstr a s = Some (s \<in> set (args a))"
  using findstr_class [of "args a" "[s]"] by (simp add: targ_nms) (simp add: nms_def)

lemma single_arg:
  assumes "targ R a" "length (args a) = 1"
  shows "args a = [a]"
proof -
  obtain w where w: "args a = [w]" using assms(2) by (auto simp: length_Suc_conv)
  then show ?thesis using join_args [of a] by simp
qed

text \<open>The changed argument, in one expression for arguments that are one name or a set of names.\<close>

definition changed_arg :: "string \<Rightarrow> string \<Rightarrow> string \<Rightarrow> string option" where
  "changed_arg u s a = (if s \<in> set (args a) then cpltClass u (Some s) OT_UNION else Some a)"

lemma change_union_eq:
  assumes "targ R a" "targ R b" "nm s" "a \<noteq> star" "b \<noteq> star" "\<not> (length (args a) = 1 \<and> a = b)"
  shows "change_union u a b s = do { a' \<leftarrow> changed_arg u s a; b' \<leftarrow> changed_arg u s b; Some (a', b') }"
proof -
  have nf: "nul_free a" "nul_free b" "nul_free s" "nul_free star" using assms by simp_all
  have c: "strchr a COMMA \<longleftrightarrow> length (args a) \<noteq> 1" "strchr b COMMA \<longleftrightarrow> length (args b) \<noteq> 1"
    using assms targ_strchr by blast+
  have f: "findstr a s = Some (s \<in> set (args a))" "findstr b s = Some (s \<in> set (args b))"
    using assms findstr_targ by blast+
  have s1: "length (args a) = 1 \<Longrightarrow> args a = [a]" "length (args b) = 1 \<Longrightarrow> args b = [b]"
    using assms single_arg by blast+
  show ?thesis
    using assms(4-6) s1 unfolding change_union_def Let_def c f changed_arg_def
    by (cases "length (args a) = 1"; cases "length (args b) = 1"; cases "cpltClass u (Some s) OT_UNION")
      (auto simp: streq_iff nf)
qed

lemma cplt_single:
  assumes "text_ok u" "nm s" "(s, s) \<in> text_rel u" "(star, star) \<notin> text_rel u"
  obtains x where "cpltClass u (Some s) OT_UNION = Some x" "targ (isolate (text_rel u) {s}) x"
    "\<And>A. s \<in> set A \<Longrightarrow> arg_after_split (text_rel u) s A (aarg x)"
proof -
  obtain cs where cs: "u = show_state cs" "state_ok cs" "text_rel u = part_rel cs"
    by (rule text_cases [OF assms(1)])
  obtain c where c: "c \<in> set cs" "s \<in> set c" using assms(3) cs(3) by (auto simp: part_rel_iff)
  have im: "part_rel cs `` {s} = set c" by (rule part_image [OF cs(2) c])
  let ?x = "rest_of OT_UNION c [s]"
  have x: "cpltClass u (Some s) OT_UNION = Some ?x"
    using cpltClass_state [OF cs(2) c(1), of "[s]"] assms(2) c(2) by (simp add: cs(1) nms_def)
  show thesis
  proof (cases "set c \<subseteq> {s}")
    case True
    then have "?x = star" by (simp add: rest_of_def STAR_def star_def)
    then show thesis
      using that [OF x] im True by (auto simp: targ_def aarg_def cs(3) intro: alone)
  next
    case False
    let ?r = "hd (filter (\<lambda>y. y \<notin> set [s]) c)"
    have xr: "?x = ?r" using False by (simp add: rest_of_def OT_UNION_def)
    have "filter (\<lambda>y. y \<notin> set [s]) c \<noteq> []" using False by (auto simp: filter_empty_conv)
    then have "?r \<in> set (filter (\<lambda>y. y \<notin> set [s]) c)" by (rule hd_in_set)
    then have r: "?r \<in> set c" "?r \<noteq> s" by auto
    then have rel: "(s, ?r) \<in> text_rel u" "(?r, ?r) \<in> text_rel u" using c by (auto simp: cs(3) part_rel_iff)
    then have ns: "?r \<noteq> star" using assms(4) by metis
    have nmr: "nm ?r" using r(1) c(1) cs(2) by (auto simp: state_ok_def nms_def)
    have "targ (isolate (text_rel u) {s}) ?r"
      using nmr rel r by (intro sarg_targ) (auto simp: sarg_def isolate_iff)
    moreover have "aarg ?r = Some [?r]" using ns nmr by (simp add: aarg_def)
    ultimately show thesis using that [OF x] rel r unfolding xr by (auto intro: rep)
  qed
qed

lemma changed_arg_ok:
  assumes "text_ok u" "nm s" "(s, s) \<in> text_rel u" "(star, star) \<notin> text_rel u" "targ (text_rel u) a" "a \<noteq> star"
  obtains x where "changed_arg u s a = Some x" "targ (isolate (text_rel u) {s}) x"
    "arg_after_split (text_rel u) s (args a) (aarg x)"
proof (cases "s \<in> set (args a)")
  case True
  then show thesis using that cplt_single [OF assms(1-4)] by (auto simp: changed_arg_def)
next
  case False
  then show thesis
    using that [of a] assms(5,6) by (auto simp: changed_arg_def targ_isolate aarg_def intro: keep)
qed

lemma change_union_star:
  assumes "text_ok u" "nm s" "(s, s) \<in> text_rel u" "(star, star) \<notin> text_rel u"
    "targ (text_rel u) a" "targ (text_rel u) b" "a = star \<or> b = star"
  obtains a' b' where "change_union u a b s = Some (a', b')" "a' = star \<or> b' = star"
    "targ (isolate (text_rel u) {s}) a'" "targ (isolate (text_rel u) {s}) b'"
proof -
  let ?I = "isolate (text_rel u) {s}"
  have s: "s \<noteq> star" using assms(3,4) by metis
  have ts: "targ ?I star" by (simp add: targ_def)
  obtain x where x: "cpltClass u (Some s) OT_UNION = Some x" "targ ?I x"
    using cplt_single [OF assms(1-4)] by metis
  have nf: "nul_free a" "nul_free b" "nul_free s" "nul_free star" using assms by simp_all
  have cs: "\<not> strchr star COMMA" by (simp add: strchr_iff nf star_def)
  have one: "targ ?I y" if "targ (text_rel u) y" "length (args y) = 1" for y
    using that single_arg [OF that] targ_isolate [OF that(1), of s] by auto
  have set: "findstr y s = Some (s \<in> set (args y)) \<and> (s \<notin> set (args y) \<longrightarrow> targ ?I y)"
    if "targ (text_rel u) y" for y
    using that findstr_targ [OF that assms(2)] targ_isolate [OF that] by auto
  consider "a = star" "b = star" | "a = star" "b \<noteq> star" | "a \<noteq> star" "b = star" using assms(7) by blast
  then show thesis
  proof cases
    case 1
    then have "change_union u a b s = Some (star, star)" by (simp add: change_union_def cs streq_iff nf)
    then show thesis using that ts by blast
  next
    case 2
    have "change_union u a b s = Some (star, if length (args b) = 1 \<or> s \<notin> set (args b) then b else x)"
      using 2 s targ_strchr [OF assms(6)] conjunct1 [OF set [OF assms(6)]] x(1)
      by (simp add: change_union_def Let_def cs streq_iff nf)
    then show thesis using that ts x(2) one [OF assms(6)] set [OF assms(6)] by auto
  next
    case 3
    have "change_union u a b s = Some (if length (args a) = 1 \<or> s \<notin> set (args a) then a else x, star)"
      using 3 s targ_strchr [OF assms(5)] conjunct1 [OF set [OF assms(5)]] x(1)
      by (simp add: change_union_def Let_def cs streq_iff nf)
    then show thesis using that ts x(2) one [OF assms(5)] set [OF assms(5)] by auto
  qed
qed

text \<open>The commutation square of a union and a split of one element, for the texts.\<close>

definition union_square :: "(string \<times> string) set \<Rightarrow> string \<Rightarrow> string \<Rightarrow> string \<Rightarrow> (string \<times> string) option \<Rightarrow> bool" where
  "union_square R a b s r \<longleftrightarrow>
     (let R' = aapply (split_op s) R in
      \<exists>a' b'. r = Some (a', b') \<and> targ R' a' \<and> targ R' b' \<and>
        aapply (union_op a' b') R' = aapply (split_op s) (aapply (union_op a b) R))"

lemma change_union_square:
  assumes ok: "text_ok u" and star: "(star, star) \<notin> text_rel u"
    and a: "targ (text_rel u) a" and b: "targ (text_rel u) b" and s: "sarg (text_rel u) s"
  shows "union_square (text_rel u) a b s (change_union u a b s)"
proof -
  let ?R = "text_rel u" and ?I = "isolate (text_rel u) {s}"
  have s': "nm s" "(s, s) \<in> ?R" using s by (auto simp: sarg_def)
  have "s \<noteq> star" using s'(2) star by metis
  obtain cs where cs: "state_ok cs" "?R = part_rel cs" using text_cases [OF ok] by metis
  have E: "equiv (elems cs) ?R" using equiv_part_rel [OF cs(1)] cs(2) by simp
  have sp: "split_op s = ASplit [s]" using \<open>s \<noteq> star\<close> s' by (simp add: split_op_def)
  consider "a = star \<or> b = star" | "a \<noteq> star" "b \<noteq> star" "length (args a) = 1" "a = b"
    | "a \<noteq> star" "b \<noteq> star" "\<not> (length (args a) = 1 \<and> a = b)" by blast
  then show ?thesis
  proof cases
    case 1
    obtain a' b' where "change_union u a b s = Some (a', b')" "a' = star \<or> b' = star" "targ ?I a'" "targ ?I b'"
      by (rule change_union_star [OF ok s' star a b 1])
    then show ?thesis using 1 by (auto simp: union_square_def sp union_op_def)
  next
    case 2
    have nf: "nul_free a" "nul_free b" "nul_free star" using a b by simp_all
    have aa: "args a = [a]" using single_arg [OF a] 2 by simp
    have aR: "(a, a) \<in> ?R" using targ_within [OF a] 2(1) aa by simp
    have "change_union u a b s = Some (a, b)"
      using 2 targ_strchr [OF a] by (simp add: change_union_def streq_iff nf)
    moreover have "targ ?I a" using targ_isolate [OF a, of s] aa by auto
    moreover have "(a, a) \<in> ?I" using aR by (simp add: isolate_iff)
    ultimately show ?thesis
      using 2 aa aR E merge_idle [OF equiv_isolate [OF E]]
      by (auto simp: union_square_def sp union_op_def merge_idle)
  next
    case 3
    obtain a' where a': "changed_arg u s a = Some a'" "targ ?I a'" "arg_after_split ?R s (args a) (aarg a')"
      by (rule changed_arg_ok [OF ok s' star a 3(1)])
    obtain b' where b': "changed_arg u s b = Some b'" "targ ?I b'" "arg_after_split ?R s (args b) (aarg b')"
      by (rule changed_arg_ok [OF ok s' star b 3(2)])
    have "aapply (union_op a' b') ?I = isolate (merge ?R (hd (args a)) (hd (args b))) {s}"
      unfolding union_op_of
      by (rule union_split_square [OF E targ_within [OF a 3(1)] targ_within [OF b 3(2)] a'(3) b'(3)])
    then show ?thesis
      using a' b' change_union_eq [OF a b s'(1) 3, of u] 3
      by (auto simp: union_square_def sp union_op_def)
  qed
qed

section \<open>The commutation square of otUfs\<close>

text \<open>
  The operations of the replicas: unions whose arguments are \<open>*\<close> or names of one class, and splits
  of one element; and what an operation stands for.
\<close>

definition op_ok :: "(string \<times> string) set \<Rightarrow> 'a opr_scheme \<Rightarrow> bool" where
  "op_ok R e \<longleftrightarrow>
     (if optype e = OPTYPE_UNION
      then (case (argv1 e, argv2 e) of (Some a, Some b) \<Rightarrow> targ R a \<and> targ R b | _ \<Rightarrow> False)
      else optype e = OPTYPE_SPLIT \<and> (case argv1 e of Some s \<Rightarrow> sarg R s | None \<Rightarrow> False))"

definition op_den :: "'a opr_scheme \<Rightarrow> string aop" where
  "op_den e = op_of (optype e) (case argv1 e of Some a \<Rightarrow> a | None \<Rightarrow> star) (case argv2 e of Some b \<Rightarrow> b | None \<Rightarrow> star)"

definition op_apply :: "'a opr_scheme \<Rightarrow> (string \<times> string) set \<Rightarrow> (string \<times> string) set" where
  "op_apply e R = aapply (op_den e) R"

text \<open>Well-formed texts with no element called \<open>*\<close>, the name the code reserves.\<close>

definition ufs_text :: "string \<Rightarrow> bool" where
  "ufs_text u \<longleftrightarrow> text_ok u \<and> (star, star) \<notin> text_rel u"

lemma optypes [simp]: "OPTYPE_SPLIT \<noteq> OPTYPE_UNION" "OPTYPE_UNION \<noteq> OPTYPE_SPLIT"
  by (simp_all add: OPTYPE_SPLIT_def OPTYPE_UNION_def)

lemma op_cases:
  assumes "op_ok R e"
  obtains (union) a b where "optype e = OPTYPE_UNION" "argv1 e = Some a" "argv2 e = Some b" "targ R a" "targ R b"
      "op_apply e = aapply (union_op a b)"
    | (split) s where "optype e = OPTYPE_SPLIT" "argv1 e = Some s" "sarg R s" "op_apply e = aapply (split_op s)"
  using assms by (auto simp: op_ok_def op_apply_def op_den_def op_of_def fun_eq_iff split: if_splits option.splits)

lemma targ_mono: "targ R a \<Longrightarrow> R \<subseteq> S \<Longrightarrow> targ S a"
  by (auto simp: targ_def dest: within_class_mono)

lemma union_op_extends: "R \<subseteq> aapply (union_op a b) R"
  by (simp add: union_op_def merge_extends)

lemma sarg_mono: "sarg R s \<Longrightarrow> R \<subseteq> S \<Longrightarrow> sarg S s"
  by (auto simp: sarg_def)

lemma sarg_split: "sarg R s \<Longrightarrow> sarg (aapply (split_op t) R) s"
  by (auto simp: sarg_def split_op_def isolate_iff)

lemma union_op_commute:
  assumes E: "equiv U R" and "targ R a" "targ R b" "targ R c" "targ R d"
  shows "aapply (union_op c d) (aapply (union_op a b) R) = aapply (union_op a b) (aapply (union_op c d) R)"
proof -
  have "hd (args y) \<in> U" if "targ R y" "y \<noteq> star" for y
    using within_class_dom [OF E targ_within [OF that]] by simp
  then show ?thesis using assms merge_commute [OF E] by (auto simp: union_op_def)
qed

lemma split_op_commute: "aapply (split_op s) (aapply (split_op t) R) = aapply (split_op t) (aapply (split_op s) R)"
  by (simp add: split_op_def isolate_commute)

text \<open>Two transformed operations close the square of the operations they come from.\<close>

definition square :: "(string \<times> string) set \<Rightarrow> 'a opr_scheme \<Rightarrow> 'b opr_scheme \<Rightarrow> 'c opr_scheme \<Rightarrow> 'd opr_scheme \<Rightarrow> bool" where
  "square R o1 o2 e1 e2 \<longleftrightarrow>
     op_ok (op_apply o2 R) e1 \<and> op_ok (op_apply o1 R) e2 \<and>
     op_apply e2 (op_apply o1 R) = op_apply e1 (op_apply o2 R)"

lemma op_of_mk [simp]:
  "op_apply (mk_op OPTYPE_UNION (Some a) (Some b)) = aapply (union_op a b)"
  "op_apply (mk_op OPTYPE_SPLIT (Some a) None) = aapply (split_op a)"
  "op_ok R (mk_op OPTYPE_UNION (Some a) (Some b)) \<longleftrightarrow> targ R a \<and> targ R b"
  "op_ok R (mk_op OPTYPE_SPLIT (Some a) None) \<longleftrightarrow> sarg R a"
  "optype (mk_op ty x y) = ty"
  by (auto simp: op_apply_def op_den_def op_of_def mk_op_def op_ok_def fun_eq_iff)

lemma setOp_same [simp]:
  "op_apply (setOp e (optype v) (argv1 v) (argv2 v)) = op_apply v"
  "op_ok R (setOp e (optype v) (argv1 v) (argv2 v)) = op_ok R v"
  by (simp_all add: op_apply_def op_den_def op_ok_def setOp_def fun_eq_iff)

lemma ot_union_square:
  assumes u: "ufs_text u" and o1: "op_ok (text_rel u) o1" and o2: "op_ok (text_rel u) o2"
  shows "\<exists>v1 v2. ot_union u o1 o2 = Some (v1, v2) \<and> square (text_rel u) o1 o2 v1 v2 \<and>
    optype v1 = optype o1 \<and> optype v2 = optype o2"
proof -
  let ?R = "text_rel u"
  have ok: "text_ok u" and star: "(star, star) \<notin> ?R" using u by (auto simp: ufs_text_def)
  obtain cs where "state_ok cs" "?R = part_rel cs" using text_cases [OF ok] by metis
  then have E: "equiv (elems cs) ?R" using equiv_part_rel by simp
  note sq = change_union_square [OF ok star]
  from o1 show ?thesis
  proof (cases rule: op_cases)
    case (union a b)
    note 1 = union
    from o2 show ?thesis
    proof (cases rule: op_cases)
      case (union c d)
      then show ?thesis
        using 1 union_op_commute [OF E 1(4,5) union(4,5)]
        by (auto simp: ot_union_def square_def intro: targ_mono [OF _ union_op_extends])
    next
      case (split s)
      then show ?thesis
        using 1 sq [OF 1(4,5) split(3)]
        by (auto simp: ot_union_def square_def union_square_def Let_def intro: sarg_mono [OF _ union_op_extends])
    qed
  next
    case (split s)
    note 1 = split
    from o2 show ?thesis
    proof (cases rule: op_cases)
      case (union c d)
      then show ?thesis
        using 1 sq [OF union(4,5) 1(3)]
        by (auto simp: ot_union_def square_def union_square_def Let_def intro: sarg_mono [OF _ union_op_extends])
    next
      case (split t)
      then show ?thesis
        using 1 by (auto simp: ot_union_def square_def split_op_commute intro: sarg_split)
    qed
  qed
qed

lemma otUfs_square:
  assumes "ufs_text u" "op_ok (text_rel u) o1" "op_ok (text_rel u) o2"
  obtains e1' e2' where "otUfs u o1 o2 e1 e2 OT_UNION = Some (e1', e2')" "square (text_rel u) o1 o2 e1' e2'"
    "opr.more e1' = opr.more e1" "opr.more e2' = opr.more e2" "optype e1' = optype o1" "optype e2' = optype o2"
proof -
  obtain v1 v2 where v: "ot_union u o1 o2 = Some (v1, v2)" "square (text_rel u) o1 o2 v1 v2"
      "optype v1 = optype o1" "optype v2 = optype o2"
    using ot_union_square [OF assms] by blast
  let ?e1 = "setOp e1 (optype v1) (argv1 v1) (argv2 v1)" and ?e2 = "setOp e2 (optype v2) (argv1 v2) (argv2 v2)"
  have "otUfs u o1 o2 e1 e2 OT_UNION = Some (?e1, ?e2)" using v(1) by (simp add: otUfs_def ot_ops_def)
  moreover have "square (text_rel u) o1 o2 ?e1 ?e2" using v(2) by (simp add: square_def)
  ultimately show thesis using that v(3,4) by (simp add: setOp_def)
qed

section \<open>Replicas over a transformation\<close>

text \<open>
  The interface the control algorithm relies on: contents of a replica, what they stand for, the
  effect of an operation on a content, and a transformation of two concurrent operations. The
  laws are those the algorithm needs; its squares and the transformation of an operation past a
  whole sequence are proved from them.
\<close>

locale ot_replica =
  fixes ok :: "'c \<Rightarrow> bool" and den :: "'c \<Rightarrow> 's" and app :: "'e \<Rightarrow> 's \<Rightarrow> 's" and valid :: "'s \<Rightarrow> 'e \<Rightarrow> bool"
    and upd :: "'c \<Rightarrow> 'e \<Rightarrow> 'c option" and ot :: "'c \<Rightarrow> 'e \<Rightarrow> 'e \<Rightarrow> 'e \<Rightarrow> 'e \<Rightarrow> ('e \<times> 'e) option"
  assumes upd_ok: "ok c \<Longrightarrow> valid (den c) e \<Longrightarrow> \<exists>c'. upd c e = Some c' \<and> ok c' \<and> den c' = app e (den c)"
    and ot_ok: "ok c \<Longrightarrow> valid (den c) l \<Longrightarrow> valid (den c) r \<Longrightarrow>
      \<exists>l' r'. ot c l r x y = Some (l', r') \<and> valid (app r (den c)) l' \<and> valid (app l (den c)) r' \<and>
        app r' (app l (den c)) = app l' (app r (den c))"
begin

lemma close_square:
  assumes "ok c" "valid (den c) l" "valid (den c) r"
    and "ok cl" "den cl = app l (den c)" and "ok cr" "den cr = app r (den c)"
  obtains l' r' cp where "ot c l r x y = Some (l', r')" "upd cl r' = Some cp" "ok cp"
    "valid (den cr) l'" "valid (den cl) r'" "den cp = app r' (den cl)" "den cp = app l' (den cr)"
proof -
  obtain l' r' where o: "ot c l r x y = Some (l', r')" "valid (den cr) l'" "valid (den cl) r'"
      "app r' (den cl) = app l' (den cr)"
    using ot_ok [OF assms(1-3), of x y] assms(5,7) by metis
  then show thesis using that upd_ok [OF assms(4) o(3)] by metis
qed

text \<open>An operation transformed past a sequence of operations, and the sequence past it.\<close>

fun past :: "'e \<Rightarrow> 'c \<Rightarrow> 'e \<Rightarrow> 'e list \<Rightarrow> ('e \<times> 'e list) option" where
  "past x c r [] = Some (r, [])"
| "past x c r (l # ls) =
     Option.bind (ot c l r x x) (\<lambda>(l', r').
     Option.bind (upd c l) (\<lambda>c'.
     Option.bind (past x c' r' ls) (\<lambda>(r'', ls'). Some (r'', l' # ls'))))"

fun run :: "'e list \<Rightarrow> 's \<Rightarrow> 's" where
  "run [] s = s"
| "run (l # ls) s = run ls (app l s)"

fun runnable :: "'s \<Rightarrow> 'e list \<Rightarrow> bool" where
  "runnable s [] \<longleftrightarrow> True"
| "runnable s (l # ls) \<longleftrightarrow> valid s l \<and> runnable (app l s) ls"

lemma past_converges:
  assumes "ok c" "valid (den c) r" "runnable (den c) ls"
  shows "\<exists>r' ls'. past x c r ls = Some (r', ls') \<and> valid (run ls (den c)) r' \<and> runnable (app r (den c)) ls' \<and>
    app r' (run ls (den c)) = run ls' (app r (den c))"
  using assms
proof (induction ls arbitrary: c r)
  case Nil
  then show ?case by simp
next
  case (Cons l ls)
  from Cons.prems have v: "valid (den c) l" "runnable (app l (den c)) ls" by simp_all
  obtain cl where cl: "upd c l = Some cl" "ok cl" "den cl = app l (den c)"
    using upd_ok [OF Cons.prems(1) v(1)] by blast
  obtain l' r' where o: "ot c l r x x = Some (l', r')" "valid (app r (den c)) l'" "valid (den cl) r'"
      "app r' (den cl) = app l' (app r (den c))"
    using ot_ok [OF Cons.prems(1) v(1) Cons.prems(2), of x x] cl(3) by metis
  from Cons.IH [OF cl(2) o(3)] v(2) cl(3) obtain r2 ls2 where
    "past x cl r' ls = Some (r2, ls2)" "valid (run ls (den cl)) r2" "runnable (app r' (den cl)) ls2"
    "app r2 (run ls (den cl)) = run ls2 (app r' (den cl))" by auto
  then show ?case using o cl by auto
qed

end

text \<open>The update of a content by the operation of an edge, and its contract.\<close>

definition update_edge :: "string \<Rightarrow> 'a opr_scheme \<Rightarrow> int \<Rightarrow> string option" where
  "update_edge u e len_ufs = do {
     a1 \<leftarrow> argv1 e;
     a2 \<leftarrow> (if optype e = OPTYPE_UNION then argv2 e else Some []);
     updateVerticeUfsFromState u (optype e) a1 a2 len_ufs
   }"

definition text_of :: "nat \<Rightarrow> string \<Rightarrow> bool" where
  "text_of n u \<longleftrightarrow> ufs_text u \<and> length u = n"

lemma update_edge_refines:
  assumes "text_ok u" "op_ok (text_rel u) e"
  shows "text_refines u (update_edge u e (int (length u))) (op_apply e (text_rel u))"
  using assms(2)
proof (cases rule: op_cases)
  case (union a b)
  then show ?thesis
    using update_refines [OF assms(1) union(4), of OPTYPE_UNION b] by (simp add: update_edge_def op_of_def)
next
  case (split s)
  then show ?thesis
    using update_refines [OF assms(1) sarg_targ [OF split(3)], of OPTYPE_SPLIT "[]"]
    by (simp add: update_edge_def op_of_def)
qed

lemma op_apply_star:
  assumes "text_ok u" "(star, star) \<notin> text_rel u"
  shows "(star, star) \<notin> op_apply e (text_rel u)"
proof -
  obtain cs where "state_ok cs" "text_rel u = part_rel cs" using text_cases [OF assms(1)] by metis
  then have E: "equiv (elems cs) (text_rel u)" using equiv_part_rel by simp
  have "star \<notin> elems cs" using assms(2) equiv_refl [OF E] by blast
  then show ?thesis using equiv_dom [OF equiv_aapply [OF E]] unfolding op_apply_def by blast
qed

interpretation ufs: ot_replica "text_of n" text_rel op_apply op_ok
  "\<lambda>u e. update_edge u e (int n)" "\<lambda>u l r x y. otUfs u l r x y OT_UNION" for n
proof
  fix u and e :: "'a opr_scheme"
  assume "text_of n u" "op_ok (text_rel u) e"
  then show "\<exists>c'. update_edge u e (int n) = Some c' \<and> text_of n c' \<and> text_rel c' = op_apply e (text_rel u)"
    using update_edge_refines [of u e] op_apply_star [of u e]
    by (auto simp: text_of_def ufs_text_def text_refines_def)
next
  fix u and l r x y :: "'a opr_scheme"
  assume "text_of n u" "op_ok (text_rel u) l" "op_ok (text_rel u) r"
  then show "\<exists>l' r'. otUfs u l r x y OT_UNION = Some (l', r') \<and> op_ok (op_apply r (text_rel u)) l' \<and>
      op_ok (op_apply l (text_rel u)) r' \<and> op_apply r' (op_apply l (text_rel u)) = op_apply l' (op_apply r (text_rel u))"
    using otUfs_square [of u l r x y] unfolding square_def text_of_def by metis
qed

section \<open>Properties\<close>

text \<open>
  C5. \<^verbatim>\<open>otUfs\<close> with the flag the control algorithm passes (\<^verbatim>\<open>OT_UNION\<close>) has the commutation
  property of operational transformation. For a well-formed state text and two operations that are
  valid in it, each a union of \<open>*\<close> or of names of one class (of several names the first has fewer than ten
  bytes), or a split of a single element, it reads nothing outside of its strings and returns two operations such that the second after the first
  original, and the first after the second original, give the same classes. Each is again valid in
  the state it is meant for, and the rest of the edges is kept.
\<close>

theorem otUfs_commutes:
  assumes "ufs_text u" "op_ok (text_rel u) op1" "op_ok (text_rel u) op2"
  shows "\<exists>e1' e2'. otUfs u op1 op2 e1 e2 OT_UNION = Some (e1', e2') \<and>
    op_ok (op_apply op2 (text_rel u)) e1' \<and> op_ok (op_apply op1 (text_rel u)) e2' \<and>
    op_apply e2' (op_apply op1 (text_rel u)) = op_apply e1' (op_apply op2 (text_rel u)) \<and>
    opr.more e1' = opr.more e1 \<and> opr.more e2' = opr.more e2"
  by (rule otUfs_square [OF assms, of e1 e2]) (auto simp: square_def)

lemma text_eval:
  assumes "show_state cs = u" "state_ok cs"
  shows "text_ok u \<and> text_rel u = part_rel cs"
  using assms text_ok_show text_rel_show by metis

lemma sample_text: "text_ok ''a,b/c,d'' \<and> text_rel ''a,b/c,d'' = part_rel [[''a'', ''b''], [''c'', ''d'']]"
  by (rule text_eval)
    (simp add: show_state_def, simp add: state_ok_def nms_def nm_def nul_free_def del: name_rules)

theorem otUfs_commutes_witness:
  "\<exists>e1' e2'. otUfs ''a,b/c,d'' (mk_op OPTYPE_UNION (Some ''a'') (Some ''c,d'')) (mk_op OPTYPE_SPLIT (Some ''a'') None)
      (mk_op 0 None None) (mk_op 0 None None) OT_UNION = Some (e1', e2') \<and>
    op_apply e2' (op_apply (mk_op OPTYPE_UNION (Some ''a'') (Some ''c,d'')) (text_rel ''a,b/c,d'')) =
    op_apply e1' (op_apply (mk_op OPTYPE_SPLIT (Some ''a'') None) (text_rel ''a,b/c,d''))"
proof -
  have "ufs_text ''a,b/c,d''"
    using sample_text by (simp add: ufs_text_def part_rel_def star_def)
  moreover have "op_ok (text_rel ''a,b/c,d'') (mk_op OPTYPE_UNION (Some ''a'') (Some ''c,d''))"
    using sample_text
    by (simp add: targ_def star_def args_def arg_ok_def nms_def nm_def nul_free_def within_class_def
        part_rel_def del: name_rules)
  moreover have "op_ok (text_rel ''a,b/c,d'') (mk_op OPTYPE_SPLIT (Some ''a'') None)"
    using sample_text by (simp add: sarg_def nm_def nul_free_def part_rel_def del: name_rules)
  ultimately show ?thesis
    using otUfs_commutes [of "''a,b/c,d''" "mk_op OPTYPE_UNION (Some ''a'') (Some ''c,d'')"
        "mk_op OPTYPE_SPLIT (Some ''a'') None" "mk_op 0 None None" "mk_op 0 None None"] by blast
qed

text \<open>
  \<^verbatim>\<open>otUfs\<close> is symmetric: exchanging the two operations, and the two edges that receive the
  results, exchanges the results, for any texts and operations. The server calls it with the
  operations in the opposite order of the clients and gets the same transformed operations.
\<close>

theorem otUfs_symmetric:
  "otUfs u op2 op1 e2 e1 OT_UNION = map_option (\<lambda>(x, y). (y, x)) (otUfs u op1 op2 e1 e2 OT_UNION)"
  by (cases "optype op1 = OPTYPE_UNION"; cases "optype op2 = OPTYPE_UNION";
      cases "optype op1 = OPTYPE_SPLIT"; cases "optype op2 = OPTYPE_SPLIT")
    (auto simp: otUfs_def ot_ops_def ot_union_def split: Option.bind_split)

text \<open>
  C24. For splits of several elements of a class the commutation property fails. Whenever a union of two
  single elements meets a concurrent split of several elements that names exactly one of the two, \<^verbatim>\<open>otUfs\<close>
  leaves both operations unchanged: it compares the name with the text of the whole set. After the union
  and then the split the two elements are in different classes, after the split and then the union they are in one, in any
  well-formed state text.
\<close>

theorem otUfs_set_split_diverges:
  assumes op: "optype un = OPTYPE_UNION" "argv1 un = Some a" "argv2 un = Some x" "optype sp = OPTYPE_SPLIT" "argv1 sp = Some s"
    and u: "ufs_text u" and ax: "nm a" "nm x" "(a, a) \<in> text_rel u" "(x, x) \<in> text_rel u"
    and s: "targ (text_rel u) s" "COMMA \<in> set s" "a \<in> set (args s) \<longleftrightarrow> x \<notin> set (args s)"
  shows "otUfs u un sp e1 e2 OT_UNION =
      Some (setOp e1 OPTYPE_UNION (Some a) (Some x), setOp e2 OPTYPE_SPLIT (Some s) None) \<and>
    (\<exists>t. Option.bind (update_edge u un (int (length u))) (\<lambda>v. update_edge v sp (int (length u))) = Some t \<and>
      text_ok t \<and> (a, x) \<notin> text_rel t) \<and>
    (\<exists>t. Option.bind (update_edge u sp (int (length u))) (\<lambda>v. update_edge v un (int (length u))) = Some t \<and>
      text_ok t \<and> (a, x) \<in> text_rel t)"
proof (intro conjI)
  let ?R = "text_rel u"
  have ok: "text_ok u" "(star, star) \<notin> ?R" using u by (simp_all add: ufs_text_def)
  have ne: "a \<noteq> star" "x \<noteq> star" "s \<noteq> star" "a \<noteq> s" "x \<noteq> s" "a \<noteq> x" "nul_free s"
    using ax s ok(2) nul_free_targ [OF s(1)] by (auto simp: star_def)
  have name: "targ R y" if "nm y" "(y, y) \<in> R" for y and R :: "(string \<times> string) set"
    using that by (simp add: targ_def arg_ok_def nms_def within_class_def)
  have w: "within_class ?R (args s)" by (rule targ_within [OF s(1) ne(3)])
  show "otUfs u un sp e1 e2 OT_UNION =
      Some (setOp e1 OPTYPE_UNION (Some a) (Some x), setOp e2 OPTYPE_SPLIT (Some s) None)"
    using ax(1,2) ne op by (simp add: otUfs_def ot_ops_def ot_union_def mk_op_def change_union_def strchr_iff streq_iff nul_free_star)
  have un: "update_edge v un = updateVerticeUfsFromState v OPTYPE_UNION a x"
    and sp: "update_edge v sp = updateVerticeUfsFromState v OPTYPE_SPLIT s []" for v
    using op by (simp_all add: update_edge_def fun_eq_iff)
  have den: "aapply (op_of OPTYPE_UNION a x) Q = merge Q a x" "aapply (op_of OPTYPE_SPLIT s []) Q = isolate Q (set (args s))" for Q
    using ax(1,2) ne by (simp_all add: op_of_def union_op_def split_op_def)
  obtain v where v: "update_edge u un (int (length u)) = Some v" "text_ok v" "text_rel v = merge ?R a x" "length v = length u"
    using update_refines [OF ok(1) name [OF ax(1,3)], of OPTYPE_UNION x] name [OF ax(2,4)]
    unfolding un text_refines_def den by auto
  have "targ (text_rel v) s" using s(1) w ne(3) unfolding v(3) by (auto simp: targ_def within_class_def merge_def)
  then obtain t where t: "update_edge v sp (int (length u)) = Some t" "text_ok t" "text_rel t = isolate (merge ?R a x) (set (args s))"
    using update_refines [OF v(2), of s OPTYPE_SPLIT "[]"] v(4) unfolding sp text_refines_def den v(3) by auto
  then show "\<exists>t. Option.bind (update_edge u un (int (length u))) (\<lambda>v. update_edge v sp (int (length u))) = Some t \<and>
      text_ok t \<and> (a, x) \<notin> text_rel t"
    using v(1) s(3) by (auto simp: isolate_def)
  obtain v where v: "update_edge u sp (int (length u)) = Some v" "text_ok v" "text_rel v = isolate ?R (set (args s))" "length v = length u"
    using update_refines [OF ok(1) s(1), of OPTYPE_SPLIT "[]"] unfolding sp text_refines_def den by auto
  have d: "(a, a) \<in> text_rel v" "(x, x) \<in> text_rel v" using ax(3,4) by (simp_all add: v(3) isolate_def)
  obtain t where t: "update_edge v un (int (length u)) = Some t" "text_ok t" "text_rel t = merge (text_rel v) a x"
    using update_refines [OF v(2) name [OF ax(1) d(1)], of OPTYPE_UNION x] name [OF ax(2) d(2)] v(4)
    unfolding un text_refines_def den by auto
  then show "\<exists>t. Option.bind (update_edge u sp (int (length u))) (\<lambda>v. update_edge v un (int (length u))) = Some t \<and>
      text_ok t \<and> (a, x) \<in> text_rel t"
    using v(1) d by (auto simp: merge_def)
qed

lemma sample_text_abcx: "text_ok ''a,b,c/x'' \<and> text_rel ''a,b,c/x'' = part_rel [[''a'', ''b'', ''c''], [''x'']]"
  by (rule text_eval)
    (simp add: show_state_def, simp add: state_ok_def nms_def nm_def nul_free_def del: name_rules)

theorem otUfs_set_split_diverges_witness:
  "(\<exists>t. Option.bind (update_edge ''a,b,c/x'' (mk_op OPTYPE_UNION (Some ''a'') (Some ''x'')) 7)
     (\<lambda>v. update_edge v (mk_op OPTYPE_SPLIT (Some ''a,b'') None) 7) = Some t \<and> (''a'', ''x'') \<notin> text_rel t) \<and>
   (\<exists>t. Option.bind (update_edge ''a,b,c/x'' (mk_op OPTYPE_SPLIT (Some ''a,b'') None) 7)
     (\<lambda>v. update_edge v (mk_op OPTYPE_UNION (Some ''a'') (Some ''x'')) 7) = Some t \<and> (''a'', ''x'') \<in> text_rel t)"
proof -
  have t: "ufs_text ''a,b,c/x''" "(''a'', ''a'') \<in> text_rel ''a,b,c/x''" "(''x'', ''x'') \<in> text_rel ''a,b,c/x''"
    using sample_text_abcx by (simp_all add: ufs_text_def part_rel_def star_def)
  have s: "targ (text_rel ''a,b,c/x'') ''a,b''"
    using sample_text_abcx
    by (simp add: targ_def star_def args_def arg_ok_def nms_def nm_def nul_free_def within_class_def part_rel_def del: name_rules)
  have n: "nm ''a''" "nm ''x''" by (simp_all add: nm_def nul_free_def)
  have m: "''a'' \<in> set (args ''a,b'') \<longleftrightarrow> ''x'' \<notin> set (args ''a,b'')" by (simp add: args_def)
  show ?thesis
    using otUfs_set_split_diverges [OF _ _ _ _ _ t(1) n t(2,3) s _ m, of "mk_op OPTYPE_UNION (Some ''a'') (Some ''x'')"
        "mk_op OPTYPE_SPLIT (Some ''a,b'') None" "mk_op 0 None None" "mk_op 0 None None"]
    by (simp add: mk_op_def) blast
qed

end
