(* ===== verification/State_Space.thy ===== *)
theory State_Space
  imports Ot_Transform
begin

text \<open>
  The state spaces of \<^verbatim>\<open>src/ot.c\<close>: graphs whose vertices are states of a structure (as text) and
  whose edges are operations, at most one local (\<^verbatim>\<open>ledge\<close>) and one remote (\<^verbatim>\<open>redge\<close>) edge at
  a vertex. A space is the list of its vertices in the order of their creation. Vertices are only
  ever added at the tail and never freed, so the position in the list stands for the pointer.
\<close>

section \<open>Vertices and edges\<close>

record dedge = opr +
  oid :: string
  adjv :: nat

record vertice =
  content :: "string option"
  ledge :: "dedge option"
  redge :: "dedge option"

type_synonym space = "vertice list"

definition createVertice :: vertice where
  "createVertice = \<lparr>content = None, ledge = None, redge = None\<rparr>"

definition createOpEdge :: "int \<Rightarrow> string option \<Rightarrow> string option \<Rightarrow> string \<Rightarrow> nat \<Rightarrow> dedge" where
  "createOpEdge type t1 t2 t3 v = \<lparr>optype = type, argv1 = t1, argv2 = t2, oid = t3, adjv = v\<rparr>"

text \<open>Reads and writes through a vertex pointer.\<close>

definition vget :: "space \<Rightarrow> nat \<Rightarrow> vertice option" where
  "vget vs i = (if i < length vs then Some (vs ! i) else None)"

definition get_ledge :: "space \<Rightarrow> nat \<Rightarrow> dedge option" where
  "get_ledge vs i = Option.bind (vget vs i) ledge"

definition get_redge :: "space \<Rightarrow> nat \<Rightarrow> dedge option" where
  "get_redge vs i = Option.bind (vget vs i) redge"

definition get_content :: "space \<Rightarrow> nat \<Rightarrow> string option" where
  "get_content vs i = Option.bind (vget vs i) content"

definition set_ledge :: "space \<Rightarrow> nat \<Rightarrow> dedge \<Rightarrow> space option" where
  "set_ledge vs i e = map_option (\<lambda>v. vs[i := v\<lparr>ledge := Some e\<rparr>]) (vget vs i)"

definition set_redge :: "space \<Rightarrow> nat \<Rightarrow> dedge \<Rightarrow> space option" where
  "set_redge vs i e = map_option (\<lambda>v. vs[i := v\<lparr>redge := Some e\<rparr>]) (vget vs i)"

definition set_content :: "space \<Rightarrow> nat \<Rightarrow> string \<Rightarrow> space option" where
  "set_content vs i u = map_option (\<lambda>v. vs[i := v\<lparr>content := Some u\<rparr>]) (vget vs i)"

section \<open>Locating vertices\<close>

partial_function (option) locateLVertice :: "space \<Rightarrow> nat \<Rightarrow> nat option" where
  "locateLVertice vs q = do {
     v \<leftarrow> vget vs q;
     case ledge v of
       Some e \<Rightarrow> locateLVertice vs (adjv e)
     | None \<Rightarrow> (case redge v of
         Some e \<Rightarrow> locateLVertice vs (adjv e)
       | None \<Rightarrow> Some q)
   }"

partial_function (option) calculateOids :: "space \<Rightarrow> nat \<Rightarrow> string \<Rightarrow> string option" where
  "calculateOids vs q oids = do {
     v \<leftarrow> vget vs q;
     case ledge v of
       Some e \<Rightarrow> calculateOids vs (adjv e) (sdscat (sdscat oids [COMMA]) (oid e))
     | None \<Rightarrow> (case redge v of
         Some e \<Rightarrow> calculateOids vs (adjv e) (sdscat (sdscat oids [COMMA]) (oid e))
       | None \<Rightarrow> Some oids)
   }"

definition findOid :: "string \<Rightarrow> string \<Rightarrow> bool" where
  "findOid list s = strstr list (sdscat (sdsnew [COMMA]) s)"

definition INIT :: string where
  "INIT = ''init''"

text \<open>The result \<^term>\<open>Some None\<close> is the NULL pointer.\<close>

definition has_oid :: "string \<Rightarrow> dedge option \<Rightarrow> bool" where
  "has_oid ctx e = (case e of None \<Rightarrow> False | Some d \<Rightarrow> findOid ctx (oid d))"

partial_function (option) locateRVertice_loop :: "space \<Rightarrow> nat \<Rightarrow> string \<Rightarrow> string \<Rightarrow> nat option option" where
  "locateRVertice_loop vs q ctx t =
     (if length t = length ctx then
        if length t = 4 then Some (if streq ctx INIT then Some q else None)
        else do { r \<leftarrow> oidscmp t ctx; Some (if r = 0 then Some q else None) }
      else do {
        v \<leftarrow> vget vs q;
        if has_oid ctx (ledge v) then do {
          e \<leftarrow> ledge v;
          locateRVertice_loop vs (adjv e) ctx (sdscat (sdscat t [COMMA]) (oid e))
        }
        else if has_oid ctx (redge v) then do {
          e \<leftarrow> redge v;
          locateRVertice_loop vs (adjv e) ctx (sdscat (sdscat t [COMMA]) (oid e))
        }
        else Some None
      })"

definition locateRVertice :: "space \<Rightarrow> nat \<Rightarrow> string \<Rightarrow> nat option option" where
  "locateRVertice vs q ctx = locateRVertice_loop vs q ctx (sdsnew INIT)"

definition locateVertice :: "space \<Rightarrow> string option \<Rightarrow> nat option option" where
  "locateVertice vs ctx =
     (if vs \<noteq> [] then
        (case ctx of
           None \<Rightarrow> map_option Some (locateLVertice vs 0)
         | Some c \<Rightarrow> locateRVertice vs 0 c)
      else Some None)"

section \<open>The spaces of a server and of a client\<close>

record verlist =
  skey :: string
  sid :: int
  slen_ufs :: int
  svertices :: space

record cverlist =
  ckey :: string
  clen_ufs :: int
  cvertices :: space

text \<open>The lengths are not initialised by the constructors; 0 stands for the indeterminate value.\<close>

definition createVerlist :: "int \<Rightarrow> string \<Rightarrow> verlist" where
  "createVerlist i k = \<lparr>skey = sdsnew k, sid = i, slen_ufs = 0, svertices = []\<rparr>"

definition createCVerlist :: "string \<Rightarrow> cverlist" where
  "createCVerlist k = \<lparr>ckey = sdsnew k, clen_ufs = 0, cvertices = []\<rparr>"

definition locateVerlist :: "verlist list \<Rightarrow> int \<Rightarrow> string \<Rightarrow> nat option" where
  "locateVerlist spaces i k = first_index (\<lambda>s. sid s = i \<and> sdscmp (skey s) k = 0) spaces"

definition locateCVerlist :: "cverlist list \<Rightarrow> string \<Rightarrow> nat option" where
  "locateCVerlist spaces k = first_index (\<lambda>s. sdscmp (ckey s) k = 0) spaces"

definition setCverlistUfsLen :: "cverlist \<Rightarrow> int \<Rightarrow> cverlist" where
  "setCverlistUfsLen c l = c\<lparr>clen_ufs := l\<rparr>"

definition setVerlistUfsLen :: "verlist \<Rightarrow> int \<Rightarrow> verlist" where
  "setVerlistUfsLen v l = v\<lparr>slen_ufs := l\<rparr>"

fun existCVerlist :: "cverlist list \<Rightarrow> string \<Rightarrow> bool" where
  "existCVerlist [] k = False"
| "existCVerlist (s # ss) k = (if sdscmp (ckey s) k = 0 then True else existCVerlist ss k)"

definition getCverlistVertices :: "cverlist list \<Rightarrow> nat option \<Rightarrow> space option" where
  "getCverlistVertices spaces c =
     (case c of None \<Rightarrow> None | Some i \<Rightarrow> if i < length spaces then Some (cvertices (spaces ! i)) else None)"

fun getSpace :: "cverlist list \<Rightarrow> string \<Rightarrow> space option" where
  "getSpace [] k = None"
| "getSpace (s # ss) k = (if sdscmp (ckey s) k = 0 then Some (cvertices s) else getSpace ss k)"

end
