(* ===== verification/Integrate.thy ===== *)
theory Integrate
  imports State_Space
begin

text \<open>
  The transformation loops of \<^verbatim>\<open>controlAlg\<close> in \<^verbatim>\<open>src/ufs.c\<close>: the loop of the clients, which takes
  a remote operation past the local operations that are concurrent to it, and the loop of the server,
  which takes an operation of a client past those of the other clients. Each iteration adds one vertex
  and the two edges that close a square. Shown is the invariant of the spaces, that the loops return,
  and where they end.
\<close>

section \<open>The loops\<close>

definition client_square :: "int \<Rightarrow> space \<Rightarrow> nat \<Rightarrow> nat \<Rightarrow> (space \<times> nat \<times> nat) option" where
  "client_square len_ufs vs u p = do {
     le \<leftarrow> get_ledge vs u;
     vs1 \<leftarrow> set_ledge (vs @ [createVertice]) p (createOpEdge (-1) None None (oid le) (length vs));
     re \<leftarrow> get_redge vs1 u;
     vs2 \<leftarrow> set_redge vs1 (adjv le) (createOpEdge (-1) None None (oid re) (length vs));
     c \<leftarrow> get_content vs2 u;
     op1 \<leftarrow> get_ledge vs2 u;
     op2 \<leftarrow> get_redge vs2 u;
     e1 \<leftarrow> get_ledge vs2 p;
     e2 \<leftarrow> get_redge vs2 (adjv le);
     (e1, e2) \<leftarrow> otUfs c op1 op2 e1 e2 OT_UNION;
     vs3 \<leftarrow> set_ledge vs2 p e1;
     vs4 \<leftarrow> set_redge vs3 (adjv le) e2;
     cl \<leftarrow> get_content vs4 (adjv le);
     w \<leftarrow> update_edge cl e2 len_ufs;
     vs5 \<leftarrow> set_content vs4 (length vs) w;
     Some (vs5, adjv le, length vs)
   }"

partial_function (option) client_loop :: "int \<Rightarrow> space \<Rightarrow> nat \<Rightarrow> nat \<Rightarrow> (space \<times> nat \<times> nat) option" where
  "client_loop len_ufs vs u p = do {
     v \<leftarrow> vget vs u;
     if ledge v = None then Some (vs, u, p)
     else do {
       (vs', ul, pl) \<leftarrow> client_square len_ufs vs u p;
       client_loop len_ufs vs' ul pl
     }
   }"

definition server_square :: "int \<Rightarrow> space \<Rightarrow> nat \<Rightarrow> nat \<Rightarrow> (space \<times> nat \<times> nat) option" where
  "server_square len_ufs vs u p = do {
     re \<leftarrow> get_redge vs u;
     vs1 \<leftarrow> set_redge (vs @ [createVertice]) p (createOpEdge (-1) None None (oid re) (length vs));
     le \<leftarrow> get_ledge vs1 u;
     vs2 \<leftarrow> set_ledge vs1 (adjv re) (createOpEdge (-1) None None (oid le) (length vs));
     c \<leftarrow> get_content vs2 u;
     op1 \<leftarrow> get_redge vs2 u;
     op2 \<leftarrow> get_ledge vs2 u;
     e1 \<leftarrow> get_redge vs2 p;
     e2 \<leftarrow> get_ledge vs2 (adjv re);
     (e1, e2) \<leftarrow> otUfs c op1 op2 e1 e2 OT_UNION;
     vs3 \<leftarrow> set_redge vs2 p e1;
     vs4 \<leftarrow> set_ledge vs3 (adjv re) e2;
     cr \<leftarrow> get_content vs4 (adjv re);
     w \<leftarrow> update_edge cr e2 len_ufs;
     vs5 \<leftarrow> set_content vs4 (length vs) w;
     Some (vs5, adjv re, length vs)
   }"

partial_function (option) server_loop ::
  "int \<Rightarrow> space \<Rightarrow> nat \<Rightarrow> nat \<Rightarrow> string \<Rightarrow> (space \<times> nat \<times> nat \<times> string) option" where
  "server_loop len_ufs vs u p oids = do {
     v \<leftarrow> vget vs u;
     case redge v of
       None \<Rightarrow> Some (vs, u, p, oids)
     | Some e \<Rightarrow> do {
         (vs', ur, pr) \<leftarrow> server_square len_ufs vs u p;
         server_loop len_ufs vs' ur pr (sdscat (sdscat oids [COMMA]) (oid e))
       }
   }"

section \<open>The invariant of a space\<close>

text \<open>
  Every vertex has a well-formed content, all of one length. An edge leads to a later vertex, its
  operation is valid at its source, and applied there it gives the classes of its target.
\<close>

definition st :: "space \<Rightarrow> nat \<Rightarrow> (string \<times> string) set" where
  "st vs i = (case content (vs ! i) of Some u \<Rightarrow> text_rel u | None \<Rightarrow> {})"

definition edge_ok :: "space \<Rightarrow> nat \<Rightarrow> dedge \<Rightarrow> bool" where
  "edge_ok vs i e \<longleftrightarrow> i < adjv e \<and> adjv e < length vs \<and> op_ok (st vs i) e \<and>
     st vs (adjv e) = op_apply e (st vs i)"

definition space_ok :: "nat \<Rightarrow> space \<Rightarrow> bool" where
  "space_ok n vs \<longleftrightarrow> vs \<noteq> [] \<and> (\<forall>i < length vs.
     (\<exists>u. content (vs ! i) = Some u \<and> text_of n u) \<and>
     (\<forall>e. ledge (vs ! i) = Some e \<or> redge (vs ! i) = Some e \<longrightarrow> edge_ok vs i e))"

lemma space_edge:
  assumes "space_ok n vs" "i < length vs" "ledge (vs ! i) = Some e \<or> redge (vs ! i) = Some e"
  shows "i < adjv e" "adjv e < length vs" "op_ok (st vs i) e" "st vs (adjv e) = op_apply e (st vs i)"
  using assms by (auto simp: space_ok_def edge_ok_def)

lemma space_content:
  assumes "space_ok n vs" "i < length vs"
  obtains u where "content (vs ! i) = Some u" "text_of n u" "st vs i = text_rel u"
  using assms by (auto simp: space_ok_def st_def)

definition put_ledge :: "nat \<Rightarrow> dedge \<Rightarrow> space \<Rightarrow> space" where
  "put_ledge i e vs = vs[i := (vs ! i)\<lparr>ledge := Some e\<rparr>]"

definition put_redge :: "nat \<Rightarrow> dedge \<Rightarrow> space \<Rightarrow> space" where
  "put_redge i e vs = vs[i := (vs ! i)\<lparr>redge := Some e\<rparr>]"

definition new_vertice :: "string \<Rightarrow> vertice" where
  "new_vertice w = \<lparr>content = Some w, ledge = None, redge = None\<rparr>"

lemma put_length [simp]: "length (put_ledge i e vs) = length vs" "length (put_redge i e vs) = length vs"
  by (simp_all add: put_ledge_def put_redge_def)

lemma put_fields [simp]:
  "j < length vs \<Longrightarrow> content (put_ledge i e vs ! j) = content (vs ! j)"
  "j < length vs \<Longrightarrow> content (put_redge i e vs ! j) = content (vs ! j)"
  "j < length vs \<Longrightarrow> ledge (put_ledge i e vs ! j) = (if i = j then Some e else ledge (vs ! j))"
  "j < length vs \<Longrightarrow> redge (put_ledge i e vs ! j) = redge (vs ! j)"
  "j < length vs \<Longrightarrow> redge (put_redge i e vs ! j) = (if i = j then Some e else redge (vs ! j))"
  "j < length vs \<Longrightarrow> ledge (put_redge i e vs ! j) = ledge (vs ! j)"
  by (cases "i = j"; simp add: put_ledge_def put_redge_def)+

lemma put_st [simp]: "j < length vs \<Longrightarrow> st (put_ledge i e vs) j = st vs j" "j < length vs \<Longrightarrow> st (put_redge i e vs) j = st vs j"
  by (simp_all add: st_def)

lemma edge_ok_put:
  assumes "i < length vs"
  shows "edge_ok (put_ledge j d vs) i e \<longleftrightarrow> edge_ok vs i e" "edge_ok (put_redge j d vs) i e \<longleftrightarrow> edge_ok vs i e"
  using assms by (simp_all add: edge_ok_def cong: conj_cong)

lemma space_ok_put:
  assumes "space_ok n vs" "i < length vs" "edge_ok vs i e"
  shows "space_ok n (put_ledge i e vs)" "space_ok n (put_redge i e vs)"
proof -
  have ne: "put_ledge i e vs \<noteq> []" "put_redge i e vs \<noteq> []"
    using assms(2) by (auto simp: put_ledge_def put_redge_def)
  have c: "\<exists>u. content (vs ! j) = Some u \<and> text_of n u" and
    d: "ledge (vs ! j) = Some f \<or> redge (vs ! j) = Some f \<Longrightarrow> edge_ok vs j f" if "j < length vs" for j f
    using assms(1) that unfolding space_ok_def by blast+
  have "edge_ok vs j f" if "j < length vs" "ledge (put_ledge i e vs ! j) = Some f \<or> redge (put_ledge i e vs ! j) = Some f" for j f
    using that d [of j f] assms(3) by (simp split: if_splits) blast
  then show "space_ok n (put_ledge i e vs)"
    unfolding space_ok_def using ne c by (simp add: edge_ok_put)
  have "edge_ok vs j f" if "j < length vs" "ledge (put_redge i e vs ! j) = Some f \<or> redge (put_redge i e vs ! j) = Some f" for j f
    using that d [of j f] assms(3) by (simp split: if_splits) blast
  then show "space_ok n (put_redge i e vs)"
    unfolding space_ok_def using ne c by (simp add: edge_ok_put)
qed

lemma st_append [simp]: "i < length vs \<Longrightarrow> st (vs @ ws) i = st vs i"
  by (simp add: st_def nth_append)

lemma st_new [simp]: "st (vs @ [new_vertice w]) (length vs) = text_rel w"
  by (simp add: st_def new_vertice_def)

lemma edge_ok_append: "i < length vs \<Longrightarrow> edge_ok vs i e \<Longrightarrow> edge_ok (vs @ ws) i e"
  by (simp add: edge_ok_def)

lemma space_ok_new:
  assumes "space_ok n vs" "text_of n w"
  shows "space_ok n (vs @ [new_vertice w])"
  unfolding space_ok_def
proof (intro conjI allI impI)
  show "vs @ [new_vertice w] \<noteq> []" by simp
  fix i assume "i < length (vs @ [new_vertice w])"
  then have i: "i < length vs \<or> i = length vs" by auto
  show "\<exists>u. content ((vs @ [new_vertice w]) ! i) = Some u \<and> text_of n u"
    using i assms by (auto simp: space_ok_def nth_append new_vertice_def)
  fix e assume "ledge ((vs @ [new_vertice w]) ! i) = Some e \<or> redge ((vs @ [new_vertice w]) ! i) = Some e"
  then have "i < length vs" "ledge (vs ! i) = Some e \<or> redge (vs ! i) = Some e"
    using i by (auto simp: nth_append new_vertice_def split: if_splits)
  then show "edge_ok (vs @ [new_vertice w]) i e"
    using assms(1) by (auto simp: space_ok_def intro: edge_ok_append)
qed

section \<open>One square\<close>

lemma space_access:
  "get_ledge vs i = (if i < length vs then ledge (vs ! i) else None)"
  "get_redge vs i = (if i < length vs then redge (vs ! i) else None)"
  "get_content vs i = (if i < length vs then content (vs ! i) else None)"
  "set_ledge vs i e = (if i < length vs then Some (put_ledge i e vs) else None)"
  "set_redge vs i e = (if i < length vs then Some (put_redge i e vs) else None)"
  "set_content vs i w = (if i < length vs then Some (vs[i := (vs ! i)\<lparr>content := Some w\<rparr>]) else None)"
  by (simp_all add: get_ledge_def get_redge_def get_content_def set_ledge_def set_redge_def set_content_def
      vget_def put_ledge_def put_redge_def)

lemma space_eqI:
  fixes vs ws :: space
  assumes "length vs = length ws"
    "\<And>j. j < length ws \<Longrightarrow> content (vs ! j) = content (ws ! j) \<and> ledge (vs ! j) = ledge (ws ! j) \<and> redge (vs ! j) = redge (ws ! j)"
  shows "vs = ws"
  using assms by (intro nth_equalityI) auto

lemma square_space:
  assumes "i < length vs" "j < length vs"
  shows "(put_redge i e2 (put_ledge j e1 (put_redge i y (put_ledge j x (vs @ [createVertice])))))
      [length vs := (put_redge i e2 (put_ledge j e1 (put_redge i y (put_ledge j x (vs @ [createVertice])))) ! length vs)
        \<lparr>content := Some w\<rparr>] =
    put_redge i e2 (put_ledge j e1 (vs @ [new_vertice w]))"
proof (rule space_eqI)
  fix k assume "k < length (put_redge i e2 (put_ledge j e1 (vs @ [new_vertice w])))"
  then have k: "k < Suc (length vs)" by simp
  show "content ((put_redge i e2 (put_ledge j e1 (put_redge i y (put_ledge j x (vs @ [createVertice])))))
      [length vs := (put_redge i e2 (put_ledge j e1 (put_redge i y (put_ledge j x (vs @ [createVertice])))) ! length vs)
        \<lparr>content := Some w\<rparr>] ! k) = content (put_redge i e2 (put_ledge j e1 (vs @ [new_vertice w])) ! k) \<and>
    ledge ((put_redge i e2 (put_ledge j e1 (put_redge i y (put_ledge j x (vs @ [createVertice])))))
      [length vs := (put_redge i e2 (put_ledge j e1 (put_redge i y (put_ledge j x (vs @ [createVertice])))) ! length vs)
        \<lparr>content := Some w\<rparr>] ! k) = ledge (put_redge i e2 (put_ledge j e1 (vs @ [new_vertice w])) ! k) \<and>
    redge ((put_redge i e2 (put_ledge j e1 (put_redge i y (put_ledge j x (vs @ [createVertice])))))
      [length vs := (put_redge i e2 (put_ledge j e1 (put_redge i y (put_ledge j x (vs @ [createVertice])))) ! length vs)
        \<lparr>content := Some w\<rparr>] ! k) = redge (put_redge i e2 (put_ledge j e1 (vs @ [new_vertice w])) ! k)"
  proof (cases "k = length vs")
    case True
    then show ?thesis using assms by (simp add: nth_append createVertice_def new_vertice_def)
  next
    case False
    then have "k < length vs" using k by simp
    then show ?thesis using False assms by (simp add: nth_append)
  qed
qed simp

lemma client_square_full:
  assumes ok: "space_ok n vs" and u: "u < length vs" "ledge (vs ! u) = Some le" "redge (vs ! u) = Some re"
  obtains e1 e2 w c x y where
    "client_square (int n) vs u (adjv re) =
       Some (put_redge (adjv le) e2 (put_ledge (adjv re) e1 (vs @ [new_vertice w])), adjv le, length vs)"
    "oid e1 = oid le" "oid e2 = oid re" "adjv e1 = length vs" "adjv e2 = length vs" "optype e2 = optype re"
    "space_ok n (put_redge (adjv le) e2 (put_ledge (adjv re) e1 (vs @ [new_vertice w])))"
    "text_of n c" "st vs u = text_rel c" "otUfs c le re x y OT_UNION = Some (e1, e2)"
proof -
  let ?p = "adjv re" and ?l = "adjv le" and ?N = "length vs"
  note le = space_edge [OF ok u(1) disjI1 [OF u(2)]]
  note re = space_edge [OF ok u(1) disjI2 [OF u(3)]]
  obtain c where c: "content (vs ! u) = Some c" "text_of n c" "st vs u = text_rel c"
    by (rule space_content [OF ok u(1)])
  obtain cl where cl: "content (vs ! ?l) = Some cl" "text_of n cl" "st vs ?l = text_rel cl"
    by (rule space_content [OF ok le(2)])
  obtain cr where cr: "content (vs ! ?p) = Some cr" "text_of n cr" "st vs ?p = text_rel cr"
    by (rule space_content [OF ok re(2)])
  let ?x = "createOpEdge (-1) None None (oid le) ?N" and ?y = "createOpEdge (-1) None None (oid re) ?N"
  have vl: "op_ok (text_rel c) le" "text_rel cl = op_apply le (text_rel c)"
    and vr: "op_ok (text_rel c) re" "text_rel cr = op_apply re (text_rel c)"
    using le(3,4) re(3,4) c(3) cl(3) cr(3) by simp_all
  obtain e1 e2 where ot: "otUfs c le re ?x ?y OT_UNION = Some (e1, e2)" "square (text_rel c) le re e1 e2"
      "opr.more e1 = opr.more ?x" "opr.more e2 = opr.more ?y" "optype e2 = optype re"
    using otUfs_square [OF _ vl(1) vr(1), of ?x ?y] c(2) unfolding text_of_def by metis
  have more: "oid e1 = oid le" "oid e2 = oid re" "adjv e1 = ?N" "adjv e2 = ?N"
    using ot(3,4) by (simp_all add: createOpEdge_def) (metis dedge.select_convs opr.surjective)+
  obtain e1' e2' w where w': "otUfs c le re ?x ?y OT_UNION = Some (e1', e2')" "update_edge cl e2' (int n) = Some w"
      "text_of n w" "op_ok (text_rel cr) e1'" "op_ok (text_rel cl) e2'" "text_rel w = op_apply e2' (text_rel cl)"
      "text_rel w = op_apply e1' (text_rel cr)"
    by (rule ufs.close_square [OF c(2) vl(1) vr(1) cl(2) vl(2) cr(2) vr(2), of ?x ?y])
  then have w: "update_edge cl e2 (int n) = Some w" "text_of n w" "op_ok (text_rel cr) e1" "op_ok (text_rel cl) e2"
      "text_rel w = op_apply e2 (text_rel cl)" "text_rel w = op_apply e1 (text_rel cr)"
    using ot(1) by simp_all
  have ne: "?p \<noteq> u" "?l \<noteq> u" using le(1) re(1) by simp_all
  have run: "client_square (int n) vs u ?p = Some (put_redge ?l e2 (put_ledge ?p e1 (vs @ [new_vertice w])), ?l, ?N)"
    unfolding client_square_def
    using u le(2) re(2) ne c(1) cl(1) ot(1) w(1) square_space [OF le(2) re(2)]
    by (simp add: space_access nth_append)
  have s1: "space_ok n (vs @ [new_vertice w])" by (rule space_ok_new [OF ok w(2)])
  have "edge_ok (vs @ [new_vertice w]) ?p e1"
    using re(2) more(3) w(3,6) cr(3) by (simp add: edge_ok_def)
  then have s2: "space_ok n (put_ledge ?p e1 (vs @ [new_vertice w]))" (is "space_ok n ?vs2")
    using re(2) by (intro space_ok_put(1) [OF s1]) simp_all
  have "edge_ok ?vs2 ?l e2"
    using le(2) more(4) w(4,5) cl(3) by (simp add: edge_ok_put edge_ok_def)
  then have "space_ok n (put_redge ?l e2 ?vs2)"
    using le(2) by (intro space_ok_put(2) [OF s2]) simp_all
  then show thesis by (rule that [OF run more ot(5) _ c(2,3) ot(1)])
qed

lemma client_square_ok:
  assumes "space_ok n vs" "u < length vs" "ledge (vs ! u) = Some le" "redge (vs ! u) = Some re"
  obtains e1 e2 w where
    "client_square (int n) vs u (adjv re) =
       Some (put_redge (adjv le) e2 (put_ledge (adjv re) e1 (vs @ [new_vertice w])), adjv le, length vs)"
    "oid e1 = oid le" "oid e2 = oid re" "adjv e1 = length vs" "adjv e2 = length vs" "optype e2 = optype re"
    "space_ok n (put_redge (adjv le) e2 (put_ledge (adjv re) e1 (vs @ [new_vertice w])))"
  by (rule client_square_full [OF assms], rule that)

section \<open>The mirror image of a space\<close>

text \<open>The server's loop is the clients' loop with the two kinds of edges exchanged.\<close>

definition mirror :: "space \<Rightarrow> space" where
  "mirror = map (\<lambda>v. \<lparr>content = content v, ledge = redge v, redge = ledge v\<rparr>)"

lemma mirror_simps [simp]:
  "length (mirror vs) = length vs"
  "mirror (mirror vs) = vs"
  "mirror (vs @ ws) = mirror vs @ mirror ws"
  "mirror [createVertice] = [createVertice]"
  "mirror vs = [] \<longleftrightarrow> vs = []"
  by (simp_all add: mirror_def createVertice_def comp_def map_idI)

lemma mirror_nth [simp]:
  assumes "i < length vs"
  shows "content (mirror vs ! i) = content (vs ! i)" "ledge (mirror vs ! i) = redge (vs ! i)"
    "redge (mirror vs ! i) = ledge (vs ! i)"
  using assms by (simp_all add: mirror_def)

lemma mirror_put:
  "i < length vs \<Longrightarrow> put_ledge i e (mirror vs) = mirror (put_redge i e vs)"
  "i < length vs \<Longrightarrow> put_redge i e (mirror vs) = mirror (put_ledge i e vs)"
  by (simp_all add: put_ledge_def put_redge_def mirror_def map_update)

lemma mirror_access:
  "get_ledge (mirror vs) i = get_redge vs i" "get_redge (mirror vs) i = get_ledge vs i"
  "get_content (mirror vs) i = get_content vs i"
  "set_ledge (mirror vs) i e = map_option mirror (set_redge vs i e)"
  "set_redge (mirror vs) i e = map_option mirror (set_ledge vs i e)"
  "set_content (mirror vs) i w = map_option mirror (set_content vs i w)"
  by (simp_all add: space_access mirror_put) (simp add: mirror_def map_update)

lemma mirror_new: "mirror (vs @ [createVertice]) = mirror vs @ [createVertice]"
  by simp

lemma bind_map_option: "Option.bind (map_option f x) g = Option.bind x (\<lambda>y. g (f y))"
  by (cases x) auto

lemma map_option_bind': "map_option f (Option.bind x g) = Option.bind x (\<lambda>y. map_option f (g y))"
  by (cases x) auto

lemma server_square_mirror:
  "server_square len vs u p = map_option (\<lambda>(vs, u, p). (mirror vs, u, p)) (client_square len (mirror vs) u p)"
  unfolding client_square_def server_square_def
  by (simp only: mirror_new [symmetric] mirror_access mirror_simps(1) bind_map_option map_option_bind'
      mirror_simps(2) option.map prod.case split_def fst_conv snd_conv cong: option.case_cong)

lemma mirror_st [simp]: "i < length vs \<Longrightarrow> st (mirror vs) i = st vs i"
  by (simp add: st_def)

lemma space_ok_mirror [simp]: "space_ok n (mirror vs) \<longleftrightarrow> space_ok n vs"
proof -
  have e: "edge_ok (mirror vs) i e \<longleftrightarrow> edge_ok vs i e" if "i < length vs" for i e
    using that by (simp add: edge_ok_def cong: conj_cong)
  show ?thesis by (simp add: space_ok_def e disj_commute cong: conj_cong)
qed

section \<open>The loops\<close>

text \<open>A chain of edges and where it ends.\<close>

inductive chain_path :: "(nat \<Rightarrow> dedge option) \<Rightarrow> nat \<Rightarrow> dedge list \<Rightarrow> nat \<Rightarrow> bool" for f where
  here: "f u = None \<Longrightarrow> chain_path f u [] u"
| step: "f u = Some e \<Longrightarrow> chain_path f (adjv e) es w \<Longrightarrow> chain_path f u (e # es) w"

inductive_cases chain_pathE: "chain_path f u es w"

lemma chain_path_at: "chain_path f u es w \<Longrightarrow> f w = None"
  by (induction rule: chain_path.induct) auto

lemma chain_path_unique: "chain_path f u es w \<Longrightarrow> chain_path f u es' w' \<Longrightarrow> w' = w \<and> es' = es"
proof (induction arbitrary: es' rule: chain_path.induct)
  case (here u)
  then show ?case by (auto elim: chain_pathE)
next
  case (step u e es w)
  from step.prems show ?case
    by (rule chain_pathE) (use step in auto)
qed

lemma chain_path_extend:
  assumes "chain_path f j es p" "\<And>i d. f i = Some d \<Longrightarrow> f' i = Some d" "f' p = Some e" "f' (adjv e) = None"
  shows "chain_path f' j (es @ [e]) (adjv e)"
  using assms
proof (induction rule: chain_path.induct)
  case (here u)
  then show ?case using chain_path.step [of f' u e "[]"] chain_path.here [of f' "adjv e"] by simp
next
  case (step u d es w)
  then show ?case using chain_path.step [of f' u d] by simp
qed

lemma chain_ends:
  assumes "space_ok n vs" "u < length vs"
  shows "\<exists>es w. chain_path (get_ledge vs) u es w"
  using assms(2)
proof (induction "length vs - u" arbitrary: u rule: less_induct)
  case less
  show ?case
  proof (cases "ledge (vs ! u)")
    case None
    then show ?thesis using less.prems chain_path.here [of "get_ledge vs" u] by (auto simp: space_access)
  next
    case (Some e)
    then have e: "u < adjv e" "adjv e < length vs" using space_edge(1,2) [OF assms(1) less.prems] by simp_all
    moreover have "length vs - adjv e < length vs - u" using e by linarith
    ultimately obtain es w where "chain_path (get_ledge vs) (adjv e) es w" using less.hyps by blast
    then show ?thesis using Some less.prems chain_path.step [of "get_ledge vs" u e] by (auto simp: space_access)
  qed
qed

text \<open>The identifiers of the operations of a space.\<close>

definition vertice_oids :: "vertice \<Rightarrow> string set" where
  "vertice_oids v = oid ` (set_option (ledge v) \<union> set_option (redge v))"

definition all_oids :: "space \<Rightarrow> string set" where
  "all_oids vs = (\<Union>v \<in> set vs. vertice_oids v)"

lemma all_oids_nth:
  assumes "i < length vs" "ledge (vs ! i) = Some e \<or> redge (vs ! i) = Some e"
  shows "oid e \<in> all_oids vs"
proof -
  have "oid e \<in> vertice_oids (vs ! i)" using assms(2) by (auto simp: vertice_oids_def)
  then show ?thesis using nth_mem [OF assms(1)] unfolding all_oids_def by blast
qed

lemma all_oids_update:
  assumes "vertice_oids x \<subseteq> insert y (vertice_oids (vs ! i))"
  shows "all_oids (vs[i := x]) \<subseteq> insert y (all_oids vs)"
proof (cases "i < length vs")
  case True
  then have "vertice_oids (vs ! i) \<subseteq> all_oids vs" unfolding all_oids_def by (meson UN_upper nth_mem)
  moreover have "all_oids (vs[i := x]) \<subseteq> vertice_oids x \<union> all_oids vs"
    using set_update_subset_insert [of vs i x] unfolding all_oids_def by blast
  ultimately show ?thesis using assms by blast
qed (auto simp: list_update_beyond)

lemma all_oids_put:
  "all_oids (put_ledge i e vs) \<subseteq> insert (oid e) (all_oids vs)"
  "all_oids (put_redge i e vs) \<subseteq> insert (oid e) (all_oids vs)"
  unfolding put_ledge_def put_redge_def
  by (rule all_oids_update; simp add: vertice_oids_def; blast)+

lemma all_oids_new [simp]: "all_oids (vs @ [new_vertice w]) = all_oids vs"
  by (simp add: all_oids_def vertice_oids_def new_vertice_def)

text \<open>
  What the loop leaves behind: the space is well formed, the vertices below \<^term>\<open>N\<close> keep their
  contents and local edges, a remote edge is only set where there is a local edge or at the end of the
  chain, and leads to a new vertex. The remote edge at the end of the chain leads to the last vertex.
  The new vertices have no remote edges, and their local edges lead to the last vertex.
\<close>

definition tail_ok :: "nat \<Rightarrow> space \<Rightarrow> nat \<Rightarrow> bool" where
  "tail_ok N vs p \<longleftrightarrow> (\<forall>j. N \<le> j \<and> j < length vs \<longrightarrow> redge (vs ! j) = None \<and> (\<exists>es. chain_path (get_ledge vs) j es p))"

definition integrated :: "nat \<Rightarrow> nat \<Rightarrow> space \<Rightarrow> nat \<Rightarrow> dedge \<Rightarrow> space \<Rightarrow> nat \<Rightarrow> bool" where
  "integrated n N vs w d vs' p' \<longleftrightarrow>
     space_ok n vs' \<and> N \<le> p' \<and> p' < length vs' \<and> all_oids vs' \<subseteq> all_oids vs \<and>
     (\<forall>j < N. content (vs' ! j) = content (vs ! j) \<and> ledge (vs' ! j) = ledge (vs ! j) \<and>
        (j \<noteq> w \<and> ledge (vs ! j) = None \<longrightarrow> redge (vs' ! j) = redge (vs ! j)) \<and>
        (redge (vs' ! j) = redge (vs ! j) \<or> (\<exists>e. redge (vs' ! j) = Some e \<and> N \<le> adjv e))) \<and>
     tail_ok N vs' p' \<and> (\<exists>e. redge (vs' ! w) = Some e \<and> adjv e = p' \<and> oid e = oid d \<and> optype e = optype d)"

lemma tail_okD:
  assumes "tail_ok N vs p" "N \<le> p" "p < length vs"
  shows "ledge (vs ! p) = None" "redge (vs ! p) = None"
  using assms chain_path_at [of "get_ledge vs" p _ p] by (auto simp: tail_ok_def space_access)

lemma tail_ok_square:
  assumes t: "tail_ok N vs p" and p: "N \<le> p" "p < length vs" and l: "l < N" and e1: "adjv e1 = length vs"
  shows "tail_ok N (put_redge l e2 (put_ledge p e1 (vs @ [new_vertice c]))) (length vs)"
  unfolding tail_ok_def
proof (intro allI impI, elim conjE)
  let ?vs = "put_redge l e2 (put_ledge p e1 (vs @ [new_vertice c]))"
  fix j assume j: "N \<le> j" "j < length ?vs"
  have acc: "get_ledge ?vs i = (if i = p then Some e1 else if i = length vs then None else get_ledge vs i)" for i
    using p(2) by (auto simp: space_access nth_append new_vertice_def)
  have gp: "get_ledge vs p = None" using tail_okD(1) [OF t p] by (simp add: space_access)
  show "redge (?vs ! j) = None \<and> (\<exists>es. chain_path (get_ledge ?vs) j es (length vs))"
  proof (cases "j = length vs")
    case True
    then show ?thesis using acc [of "length vs"] p l j by (auto simp: new_vertice_def intro!: exI [of _ "[]"] here)
  next
    case False
    then have jl: "j < length vs" using j(2) by simp
    then obtain es where es: "redge (vs ! j) = None" "chain_path (get_ledge vs) j es p"
      using t j(1) by (auto simp: tail_ok_def)
    have "get_ledge ?vs i = Some d" if "get_ledge vs i = Some d" for i d
      using that acc [of i] gp by (auto simp: space_access split: if_splits)
    then have "chain_path (get_ledge ?vs) j (es @ [e1]) (adjv e1)"
      using acc [of p] acc [of "length vs"] e1 p(2) by (intro chain_path_extend [OF es(2)]) simp_all
    then show ?thesis using es(1) jl j(1) l e1 by (auto simp: nth_append)
  qed
qed

lemma integrated_trans:
  assumes i: "integrated n N vs1 w d vs' p'"
    and s: "\<And>j. j < N \<Longrightarrow> content (vs1 ! j) = content (vs ! j)" "\<And>j. j < N \<Longrightarrow> ledge (vs1 ! j) = ledge (vs ! j)"
    and r: "\<And>j. j < N \<Longrightarrow> j \<noteq> w \<and> ledge (vs ! j) = None \<Longrightarrow> redge (vs1 ! j) = redge (vs ! j)"
      "\<And>j. j < N \<Longrightarrow> redge (vs1 ! j) = redge (vs ! j) \<or> (\<exists>e. redge (vs1 ! j) = Some e \<and> N \<le> adjv e)"
    and o: "all_oids vs1 \<subseteq> all_oids vs"
  shows "integrated n N vs w d vs' p'"
proof -
  have "content (vs' ! j) = content (vs ! j) \<and> ledge (vs' ! j) = ledge (vs ! j) \<and>
      (j \<noteq> w \<and> ledge (vs ! j) = None \<longrightarrow> redge (vs' ! j) = redge (vs ! j)) \<and>
      (redge (vs' ! j) = redge (vs ! j) \<or> (\<exists>e. redge (vs' ! j) = Some e \<and> N \<le> adjv e))" if "j < N" for j
  proof -
    have "content (vs' ! j) = content (vs1 ! j)" "ledge (vs' ! j) = ledge (vs1 ! j)"
      "j \<noteq> w \<and> ledge (vs1 ! j) = None \<longrightarrow> redge (vs' ! j) = redge (vs1 ! j)"
      "redge (vs' ! j) = redge (vs1 ! j) \<or> (\<exists>e. redge (vs' ! j) = Some e \<and> N \<le> adjv e)"
      using i that unfolding integrated_def by blast+
    then show ?thesis using s [OF that] r [OF that] by metis
  qed
  moreover have "all_oids vs' \<subseteq> all_oids vs" using i o unfolding integrated_def by blast
  ultimately show ?thesis using i unfolding integrated_def by blast
qed

text \<open>The context the server's loop computes.\<close>

definition add_oids :: "string \<Rightarrow> dedge list \<Rightarrow> string" where
  "add_oids s es = foldl (\<lambda>s e. sdscat (sdscat s [COMMA]) (oid e)) s es"

lemma loops_integrate:
  assumes "chain_path f u es w" "space_ok n vs" "u < N" "N \<le> length vs"
    "\<And>i. i < N \<Longrightarrow> ledge (vs ! i) = f i" "\<And>i e. i < N \<Longrightarrow> f i = Some e \<Longrightarrow> adjv e < N"
    "redge (vs ! u) = Some re" "N \<le> adjv re" "tail_ok N vs (adjv re)"
  shows "\<exists>vs' p'. client_loop (int n) vs u (adjv re) = Some (vs', w, p') \<and>
    (\<forall>oids. server_loop (int n) (mirror vs) u (adjv re) oids = Some (mirror vs', w, p', add_oids oids es)) \<and>
    integrated n N vs w re vs' p'"
  using assms
proof (induction arbitrary: vs re rule: chain_path.induct)
  case (here u)
  have u: "u < length vs" "ledge (vs ! u) = None" using here by simp_all
  have "adjv re < length vs" by (rule space_edge(2) [OF here(2) u(1) disjI2 [OF here(7)]])
  then have "integrated n N vs u re vs (adjv re)" using here by (simp add: integrated_def)
  moreover have "client_loop (int n) vs u (adjv re) = Some (vs, u, adjv re)"
    using u by (subst client_loop.simps) (simp add: vget_def)
  moreover have "server_loop (int n) (mirror vs) u (adjv re) oids = Some (mirror vs, u, adjv re, add_oids oids [])" for oids
    using u by (subst server_loop.simps) (simp add: vget_def add_oids_def)
  ultimately show ?case by blast
next
  case (step u le es w)
  have u: "u < length vs" "ledge (vs ! u) = Some le" using step by simp_all
  have aN: "adjv le < N" using step by blast
  have p: "adjv re < length vs" by (rule space_edge(2) [OF step.prems(1) u(1) disjI2 [OF step.prems(6)]])
  obtain e1 e2 c where sq: "client_square (int n) vs u (adjv re) =
       Some (put_redge (adjv le) e2 (put_ledge (adjv re) e1 (vs @ [new_vertice c])), adjv le, length vs)"
    "oid e1 = oid le" "oid e2 = oid re" "adjv e1 = length vs" "adjv e2 = length vs" "optype e2 = optype re"
    "space_ok n (put_redge (adjv le) e2 (put_ledge (adjv re) e1 (vs @ [new_vertice c])))"
    by (rule client_square_ok [OF step.prems(1) u step.prems(6)])
  let ?vs = "put_redge (adjv le) e2 (put_ledge (adjv re) e1 (vs @ [new_vertice c]))"
  have old: "content (?vs ! i) = content (vs ! i)" "ledge (?vs ! i) = ledge (vs ! i)"
    "redge (?vs ! i) = (if i = adjv le then Some e2 else redge (vs ! i))" if "i < N" for i
    using that step.prems(3,7) by (simp_all add: nth_append)
  have "\<exists>vs' p'. client_loop (int n) ?vs (adjv le) (adjv e2) = Some (vs', w, p') \<and>
      (\<forall>oids. server_loop (int n) (mirror ?vs) (adjv le) (adjv e2) oids = Some (mirror vs', w, p', add_oids oids es)) \<and>
      integrated n N ?vs w e2 vs' p'"
  proof (rule step.IH [OF sq(7) aN])
    show "N \<le> length ?vs" "N \<le> adjv e2" using step.prems(3) sq(5) by simp_all
    show "\<And>i. i < N \<Longrightarrow> ledge (?vs ! i) = f i" using old step.prems(4) by simp
    show "\<And>i e. i < N \<Longrightarrow> f i = Some e \<Longrightarrow> adjv e < N" by (rule step.prems(5))
    show "redge (?vs ! adjv le) = Some e2" using old(3) [OF aN] by simp
    show "tail_ok N ?vs (adjv e2)"
      using tail_ok_square [OF step.prems(8,7) p aN sq(4)] sq(5) by simp
  qed
  then obtain vs' p' where r: "client_loop (int n) ?vs (adjv le) (length vs) = Some (vs', w, p')"
      "\<And>oids. server_loop (int n) (mirror ?vs) (adjv le) (length vs) oids = Some (mirror vs', w, p', add_oids oids es)"
      "integrated n N ?vs w re vs' p'"
    using sq(3,5,6) unfolding integrated_def by auto
  have "client_loop (int n) vs u (adjv re) = Some (vs', w, p')"
    using u sq(1) r(1) by (subst client_loop.simps) (simp add: vget_def)
  moreover have "server_loop (int n) (mirror vs) u (adjv re) oids = Some (mirror vs', w, p', add_oids oids (le # es))" for oids
    using u sq(1) r(2) by (subst server_loop.simps) (simp add: vget_def server_square_mirror add_oids_def)
  moreover have "integrated n N vs w re vs' p'"
  proof -
    have "redge (?vs ! j) = redge (vs ! j)" if "j < N" "j \<noteq> w \<and> ledge (vs ! j) = None" for j
    proof -
      have "j \<noteq> adjv le"
      proof
        assume "j = adjv le"
        then have "f (adjv le) = None" using that step.prems(4) by simp
        then have "w = adjv le" using step.hyps(2) by (auto elim: chain_pathE)
        then show False using \<open>j = adjv le\<close> that by simp
      qed
      then show ?thesis using old(3) that by simp
    qed
    moreover have "redge (?vs ! j) = redge (vs ! j) \<or> (\<exists>e. redge (?vs ! j) = Some e \<and> N \<le> adjv e)" if "j < N" for j
      using old(3) [OF that] sq(5) step.prems(3) by auto
    moreover have "all_oids ?vs \<subseteq> all_oids vs"
      using all_oids_put(2) [of "adjv le" e2 "put_ledge (adjv re) e1 (vs @ [new_vertice c])"]
        all_oids_put(1) [of "adjv re" e1 "vs @ [new_vertice c]"] sq(2,3)
        all_oids_nth [OF u(1), of le] all_oids_nth [OF u(1), of re] u(2) step.prems(6) by auto
    ultimately show ?thesis using old(1,2) by (intro integrated_trans [OF r(3)]) simp_all
  qed
  ultimately show ?case by blast
qed

text \<open>The loops after the insertion of a new operation.\<close>

lemma insert_integrates:
  assumes ok: "space_ok n vs" and u: "u < length vs" and w: "chain_path (get_ledge vs) u es w"
    and e: "op_ok (st vs u) e" "adjv e = length vs" and t: "text_of n t" "text_rel t = op_apply e (st vs u)"
  shows "\<exists>vs' p'. client_loop (int n) (put_redge u e (vs @ [new_vertice t])) u (length vs) = Some (vs', w, p') \<and>
    (\<forall>oids. server_loop (int n) (mirror (put_redge u e (vs @ [new_vertice t]))) u (length vs) oids =
      Some (mirror vs', w, p', add_oids oids es)) \<and>
    integrated n (length vs) (put_redge u e (vs @ [new_vertice t])) w e vs' p'"
proof -
  let ?N = "length vs" and ?vs1 = "put_redge u e (vs @ [new_vertice t])"
  have "edge_ok (vs @ [new_vertice t]) u e" using u e t(2) by (simp add: edge_ok_def)
  then have s1: "space_ok n ?vs1" using u by (intro space_ok_put(2) [OF space_ok_new [OF ok t(1)]]) simp_all
  have "get_ledge ?vs1 ?N = None" using u by (simp add: space_access new_vertice_def)
  then have tail: "tail_ok ?N ?vs1 ?N" using u here [of "get_ledge ?vs1" ?N]
    by (auto simp: tail_ok_def new_vertice_def less_Suc_eq)
  show ?thesis
    using loops_integrate [OF w s1 u, of e] u e(2) tail space_edge(2) [OF ok]
    by (simp add: space_access nth_append)
qed

end
