(* ===== verification/Locate.thy ===== *)
theory Locate
  imports Integrate
begin

text \<open>
  The walks through a state space that locate vertices: the last vertex, its context (the identifiers
  of the operations on the way to it), and the vertex of a given context. Shown is that the walks
  return on well-formed spaces, that a located vertex has the requested context, and that the context
  of the last vertex locates it.
\<close>

inductive path :: "space \<Rightarrow> nat \<Rightarrow> string list \<Rightarrow> nat \<Rightarrow> bool" for vs where
  path_Nil: "q < length vs \<Longrightarrow> path vs q [] q"
| path_l: "q < length vs \<Longrightarrow> ledge (vs ! q) = Some e \<Longrightarrow> path vs (adjv e) os w \<Longrightarrow> path vs q (oid e # os) w"
| path_r: "q < length vs \<Longrightarrow> redge (vs ! q) = Some e \<Longrightarrow> path vs (adjv e) os w \<Longrightarrow> path vs q (oid e # os) w"

definition oids_ok :: "space \<Rightarrow> bool" where
  "oids_ok vs \<longleftrightarrow> (\<forall>v \<in> set vs. \<forall>e. ledge v = Some e \<or> redge v = Some e \<longrightarrow>
     oid e \<noteq> [] \<and> nul_free (oid e) \<and> COMMA \<notin> set (oid e))"

lemma oids_okD:
  assumes "oids_ok vs" "i < length vs" "ledge (vs ! i) = Some e \<or> redge (vs ! i) = Some e"
  shows "oid e \<noteq> []" "nul_free (oid e)" "COMMA \<notin> set (oid e)"
  using assms nth_mem unfolding oids_ok_def by blast+

section \<open>The last vertex\<close>

text \<open>The edge the walks to the last vertex take: the local one if there is one.\<close>

definition main_edge :: "space \<Rightarrow> nat \<Rightarrow> dedge option" where
  "main_edge vs q = (case ledge (vs ! q) of Some e \<Rightarrow> Some e | None \<Rightarrow> redge (vs ! q))"

inductive main_path :: "space \<Rightarrow> nat \<Rightarrow> string list \<Rightarrow> nat \<Rightarrow> bool" for vs where
  end_here: "q < length vs \<Longrightarrow> main_edge vs q = None \<Longrightarrow> main_path vs q [] q"
| go_on: "q < length vs \<Longrightarrow> main_edge vs q = Some e \<Longrightarrow> main_path vs (adjv e) os w \<Longrightarrow> main_path vs q (oid e # os) w"

lemma main_edge_edge: "main_edge vs q = Some e \<Longrightarrow> ledge (vs ! q) = Some e \<or> redge (vs ! q) = Some e"
  by (auto simp: main_edge_def split: option.splits)

lemma main_edge_None: "main_edge vs q = None \<longleftrightarrow> ledge (vs ! q) = None \<and> redge (vs ! q) = None"
  by (auto simp: main_edge_def split: option.splits)

lemma main_path_exists:
  assumes "space_ok n vs" "q < length vs"
  shows "\<exists>os w. main_path vs q os w"
  using assms(2)
proof (induction "length vs - q" arbitrary: q rule: less_induct)
  case less
  show ?case
  proof (cases "main_edge vs q")
    case None
    then show ?thesis using less.prems end_here by blast
  next
    case (Some e)
    note e = space_edge(1,2) [OF assms(1) less.prems main_edge_edge [OF Some]]
    then have "length vs - adjv e < length vs - q" by simp
    then obtain os w where "main_path vs (adjv e) os w" using less.hyps e(2) by blast
    then show ?thesis using go_on [OF less.prems Some] by blast
  qed
qed

lemma main_path_ends: "main_path vs q os w \<Longrightarrow> w < length vs \<and> ledge (vs ! w) = None \<and> redge (vs ! w) = None"
  by (induction rule: main_path.induct) (auto simp: main_edge_None)

lemma main_path_path: "main_path vs q os w \<Longrightarrow> path vs q os w"
proof (induction rule: main_path.induct)
  case (end_here q)
  then show ?case by (simp add: path_Nil)
next
  case (go_on q e os w)
  from main_edge_edge [OF go_on(2)] show ?case
    using path_l [OF go_on(1)] path_r [OF go_on(1)] go_on(4) by auto
qed

lemma locateL_step:
  assumes "q < length vs"
  shows "locateLVertice vs q = (case main_edge vs q of None \<Rightarrow> Some q | Some e \<Rightarrow> locateLVertice vs (adjv e))"
  using assms by (subst locateLVertice.simps) (auto simp: vget_def main_edge_def split: option.splits)

lemma calculateOids_step:
  assumes "q < length vs"
  shows "calculateOids vs q s = (case main_edge vs q of None \<Rightarrow> Some s
    | Some e \<Rightarrow> calculateOids vs (adjv e) (sdscat (sdscat s [COMMA]) (oid e)))"
  using assms by (subst calculateOids.simps) (auto simp: vget_def main_edge_def split: option.splits)

lemma locateL_main: "main_path vs q os w \<Longrightarrow> locateLVertice vs q = Some w"
  by (induction rule: main_path.induct) (simp_all add: locateL_step)

text \<open>The text of a context.\<close>

definition context_text :: "string \<Rightarrow> string list \<Rightarrow> string" where
  "context_text s os = s @ concat (map (\<lambda>i. COMMA # i) os)"

lemma context_text_simps [simp]:
  "context_text s [] = s" "context_text s (i # os) = context_text (s @ COMMA # i) os"
  by (simp_all add: context_text_def)

lemma nul_free_COMMA [simp]: "nul_free [COMMA]"
  by (simp add: nul_free_def)

lemma calculateOids_main:
  assumes "main_path vs q os w" "oids_ok vs"
  shows "calculateOids vs q s = Some (context_text s os)"
  using assms
proof (induction arbitrary: s rule: main_path.induct)
  case (end_here q)
  then show ?case by (simp add: calculateOids_step)
next
  case (go_on q e os w)
  then show ?case
    using oids_okD(2) [OF go_on.prems go_on(1) main_edge_edge [OF go_on(2)]] by (simp add: calculateOids_step)
qed

section \<open>The vertex of a context\<close>

lemma strstr_middle: "nul_free (u @ t @ v) \<Longrightarrow> nul_free t \<Longrightarrow> strstr (u @ t @ v) t"
  by (simp add: strstr_def substring_iff) blast

lemma context_text_append: "context_text s (os @ os') = context_text (context_text s os) os'"
  by (simp add: context_text_def)

lemma context_nul_free:
  assumes "nul_free s" "\<forall>i \<in> set os. nul_free i"
  shows "nul_free (context_text s os)"
  using assms by (auto simp: context_text_def nul_free_def)

lemma main_path_oids: "main_path vs q os w \<Longrightarrow> oids_ok vs \<Longrightarrow> \<forall>i \<in> set os. i \<noteq> [] \<and> nul_free i \<and> COMMA \<notin> set i"
proof (induction rule: main_path.induct)
  case (go_on q e os w)
  then show ?case using oids_okD [OF go_on.prems go_on(1) main_edge_edge [OF go_on(2)]] by simp
qed simp

lemma context_join: "context_text s os = join COMMA (s # os)"
proof -
  have "concat (map (\<lambda>i. COMMA # i) os) = (if os = [] then [] else COMMA # join COMMA os)"
    by (induction os) (auto simp: join_Cons)
  then show ?thesis by (simp add: context_text_def join_Cons)
qed

lemma pieces_context: "\<forall>i \<in> set os. COMMA \<notin> set i \<Longrightarrow> pieces COMMA (context_text INIT os) = INIT # os"
  unfolding context_join by (rule pieces_join) (auto simp: INIT_def)

lemma context_length:
  assumes "\<forall>i \<in> set os. i \<noteq> []"
  shows "length (context_text s os) = length s \<longleftrightarrow> os = []" "length s \<le> length (context_text s os)"
  by (auto simp: context_text_def)

lemma INIT_simps [simp]: "length INIT = 4" "nul_free INIT" "sdsnew INIT = INIT"
  by (simp_all add: INIT_def nul_free_def)

definition good_oids :: "string list \<Rightarrow> bool" where
  "good_oids os \<longleftrightarrow> (\<forall>i \<in> set os. i \<noteq> [] \<and> nul_free i \<and> COMMA \<notin> set i)"

lemma good_oids_simps [simp]:
  "good_oids []" "good_oids (i # os) \<longleftrightarrow> good_oids os \<and> i \<noteq> [] \<and> nul_free i \<and> COMMA \<notin> set i"
  "good_oids (os @ os') \<longleftrightarrow> good_oids os \<and> good_oids os'"
  by (auto simp: good_oids_def)

lemma good_context:
  assumes "good_oids os"
  shows "nul_free (context_text INIT os)" "pieces COMMA (context_text INIT os) = INIT # os"
    "length (context_text INIT os) = 4 \<longleftrightarrow> os = []"
  using assms context_nul_free [of INIT os] pieces_context [of os] context_length(1) [of os INIT]
  by (simp_all add: good_oids_def)

lemma context_snoc: "context_text INIT (os @ [i]) = context_text INIT os @ COMMA # i"
  by (simp add: context_text_def)

lemma findOid_context:
  assumes "good_oids (pre @ i # os)"
  shows "findOid (context_text INIT (pre @ i # os)) i"
proof -
  have i: "nul_free i" "nul_free (COMMA # i)" using assms by (auto simp: good_oids_def nul_free_def)
  have "context_text INIT (pre @ i # os) = context_text INIT pre @ (COMMA # i) @ context_text [] os"
    by (simp add: context_text_def)
  then show ?thesis
    using strstr_middle [of "context_text INIT pre" "COMMA # i" "context_text [] os"] good_context(1) [OF assms] i
    by (simp add: findOid_def)
qed

section \<open>Soundness of the search\<close>

lemma listsds_loop_found:
  assumes "listsds_loop list v i n = Some (True, list')"
  shows "left list = add_mset v (left list')"
  using assms
proof (induction list v i n rule: listsds_loop.induct)
  case (2 list v i n)
  show ?case
  proof (cases "i < length list \<and> list ! i = Some v")
    case True
    then have i: "i < length list" by simp
    have "left list = add_mset v (left (list[i := None]))"
      using arg_cong [OF id_take_nth_drop [OF i], of left] True
      unfolding upd_conv_take_nth_drop [OF i] by simp
    then show ?thesis using 2(2) True by simp
  next
    case False
    then show ?thesis using 2 by (auto split: if_splits)
  qed
qed simp

lemma all_listed_sub: "all_listed xs list len = Some True \<Longrightarrow> mset xs \<subseteq># left list"
proof (induction xs arbitrary: list)
  case (Cons x xs)
  then obtain list' where l: "sdslistsds list x len = Some (True, list')" "all_listed xs list' len = Some True"
    by (auto split: option.splits prod.splits if_splits)
  then show ?case
    using Cons.IH [OF l(2)] listsds_loop_found [of list x 0 len list'] by (simp add: sdslistsds_def)
qed simp

lemma left_Some [simp]: "left (map Some xs) = mset xs"
  by (induction xs) auto

lemma size_pieces: "s \<noteq> [] \<Longrightarrow> (\<Sum>w \<in># mset (pieces c s). Suc (length w)) = Suc (length s)"
proof -
  have "ws \<noteq> [] \<Longrightarrow> (\<Sum>w \<in># mset ws. Suc (length w)) = Suc (length (join c ws))" for ws :: "string list"
    by (induction c ws rule: join.induct) auto
  moreover assume "s \<noteq> []"
  moreover have "pieces c s \<noteq> []" using \<open>s \<noteq> []\<close> by (simp add: pieces_def)
  ultimately show ?thesis by (metis join_pieces)
qed

lemma oidscmp_same:
  assumes "oidscmp s1 s2 = Some 0" "length s1 = length s2" "s1 \<noteq> []"
  shows "mset (pieces COMMA s1) = mset (pieces COMMA s2)"
proof -
  have "all_listed (pieces COMMA s1) (map Some (pieces COMMA s2)) (length (pieces COMMA s1)) = Some True"
    using assms(1) by (auto simp: oidscmp_def bind_eq_Some_conv split: if_splits)
  then have "mset (pieces COMMA s1) \<subseteq># mset (pieces COMMA s2)" using all_listed_sub by force
  then obtain d where d: "mset (pieces COMMA s2) = mset (pieces COMMA s1) + d"
    by (metis subset_mset.le_iff_add)
  have "(\<Sum>w \<in># mset (pieces COMMA s2). Suc (length w)) = (\<Sum>w \<in># mset (pieces COMMA s1). Suc (length w))"
  proof -
    have "s2 \<noteq> []" using assms(2,3) by auto
    then show ?thesis using size_pieces [of s1] size_pieces [of s2] assms(2,3) by simp
  qed
  then have "(\<Sum>w \<in># d. Suc (length w)) = 0" unfolding d by simp
  then have "d = {#}" by (cases d) simp_all
  then show ?thesis using d by simp
qed

lemma locateR_sound:
  assumes ok: "space_ok n vs" "oids_ok vs" and q: "q < length vs" "good_oids pre"
    and r: "locateRVertice_loop vs q ctx (context_text INIT pre) = Some (Some w)"
  shows "\<exists>os. path vs q os w \<and> mset (pieces COMMA ctx) = mset (INIT # pre @ os)"
  using q r
proof (induction "length vs - q" arbitrary: q pre rule: less_induct)
  case less
  let ?t = "context_text INIT pre"
  note gc = good_context [OF less.prems(2)]
  show ?case
  proof (cases "length ?t = length ctx")
    case True
    have tn: "?t \<noteq> []" by (simp add: context_text_def INIT_def)
    have "w = q \<and> mset (pieces COMMA ?t) = mset (pieces COMMA ctx)"
    proof (cases "length ?t = 4")
      case four: True
      then have "cstr ctx = INIT" "w = q"
        using less.prems(3) True by (subst (asm) locateRVertice_loop.simps, simp add: streq_def split: if_splits)+
      moreover have "cstr ctx = take (length (cstr ctx)) ctx" unfolding cstr_def by (rule takeWhile_eq_take)
      ultimately have "ctx = INIT" "w = q" using four True by simp_all
      then show ?thesis using four gc(3) \<open>w = q\<close> by simp
    next
      case False
      then obtain r where r: "oidscmp ?t ctx = Some r" "r = 0" "w = q"
        using less.prems(3) True by (subst (asm) locateRVertice_loop.simps) (auto simp: bind_eq_Some_conv split: if_splits)
      then show ?thesis using oidscmp_same [OF _ True tn] by simp
    qed
    then show ?thesis using gc(2) path_Nil [OF less.prems(1)] by (intro exI [of _ "[]"]) auto
  next
    case False
    obtain e where e: "ledge (vs ! q) = Some e \<or> redge (vs ! q) = Some e"
      "locateRVertice_loop vs (adjv e) ctx (sdscat (sdscat ?t [COMMA]) (oid e)) = Some (Some w)"
      using less.prems(1,3) False
      by (subst (asm) locateRVertice_loop.simps) (auto simp: vget_def bind_eq_Some_conv split: if_splits)
    note o = oids_okD [OF ok(2) less.prems(1) e(1)]
    note adj = space_edge(1,2) [OF ok(1) less.prems(1) e(1)]
    have "\<exists>os. path vs (adjv e) os w \<and> mset (pieces COMMA ctx) = mset (INIT # (pre @ [oid e]) @ os)"
    proof (rule less.hyps)
      show "length vs - adjv e < length vs - q" using adj by simp
      show "good_oids (pre @ [oid e])" using less.prems(2) o by simp
      show "locateRVertice_loop vs (adjv e) ctx (context_text INIT (pre @ [oid e])) = Some (Some w)"
        using e(2) o by (simp add: context_snoc)
    qed (rule adj(2))
    then obtain os where os: "path vs (adjv e) os w" "mset (pieces COMMA ctx) = mset (INIT # (pre @ [oid e]) @ os)"
      by blast
    from e(1) have "path vs q (oid e # os) w"
      using path_l [OF less.prems(1) _ os(1)] path_r [OF less.prems(1) _ os(1)] by blast
    then show ?thesis using os(2) by (intro exI [of _ "oid e # os"]) simp
  qed
qed

section \<open>Extending a space\<close>

lemma oids_ok_iff: "oids_ok vs \<longleftrightarrow> (\<forall>i \<in> all_oids vs. i \<noteq> [] \<and> nul_free i \<and> COMMA \<notin> set i)"
  unfolding oids_ok_def all_oids_def vertice_oids_def by auto

lemma oids_ok_sub: "oids_ok vs \<Longrightarrow> all_oids vs' \<subseteq> all_oids vs \<Longrightarrow> oids_ok vs'"
  unfolding oids_ok_iff by blast

text \<open>A new edge at the last vertex makes its target the last vertex.\<close>

lemma main_path_extend:
  assumes "main_path vs q os w" "length vs \<le> length vs'"
    "\<And>i. i < length vs \<Longrightarrow> main_edge vs i \<noteq> None \<Longrightarrow> main_edge vs' i = main_edge vs i"
    "main_edge vs' w = Some e" "adjv e < length vs'" "main_edge vs' (adjv e) = None"
  shows "main_path vs' q (os @ [oid e]) (adjv e)"
  using assms
proof (induction rule: main_path.induct)
  case (end_here q)
  then show ?case using main_path.go_on [of q vs' e "[]"] main_path.end_here [of "adjv e" vs'] by simp
next
  case (go_on q d os w)
  then show ?case using main_path.go_on [of q vs' d] by auto
qed

section \<open>A sample space\<close>

text \<open>Two elements that a local operation has united.\<close>

definition sample_edge :: dedge where
  "sample_edge = createOpEdge OPTYPE_UNION (Some ''a'') (Some ''b'') ''1_1'' 1"

definition sample_space :: space where
  "sample_space = [(new_vertice ''a/b'')\<lparr>ledge := Some sample_edge\<rparr>, new_vertice ''a,b'']"

lemma sample_texts:
  "text_ok ''a/b''" "text_rel ''a/b'' = {(''a'', ''a''), (''b'', ''b'')}"
  "text_ok ''a,b''" "text_rel ''a,b'' = {(''a'', ''a''), (''a'', ''b''), (''b'', ''a''), (''b'', ''b'')}"
proof -
  have "text_ok ''a/b'' \<and> text_rel ''a/b'' = part_rel [[''a''], [''b'']]"
    by (rule text_eval)
      (simp add: show_state_def, simp add: state_ok_def nms_def nm_def nul_free_def del: name_rules)
  then show "text_ok ''a/b''" "text_rel ''a/b'' = {(''a'', ''a''), (''b'', ''b'')}"
    by (auto simp: part_rel_def)
  have "text_ok ''a,b'' \<and> text_rel ''a,b'' = part_rel [[''a'', ''b'']]"
    by (rule text_eval)
      (simp add: show_state_def, simp add: state_ok_def nms_def nm_def nul_free_def del: name_rules)
  then show "text_ok ''a,b''" "text_rel ''a,b'' = {(''a'', ''a''), (''a'', ''b''), (''b'', ''a''), (''b'', ''b'')}"
    by (auto simp: part_rel_def)
qed

lemma sample_arg: "targ R ''a'' \<longleftrightarrow> (''a'', ''a'') \<in> R" "targ R ''b'' \<longleftrightarrow> (''b'', ''b'') \<in> R"
  "sarg R ''a'' \<longleftrightarrow> (''a'', ''a'') \<in> R" "sarg R ''b'' \<longleftrightarrow> (''b'', ''b'') \<in> R"
  by (simp_all add: targ_def sarg_def star_def args_def arg_ok_def nms_def nm_def nul_free_def del: name_rules)

lemma sample_text_of: "text_of 3 ''a/b''" "text_of 3 ''a,b''"
  using sample_texts by (auto simp: text_of_def ufs_text_def star_def)

lemma sample_union: "op_apply sample_edge (text_rel ''a/b'') = text_rel ''a,b''"
  by (auto simp: sample_edge_def createOpEdge_def op_apply_def op_den_def op_of_def union_op_def star_def args_def
      sample_texts merge_def)

lemma sample_space_ok: "space_ok 3 sample_space" "oids_ok sample_space"
proof -
  have "op_ok (text_rel ''a/b'') sample_edge"
    by (simp add: sample_edge_def createOpEdge_def op_ok_def sample_arg sample_texts)
  moreover have "st sample_space 0 = text_rel ''a/b''" "st sample_space 1 = text_rel ''a,b''"
    by (simp_all add: st_def sample_space_def new_vertice_def)
  ultimately have "edge_ok sample_space 0 sample_edge"
    using sample_union by (simp add: edge_ok_def) (simp add: sample_space_def sample_edge_def createOpEdge_def)
  then show "space_ok 3 sample_space"
    using sample_text_of by (auto simp: space_ok_def sample_space_def new_vertice_def less_Suc_eq)
  show "oids_ok sample_space"
    by (auto simp: oids_ok_def sample_space_def new_vertice_def sample_edge_def createOpEdge_def nul_free_def)
qed

section \<open>Properties\<close>

text \<open>
  C18. On a well-formed space the walk to the last vertex returns: it ends at a vertex without
  edges, and the context computed along the way lists the identifiers of the operations on a path to
  that vertex, after \<open>init\<close>.
\<close>

theorem locate_last_terminates:
  assumes "space_ok n vs" "oids_ok vs"
  shows "\<exists>w ctx os. locateVertice vs None = Some (Some w) \<and> calculateOids vs 0 INIT = Some ctx \<and>
    w < length vs \<and> ledge (vs ! w) = None \<and> redge (vs ! w) = None \<and>
    path vs 0 os w \<and> pieces COMMA ctx = INIT # os"
proof -
  have ne: "vs \<noteq> []" using assms(1) by (simp add: space_ok_def)
  then obtain os w where m: "main_path vs 0 os w" using main_path_exists [OF assms(1), of 0] by auto
  then show ?thesis
    using ne main_path_ends [OF m] main_path_path [OF m] locateL_main [OF m] calculateOids_main [OF m assms(2), of INIT]
      good_context(2) [of os] main_path_oids [OF m assms(2)]
    by (auto simp: locateVertice_def good_oids_def)
qed

theorem locate_last_terminates_witness:
  "\<exists>w ctx os. locateVertice sample_space None = Some (Some w) \<and> calculateOids sample_space 0 INIT = Some ctx \<and>
    path sample_space 0 os w \<and> pieces COMMA ctx = INIT # os"
  using locate_last_terminates [OF sample_space_ok] by blast

text \<open>
  C17. A vertex that is located by a context has that context: some path from the first vertex to it
  carries exactly the operations of the context, in some order.
\<close>

theorem locateVertice_sound:
  assumes "space_ok n vs" "oids_ok vs" "locateVertice vs (Some ctx) = Some (Some w)"
  shows "\<exists>os. path vs 0 os w \<and> mset (pieces COMMA ctx) = mset (INIT # os)"
  using assms locateR_sound [OF assms(1,2), of 0 "[]" ctx w]
  by (auto simp: locateVertice_def locateRVertice_def split: if_splits)

theorem locateVertice_sound_witness:
  "\<exists>os. path sample_space 0 os 1 \<and> mset (pieces COMMA ''init,1_1'') = mset (INIT # os)"
proof (rule locateVertice_sound [OF sample_space_ok])

  show "locateVertice sample_space (Some ''init,1_1'') = Some (Some 1)"
    by (simp add: locateVertice_def locateRVertice_def sample_space_def)
      (subst locateRVertice_loop.simps, simp add: INIT_def vget_def new_vertice_def sample_edge_def createOpEdge_def has_oid_def
        findOid_def strstr_def cstr_def nul_free_def, subst locateRVertice_loop.simps, simp add: oidscmp_eq)
qed

end
