(* ===== verification/Commands.thy ===== *)
theory Commands
  imports Ufs_Print Locate
begin

text \<open>
  The server state and the commands of \<^verbatim>\<open>src/ufs.c\<close> around the transformation: the checks of the
  arguments of \<^verbatim>\<open>union\<close> and \<^verbatim>\<open>split\<close>, their execution on the graph, \<^verbatim>\<open>uinit\<close>, \<^verbatim>\<open>find\<close> and
  \<^verbatim>\<open>umembers\<close>, and the identifiers of operations.
\<close>

section \<open>State\<close>

text \<open>The replies the commands add to a client's output.\<close>

datatype reply =
    Ok_reply
  | Argv1NoSameClass
  | Argv2NoSameClass
  | Argv12NoSameClass
  | ArgvSplitNoSameClass
  | ArgvNoExistElem
  | ArgvNoExistAllElems
  | ArgvUaddExistUfs
  | Bulk string

text \<open>
  A connection. \<^verbatim>\<open>argc\<close> is the length of \<^verbatim>\<open>argv\<close>; \<^verbatim>\<open>from_master\<close> is the flag
  \<^verbatim>\<open>CLIENT_MASTER\<close>.
\<close>

record client =
  argv :: "string list"
  flag_ufs :: int
  from_master :: bool
  slave_listening_port :: int
  replies :: "reply list"

text \<open>The part of the server state that these commands use; the option values are pointers.\<close>

record server =
  masterhost :: bool
  port :: int
  slaves :: "int list option"
  ufslist :: "cudGraph list option"
  cspacelist :: "cverlist list option"
  sspacelist :: "verlist list option"
  op_num :: int

definition arg :: "client \<Rightarrow> nat \<Rightarrow> string option" where
  "arg c i = (if i < length (argv c) then Some (argv c ! i) else None)"

definition last_arg :: "client \<Rightarrow> string option" where
  "last_arg c = (if argv c = [] then None else Some (last (argv c)))"

definition addReply :: "client \<Rightarrow> reply \<Rightarrow> client" where
  "addReply c r = c\<lparr>replies := replies c @ [r]\<rparr>"

section \<open>Identifiers of operations\<close>

definition zm :: string where
  "zm = ''0123456789abcdefghijklmnopqrstuvwxyz''"

text \<open>
  The digits of a positive number, most significant first. The first loop of the code collects them
  least significant first, the second one copies them in reverse order.
\<close>

function itos_loop :: "int \<Rightarrow> int \<Rightarrow> string \<Rightarrow> string" where
  "itos_loop n radix aa =
     (if 0 < n \<and> 1 < radix then itos_loop (n div radix) radix (zm ! nat (n mod radix) # aa) else aa)"
  by auto

termination itos_loop
  by (relation "measure (\<lambda>(n, radix, aa). nat n)") (auto simp: int_div_less_self)

declare itos_loop.simps [simp del]

text \<open>\<^term>\<open>cap\<close> is the size of the buffer that receives the digits and a terminator.\<close>

definition itos :: "int \<Rightarrow> nat \<Rightarrow> int \<Rightarrow> string option" where
  "itos value cap radix =
     (let aa = itos_loop value radix [] in
      if 1 < radix \<and> radix \<le> 36 \<and> length aa < cap then Some aa else None)"

definition Port_Num :: nat where
  "Port_Num = 4"

definition Max_Op_Num :: nat where
  "Max_Op_Num = 5"

definition make_oid :: "int \<Rightarrow> int \<Rightarrow> string option" where
  "make_oid p n = do {
     s1 \<leftarrow> itos (p - 6379) (Port_Num + 1) 10;
     s2 \<leftarrow> itos n Max_Op_Num 10;
     Some (sdscat (sdscat (sdscat sdsempty s1) ''_'') s2)
   }"

section \<open>Structures\<close>

text \<open>The position of a structure in the list; a missing structure is the NULL pointer.\<close>

definition getUfs :: "server \<Rightarrow> string \<Rightarrow> nat option" where
  "getUfs sv k = do { l \<leftarrow> ufslist sv; first_index (\<lambda>g. streq (key g) k) l }"

definition graph_of :: "server \<Rightarrow> string \<Rightarrow> cudGraph option" where
  "graph_of sv k = do { l \<leftarrow> ufslist sv; i \<leftarrow> getUfs sv k; Some (l ! i) }"

definition set_graph :: "server \<Rightarrow> string \<Rightarrow> cudGraph \<Rightarrow> server option" where
  "set_graph sv k g = do { l \<leftarrow> ufslist sv; i \<leftarrow> getUfs sv k; Some (sv\<lparr>ufslist := Some (l[i := g])\<rparr>) }"

section \<open>Checks of the arguments\<close>

text \<open>
  The result is the error reply, or no reply when the arguments are accepted. The structure is a
  pointer that may be NULL; the checks read through it only in the branches that need it.
\<close>

type_synonym check = "(reply + unit) option"

definition fail_if :: "bool option \<Rightarrow> reply \<Rightarrow> check \<Rightarrow> check" where
  "fail_if b r k = do { bad \<leftarrow> b; if bad then Some (Inl r) else k }"

definition missing :: "cudGraph option \<Rightarrow> string \<Rightarrow> bool option" where
  "missing g e = do { g \<leftarrow> g; b \<leftarrow> existElement g e; Some (\<not> b) }"

definition missing_any :: "cudGraph option \<Rightarrow> string list \<Rightarrow> bool option" where
  "missing_any g es = do { g \<leftarrow> g; b \<leftarrow> existElements g es; Some (\<not> b) }"

definition unconnected :: "cudGraph option \<Rightarrow> string list \<Rightarrow> bool option" where
  "unconnected g es = do { g \<leftarrow> g; b \<leftarrow> isConnected g es; Some (\<not> b) }"

definition accept :: check where
  "accept = Some (Inr ())"

definition checkUnionArgv :: "cudGraph option \<Rightarrow> string \<Rightarrow> string \<Rightarrow> check" where
  "checkUnionArgv ufs a1 a2 =
     (let set1 = strchr a1 COMMA; set2 = strchr a2 COMMA in
      if streq a1 star \<or> streq a2 star then
        fail_if (if \<not> streq a1 star then missing ufs a1 else Some False) ArgvNoExistAllElems
          (fail_if (if \<not> streq a2 star then missing ufs a2 else Some False) ArgvNoExistAllElems accept)
      else if set1 \<and> \<not> set2 then do {
        es \<leftarrow> sdssplitlen a1 (int (strlen a1)) [COMMA];
        fail_if (unconnected ufs es) Argv1NoSameClass
          (fail_if (missing_any ufs es) ArgvNoExistAllElems
            (fail_if (missing ufs a2) ArgvNoExistAllElems accept))
      }
      else if set2 \<and> \<not> set1 then do {
        es \<leftarrow> sdssplitlen a2 (int (strlen a2)) [COMMA];
        fail_if (unconnected ufs es) Argv2NoSameClass
          (fail_if (missing_any ufs es) ArgvNoExistAllElems
            (fail_if (missing ufs a1) ArgvNoExistAllElems accept))
      }
      else if set1 \<and> set2 then do {
        es1 \<leftarrow> sdssplitlen a1 (int (strlen a1)) [COMMA];
        es2 \<leftarrow> sdssplitlen a2 (int (strlen a2)) [COMMA];
        fail_if (do { b1 \<leftarrow> unconnected ufs es1; if b1 then unconnected ufs es2 else Some False }) Argv12NoSameClass
          (fail_if (unconnected ufs es1) Argv1NoSameClass
            (fail_if (unconnected ufs es2) Argv2NoSameClass
              (fail_if (missing_any ufs es1) ArgvNoExistAllElems
                (fail_if (missing_any ufs es2) ArgvNoExistAllElems accept))))
      }
      else
        fail_if (missing ufs a1) ArgvNoExistAllElems (fail_if (missing ufs a2) ArgvNoExistAllElems accept))"

definition checkSplitArgv :: "cudGraph option \<Rightarrow> string \<Rightarrow> check" where
  "checkSplitArgv ufs a1 =
     (if strchr a1 COMMA then do {
        es \<leftarrow> sdssplitlen a1 (int (strlen a1)) [COMMA];
        fail_if (unconnected ufs es) ArgvSplitNoSameClass
          (fail_if (missing_any ufs es) ArgvNoExistAllElems accept)
      }
      else fail_if (missing ufs a1) ArgvNoExistElem accept)"

definition UNION :: string where
  "UNION = ''union''"

definition SPLIT :: string where
  "SPLIT = ''split''"

definition checkArgv :: "server \<Rightarrow> client \<Rightarrow> check" where
  "checkArgv sv c = do {
     cmd \<leftarrow> arg c 0;
     k \<leftarrow> last_arg c;
     a1 \<leftarrow> arg c 1;
     if streq cmd UNION then do { a2 \<leftarrow> arg c 2; checkUnionArgv (graph_of sv k) a1 a2 }
     else checkSplitArgv (graph_of sv k) a1
   }"

definition reject :: "client \<Rightarrow> reply \<Rightarrow> client" where
  "reject c r = addReply (c\<lparr>flag_ufs := 0\<rparr>) r"

definition confirm :: "client \<Rightarrow> client" where
  "confirm c = addReply (c\<lparr>flag_ufs := 1\<rparr>) Ok_reply"

section \<open>Execution on the graph\<close>

text \<open>\<^verbatim>\<open>unionProc\<close> and \<^verbatim>\<open>splitProc\<close> with the lookup of the structure and the reply.\<close>

definition exec_union :: "server \<Rightarrow> client \<Rightarrow> string \<Rightarrow> string \<Rightarrow> (server \<times> client) option" where
  "exec_union sv c a1 a2 = do {
     k \<leftarrow> last_arg c;
     if streq a1 star \<or> streq a2 star then Some (sv, confirm c)
     else do {
       g \<leftarrow> graph_of sv k;
       g' \<leftarrow> unionProc g a1 a2;
       sv' \<leftarrow> set_graph sv k g';
       Some (sv', confirm c)
     }
   }"

definition exec_split :: "server \<Rightarrow> client \<Rightarrow> string \<Rightarrow> (server \<times> client) option" where
  "exec_split sv c a1 = do {
     k \<leftarrow> last_arg c;
     if \<not> strchr a1 COMMA \<and> streq a1 star then Some (sv, confirm c)
     else do {
       g \<leftarrow> graph_of sv k;
       g' \<leftarrow> splitProc g a1;
       sv' \<leftarrow> set_graph sv k g';
       Some (sv', confirm c)
     }
   }"

section \<open>uinit\<close>

text \<open>
  The vertices of a class are appended, then every two of them are linked. While the classes are
  entered, \<^verbatim>\<open>vertexnum\<close> is already the number of all vertices; a search that ran past the entered
  ones would read uninitialised memory.
\<close>

fun uinit_row :: "cudGraph \<Rightarrow> nat \<Rightarrow> string \<Rightarrow> nat \<Rightarrow> string list \<Rightarrow> cudGraph option" where
  "uinit_row g k a m [] = Some g"
| "uinit_row g k a m (b # bs) = do {
     g1 \<leftarrow> (if m \<noteq> k then do { i \<leftarrow> locateVex g a; j \<leftarrow> locateVex g b; createLinks g i j } else Some g);
     uinit_row g1 k a (Suc m) bs
   }"

fun uinit_rows :: "cudGraph \<Rightarrow> nat \<Rightarrow> string list \<Rightarrow> string list \<Rightarrow> cudGraph option" where
  "uinit_rows g k [] es = Some g"
| "uinit_rows g k (a # as) es = do {
     g1 \<leftarrow> uinit_row g k a 0 es;
     uinit_rows g1 (Suc k) as es
   }"

definition add_vertices :: "cudGraph \<Rightarrow> string list \<Rightarrow> cudGraph" where
  "add_vertices g es = g\<lparr>dlist := dlist g @ map (\<lambda>e. \<lparr>data = sdsnew e, firstedge = []\<rparr>) es\<rparr>"

fun uinit_classes :: "cudGraph \<Rightarrow> string list \<Rightarrow> cudGraph option" where
  "uinit_classes g [] = Some g"
| "uinit_classes g (q # qs) = do {
     es \<leftarrow> sdssplitlen q (int (length q)) [COMMA];
     g1 \<leftarrow> uinit_rows (add_vertices g es) 0 es es;
     uinit_classes g1 qs
   }"

fun count_vertices :: "string list \<Rightarrow> int option" where
  "count_vertices [] = Some 0"
| "count_vertices (q # qs) = do {
     es \<leftarrow> sdssplitlen q (int (length q)) [COMMA];
     n \<leftarrow> count_vertices qs;
     Some (int (length es) + n)
   }"

definition uinit_graph :: "string \<Rightarrow> string \<Rightarrow> cudGraph option" where
  "uinit_graph k t = do {
     eqcs \<leftarrow> sdssplitlen t (int (length t)) [SLASH];
     n \<leftarrow> count_vertices eqcs;
     uinit_classes \<lparr>key = sdsnew k, vertexnum = n, edgenum = 0, dlist = []\<rparr> eqcs
   }"

definition top_vertice :: "cudGraph \<Rightarrow> vertice option" where
  "top_vertice g = do {
     t \<leftarrow> updateVerticeUfs g;
     Some (createVertice\<lparr>content := Some t\<rparr>)
   }"

definition uinit_client :: "server \<Rightarrow> client \<Rightarrow> string \<Rightarrow> cudGraph \<Rightarrow> (server \<times> client) option" where
  "uinit_client sv c k g =
     (let spaces = (case cspacelist sv of None \<Rightarrow> [] | Some l \<Rightarrow> l) in
      if existCVerlist spaces k then Some (sv\<lparr>cspacelist := Some spaces\<rparr>, reject c ArgvUaddExistUfs)
      else do {
        top \<leftarrow> top_vertice g;
        t \<leftarrow> content top;
        let v = setCverlistUfsLen (createCVerlist k) (int (strlen t));
        Some (sv\<lparr>cspacelist := Some (spaces @ [v\<lparr>cvertices := [top]\<rparr>])\<rparr>, confirm c)
      })"

text \<open>One space for each slave; the length is taken from the first space.\<close>

fun uinit_slaves :: "verlist list \<Rightarrow> int list \<Rightarrow> int \<Rightarrow> string \<Rightarrow> cudGraph \<Rightarrow> verlist list option" where
  "uinit_slaves spaces [] len_ufs k g = Some spaces"
| "uinit_slaves spaces (p # ps) len_ufs k g = do {
     top \<leftarrow> top_vertice g;
     t \<leftarrow> content top;
     let len1 = (if len_ufs = 0 then int (strlen t) else len_ufs);
     let v = setVerlistUfsLen (createVerlist p k) len1;
     uinit_slaves (spaces @ [v\<lparr>svertices := [top]\<rparr>]) ps len1 k g
   }"

definition uinit_server :: "server \<Rightarrow> client \<Rightarrow> string \<Rightarrow> cudGraph \<Rightarrow> (server \<times> client) option" where
  "uinit_server sv c k g =
     (let spaces = (case sspacelist sv of None \<Rightarrow> [] | Some l \<Rightarrow> l) in
      case slaves sv of
        None \<Rightarrow> Some (sv\<lparr>sspacelist := Some spaces\<rparr>, confirm c)
      | Some ps \<Rightarrow> do {
          spaces' \<leftarrow> uinit_slaves spaces ps 0 k g;
          Some (sv\<lparr>sspacelist := Some spaces'\<rparr>, confirm c)
        })"

definition uinitCommand :: "server \<Rightarrow> client \<Rightarrow> (server \<times> client) option" where
  "uinitCommand sv c = do {
     k \<leftarrow> arg c 1;
     t \<leftarrow> arg c 2;
     g \<leftarrow> uinit_graph k t;
     let sv1 = sv\<lparr>ufslist := Some ((case ufslist sv of None \<Rightarrow> [] | Some l \<Rightarrow> l) @ [g])\<rparr>;
     if masterhost sv1 then uinit_client sv1 c k g else uinit_server sv1 c k g
   }"

section \<open>find and umembers\<close>

definition findCommand :: "server \<Rightarrow> client \<Rightarrow> client option" where
  "findCommand sv c = do {
     k \<leftarrow> arg c 2;
     e \<leftarrow> arg c 1;
     g \<leftarrow> graph_of sv k;
     t \<leftarrow> find_text g e;
     Some (addReply c (Bulk t))
   }"

definition umembersCommand :: "server \<Rightarrow> client \<Rightarrow> client option" where
  "umembersCommand sv c = do {
     k \<leftarrow> arg c 1;
     g \<leftarrow> graph_of sv k;
     t \<leftarrow> umembers_text g;
     Some (addReply c (Bulk t))
   }"

section \<open>What the checks decide\<close>

lemma joined_eq:
  assumes ok: "ufs_ok g" and a: "a \<in> names g" and b: "nul_free b"
  shows "joined g a b = Some (b \<noteq> a \<and> (a, b) \<in> ufs_rel g)"
proof -
  obtain i where i: "locateVex g a = Some i" "i \<in> verts g" "name_of g i = a"
    using locateVex_name [OF ok a] .
  show ?thesis
  proof (cases "b \<in> names g")
    case True
    obtain j where j: "locateVex g b = Some j" "j \<in> verts g" "name_of g j = b"
      using locateVex_name [OF ok True] .
    have "(a, b) \<in> ufs_rel g \<longleftrightarrow> (i, j) \<in> irel g" using ufs_rel_iff [OF ok i(2) j(2)] unfolding i(3) j(3) .
    moreover have "a = b \<longleftrightarrow> i = j" using i(1,3) j(1,3) by (metis option.inject)
    moreover have "i \<notin> set (chain g i)" by (rule graph_ok_irrefl [OF ufs_ok_graph [OF ok]])
    ultimately have "j \<in> set (chain g i) \<longleftrightarrow> b \<noteq> a \<and> (a, b) \<in> ufs_rel g" by (auto simp: irel_iff)
    then show ?thesis using i j by (simp add: joined_def)
  next
    case False
    then have "locateVex g b = Some (-1)" using locateVex_missing [OF ufs_ok_base [OF ok] b] by simp
    moreover have "-1 \<notin> set (chain g i)" using graph_ok_verts [OF ufs_ok_graph [OF ok], of "-1" i] by (auto simp: verts_def)
    moreover have "(a, b) \<notin> ufs_rel g" using False equiv_dom [OF equiv_ufs_rel [OF ok]] by blast
    ultimately show ?thesis using i by (simp add: joined_def)
  qed
qed

lemma isConnected_inner_eq:
  assumes "ufs_ok g" "e \<in> names g" "\<forall>f \<in> set fs. nul_free f"
  shows "isConnected_inner g e fs = Some (\<forall>f \<in> set fs. f \<noteq> e \<and> (e, f) \<in> ufs_rel g)"
  using assms(3)
proof (induction fs)
  case Nil
  then show ?case by simp
next
  case (Cons f fs)
  then have "joined g e f = Some (f \<noteq> e \<and> (e, f) \<in> ufs_rel g)"
    using joined_eq [OF assms(1,2), of f] by auto
  then obtain i j where "locateVex g e = Some i" "locateVex g f = Some j"
      "existEdge g i j = Some (f \<noteq> e \<and> (e, f) \<in> ufs_rel g)"
    by (auto simp: joined_def bind_eq_Some_conv)
  then show ?case using Cons by simp
qed

definition one_class :: "(string \<times> string) set \<Rightarrow> string list \<Rightarrow> bool" where
  "one_class R es \<longleftrightarrow> distinct es \<and> (\<forall>x \<in> set es. \<forall>y \<in> set es. (x, y) \<in> R)"

text \<open>Only the first name has to exist; a later one that does not exist is not connected to it.\<close>

lemma isConnected_eq:
  assumes ok: "ufs_ok g" and "es \<noteq> [] \<Longrightarrow> hd es \<in> names g" "\<forall>e \<in> set es. nul_free e"
  shows "isConnected g es = Some (one_class (ufs_rel g) es)"
  using assms(2,3)
proof (induction es)
  case Nil
  then show ?case by (simp add: one_class_def)
next
  case (Cons e es)
  note E = equiv_ufs_rel [OF ok]
  have e: "e \<in> names g" using Cons.prems(1) by simp
  have one: "one_class (ufs_rel g) (e # es) \<longleftrightarrow>
      (\<forall>f \<in> set es. f \<noteq> e \<and> (e, f) \<in> ufs_rel g) \<and> one_class (ufs_rel g) es"
    using equiv_refl [OF E e] equiv_sym [OF E] unfolding one_class_def by auto
  have inner: "isConnected_inner g e es = Some (\<forall>f \<in> set es. f \<noteq> e \<and> (e, f) \<in> ufs_rel g)"
    using isConnected_inner_eq [OF ok e] Cons.prems(2) by simp
  show ?case
  proof (cases "\<forall>f \<in> set es. f \<noteq> e \<and> (e, f) \<in> ufs_rel g")
    case True
    then have "hd es \<in> names g" if "es \<noteq> []" using that equiv_dom [OF E] by (meson hd_in_set)
    then show ?thesis using Cons.IH Cons.prems(2) inner one True by simp
  next
    case False
    then have no: "(\<forall>f \<in> set es. f \<noteq> e \<and> (e, f) \<in> ufs_rel g) = False" by blast
    show ?thesis using inner unfolding one no by simp
  qed
qed

lemma isConnected_lost:
  assumes ok: "ufs_ok g" and "hd es \<notin> names g" "\<forall>e \<in> set es. nul_free e" "2 \<le> length es"
  shows "isConnected g es = None"
proof -
  obtain e f fs where es: "es = e # f # fs" using assms(4) by (cases es; cases "tl es") auto
  have "locateVex g e = Some (-1)" using locateVex_missing [OF ufs_ok_base [OF ok]] assms(2,3) es by simp
  moreover have "existEdge g (-1) j = None" for j by (simp add: existEdge_def vat_def)
  ultimately have "isConnected_inner g e (f # fs) = None" by (cases "locateVex g f") simp_all
  then show ?thesis using es by simp
qed

text \<open>The arguments of an accepted command: names of one class, none twice.\<close>

definition valid_arg :: "(string \<times> string) set \<Rightarrow> string \<Rightarrow> bool" where
  "valid_arg R a \<longleftrightarrow> one_class R (args a)"

lemma nul_free_args: "nul_free a \<Longrightarrow> \<forall>x \<in> set (args a). nul_free x"
  using set_split_on [of _ COMMA a] by (auto simp: args_def nul_free_def)

lemma check_eqs:
  assumes "ufs_ok g" "nul_free a"
  shows "missing (Some g) a = Some (a \<notin> names g)"
    "missing_any (Some g) (args a) = Some (\<not> set (args a) \<subseteq> names g)"
    "hd (args a) \<in> names g \<Longrightarrow> unconnected (Some g) (args a) = Some (\<not> valid_arg (ufs_rel g) a)"
    "hd (args a) \<notin> names g \<Longrightarrow> COMMA \<in> set a \<Longrightarrow> unconnected (Some g) (args a) = None"
proof -
  show "missing (Some g) a = Some (a \<notin> names g)" using existElement_iff [OF assms] by (simp add: missing_def)
  note n = nul_free_args [OF assms(2)]
  then show "missing_any (Some g) (args a) = Some (\<not> set (args a) \<subseteq> names g)"
    using existElements_iff [OF assms(1)] by (simp add: missing_any_def)
  show "hd (args a) \<in> names g \<Longrightarrow> unconnected (Some g) (args a) = Some (\<not> valid_arg (ufs_rel g) a)"
    using isConnected_eq [OF assms(1) _ n] by (simp add: unconnected_def valid_arg_def)
  assume "hd (args a) \<notin> names g" "COMMA \<in> set a"
  moreover from this(2) have "2 \<le> length (args a)" using comma_args [of a] by (cases "args a") (auto simp: args_def Suc_le_eq)
  ultimately show "unconnected (Some g) (args a) = None"
    using isConnected_lost [OF assms(1) _ n] by (simp add: unconnected_def)
qed

lemma valid_names: "ufs_ok g \<Longrightarrow> valid_arg (ufs_rel g) a \<Longrightarrow> set (args a) \<subseteq> names g"
  using equiv_dom [OF equiv_ufs_rel] by (fastforce simp: valid_arg_def one_class_def)

lemma valid_single:
  assumes "ufs_ok g" "COMMA \<notin> set a"
  shows "valid_arg (ufs_rel g) a \<longleftrightarrow> a \<in> names g"
  using assms equiv_refl [OF equiv_ufs_rel] equiv_dom [OF equiv_ufs_rel]
  by (auto simp: valid_arg_def one_class_def args_def)

text \<open>
  A set argument whose first name does not exist sends the check outside of the array of the graph:
  \<^verbatim>\<open>isConnected\<close> is called before \<^verbatim>\<open>existElements\<close>.
\<close>

definition lost :: "cudGraph \<Rightarrow> string \<Rightarrow> bool" where
  "lost g a \<longleftrightarrow> COMMA \<in> set a \<and> hd (args a) \<notin> names g"

text \<open>The unions that are accepted, and those whose check is undefined.\<close>

definition union_valid :: "cudGraph \<Rightarrow> string \<Rightarrow> string \<Rightarrow> bool" where
  "union_valid g a b \<longleftrightarrow>
     (if a = star \<or> b = star then a \<in> insert star (names g) \<and> b \<in> insert star (names g)
      else valid_arg (ufs_rel g) a \<and> valid_arg (ufs_rel g) b)"

definition union_lost :: "cudGraph \<Rightarrow> string \<Rightarrow> string \<Rightarrow> bool" where
  "union_lost g a b \<longleftrightarrow> a \<noteq> star \<and> b \<noteq> star \<and> (lost g a \<or> lost g b)"

lemma lost_invalid: "ufs_ok g \<Longrightarrow> lost g a \<Longrightarrow> \<not> valid_arg (ufs_rel g) a"
proof
  assume "ufs_ok g" "lost g a" "valid_arg (ufs_rel g) a"
  moreover have "hd (args a) \<in> set (args a)" by (rule hd_in_set) (simp add: args_def)
  ultimately show False using valid_names [of g a] by (auto simp: lost_def)
qed

text \<open>The outcome of the checks of one argument, as the lemmas on both commands use it.\<close>

lemma set_arg_checks:
  assumes "ufs_ok g" "nul_free a" "COMMA \<in> set a"
  shows "sdssplitlen a (int (strlen a)) [COMMA] = Some (args a)"
    "unconnected (Some g) (args a) = (if lost g a then None else Some (\<not> valid_arg (ufs_rel g) a))"
    "valid_arg (ufs_rel g) a \<Longrightarrow> missing_any (Some g) (args a) = Some False"
  using split_args [OF assms(2,3)] check_eqs [OF assms(1,2)] assms(3) valid_names [OF assms(1)] by (auto simp: lost_def)

lemma checkUnionArgv_cases:
  assumes ok: "ufs_ok g" and nf: "nul_free a" "nul_free b"
  shows "\<exists>r. checkUnionArgv (Some g) a b =
    (if union_lost g a b then None else if union_valid g a b then accept else Some (Inl r))"
proof -
  have st: "streq a star \<longleftrightarrow> a = star" "streq b star \<longleftrightarrow> b = star" using nf by (simp_all add: streq_iff star_def nul_free_def)
  have c: "strchr a COMMA \<longleftrightarrow> COMMA \<in> set a" "strchr b COMMA \<longleftrightarrow> COMMA \<in> set b" using nf by (simp_all add: strchr_iff)
  note m = check_eqs(1) [OF ok nf(1)] check_eqs(1) [OF ok nf(2)]
  show ?thesis
  proof (cases "a = star \<or> b = star")
    case True
    then show ?thesis unfolding checkUnionArgv_def Let_def st union_valid_def union_lost_def
      by (cases "a = star"; cases "b = star"; cases "a \<in> names g"; cases "b \<in> names g") (simp_all add: m fail_if_def)
  next
    case False
    note A = set_arg_checks [OF ok nf(1)] lost_invalid [OF ok, of a] valid_single [OF ok, of a]
    note B = set_arg_checks [OF ok nf(2)] lost_invalid [OF ok, of b] valid_single [OF ok, of b]
    have l: "COMMA \<notin> set a \<Longrightarrow> \<not> lost g a" "COMMA \<notin> set b \<Longrightarrow> \<not> lost g b" by (simp_all add: lost_def)
    show ?thesis
      using False A B l m
      by (cases "COMMA \<in> set a"; cases "COMMA \<in> set b"; cases "lost g a"; cases "lost g b";
          cases "valid_arg (ufs_rel g) a"; cases "valid_arg (ufs_rel g) b")
        (simp_all add: checkUnionArgv_def Let_def c st union_valid_def union_lost_def fail_if_def)
  qed
qed

lemma checkSplitArgv_eq:
  assumes ok: "ufs_ok g" and nf: "nul_free a"
  shows "checkSplitArgv (Some g) a =
    (if lost g a then None else if valid_arg (ufs_rel g) a then accept
     else Some (Inl (if COMMA \<in> set a then ArgvSplitNoSameClass else ArgvNoExistElem)))"
proof -
  have c: "strchr a COMMA \<longleftrightarrow> COMMA \<in> set a" using nf by (simp add: strchr_iff)
  show ?thesis
    using set_arg_checks [OF ok nf] check_eqs(1) [OF ok nf] valid_single [OF ok, of a] lost_invalid [OF ok, of a]
    by (cases "COMMA \<in> set a"; cases "lost g a") (simp_all add: checkSplitArgv_def c fail_if_def, simp add: lost_def)
qed

section \<open>Identifiers\<close>

definition digit :: "char \<Rightarrow> int" where
  "digit c = (case first_index (\<lambda>x. x = c) zm of Some i \<Rightarrow> int i | None \<Rightarrow> 0)"

fun number :: "int \<Rightarrow> int \<Rightarrow> string \<Rightarrow> int" where
  "number radix v [] = v"
| "number radix v (c # cs) = number radix (v * radix + digit c) cs"

lemma digit_zm: "i < 36 \<Longrightarrow> digit (zm ! i) = int i"
proof -
  have "\<forall>i \<in> set [0..<36]. digit (zm ! i) = int i" by code_simp
  then show "i < 36 \<Longrightarrow> digit (zm ! i) = int i" by simp
qed

lemma number_shift: "number r v s = v * r ^ length s + number r 0 s"
proof (induction s arbitrary: v)
  case Nil
  then show ?case by simp
next
  case (Cons c s)
  show ?case using Cons [of "v * r + digit c"] Cons [of "digit c"] by (simp add: algebra_simps)
qed

lemma itos_loop_number:
  assumes "0 \<le> n" "1 < r" "r \<le> 36"
  shows "number r 0 (itos_loop n r aa) = n * r ^ length aa + number r 0 aa"
  using assms
proof (induction n r aa rule: itos_loop.induct)
  case (1 n r aa)
  show ?case
  proof (cases "0 < n")
    case True
    have m: "0 \<le> n mod r" "n mod r < r" using "1.prems" by simp_all
    then have d: "digit (zm ! nat (n mod r)) = n mod r" using digit_zm [of "nat (n mod r)"] "1.prems"(3) by linarith
    have "number r 0 (itos_loop n r aa) = number r 0 (itos_loop (n div r) r (zm ! nat (n mod r) # aa))"
      using True "1.prems" by (subst itos_loop.simps) simp
    also have "\<dots> = n div r * r ^ Suc (length aa) + number r (n mod r) aa"
      using 1 True d by (simp add: pos_imp_zdiv_nonneg_iff)
    also have "\<dots> = (n div r * r + n mod r) * r ^ length aa + number r 0 aa"
      by (subst number_shift) (simp only: distrib_right power_Suc mult.assoc add.assoc)
    finally show ?thesis by simp
  next
    case False
    then show ?thesis using "1.prems" by (subst itos_loop.simps) simp
  qed
qed

lemma itos_loop_set: "r \<le> 36 \<Longrightarrow> set (itos_loop n r aa) \<subseteq> set zm \<union> set aa"
proof (induction n r aa rule: itos_loop.induct)
  case (1 n r aa)
  show ?case
  proof (cases "0 < n \<and> 1 < r")
    case True
    have "length zm = 36" by (simp add: zm_def)
    moreover have "0 \<le> n mod r" "n mod r < r" using True by simp_all
    ultimately have "nat (n mod r) < length zm" using 1(2) by linarith
    then have "zm ! nat (n mod r) \<in> set zm" by (rule nth_mem)
    then show ?thesis using 1(1) [OF True 1(2)] True by (subst itos_loop.simps) auto
  next
    case False
    then show ?thesis by (subst itos_loop.simps) auto
  qed
qed

lemma itos_loop_length: "n < r ^ k \<Longrightarrow> 1 < r \<Longrightarrow> length (itos_loop n r aa) \<le> k + length aa"
proof (induction k arbitrary: n aa)
  case 0
  then show ?case by (subst itos_loop.simps) simp
next
  case (Suc k)
  show ?case
  proof (cases "0 < n")
    case True
    have "n div r < r ^ k"
    proof (rule ccontr)
      assume "\<not> n div r < r ^ k"
      then have "r ^ k * r \<le> n div r * r" using Suc.prems(2) by (intro mult_right_mono) simp_all
      also have "\<dots> \<le> n" using Suc.prems(2) by (metis add.commute add_increasing2 div_mult_mod_eq less_imp_le
            order_refl order_less_trans pos_mod_sign zero_less_one)
      finally show False using Suc.prems(1) by (simp add: mult.commute)
    qed
    then show ?thesis
      using Suc.IH [of "n div r" "zm ! nat (n mod r) # aa"] Suc.prems(2) True by (subst itos_loop.simps) simp
  next
    case False
    then show ?thesis by (subst itos_loop.simps) simp
  qed
qed

lemma itos_loop_not_Nil: "0 < n \<Longrightarrow> 1 < r \<Longrightarrow> r \<le> 36 \<Longrightarrow> itos_loop n r [] \<noteq> []"
  using itos_loop_number [of n r "[]"] by auto

lemma zm_chars: "CHR ''_'' \<notin> set zm" "COMMA \<notin> set zm" "NUL \<notin> set zm"
  by (simp_all add: zm_def)

lemma make_oid_eq:
  assumes "make_oid p n = Some s"
  obtains s1 s2 where "s = s1 @ CHR ''_'' # s2" "s1 = itos_loop (p - 6379) 10 []" "s2 = itos_loop n 10 []"
    "set s1 \<subseteq> set zm" "set s2 \<subseteq> set zm"
proof -
  let ?s1 = "itos_loop (p - 6379) 10 []" and ?s2 = "itos_loop n 10 []"
  have z: "set ?s1 \<subseteq> set zm" "set ?s2 \<subseteq> set zm" using itos_loop_set [of 10 _ "[]"] by simp_all
  then have nf: "nul_free ?s1" "nul_free ?s2" using zm_chars(3) by (auto simp: nul_free_def)
  have "nul_free ''_''" by (simp add: nul_free_def)
  then have "s = ?s1 @ CHR ''_'' # ?s2"
    using assms nf by (auto simp: make_oid_def itos_def Let_def sdsempty_def bind_eq_Some_conv split: if_splits)
  then show thesis using that z by blast
qed

lemma make_oid_ok:
  assumes "6379 < p" "p < 16379" "0 < n" "n < 10000"
  obtains s where "make_oid p n = Some s" "s \<noteq> []" "nul_free s" "COMMA \<notin> set s"
proof -
  have "length (itos_loop (p - 6379) 10 []) \<le> 4" "length (itos_loop n 10 []) \<le> 4"
    using itos_loop_length [of "p - 6379" 10 4 "[]"] itos_loop_length [of n 10 4 "[]"] assms by simp_all
  then obtain s where s: "make_oid p n = Some s"
    by (simp add: make_oid_def itos_def Port_Num_def Max_Op_Num_def)
  from s show thesis
  proof (rule make_oid_eq)
    fix s1 s2
    assume "s = s1 @ CHR ''_'' # s2" "set s1 \<subseteq> set zm" "set s2 \<subseteq> set zm"
    then show thesis using that [OF s] zm_chars by (auto simp: nul_free_def)
  qed
qed

text \<open>
  \<^verbatim>\<open>itos\<close> needs a buffer of \<^term>\<open>k + 1\<close> bytes exactly for the numbers below the \<^term>\<open>k\<close>-th power of the base,
  and the digits read back in this base give the number; a number that is not positive has no digit.
\<close>

lemma itos_loop_0: "n \<le> 0 \<Longrightarrow> itos_loop n r aa = aa"
  by (subst itos_loop.simps) simp

lemma number_less:
  assumes "set s \<subseteq> set (take (nat r) zm)" "1 < r" "r \<le> 36"
  shows "number r 0 s < r ^ length s"
  using assms(1)
proof (induction s)
  case Nil
  then show ?case by simp
next
  case (Cons c s)
  then obtain i where "i < nat r" "c = take (nat r) zm ! i" by (auto simp: in_set_conv_nth)
  then have "digit c = int i" "int i < r" using digit_zm [of i] assms(2,3) by simp_all
  then have "digit c + 1 \<le> r" by simp
  then have "(digit c + 1) * r ^ length s \<le> r * r ^ length s" using assms(2) by (intro mult_right_mono) simp_all
  then show ?case using Cons number_shift [of r "digit c" s] by (simp add: algebra_simps)
qed

lemma itos_loop_digits: "r \<le> 36 \<Longrightarrow> set (itos_loop n r aa) \<subseteq> set (take (nat r) zm) \<union> set aa"
proof (induction n r aa rule: itos_loop.induct)
  case (1 n r aa)
  show ?case
  proof (cases "0 < n \<and> 1 < r")
    case True
    have "length zm = 36" by (simp add: zm_def)
    moreover have "0 \<le> n mod r" "n mod r < r" using True by simp_all
    ultimately have i: "nat (n mod r) < length (take (nat r) zm)" using 1(2) by simp
    then have "zm ! nat (n mod r) \<in> set (take (nat r) zm)" using nth_mem [OF i] by simp
    then show ?thesis using 1(1) [OF True 1(2)] True by (subst itos_loop.simps) auto
  next
    case False
    then show ?thesis by (subst itos_loop.simps) auto
  qed
qed

lemma itos_exact:
  assumes "1 < r" "r \<le> 36"
  shows "itos v (k + 1) r = (if v < r ^ k then Some (itos_loop v r []) else None)"
    "number r 0 (itos_loop v r []) = max v 0"
proof -
  show n: "number r 0 (itos_loop v r []) = max v 0"
    using itos_loop_number [of v r "[]"] itos_loop_0 [of v r "[]"] assms by (cases "0 \<le> v") simp_all
  have "length (itos_loop v r []) \<le> k" if "v < r ^ k" using itos_loop_length [OF that assms(1), of "[]"] by simp
  moreover have "v < r ^ k" if "length (itos_loop v r []) \<le> k"
  proof -
    have "v \<le> number r 0 (itos_loop v r [])" using n by simp
    also have "\<dots> < r ^ length (itos_loop v r [])"
      using number_less [OF _ assms, of "itos_loop v r []"] itos_loop_digits [OF assms(2), of v "[]"] by simp
    also have "\<dots> \<le> r ^ k" using that assms(1) by (intro power_increasing) simp_all
    finally show ?thesis .
  qed
  ultimately show "itos v (k + 1) r = (if v < r ^ k then Some (itos_loop v r []) else None)"
    using assms by (auto simp: itos_def Let_def)
qed

lemma make_oid_exact:
  "make_oid p n = (if p < 16379 \<and> n < 10000
     then Some (itos_loop (p - 6379) 10 [] @ CHR ''_'' # itos_loop n 10 []) else None)"
proof -
  have "itos (p - 6379) (Port_Num + 1) 10 = (if p < 16379 then Some (itos_loop (p - 6379) 10 []) else None)"
    using itos_exact(1) [of 10 "p - 6379" 4] by (simp add: Port_Num_def)
  moreover have "itos n Max_Op_Num 10 = (if n < 10000 then Some (itos_loop n 10 []) else None)"
    using itos_exact(1) [of 10 n 4] by (simp add: Max_Op_Num_def)
  ultimately have none: "\<not> (p < 16379 \<and> n < 10000) \<Longrightarrow> make_oid p n = None"
    and some: "p < 16379 \<Longrightarrow> n < 10000 \<Longrightarrow> \<exists>s. make_oid p n = Some s"
    by (auto simp: make_oid_def split: if_splits)
  show ?thesis
  proof (cases "p < 16379 \<and> n < 10000")
    case True
    then obtain s where s: "make_oid p n = Some s" using some by blast
    from s have "s = itos_loop (p - 6379) 10 [] @ CHR ''_'' # itos_loop n 10 []" by (rule make_oid_eq) simp
    then show ?thesis using s True by simp
  qed (use none in auto)
qed

section \<open>Properties\<close>

text \<open>
  C37. The identifiers of operations. \<^verbatim>\<open>itos\<close> writes outside of its buffers exactly when the port is
  16379 or higher or the number of the operation 10000 or higher. Within these limits two identifiers are
  equal exactly when the ports and the numbers are, except that all ports up to 6379 look alike, and so do
  all numbers up to 0, since \<^verbatim>\<open>itos\<close> writes no digit for them.
\<close>

theorem identifiers_exact:
  "(make_oid p n = None \<longleftrightarrow> 16379 \<le> p \<or> 10000 \<le> n) \<and>
   (make_oid p n \<noteq> None \<and> make_oid q m \<noteq> None \<longrightarrow>
     (make_oid p n = make_oid q m \<longleftrightarrow> max p 6379 = max q 6379 \<and> max n 0 = max m 0))"
proof (intro conjI impI)
  show "make_oid p n = None \<longleftrightarrow> 16379 \<le> p \<or> 10000 \<le> n" by (auto simp: make_oid_exact)
  assume "make_oid p n \<noteq> None \<and> make_oid q m \<noteq> None"
  then have "make_oid p n = make_oid q m \<longleftrightarrow>
      itos_loop (p - 6379) 10 [] @ CHR ''_'' # itos_loop n 10 [] = itos_loop (q - 6379) 10 [] @ CHR ''_'' # itos_loop m 10 []"
    by (auto simp: make_oid_exact split: if_splits)
  also have "\<dots> \<longleftrightarrow> itos_loop (p - 6379) 10 [] = itos_loop (q - 6379) 10 [] \<and> itos_loop n 10 [] = itos_loop m 10 []"
  proof -
    have "CHR ''_'' \<notin> set (itos_loop v 10 [])" for v using itos_loop_set [of 10 v "[]"] zm_chars(1) by auto
    then show ?thesis by (intro append_Cons_eq_iff)
  qed
  also have "\<dots> \<longleftrightarrow> max p 6379 = max q 6379 \<and> max n 0 = max m 0"
  proof -
    have "itos_loop v 10 [] = itos_loop w 10 [] \<longleftrightarrow> max v 0 = max w 0" for v w
    proof
      assume "itos_loop v 10 [] = itos_loop w 10 []"
      then show "max v 0 = max w 0" using itos_exact(2) [of 10 v] itos_exact(2) [of 10 w] by simp
    next
      assume e: "max v 0 = max w 0"
      show "itos_loop v 10 [] = itos_loop w 10 []"
        using e itos_loop_0 [of v 10 "[]"] itos_loop_0 [of w 10 "[]"] by (cases "0 < v"; cases "0 < w") simp_all
    qed
    moreover have "max (p - 6379) 0 = max (q - 6379) 0 \<longleftrightarrow> max p 6379 = max q 6379" by (auto simp: max_def)
    ultimately show ?thesis by simp
  qed
  finally show "make_oid p n = make_oid q m \<longleftrightarrow> max p 6379 = max q 6379 \<and> max n 0 = max m 0" .
qed

theorem identifiers_exact_witness:
  "make_oid 6380 12 \<noteq> make_oid 6381 12 \<and> make_oid 6379 12 = make_oid 0 12 \<and> make_oid 6380 10000 = None"
  using identifiers_exact [of 6380 12 6381 12] identifiers_exact [of 6379 12 0 12] identifiers_exact [of 6380 10000 0 0]
    identifiers_exact [of 6381 12 0 0] identifiers_exact [of 0 12 0 0]
  by simp

end
