(* ===== verification/Control.thy ===== *)
theory Control
  imports Commands
begin

text \<open>
  \<^verbatim>\<open>controlAlg\<close> of \<^verbatim>\<open>src/ufs.c\<close>, the replication algorithm of \<^verbatim>\<open>union\<close> and \<^verbatim>\<open>split\<close>: a
  client executes its own operation at once and passes it on with an identifier and a context, the
  server transforms it against the operations of the other clients and passes it on to them, and a
  client transforms an operation of the server against its own.
\<close>

section \<open>Rewriting the command that is propagated\<close>

text \<open>A gap between the old arguments and the new one would be uninitialised.\<close>

definition rewriteClientCommandArgument :: "client \<Rightarrow> nat \<Rightarrow> string \<Rightarrow> client option" where
  "rewriteClientCommandArgument c i newval =
     (if i < length (argv c) then Some (c\<lparr>argv := (argv c)[i := newval]\<rparr>)
      else if i = length (argv c) then Some (c\<lparr>argv := argv c @ [newval]\<rparr>)
      else None)"

text \<open>\<^verbatim>\<open>union x y oid ctx key\<close> and \<^verbatim>\<open>split x oid ctx key\<close> of a local operation.\<close>

definition local_rewrite :: "client \<Rightarrow> string \<Rightarrow> string \<Rightarrow> client option" where
  "local_rewrite c i oids =
     (if length (argv c) = 4 then do {
        k \<leftarrow> arg c 3;
        c1 \<leftarrow> rewriteClientCommandArgument c 3 (cstr i);
        c2 \<leftarrow> rewriteClientCommandArgument c1 4 oids;
        rewriteClientCommandArgument c2 5 k
      }
      else do {
        k \<leftarrow> arg c 2;
        c1 \<leftarrow> rewriteClientCommandArgument c 2 (cstr i);
        c2 \<leftarrow> rewriteClientCommandArgument c1 3 oids;
        rewriteClientCommandArgument c2 4 k
      })"

section \<open>Local processing\<close>

definition put_cspace :: "server \<Rightarrow> nat \<Rightarrow> space \<Rightarrow> server option" where
  "put_cspace sv i vs = do {
     l \<leftarrow> cspacelist sv;
     if i < length l then Some (sv\<lparr>cspacelist := Some (l[i := (l ! i)\<lparr>cvertices := vs\<rparr>])\<rparr>) else None
   }"

definition local_edge :: "client \<Rightarrow> string \<Rightarrow> nat \<Rightarrow> dedge option" where
  "local_edge c i v = do {
     cmd \<leftarrow> arg c 0;
     a1 \<leftarrow> arg c 1;
     if streq cmd UNION then do { a2 \<leftarrow> arg c 2; Some (createOpEdge OPTYPE_UNION (Some a1) (Some a2) i v) }
     else Some (createOpEdge OPTYPE_SPLIT (Some a1) None i v)
   }"

definition local_exec :: "server \<Rightarrow> client \<Rightarrow> (server \<times> client) option" where
  "local_exec sv c = do {
     cmd \<leftarrow> arg c 0;
     a1 \<leftarrow> arg c 1;
     if streq cmd UNION then do { a2 \<leftarrow> arg c 2; exec_union sv c a1 a2 }
     else if streq cmd SPLIT then exec_split sv c a1
     else Some (sv, c)
   }"

definition local_op :: "server \<Rightarrow> client \<Rightarrow> (server \<times> client) option" where
  "local_op sv c = do {
     spaces \<leftarrow> cspacelist sv;
     k \<leftarrow> last_arg c;
     ci \<leftarrow> locateCVerlist spaces k;
     vs \<leftarrow> getCverlistVertices spaces (Some ci);
     r \<leftarrow> checkArgv sv c;
     case r of
       Inl e \<Rightarrow> Some (sv, reject c e)
     | Inr _ \<Rightarrow> do {
         let sv1 = sv\<lparr>op_num := op_num sv + 1\<rparr>;
         loc \<leftarrow> locateVertice vs None;
         v \<leftarrow> loc;
         oids \<leftarrow> calculateOids vs 0 (sdscat sdsempty INIT);
         i \<leftarrow> make_oid (port sv1) (op_num sv1);
         e \<leftarrow> local_edge c i (length vs);
         vs1 \<leftarrow> set_ledge (vs @ [createVertice]) v e;
         c1 \<leftarrow> local_rewrite c i oids;
         (sv2, c2) \<leftarrow> local_exec sv1 c1;
         g \<leftarrow> graph_of sv2 k;
         t \<leftarrow> updateVerticeUfs g;
         vs2 \<leftarrow> set_content vs1 (length vs) t;
         sv3 \<leftarrow> put_cspace sv2 ci vs2;
         Some (sv3, c2)
       }
   }"

section \<open>Remote processing\<close>

record message =
  m_oid :: string
  m_ctx :: string
  m_a1 :: string
  m_a2 :: "string option"

text \<open>The fields of a propagated command; a command with six arguments is taken as a union.\<close>

definition message_of :: "client \<Rightarrow> message option" where
  "message_of c =
     (if length (argv c) = 6 then do {
        ctx \<leftarrow> arg c 4; i \<leftarrow> arg c 3; a1 \<leftarrow> arg c 1; a2 \<leftarrow> arg c 2;
        Some \<lparr>m_oid = i, m_ctx = ctx, m_a1 = a1, m_a2 = Some a2\<rparr>
      }
      else do {
        ctx \<leftarrow> arg c 3; i \<leftarrow> arg c 2; a1 \<leftarrow> arg c 1;
        Some \<lparr>m_oid = i, m_ctx = ctx, m_a1 = a1, m_a2 = None\<rparr>
      })"

definition remote_insert :: "int \<Rightarrow> space \<Rightarrow> nat \<Rightarrow> client \<Rightarrow> message \<Rightarrow> space option" where
  "remote_insert len_ufs vs u c m = do {
     cmd \<leftarrow> arg c 0;
     a1 \<leftarrow> arg c 1;
     if streq cmd UNION then do {
       vs1 \<leftarrow> set_redge (vs @ [createVertice]) u (createOpEdge OPTYPE_UNION (Some (m_a1 m)) (m_a2 m) (m_oid m) (length vs));
       t \<leftarrow> get_content vs1 u;
       a2 \<leftarrow> arg c 2;
       w \<leftarrow> updateVerticeUfsFromState t OPTYPE_UNION a1 a2 len_ufs;
       set_content vs1 (length vs) w
     }
     else do {
       vs1 \<leftarrow> set_redge (vs @ [createVertice]) u (createOpEdge OPTYPE_SPLIT (Some (m_a1 m)) None (m_oid m) (length vs));
       t \<leftarrow> get_content vs1 u;
       w \<leftarrow> updateVerticeUfsFromState t OPTYPE_SPLIT a1 [] len_ufs;
       set_content vs1 (length vs) w
     }
   }"

definition exec_edge :: "server \<Rightarrow> client \<Rightarrow> dedge \<Rightarrow> (server \<times> client) option" where
  "exec_edge sv c e =
     (if optype e = OPTYPE_UNION then do { a1 \<leftarrow> argv1 e; a2 \<leftarrow> argv2 e; exec_union sv c a1 a2 }
      else do { a1 \<leftarrow> argv1 e; exec_split sv c a1 })"

definition remote_op :: "server \<Rightarrow> client \<Rightarrow> (server \<times> client) option" where
  "remote_op sv c = do {
     spaces \<leftarrow> cspacelist sv;
     k \<leftarrow> last_arg c;
     ci \<leftarrow> locateCVerlist spaces k;
     vs \<leftarrow> getCverlistVertices spaces (Some ci);
     m \<leftarrow> message_of c;
     loc \<leftarrow> locateVertice vs (Some (m_ctx m));
     u \<leftarrow> loc;
     let len_ufs = clen_ufs (spaces ! ci);
     vs1 \<leftarrow> remote_insert len_ufs vs u c m;
     (vs2, u', p') \<leftarrow> client_loop len_ufs vs1 u (length vs);
     e \<leftarrow> get_redge vs2 u';
     sv1 \<leftarrow> put_cspace sv ci vs2;
     exec_edge sv1 c e
   }"

section \<open>Processing at the server\<close>

definition server_insert :: "int \<Rightarrow> space \<Rightarrow> nat \<Rightarrow> client \<Rightarrow> message \<Rightarrow> space option" where
  "server_insert len_ufs vs u c m = do {
     cmd \<leftarrow> arg c 0;
     let e = createOpEdge (if streq cmd UNION then OPTYPE_UNION else OPTYPE_SPLIT) (Some (m_a1 m)) (m_a2 m) (m_oid m) (length vs);
     vs1 \<leftarrow> set_ledge (vs @ [createVertice]) u e;
     t \<leftarrow> get_content vs1 u;
     w \<leftarrow> update_edge t e len_ufs;
     set_content vs1 (length vs) w
   }"

text \<open>The transformed operation is added to the spaces of the other clients of the structure.\<close>

definition forward_to :: "dedge \<Rightarrow> int \<Rightarrow> space \<Rightarrow> space option" where
  "forward_to e len_ufs vs = do {
     loc \<leftarrow> locateVertice vs None;
     q \<leftarrow> loc;
     vs1 \<leftarrow> set_redge (vs @ [createVertice]) q (createOpEdge (optype e) (argv1 e) (argv2 e) (oid e) (length vs));
     t \<leftarrow> get_content vs1 q;
     w \<leftarrow> update_edge t e len_ufs;
     set_content vs1 (length vs) w
   }"

fun forward :: "verlist list \<Rightarrow> string \<Rightarrow> int \<Rightarrow> dedge \<Rightarrow> int \<Rightarrow> verlist list option" where
  "forward [] k p e len_ufs = Some []"
| "forward (s # ss) k p e len_ufs = do {
     s' \<leftarrow> (if \<not> streq (skey s) k \<or> sid s = p then Some s
            else do { vs \<leftarrow> forward_to e len_ufs (svertices s); Some (s\<lparr>svertices := vs\<rparr>) });
     ss' \<leftarrow> forward ss k p e len_ufs;
     Some (s' # ss')
   }"

text \<open>
  The rewritten command. For a union that the transformation has made of a split, the code writes
  past the end of a local array; the transformation in use never does that.
\<close>

definition server_rewrite :: "client \<Rightarrow> dedge \<Rightarrow> string \<Rightarrow> client option" where
  "server_rewrite c e oids =
     (if optype e = OPTYPE_UNION then
        if length (argv c) = 6 then do {
          a1 \<leftarrow> argv1 e;
          a2 \<leftarrow> argv2 e;
          c1 \<leftarrow> rewriteClientCommandArgument c 1 (cstr a1);
          c2 \<leftarrow> rewriteClientCommandArgument c1 2 (cstr a2);
          rewriteClientCommandArgument c2 4 oids
        }
        else None
      else do {
        a1 \<leftarrow> argv1 e;
        c1 \<leftarrow> rewriteClientCommandArgument c 1 (cstr a1);
        rewriteClientCommandArgument c1 3 oids
      })"

definition server_op :: "server \<Rightarrow> client \<Rightarrow> (server \<times> client) option" where
  "server_op sv c = do {
     m \<leftarrow> message_of c;
     spaces \<leftarrow> sspacelist sv;
     k \<leftarrow> last_arg c;
     si \<leftarrow> locateVerlist spaces (slave_listening_port c) k;
     let vs = svertices (spaces ! si);
     loc \<leftarrow> locateVertice vs (Some (m_ctx m));
     u \<leftarrow> loc;
     let len_ufs = slen_ufs (spaces ! si);
     vs1 \<leftarrow> server_insert len_ufs vs u c m;
     (vs2, u', p', oids) \<leftarrow> server_loop len_ufs vs1 u (length vs) (sdsnew (m_ctx m));
     e \<leftarrow> get_ledge vs2 u';
     spaces' \<leftarrow> forward (spaces[si := (spaces ! si)\<lparr>svertices := vs2\<rparr>]) k (slave_listening_port c) e len_ufs;
     c1 \<leftarrow> server_rewrite (c\<lparr>flag_ufs := 1\<rparr>) e oids;
     Some (sv\<lparr>sspacelist := Some spaces'\<rparr>, c1)
   }"

section \<open>The algorithm\<close>

definition controlAlg :: "server \<Rightarrow> client \<Rightarrow> (server \<times> client) option" where
  "controlAlg sv c =
     (if masterhost sv then (if \<not> from_master c then local_op sv c else remote_op sv c)
      else server_op sv c)"

definition unionCommand :: "server \<Rightarrow> client \<Rightarrow> (server \<times> client) option" where
  "unionCommand sv c = controlAlg sv c"

definition splitCommand :: "server \<Rightarrow> client \<Rightarrow> (server \<times> client) option" where
  "splitCommand sv c = controlAlg sv c"

end
