(* ===== verification/Control_Client.thy ===== *)
theory Control_Client
  imports Control
begin

text \<open>
  The replica of a client under \<^verbatim>\<open>controlAlg\<close>: the graph and the last vertex of the state space
  stand for the same classes, and local and remote operations keep it that way.
\<close>

section \<open>The length of a content\<close>

lemma length_join_Suc: "ws \<noteq> [] \<Longrightarrow> Suc (length (join c ws)) = sum_list (map (\<lambda>w. Suc (length w)) ws)"
  by (induction c ws rule: join.induct) auto

lemma length_show_elems:
  assumes "state_ok cs"
  shows "Suc (length (show_state cs)) = (\<Sum>x \<in> elems cs. Suc (length x))"
proof -
  have ne: "\<forall>c \<in> set cs. c \<noteq> []" using assms by (auto simp: state_ok_def nms_def)
  have "length (show_state cs) + 1 = sum_list (map (\<lambda>c. length (join COMMA c)) cs) + length cs"
    using assms by (intro length_show) (auto simp: state_ok_def)
  also have "\<dots> = sum_list (map (\<lambda>c. Suc (length (join COMMA c))) cs)" by (simp add: sum_list_Suc)
  also have "\<dots> = sum_list (map (\<lambda>c. sum_list (map (\<lambda>w. Suc (length w)) c)) cs)"
    using ne length_join_Suc by (intro arg_cong [of _ _ sum_list] map_cong) auto
  also have "\<dots> = sum_list (map (\<lambda>w. Suc (length w)) (concat cs))"
    by (induction cs) auto
  also have "\<dots> = (\<Sum>x \<in> elems cs. Suc (length x))"
    using assms unfolding elems_def state_ok_def by (simp add: sum_list_distinct_conv_sum_set)
  finally show ?thesis by simp
qed

text \<open>Texts of the same elements have the same length, so one length serves all contents of a space.\<close>

lemma text_length:
  assumes "text_ok u" "text_ok v" "\<And>x. (x, x) \<in> text_rel u \<longleftrightarrow> (x, x) \<in> text_rel v"
  shows "length u = length v"
proof -
  obtain cs where cs: "u = show_state cs" "state_ok cs" "text_rel u = part_rel cs" by (rule text_cases [OF assms(1)])
  obtain ds where ds: "v = show_state ds" "state_ok ds" "text_rel v = part_rel ds" by (rule text_cases [OF assms(2)])
  have e: "x \<in> elems es \<longleftrightarrow> (x, x) \<in> part_rel es" for x es by (auto simp: elems_def part_rel_iff)
  have "elems cs = elems ds" using assms(3) cs(3) ds(3) e by auto
  then show ?thesis using length_show_elems [OF cs(2)] length_show_elems [OF ds(2)] cs(1) ds(1) by simp
qed

section \<open>The replica of a client\<close>

text \<open>
  A client that holds a structure: the graph with its invariant, the space of the structure, and the
  classes of the graph are those of the last vertex of the space.
\<close>

definition graph_fine :: "cudGraph \<Rightarrow> bool" where
  "graph_fine g \<longleftrightarrow> ufs_ok g \<and> names_ok g \<and> star \<notin> names g \<and> 2 \<le> length (dlist g)"

definition at_state :: "nat \<Rightarrow> (string \<times> string) set \<Rightarrow> space \<Rightarrow> bool" where
  "at_state n R vs \<longleftrightarrow> space_ok n vs \<and> oids_ok vs \<and> (\<exists>w. locateLVertice vs 0 = Some w \<and> st vs w = R)"

definition in_step :: "nat \<Rightarrow> cudGraph \<Rightarrow> space \<Rightarrow> bool" where
  "in_step n g vs \<longleftrightarrow> graph_fine g \<and> at_state n (ufs_rel g) vs"

definition client_space :: "server \<Rightarrow> string \<Rightarrow> nat \<Rightarrow> cverlist \<Rightarrow> bool" where
  "client_space sv k ci s \<longleftrightarrow> (\<exists>l. cspacelist sv = Some l \<and> locateCVerlist l k = Some ci \<and> l ! ci = s)"

definition replica :: "nat \<Rightarrow> string \<Rightarrow> cudGraph \<Rightarrow> space \<Rightarrow> server \<Rightarrow> bool" where
  "replica n k g vs sv \<longleftrightarrow> graph_of sv k = Some g \<and> nul_free k \<and>
     (\<exists>ci s. client_space sv k ci s \<and> clen_ufs s = int n \<and> cvertices s = vs) \<and> in_step n g vs"

lemma graph_fine_frame: "graph_fine g \<Longrightarrow> ufs_ok g' \<Longrightarrow> frame g g' \<Longrightarrow> graph_fine g'"
  by (simp add: graph_fine_def names_ok_def frame_names frame_length)

lemma state_printed:
  assumes g: "graph_fine g" and u: "text_of n u"
    and refls: "\<And>x. (x, x) \<in> text_rel u \<longleftrightarrow> (x, x) \<in> ufs_rel g"
  obtains t where "updateVerticeUfs g = Some t" "text_of n t" "text_rel t = ufs_rel g"
proof -
  obtain t where t: "updateVerticeUfs g = Some t" "text_ok t" "text_rel t = ufs_rel g"
    using updateVerticeUfs_ok g unfolding graph_fine_def by metis
  have "(star, star) \<notin> ufs_rel g"
    using g equiv_dom [OF equiv_ufs_rel] unfolding graph_fine_def by blast
  moreover have "length t = length u"
    using t u refls by (intro text_length) (auto simp: text_of_def ufs_text_def)
  ultimately have "text_of n t" using t u by (simp add: text_of_def ufs_text_def)
  then show thesis using that t by blast
qed

lemma refl_op_apply:
  assumes "equiv U R"
  shows "(x, x) \<in> op_apply e R \<longleftrightarrow> (x, x) \<in> R"
  using equiv_refl [OF assms] equiv_dom [OF assms]
    equiv_refl [OF equiv_aapply [OF assms]] equiv_dom [OF equiv_aapply [OF assms]]
  unfolding op_apply_def by blast

section \<open>Executing an operation\<close>

lemma graph_ofE:
  assumes "graph_of sv k = Some g"
  obtains l i where "ufslist sv = Some l" "getUfs sv k = Some i" "i < length l" "l ! i = g" "streq (key g) k"
    "first_index (\<lambda>g. streq (key g) k) l = Some i"
  using assms by (auto simp: graph_of_def getUfs_def bind_eq_Some_conv first_index_Some)

lemma set_graph_ok:
  assumes "graph_of sv k = Some g" "key g' = key g"
  obtains l where "set_graph sv k g' = Some (sv\<lparr>ufslist := Some l\<rparr>)" "graph_of (sv\<lparr>ufslist := Some l\<rparr>) k = Some g'"
proof -
  obtain l i where l: "ufslist sv = Some l" "getUfs sv k = Some i" "i < length l" "l ! i = g" "streq (key g) k"
      "first_index (\<lambda>g. streq (key g) k) l = Some i"
    by (rule graph_ofE [OF assms(1)])
  have "first_index (\<lambda>g. streq (key g) k) (l[i := g']) = Some i"
    using l(3,5,6) assms(2) by (simp add: first_index_Some)
  then show thesis using that [of "l[i := g']"] l(1-3) by (simp add: set_graph_def graph_of_def getUfs_def)
qed

lemma confirm_simps [simp]:
  "argv (confirm c) = argv c" "flag_ufs (confirm c) = 1" "replies (confirm c) = replies c @ [Ok_reply]"
  "from_master (confirm c) = from_master c" "slave_listening_port (confirm c) = slave_listening_port c"
  by (simp_all add: confirm_def addReply_def)

lemma valid_union_op:
  assumes "targ R a" "targ R b"
  shows "avalid R (union_op a b)"
  using assms targ_within by (auto simp: union_op_def)

lemma exec_edge_ok:
  assumes g: "graph_of sv k = Some g" "graph_fine g" and c: "last_arg c = Some k" and e: "op_ok (ufs_rel g) e"
  obtains l g' where "exec_edge sv c e = Some (sv\<lparr>ufslist := l\<rparr>, confirm c)" "graph_of (sv\<lparr>ufslist := l\<rparr>) k = Some g'"
    "graph_fine g'" "ufs_rel g' = op_apply e (ufs_rel g)"
proof -
  have ok: "ufs_ok g" using g(2) by (simp add: graph_fine_def)
  note E = equiv_ufs_rel [OF ok]
  have keep: "sv\<lparr>ufslist := ufslist sv\<rparr> = sv" by simp
  from e show thesis
  proof (cases rule: op_cases)
    case (union a b)
    have nf: "nul_free a" "nul_free b" "nul_free star" using union(4,5) by simp_all
    have r: "refines g (unionProc g a b) (aapply (union_op a b) (ufs_rel g))"
      by (rule unionProc_refines [OF ok nf(1,2) valid_union_op [OF union(4,5)]])
    show thesis
    proof (cases "a = star \<or> b = star")
      case True
      then have "exec_edge sv c e = Some (sv, confirm c)"
        using union(1-3) c by (auto simp: exec_edge_def exec_union_def streq_iff nf)
      moreover have "op_apply e (ufs_rel g) = ufs_rel g" using True union(6) by (auto simp: union_op_def)
      ultimately show thesis using that [of "ufslist sv" g] g keep by simp
    next
      case False
      obtain g' where g': "unionProc g a b = Some g'" "ufs_ok g'" "frame g g'" "ufs_rel g' = op_apply e (ufs_rel g)"
        using r union(6) by (auto simp: refines_def)
      obtain l where l: "set_graph sv k g' = Some (sv\<lparr>ufslist := Some l\<rparr>)" "graph_of (sv\<lparr>ufslist := Some l\<rparr>) k = Some g'"
        using g'(3) by (auto simp: frame_def intro: set_graph_ok [OF g(1)])
      have "exec_edge sv c e = Some (sv\<lparr>ufslist := Some l\<rparr>, confirm c)"
        using union(1-3) c g(1) g'(1) l(1) False by (simp add: exec_edge_def exec_union_def streq_iff nf)
      then show thesis using that l(2) graph_fine_frame [OF g(2) g'(2,3)] g'(4) by blast
    qed
  next
    case (split s)
    have s: "nm s" "s \<in> names g" "nul_free s" "nul_free star" "COMMA \<notin> set s"
      using split(3) equiv_dom [OF E] by (auto simp: sarg_def)
    then have ns: "s \<noteq> star" using g(2) by (auto simp: graph_fine_def)
    have "refines g (splitProc g s) (aapply (split_op s) (ufs_rel g))"
      using s by (intro splitProc_refines [OF ok s(3)]) simp
    then obtain g' where g': "splitProc g s = Some g'" "ufs_ok g'" "frame g g'" "ufs_rel g' = op_apply e (ufs_rel g)"
      using split(4) by (auto simp: refines_def)
    obtain l where l: "set_graph sv k g' = Some (sv\<lparr>ufslist := Some l\<rparr>)" "graph_of (sv\<lparr>ufslist := Some l\<rparr>) k = Some g'"
      using g'(3) by (auto simp: frame_def intro: set_graph_ok [OF g(1)])
    have "exec_edge sv c e = Some (sv\<lparr>ufslist := Some l\<rparr>, confirm c)"
      using split(1,2) c g(1) g'(1) l(1) ns s by (simp add: exec_edge_def exec_split_def streq_iff)
    then show thesis using that l(2) graph_fine_frame [OF g(2) g'(2,3)] g'(4) by blast
  qed
qed

section \<open>Local operations\<close>

lemma oids_ok_insert:
  assumes "oids_ok vs" "all_oids vs' \<subseteq> insert i (all_oids vs)" "i \<noteq> []" "nul_free i" "COMMA \<notin> set i"
  shows "oids_ok vs'"
  unfolding oids_ok_iff
proof
  fix j assume "j \<in> all_oids vs'"
  then have "j = i \<or> j \<in> all_oids vs" using assms(2) by auto
  then show "j \<noteq> [] \<and> nul_free j \<and> COMMA \<notin> set j" using assms(1,3-5) unfolding oids_ok_iff by auto
qed

text \<open>The last vertex of a space.\<close>

lemma at_stateE:
  assumes "at_state n R vs" "locateLVertice vs 0 = Some w"
  obtains os where "space_ok n vs" "oids_ok vs" "main_path vs 0 os w" "w < length vs" "ledge (vs ! w) = None"
    "redge (vs ! w) = None" "st vs w = R"
proof -
  have ok: "space_ok n vs" "oids_ok vs" "st vs w = R" using assms by (auto simp: at_state_def)
  then have "0 < length vs" by (simp add: space_ok_def)
  then obtain os w' where m: "main_path vs 0 os w'" using main_path_exists [OF ok(1)] by blast
  then have "w' = w" using locateL_main [OF m] assms(2) by simp
  then show thesis using that [of os] ok m main_path_ends [OF m] by simp
qed

text \<open>A new edge at the last vertex, of either kind.\<close>

lemma at_state_extend:
  assumes a: "at_state n R vs" and w: "locateLVertice vs 0 = Some w"
    and e: "op_ok R e" "adjv e = length vs" "oid e \<noteq> []" "nul_free (oid e)" "COMMA \<notin> set (oid e)"
    and t: "text_of n t" "text_rel t = op_apply e R"
  shows "at_state n (op_apply e R) (put_ledge w e (vs @ [new_vertice t]))"
    "at_state n (op_apply e R) (put_redge w e (vs @ [new_vertice t]))"
proof -
  obtain os where ok: "space_ok n vs" "oids_ok vs" "main_path vs 0 os w" "w < length vs" "ledge (vs ! w) = None"
      "redge (vs ! w) = None" "st vs w = R" by (rule at_stateE [OF a w])
  let ?vs = "vs @ [new_vertice t]" and ?l = "put_ledge w e (vs @ [new_vertice t])"
    and ?r = "put_redge w e (vs @ [new_vertice t])"
  have "edge_ok ?vs w e" using ok(4,7) e(1,2) t(2) by (simp add: edge_ok_def)
  then have s: "space_ok n ?l" "space_ok n ?r"
    using ok(4) space_ok_put [OF space_ok_new [OF ok(1) t(1)], of w e] by simp_all
  have o: "oids_ok ?l" "oids_ok ?r"
    using oids_ok_insert [OF ok(2) _ e(3-5)] all_oids_put [of w e ?vs] by simp_all
  have "main_path ?l 0 (os @ [oid e]) (adjv e)"
    using ok(4-6) e(2) by (intro main_path_extend [OF ok(3)])
      (auto simp: main_edge_def nth_append new_vertice_def split: option.splits)
  moreover have "main_path ?r 0 (os @ [oid e]) (adjv e)"
    using ok(4-6) e(2) by (intro main_path_extend [OF ok(3)])
      (auto simp: main_edge_def nth_append new_vertice_def split: option.splits)
  ultimately have "locateLVertice ?l 0 = Some (length vs)" "locateLVertice ?r 0 = Some (length vs)"
    using locateL_main e(2) by metis+
  then show "at_state n (op_apply e R) ?l" "at_state n (op_apply e R) ?r"
    using s o t(2) by (simp_all add: at_state_def)
qed

lemma in_step_local:
  assumes step: "in_step n g vs" and w: "locateLVertice vs 0 = Some w"
    and e: "op_ok (ufs_rel g) e" "adjv e = length vs" "oid e \<noteq> []" "nul_free (oid e)" "COMMA \<notin> set (oid e)"
    and g': "graph_fine g'" "ufs_rel g' = op_apply e (ufs_rel g)"
  obtains t where "updateVerticeUfs g' = Some t" "in_step n g' (put_ledge w e (vs @ [new_vertice t]))" "w < length vs"
    "text_rel t = ufs_rel g'"
proof -
  have a: "at_state n (ufs_rel g) vs" "graph_fine g" using step by (simp_all add: in_step_def)
  obtain os where ok: "space_ok n vs" "main_path vs 0 os w" "w < length vs" "st vs w = ufs_rel g"
    by (rule at_stateE [OF a(1) w])
  obtain u where u: "text_of n u" "st vs w = text_rel u" using space_content [OF ok(1,3)] by metis
  have E: "equiv (names g) (ufs_rel g)" using a(2) by (simp add: graph_fine_def equiv_ufs_rel)
  have refls: "(x, x) \<in> text_rel u \<longleftrightarrow> (x, x) \<in> ufs_rel g'" for x
    using refl_op_apply [OF E, of x e] g'(2) u(2) ok(4) by simp
  obtain t where t: "updateVerticeUfs g' = Some t" "text_of n t" "text_rel t = ufs_rel g'"
    by (rule state_printed [OF g'(1) u(1) refls])
  have "text_rel t = op_apply e (ufs_rel g)" using t(3) g'(2) by simp
  then have "in_step n g' (put_ledge w e (vs @ [new_vertice t]))"
    using at_state_extend(1) [OF a(1) w e t(2)] g' by (simp add: in_step_def)
  then show thesis using that t(1,3) ok(3) by blast
qed

lemma put_cspace_ok:
  assumes "client_space sv k ci s"
  obtains l where "put_cspace sv ci vs = Some (sv\<lparr>cspacelist := Some l\<rparr>)"
    "client_space (sv\<lparr>cspacelist := Some l\<rparr>) k ci (s\<lparr>cvertices := vs\<rparr>)"
proof -
  obtain l where l: "cspacelist sv = Some l" "locateCVerlist l k = Some ci" "l ! ci = s"
    using assms by (auto simp: client_space_def)
  then have f: "ci < length l" "sdscmp (ckey s) k = 0" "\<forall>j < ci. sdscmp (ckey (l ! j)) k \<noteq> 0"
    by (auto simp: locateCVerlist_def first_index_Some)
  then have "locateCVerlist (l[ci := s\<lparr>cvertices := vs\<rparr>]) k = Some ci"
    by (simp add: locateCVerlist_def first_index_Some)
  then show thesis
    using that [of "l[ci := s\<lparr>cvertices := vs\<rparr>]"] l f(1) by (simp add: put_cspace_def client_space_def)
qed

lemma graph_of_upd [simp]:
  "graph_of (sv\<lparr>cspacelist := x\<rparr>) k = graph_of sv k" "graph_of (sv\<lparr>op_num := y\<rparr>) k = graph_of sv k"
  "graph_of (sv\<lparr>cspacelist := x, ufslist := z\<rparr>) k = graph_of (sv\<lparr>ufslist := z\<rparr>) k"
  "graph_of (sv\<lparr>op_num := y, ufslist := z\<rparr>) k = graph_of (sv\<lparr>ufslist := z\<rparr>) k"
  by (simp_all add: graph_of_def getUfs_def)

lemma client_space_upd [simp]:
  "client_space (sv\<lparr>ufslist := x\<rparr>) k ci s = client_space sv k ci s"
  "client_space (sv\<lparr>op_num := y\<rparr>) k ci s = client_space sv k ci s"
  by (simp_all add: client_space_def)

text \<open>The command that a local operation leaves to be propagated.\<close>

definition local_command :: "client \<Rightarrow> string \<Rightarrow> string \<Rightarrow> string \<Rightarrow> string list" where
  "local_command c k i ctx = butlast (argv c) @ [i, ctx, k]"

definition is_command :: "client \<Rightarrow> string \<Rightarrow> bool" where
  "is_command c k \<longleftrightarrow> (\<exists>a b. argv c = [UNION, a, b, k]) \<or> (\<exists>a. argv c = [SPLIT, a, k])"

lemma local_rewrite_ok:
  assumes "is_command c k" "nul_free i"
  shows "local_rewrite c i ctx = Some (c\<lparr>argv := local_command c k i ctx\<rparr>)"
  using assms
  by (auto simp: is_command_def local_rewrite_def arg_def rewriteClientCommandArgument_def local_command_def)

lemma cmd_names: "streq UNION UNION" "streq SPLIT SPLIT" "\<not> streq SPLIT UNION"
  by (simp_all add: streq_def UNION_def SPLIT_def cstr_def)

lemma local_exec_edge:
  assumes "is_command c k" "local_edge c i v = Some e"
  shows "local_exec sv (c\<lparr>argv := local_command c k i' ctx\<rparr>) = exec_edge sv (c\<lparr>argv := local_command c k i' ctx\<rparr>) e"
  using assms
  by (auto simp: is_command_def local_edge_def local_exec_def exec_edge_def arg_def local_command_def createOpEdge_def
      cmd_names)

lemma local_edge_fields:
  assumes "is_command c k"
  obtains e where "local_edge c i v = Some e" "oid e = i" "adjv e = v"
  using assms that by (auto simp: is_command_def local_edge_def arg_def createOpEdge_def cmd_names)

lemma local_op_full:
  assumes r: "replica n k g vs sv" and p: "6379 < port sv" "port sv < 16379" "0 \<le> op_num sv" "op_num sv < 9999"
    and c: "is_command c k" and chk: "checkArgv sv c = accept"
    and e: "\<forall>i v. \<forall>e \<in> set_option (local_edge c i v). op_ok (ufs_rel g) e"
  shows "\<exists>sv' c' g' i ctx e t w. local_op sv c = Some (sv', c') \<and> replica n k g' (put_ledge w e (vs @ [new_vertice t])) sv' \<and>
    locateLVertice vs 0 = Some w \<and> text_rel t = ufs_rel g' \<and> masterhost sv' = masterhost sv \<and> port sv' = port sv \<and>
    make_oid (port sv) (op_num sv + 1) = Some i \<and> calculateOids vs 0 INIT = Some ctx \<and>
    local_edge c i (length vs) = Some e \<and> ufs_rel g' = op_apply e (ufs_rel g) \<and> op_num sv' = op_num sv + 1 \<and>
    argv c' = local_command c k i ctx \<and> replies c' = replies c @ [Ok_reply] \<and> flag_ufs c' = 1"
proof -
  obtain ci s where s: "client_space sv k ci s" "clen_ufs s = int n" "cvertices s = vs" and g: "graph_of sv k = Some g"
    and k: "nul_free k" and step: "in_step n g vs" using r by (auto simp: replica_def)
  obtain l where l: "cspacelist sv = Some l" "locateCVerlist l k = Some ci" "l ! ci = s"
    using s(1) by (auto simp: client_space_def)
  have ci: "ci < length l" using l(2) by (auto simp: locateCVerlist_def first_index_Some)
  obtain w where w: "locateLVertice vs 0 = Some w" using step by (auto simp: in_step_def at_state_def)
  have ok: "space_ok n vs" "oids_ok vs" "graph_fine g" using step by (auto simp: in_step_def at_state_def)
  then have ne: "vs \<noteq> []" by (simp add: space_ok_def)
  then obtain os w' where m: "main_path vs 0 os w'" using main_path_exists [OF ok(1), of 0] by auto
  note ctx = calculateOids_main [OF m ok(2), of INIT]
  have last: "last_arg c = Some k" using c by (auto simp: is_command_def last_arg_def)
  obtain i where i: "make_oid (port sv) (op_num sv + 1) = Some i" "i \<noteq> []" "nul_free i" "COMMA \<notin> set i"
    using make_oid_ok [of "port sv" "op_num sv + 1"] p by auto
  obtain e where le: "local_edge c i (length vs) = Some e" "oid e = i" "adjv e = length vs"
    by (rule local_edge_fields [OF c, of i "length vs"])
  have eo: "op_ok (ufs_rel g) e" using assms(8) le(1) by simp
  let ?sv1 = "sv\<lparr>op_num := op_num sv + 1\<rparr>" and ?c1 = "c\<lparr>argv := local_command c k i (context_text INIT os)\<rparr>"
  have last1: "last_arg ?c1 = Some k" by (simp add: last_arg_def local_command_def)
  obtain gl g' where ex: "exec_edge ?sv1 ?c1 e = Some (?sv1\<lparr>ufslist := gl\<rparr>, confirm ?c1)"
      "graph_of (?sv1\<lparr>ufslist := gl\<rparr>) k = Some g'" "graph_fine g'" "ufs_rel g' = op_apply e (ufs_rel g)"
    using exec_edge_ok [of ?sv1 k g ?c1 e] g ok(3) last1 eo by auto
  obtain t where t: "updateVerticeUfs g' = Some t" "in_step n g' (put_ledge w e (vs @ [new_vertice t]))" "w < length vs"
      "text_rel t = ufs_rel g'"
    using in_step_local [OF step w eo le(3) _ _ _ ex(3,4)] i(2-4) le(2) by blast
  let ?vs' = "put_ledge w e (vs @ [new_vertice t])" and ?sv2 = "?sv1\<lparr>ufslist := gl\<rparr>"
  have "client_space ?sv2 k ci s" using s(1) by simp
  then obtain l' where l': "put_cspace ?sv2 ci ?vs' = Some (?sv2\<lparr>cspacelist := Some l'\<rparr>)"
      "client_space (?sv2\<lparr>cspacelist := Some l'\<rparr>) k ci (s\<lparr>cvertices := ?vs'\<rparr>)"
    by (rule put_cspace_ok)
  have vs': "(put_ledge w e (vs @ [createVertice]))[length vs := (put_ledge w e (vs @ [createVertice]) ! length vs)\<lparr>content := Some t\<rparr>] = ?vs'"
    using t(3) by (simp add: put_ledge_def createVertice_def new_vertice_def nth_append list_update_append)
  have "local_op sv c = Some (?sv2\<lparr>cspacelist := Some l'\<rparr>, confirm ?c1)"
    unfolding local_op_def
    using l ci last s(3) chk w ne ctx i(1) le(1) t(1,3) local_rewrite_ok [OF c i(3)] local_exec_edge [OF c le(1)] ex(1,2) l'(1) vs'
    by (simp add: getCverlistVertices_def accept_def locateVertice_def sdsempty_def space_access)
  moreover have "replica n k g' ?vs' (?sv2\<lparr>cspacelist := Some l'\<rparr>)"
    using ex(2) k l'(2) s(2) t(2) unfolding replica_def by (auto intro!: exI [of _ ci])
  ultimately show ?thesis
    using i(1) ctx le(1) ex(4) w t(4)
    by (intro exI [of _ "?sv2\<lparr>cspacelist := Some l'\<rparr>"] exI [of _ "confirm ?c1"] exI [of _ g'] exI [of _ i] exI [of _ "context_text INIT os"]
        exI [of _ e] exI [of _ t] exI [of _ w]) simp
qed

lemma local_op_ok:
  assumes r: "replica n k g vs sv" and p: "6379 < port sv" "port sv < 16379" "0 \<le> op_num sv" "op_num sv < 9999"
    and c: "is_command c k" and chk: "checkArgv sv c = accept"
    and e: "\<forall>i v. \<forall>e \<in> set_option (local_edge c i v). op_ok (ufs_rel g) e"
  shows "\<exists>sv' c' g' vs' i ctx e. local_op sv c = Some (sv', c') \<and> replica n k g' vs' sv' \<and>
    make_oid (port sv) (op_num sv + 1) = Some i \<and> calculateOids vs 0 INIT = Some ctx \<and>
    local_edge c i (length vs) = Some e \<and> ufs_rel g' = op_apply e (ufs_rel g) \<and> op_num sv' = op_num sv + 1 \<and>
    argv c' = local_command c k i ctx \<and> replies c' = replies c @ [Ok_reply] \<and> flag_ufs c' = 1"
  using local_op_full [OF assms] by blast

section \<open>Remote operations\<close>

text \<open>An operation of the server and the vertex it belongs to: the local operations after this
  vertex lead to the last vertex.\<close>

definition concurrent :: "space \<Rightarrow> nat \<Rightarrow> bool" where
  "concurrent vs u \<longleftrightarrow> (\<exists>w es. locateLVertice vs 0 = Some w \<and> chain_path (get_ledge vs) u es w)"

lemma remote_loop_ok:
  assumes step: "in_step n g vs" and u: "u < length vs" "concurrent vs u"
    and e: "op_ok (st vs u) e" "adjv e = length vs" "oid e \<noteq> []" "nul_free (oid e)" "COMMA \<notin> set (oid e)"
    and t: "text_of n t" "text_rel t = op_apply e (st vs u)"
  obtains vs' w p' e' where
    "client_loop (int n) (put_redge u e (vs @ [new_vertice t])) u (length vs) = Some (vs', w, p')"
    "get_redge vs' w = Some e'" "oid e' = oid e" "op_ok (ufs_rel g) e'" "space_ok n vs'" "oids_ok vs'"
    "locateLVertice vs' 0 = Some p'" "st vs' p' = op_apply e' (ufs_rel g)"
    "\<And>os. main_path vs 0 os w \<Longrightarrow> main_path vs' 0 (os @ [oid e]) p'" "locateLVertice vs 0 = Some w"
proof -
  obtain w es where w: "locateLVertice vs 0 = Some w" "chain_path (get_ledge vs) u es w"
    using u(2) by (auto simp: concurrent_def)
  have "at_state n (ufs_rel g) vs" using step by (simp add: in_step_def)
  then obtain os where ok: "space_ok n vs" "oids_ok vs" "st vs w = ufs_rel g" and m: "main_path vs 0 os w"
    using at_stateE [OF _ w(1)] by metis
  note wl = main_path_ends [OF m]
  let ?N = "length vs" and ?vs1 = "put_redge u e (vs @ [new_vertice t])"

  have old: "content (?vs1 ! i) = content (vs ! i)" "ledge (?vs1 ! i) = ledge (vs ! i)"
    "i \<noteq> u \<Longrightarrow> redge (?vs1 ! i) = redge (vs ! i)" if "i < ?N" for i
    using that by (simp_all add: nth_append)
  obtain vs' p' where loop: "client_loop (int n) ?vs1 u ?N = Some (vs', w, p')"
    and int: "integrated n ?N ?vs1 w e vs' p'"
    using insert_integrates [OF ok(1) u(1) w(2) e(1,2) t] by blast
  then obtain e' where i: "space_ok n vs'" "?N \<le> p'" "p' < length vs'" "all_oids vs' \<subseteq> all_oids ?vs1"
      "redge (vs' ! w) = Some e'" "adjv e' = p'" "oid e' = oid e" "ledge (vs' ! p') = None" "redge (vs' ! p') = None"
    and keep: "\<And>j. j < ?N \<Longrightarrow> content (vs' ! j) = content (?vs1 ! j) \<and> ledge (vs' ! j) = ledge (?vs1 ! j) \<and>
        (j \<noteq> w \<and> ledge (?vs1 ! j) = None \<longrightarrow> redge (vs' ! j) = redge (?vs1 ! j))"
    unfolding integrated_def using tail_okD by blast
  have wN: "w < length vs'" using wl i(2,3) by simp
  have st: "st vs' w = ufs_rel g" using keep [of w] old(1) [of w] wl ok(3) by (simp add: st_def)
  note e' = space_edge(3,4) [OF i(1) wN disjI2 [OF i(5)]]
  have main: "main_edge vs' j = main_edge vs j" if j: "j < ?N" "main_edge vs j \<noteq> None" for j
  proof (cases "ledge (vs ! j)")
    case None
    have "j \<noteq> w" using j(2) wl by (auto simp: main_edge_def)
    moreover have "j \<noteq> u"
    proof
      assume "j = u"
      then have "get_ledge vs u = None" using None by (simp add: space_access)
      then have "w = u" using w(2) by (auto elim: chain_pathE)
      then show False using \<open>j = u\<close> \<open>j \<noteq> w\<close> by simp
    qed
    ultimately show ?thesis using keep [OF j(1)] old [OF j(1)] None by (simp add: main_edge_def)
  next
    case (Some d)
    then show ?thesis using keep [OF j(1)] old(2) [OF j(1)] by (simp add: main_edge_def)
  qed
  have "main_edge vs' w = Some e'" using keep [of w] old(2) [of w] wl i(5) by (simp add: main_edge_def)
  then have mp: "main_path vs' 0 (os @ [oid e]) p'" if "main_path vs 0 os w" for os
    using main_path_extend [OF that _ main, of e'] i(2,3,6-9) by (simp add: main_edge_def)
  have sub: "all_oids vs' \<subseteq> insert (oid e) (all_oids vs)"
    using i(4) all_oids_put(2) [of u e "vs @ [new_vertice t]"] by auto
  show thesis
  proof (rule that)
    show "client_loop (int n) ?vs1 u ?N = Some (vs', w, p')" by (rule loop)
    show "get_redge vs' w = Some e'" using i(5) wN by (simp add: space_access)
    show "op_ok (ufs_rel g) e'" "st vs' p' = op_apply e' (ufs_rel g)" using e' st i(6) by simp_all
    show "oids_ok vs'" by (rule oids_ok_insert [OF ok(2) sub e(3-5)])
    show "locateLVertice vs' 0 = Some p'" by (rule locateL_main [OF mp [OF m]])
  qed (use i mp w in auto)
qed

text \<open>The commands that are propagated, and the edge they become.\<close>

definition is_message :: "client \<Rightarrow> string \<Rightarrow> string \<Rightarrow> string \<Rightarrow> bool" where
  "is_message c i ctx k \<longleftrightarrow> (\<exists>a b. argv c = [UNION, a, b, i, ctx, k]) \<or> (\<exists>a. argv c = [SPLIT, a, i, ctx, k])"

definition message_edge :: "client \<Rightarrow> nat \<Rightarrow> dedge" where
  "message_edge c v =
     (if argv c ! 0 = UNION then createOpEdge OPTYPE_UNION (Some (argv c ! 1)) (Some (argv c ! 2)) (argv c ! 3) v
      else createOpEdge OPTYPE_SPLIT (Some (argv c ! 1)) None (argv c ! 2) v)"

lemma message_edge_fields:
  assumes "is_message c i ctx k"
  shows "oid (message_edge c v) = i" "adjv (message_edge c v) = v" "last_arg c = Some k"
    "op_ok R (message_edge c v) = op_ok R (message_edge c v')" "op_apply (message_edge c v) = op_apply (message_edge c v')"
  using assms
  by (auto simp: is_message_def message_edge_def createOpEdge_def UNION_def SPLIT_def last_arg_def op_ok_def
      op_apply_def op_den_def fun_eq_iff)

lemma insert_space:
  assumes "u < length vs"
  shows "(put_redge u e (vs @ [createVertice]))[length vs := (put_redge u e (vs @ [createVertice]) ! length vs)\<lparr>content := Some t\<rparr>] =
      put_redge u e (vs @ [new_vertice t])"
    "(put_ledge u e (vs @ [createVertice]))[length vs := (put_ledge u e (vs @ [createVertice]) ! length vs)\<lparr>content := Some t\<rparr>] =
      put_ledge u e (vs @ [new_vertice t])"
  using assms by (simp_all add: put_redge_def put_ledge_def createVertice_def new_vertice_def nth_append list_update_append)

lemma remote_insert_ok:
  assumes m: "is_message c i ctx k" "message_of c = Some m" and u: "u < length vs" "content (vs ! u) = Some cu"
    and t: "update_edge cu (message_edge c (length vs)) len = Some t"
  shows "remote_insert len vs u c m = Some (put_redge u (message_edge c (length vs)) (vs @ [new_vertice t]))"
  using m t u insert_space(1) [OF u(1)]
  by (auto simp: is_message_def message_of_def message_edge_def remote_insert_def arg_def space_access update_edge_def
      createOpEdge_def cmd_names nth_append) (simp_all add: UNION_def SPLIT_def)

lemma message_of_ok: "is_message c i ctx k \<Longrightarrow> \<exists>m. message_of c = Some m \<and> m_ctx m = ctx \<and> m_oid m = i"
  by (auto simp: is_message_def message_of_def arg_def)

lemma path_end: "path vs q os w \<Longrightarrow> w < length vs"
  by (induction rule: path.induct) auto

lemma remote_op_full:
  assumes r: "replica n k g vs sv" and m: "is_message c i ctx k" and i: "i \<noteq> []" "nul_free i" "COMMA \<notin> set i"
    and u: "locateVertice vs (Some ctx) = Some (Some u)" "concurrent vs u"
    and e: "op_ok (st vs u) (message_edge c 0)"
  shows "\<exists>sv' g' vs' (e :: dedge) os t w p'. remote_op sv c = Some (sv', confirm c) \<and> replica n k g' vs' sv' \<and>
    oid e = i \<and> op_ok (ufs_rel g) e \<and> ufs_rel g' = op_apply e (ufs_rel g) \<and>
    calculateOids vs 0 INIT = Some (context_text INIT os) \<and>
    calculateOids vs' 0 INIT = Some (context_text INIT (os @ [i])) \<and>
    masterhost sv' = masterhost sv \<and> port sv' = port sv \<and> op_num sv' = op_num sv \<and>
    text_of n t \<and> text_rel t = op_apply (message_edge c (length vs)) (st vs u) \<and>
    client_loop (int n) (put_redge u (message_edge c (length vs)) (vs @ [new_vertice t])) u (length vs) = Some (vs', w, p')"
proof -
  obtain ci s where s: "client_space sv k ci s" "clen_ufs s = int n" "cvertices s = vs" and g: "graph_of sv k = Some g"
    and k: "nul_free k" and step: "in_step n g vs" using r by (auto simp: replica_def)
  obtain l where l: "cspacelist sv = Some l" "locateCVerlist l k = Some ci" "l ! ci = s"
    using s(1) by (auto simp: client_space_def)
  have ci: "ci < length l" using l(2) by (auto simp: locateCVerlist_def first_index_Some)
  have ok: "space_ok n vs" "oids_ok vs" "graph_fine g" using step by (auto simp: in_step_def at_state_def)
  obtain mm where mm: "message_of c = Some mm" "m_ctx mm = ctx" using message_of_ok [OF m] by blast
  have "\<exists>os. path vs 0 os u"
    using locateR_sound [OF ok(1,2), of 0 "[]" ctx u] u(1)
    by (auto simp: locateVertice_def locateRVertice_def split: if_splits)
  then have ul: "u < length vs" using path_end by blast
  obtain cu where cu: "content (vs ! u) = Some cu" "text_of n cu" "st vs u = text_rel cu"
    by (rule space_content [OF ok(1) ul])
  let ?e = "message_edge c (length vs)"
  note ef = message_edge_fields [OF m]
  have eo: "op_ok (st vs u) ?e" using e ef(4) by blast
  then obtain t where t: "update_edge cu ?e (int n) = Some t" "text_of n t" "text_rel t = op_apply ?e (st vs u)"
    using ufs.upd_ok [OF cu(2), of ?e] cu(3) by auto
  have ins: "remote_insert (int n) vs u c mm = Some (put_redge u ?e (vs @ [new_vertice t]))"
    by (rule remote_insert_ok [OF m mm(1) ul cu(1) t(1)])
  obtain vs' w p' e' where lp: "client_loop (int n) (put_redge u ?e (vs @ [new_vertice t])) u (length vs) = Some (vs', w, p')"
      "get_redge vs' w = Some e'" "oid e' = i" "op_ok (ufs_rel g) e'" "space_ok n vs'" "oids_ok vs'"
      "locateLVertice vs' 0 = Some p'" "st vs' p' = op_apply e' (ufs_rel g)"
      "\<And>os. main_path vs 0 os w \<Longrightarrow> main_path vs' 0 (os @ [i]) p'" "locateLVertice vs 0 = Some w"
    using remote_loop_ok [OF step ul u(2) eo ef(2) _ _ _ t(2,3)] i unfolding ef(1) by metis
  obtain l' where l': "put_cspace sv ci vs' = Some (sv\<lparr>cspacelist := Some l'\<rparr>)"
      "client_space (sv\<lparr>cspacelist := Some l'\<rparr>) k ci (s\<lparr>cvertices := vs'\<rparr>)"
    by (rule put_cspace_ok [OF s(1)])
  let ?sv1 = "sv\<lparr>cspacelist := Some l'\<rparr>"
  obtain gl g' where ex: "exec_edge ?sv1 c e' = Some (?sv1\<lparr>ufslist := gl\<rparr>, confirm c)"
      "graph_of (?sv1\<lparr>ufslist := gl\<rparr>) k = Some g'" "graph_fine g'" "ufs_rel g' = op_apply e' (ufs_rel g)"
    using exec_edge_ok [of ?sv1 k g c e'] g ok(3) ef(3) lp(4) by auto
  have "remote_op sv c = Some (?sv1\<lparr>ufslist := gl\<rparr>, confirm c)"
    unfolding remote_op_def
    using l ci ef(3) s(2,3) mm u(1) ins lp(1,2) l'(1) ex(1) by (simp add: getCverlistVertices_def)
  moreover have "in_step n g' vs'" using ex(3,4) lp(5-8) by (simp add: in_step_def at_state_def)
  then have "replica n k g' vs' (?sv1\<lparr>ufslist := gl\<rparr>)"
    using ex(2) k l'(2) s(2) unfolding replica_def by (auto intro!: exI [of _ ci])
  moreover have "vs \<noteq> []" using ok(1) by (simp add: space_ok_def)
  then obtain os w' where mp: "main_path vs 0 os w'" using main_path_exists [OF ok(1), of 0] by auto
  then have "w' = w" using locateL_main [OF mp] lp(10) by simp
  then have "calculateOids vs 0 INIT = Some (context_text INIT os)"
    "calculateOids vs' 0 INIT = Some (context_text INIT (os @ [i]))"
    using calculateOids_main [OF mp ok(2)] calculateOids_main [OF lp(9) lp(6)] mp by blast+
  ultimately show ?thesis
    using lp(1,3,4) ex(4) t(2,3)
    by (intro exI [of _ "?sv1\<lparr>ufslist := gl\<rparr>"] exI [of _ g'] exI [of _ vs'] exI [of _ e'] exI [of _ os] exI [of _ t] exI [of _ w]
        exI [of _ p']) simp
qed

lemma remote_op_ok:
  assumes r: "replica n k g vs sv" and m: "is_message c i ctx k" and i: "i \<noteq> []" "nul_free i" "COMMA \<notin> set i"
    and u: "locateVertice vs (Some ctx) = Some (Some u)" "concurrent vs u"
    and e: "op_ok (st vs u) (message_edge c 0)"
  shows "\<exists>sv' g' vs' (e :: dedge) os. remote_op sv c = Some (sv', confirm c) \<and> replica n k g' vs' sv' \<and>
    oid e = i \<and> op_ok (ufs_rel g) e \<and> ufs_rel g' = op_apply e (ufs_rel g) \<and>
    calculateOids vs 0 INIT = Some (context_text INIT os) \<and>
    calculateOids vs' 0 INIT = Some (context_text INIT (os @ [i]))"
  using remote_op_full [OF assms] by blast

section \<open>Accepted and rejected commands\<close>

lemma targ_valid:
  assumes g: "graph_fine g" and a: "targ (ufs_rel g) a" "a \<noteq> star"
  shows "nul_free a" "valid_arg (ufs_rel g) a" "\<not> lost g a"
proof -
  have w: "within_class (ufs_rel g) (args a)" by (rule targ_within [OF a])
  show "nul_free a" by (rule nul_free_targ [OF a(1)])
  show v: "valid_arg (ufs_rel g) a" using a w by (simp add: valid_arg_def one_class_def targ_def within_class_def)
  show "\<not> lost g a" using lost_invalid [of g a] v g by (auto simp: graph_fine_def)
qed

lemma check_union:
  assumes "graph_of sv k = Some g" "argv c = [UNION, a, b, k]"
  shows "checkArgv sv c = checkUnionArgv (Some g) a b"
  using assms by (simp add: checkArgv_def arg_def last_arg_def cmd_names)

lemma check_split:
  assumes "graph_of sv k = Some g" "argv c = [SPLIT, a, k]"
  shows "checkArgv sv c = checkSplitArgv (Some g) a"
  using assms by (simp add: checkArgv_def arg_def last_arg_def cmd_names)

lemma local_op_reject:
  assumes r: "replica n k g vs sv" and c: "last_arg c = Some k" and e: "checkArgv sv c = Some (Inl e)"
  shows "local_op sv c = Some (sv, reject c e)"
proof -
  obtain ci s where s: "client_space sv k ci s" "cvertices s = vs" using r by (auto simp: replica_def)
  then obtain l where l: "cspacelist sv = Some l" "locateCVerlist l k = Some ci" "l ! ci = s"
    by (auto simp: client_space_def)
  have "ci < length l" using l(2) by (auto simp: locateCVerlist_def first_index_Some)
  then show ?thesis using l c e by (simp add: local_op_def getCverlistVertices_def)
qed

lemma local_op_undefined:
  assumes "replica n k g vs sv" "last_arg c = Some k" "checkArgv sv c = None"
  shows "local_op sv c = None"
proof -
  obtain ci s where s: "client_space sv k ci s" "cvertices s = vs" using assms(1) by (auto simp: replica_def)
  then obtain l where l: "cspacelist sv = Some l" "locateCVerlist l k = Some ci" "l ! ci = s"
    by (auto simp: client_space_def)
  have "ci < length l" using l(2) by (auto simp: locateCVerlist_def first_index_Some)
  then show ?thesis using l assms(2,3) by (simp add: local_op_def getCverlistVertices_def)
qed

section \<open>A sample replica\<close>

definition sample_graph :: cudGraph where
  "sample_graph = singletons ''k'' [''a'', ''b'']"

definition sample_server :: server where
  "sample_server = \<lparr>masterhost = True, port = 6380, slaves = None, ufslist = Some [sample_graph],
     cspacelist = Some [\<lparr>ckey = ''k'', clen_ufs = 3, cvertices = [new_vertice ''a/b'']\<rparr>], sspacelist = None, op_num = 0\<rparr>"

definition sample_client :: "string list \<Rightarrow> bool \<Rightarrow> client" where
  "sample_client as m = \<lparr>argv = as, flag_ufs = 0, from_master = m, slave_listening_port = 0, replies = []\<rparr>"

lemma sample_fields [simp]:
  "masterhost sample_server" "port sample_server = 6380" "op_num sample_server = 0"
  "argv (sample_client as m) = as" "from_master (sample_client as m) = m" "replies (sample_client as m) = []"
  by (simp_all add: sample_server_def sample_client_def)

lemma sample_graph_fine:
  "graph_fine sample_graph" "ufs_rel sample_graph = {(''a'', ''a''), (''b'', ''b'')}" "key sample_graph = ''k''"
proof -
  have s: "ufs_ok sample_graph" "ufs_rel sample_graph = Id_on (set [''a'', ''b''])" "names sample_graph = set [''a'', ''b'']"
    using singletons_ok [of "[''a'', ''b'']" "''k''"] by (simp_all add: sample_graph_def nul_free_def)
  then show "ufs_rel sample_graph = {(''a'', ''a''), (''b'', ''b'')}" by auto
  show "graph_fine sample_graph"
    using s by (simp add: graph_fine_def names_ok_def nm_def nul_free_def star_def del: name_rules)
      (simp add: sample_graph_def singletons_def)
  show "key sample_graph = ''k''" by (simp add: sample_graph_def singletons_def)
qed

lemma sample_graph_names: "names sample_graph = {''a'', ''b''}"
  using singletons_ok(3) [of "[''a'', ''b'']" "''k''"] by (simp add: sample_graph_def nul_free_def)

lemma sample_replica: "replica 3 ''k'' sample_graph [new_vertice ''a/b''] sample_server"
proof -
  let ?vs = "[new_vertice ''a/b'']"
  have "streq (key sample_graph) ''k''" by (simp add: sample_graph_fine streq_def)
  then have "graph_of sample_server ''k'' = Some sample_graph"
    by (simp add: graph_of_def getUfs_def sample_server_def)
  moreover have "client_space sample_server ''k'' 0 \<lparr>ckey = ''k'', clen_ufs = 3, cvertices = ?vs\<rparr>"
    by (simp add: client_space_def sample_server_def locateCVerlist_def sdscmp_eq_0)
  moreover have "space_ok 3 ?vs" "oids_ok ?vs"
    using sample_text_of by (auto simp: space_ok_def oids_ok_def new_vertice_def)
  moreover have "locateLVertice ?vs 0 = Some 0"
    by (subst locateLVertice.simps) (simp add: vget_def new_vertice_def)
  moreover have "st ?vs 0 = ufs_rel sample_graph"
    by (simp add: st_def new_vertice_def sample_texts sample_graph_fine)
  ultimately show ?thesis
    using sample_graph_fine(1) unfolding replica_def in_step_def at_state_def
    by (auto simp: nul_free_def intro!: exI [of _ "0::nat"])
qed

section \<open>Properties\<close>

text \<open>
  C7. A client that holds a structure and receives a \<^verbatim>\<open>union\<close> of names of one class each executes
  it without undefined behaviour, provided that the port and the number of the operation fit into their
  buffers: the classes are merged, the new state is recorded in the state space so that graph and space
  stay in step, the reply is OK, and the command is rewritten to carry the identifier of the operation and
  the context of the state it was executed in.
\<close>

theorem local_union_correct:
  assumes "replica n k g vs sv" "masterhost sv" "\<not> from_master c" "argv c = [UNION, a, b, k]"
    "targ (ufs_rel g) a" "a \<noteq> star" "targ (ufs_rel g) b" "b \<noteq> star"
    "6379 < port sv" "port sv < 16379" "0 \<le> op_num sv" "op_num sv < 9999"
  shows "\<exists>sv' c' g' vs' i ctx. unionCommand sv c = Some (sv', c') \<and> replica n k g' vs' sv' \<and>
    ufs_rel g' = merge (ufs_rel g) (hd (args a)) (hd (args b)) \<and>
    make_oid (port sv) (op_num sv + 1) = Some i \<and> op_num sv' = op_num sv + 1 \<and>
    calculateOids vs 0 INIT = Some ctx \<and> argv c' = [UNION, a, b, i, ctx, k] \<and>
    replies c' = replies c @ [Ok_reply] \<and> flag_ufs c' = 1"
proof -
  have g: "graph_of sv k = Some g" "graph_fine g" using assms(1) by (simp_all add: replica_def in_step_def)
  have chk: "checkArgv sv c = accept"
    using check_union [OF g(1) assms(4)] targ_valid [OF g(2) assms(5,6)] targ_valid [OF g(2) assms(7,8)]
      checkUnionArgv_cases [of g a b] g(2) assms(6,8) by (auto simp: graph_fine_def union_valid_def union_lost_def)
  have cmd: "is_command c k" using assms(4) by (auto simp: is_command_def)
  have le: "local_edge c i v = Some (createOpEdge OPTYPE_UNION (Some a) (Some b) i v)" for i v
    using assms(4) by (simp add: local_edge_def arg_def cmd_names)
  have oo: "op_ok (ufs_rel g) (createOpEdge OPTYPE_UNION (Some a) (Some b) i v)" for i v
    using assms(5,7) by (simp add: op_ok_def createOpEdge_def)
  have ap: "op_apply (createOpEdge OPTYPE_UNION (Some a) (Some b) i v) (ufs_rel g) =
      merge (ufs_rel g) (hd (args a)) (hd (args b))" for i v
    using assms(6,8) by (simp add: op_apply_def op_den_def op_of_def createOpEdge_def union_op_def)
  have lc: "local_command c k i ctx = [UNION, a, b, i, ctx, k]" for i ctx
    using assms(4) by (simp add: local_command_def)
  have eo: "\<forall>i v. \<forall>e \<in> set_option (local_edge c i v). op_ok (ufs_rel g) e" using le oo by simp
  have "unionCommand sv c = local_op sv c" using assms(2,3) by (simp add: unionCommand_def controlAlg_def)
  then show ?thesis using local_op_ok [OF assms(1,9-12) cmd chk eo] unfolding le lc by (simp add: ap) blast
qed

theorem local_union_correct_witness:
  "\<exists>sv' c' g' vs' i ctx. unionCommand sample_server (sample_client [UNION, ''a'', ''b'', ''k''] False) = Some (sv', c') \<and>
    replica 3 ''k'' g' vs' sv' \<and> ufs_rel g' = merge (ufs_rel sample_graph) ''a'' ''b'' \<and>
    argv c' = [UNION, ''a'', ''b'', i, ctx, ''k''] \<and> replies c' = [Ok_reply]"
  using local_union_correct [OF sample_replica, of "sample_client [UNION, ''a'', ''b'', ''k''] False" "''a''" "''b''"]
  by (simp add: sample_arg sample_graph_fine star_def args_def) blast

text \<open>
  C8. Likewise a \<^verbatim>\<open>split\<close> of one existing element at a client takes the element out of its class,
  keeps graph and state space in step, and leaves a command with identifier and context.
\<close>

theorem local_split_correct:
  assumes "replica n k g vs sv" "masterhost sv" "\<not> from_master c" "argv c = [SPLIT, s, k]" "s \<in> names g"
    "6379 < port sv" "port sv < 16379" "0 \<le> op_num sv" "op_num sv < 9999"
  shows "\<exists>sv' c' g' vs' i ctx. splitCommand sv c = Some (sv', c') \<and> replica n k g' vs' sv' \<and>
    ufs_rel g' = isolate (ufs_rel g) {s} \<and>
    make_oid (port sv) (op_num sv + 1) = Some i \<and> op_num sv' = op_num sv + 1 \<and>
    calculateOids vs 0 INIT = Some ctx \<and> argv c' = [SPLIT, s, i, ctx, k] \<and>
    replies c' = replies c @ [Ok_reply] \<and> flag_ufs c' = 1"
proof -
  have g: "graph_of sv k = Some g" "graph_fine g" using assms(1) by (simp_all add: replica_def in_step_def)
  have E: "equiv (names g) (ufs_rel g)" using g(2) by (simp add: graph_fine_def equiv_ufs_rel)
  have s: "sarg (ufs_rel g) s" "s \<noteq> star" "nm s"
    using g(2) assms(5) equiv_refl [OF E] by (auto simp: sarg_def graph_fine_def names_ok_def)
  have chk: "checkArgv sv c = accept"
    using check_split [OF g(1) assms(4)] targ_valid [OF g(2) sarg_targ [OF s(1)] s(2)]
      checkSplitArgv_eq [of g s] g(2) by (simp add: graph_fine_def)
  have cmd: "is_command c k" using assms(4) by (auto simp: is_command_def)
  have le: "local_edge c i v = Some (createOpEdge OPTYPE_SPLIT (Some s) None i v)" for i v
    using assms(4) by (simp add: local_edge_def arg_def cmd_names)
  have oo: "op_ok (ufs_rel g) (createOpEdge OPTYPE_SPLIT (Some s) None i v)" for i v
    using s(1) by (simp add: op_ok_def createOpEdge_def)
  have ap: "op_apply (createOpEdge OPTYPE_SPLIT (Some s) None i v) (ufs_rel g) = isolate (ufs_rel g) {s}" for i v
    using s(2,3) by (simp add: op_apply_def op_den_def op_of_def createOpEdge_def split_op_def)
  have lc: "local_command c k i ctx = [SPLIT, s, i, ctx, k]" for i ctx
    using assms(4) by (simp add: local_command_def)
  have eo: "\<forall>i v. \<forall>e \<in> set_option (local_edge c i v). op_ok (ufs_rel g) e" using le oo by simp
  have "splitCommand sv c = local_op sv c" using assms(2,3) by (simp add: splitCommand_def controlAlg_def)
  then show ?thesis using local_op_ok [OF assms(1,6-9) cmd chk eo] unfolding le lc by (simp add: ap) blast
qed

theorem local_split_correct_witness:
  "\<exists>sv' c' g' vs' i ctx. splitCommand sample_server (sample_client [SPLIT, ''a'', ''k''] False) = Some (sv', c') \<and>
    replica 3 ''k'' g' vs' sv' \<and> ufs_rel g' = isolate (ufs_rel sample_graph) {''a''} \<and>
    argv c' = [SPLIT, ''a'', i, ctx, ''k''] \<and> replies c' = [Ok_reply]"
  using local_split_correct [OF sample_replica, of "sample_client [SPLIT, ''a'', ''k''] False" "''a''"]
  by (simp add: sample_graph_names) blast



text \<open>
  C4. A client that receives an operation of the server, in the context of a vertex from which its
  own operations lead to its current state, transforms it past these operations without undefined behaviour
  and executes the result: the transformed operation is valid in the current state, carries the identifier
  of the original, and graph and state space are again in step. The context of the new state is the old
  one with the operation added.
\<close>

theorem remote_operation_correct:
  assumes "replica n k g vs sv" "masterhost sv" "from_master c" "is_message c i ctx k"
    "i \<noteq> []" "nul_free i" "COMMA \<notin> set i" "locateVertice vs (Some ctx) = Some (Some u)" "concurrent vs u"
    "op_ok (st vs u) (message_edge c 0)"
  shows "\<exists>sv' g' vs' (e :: dedge) os. controlAlg sv c = Some (sv', confirm c) \<and> replica n k g' vs' sv' \<and>
    oid e = i \<and> op_ok (ufs_rel g) e \<and> ufs_rel g' = op_apply e (ufs_rel g) \<and>
    calculateOids vs 0 INIT = Some (context_text INIT os) \<and>
    calculateOids vs' 0 INIT = Some (context_text INIT (os @ [i]))"
  using remote_op_ok [OF assms(1,4-10)] assms(2,3) by (simp add: controlAlg_def)

theorem remote_operation_correct_witness:
  "\<exists>sv' g' vs' (e :: dedge) os.
    controlAlg sample_server (sample_client [UNION, ''a'', ''b'', ''2_1'', ''init'', ''k''] True) =
      Some (sv', confirm (sample_client [UNION, ''a'', ''b'', ''2_1'', ''init'', ''k''] True)) \<and>
    replica 3 ''k'' g' vs' sv' \<and> oid e = ''2_1'' \<and> op_ok (ufs_rel sample_graph) e \<and>
    ufs_rel g' = op_apply e (ufs_rel sample_graph) \<and>
    calculateOids [new_vertice ''a/b''] 0 INIT = Some (context_text INIT os) \<and>
    calculateOids vs' 0 INIT = Some (context_text INIT (os @ [''2_1'']))"
proof (rule remote_operation_correct [OF sample_replica])
  let ?vs = "[new_vertice ''a/b'']" and ?c = "sample_client [UNION, ''a'', ''b'', ''2_1'', ''init'', ''k''] True"
  show "masterhost sample_server" "from_master ?c" by simp_all
  show "is_message ?c ''2_1'' ''init'' ''k''" by (simp add: is_message_def)
  show "''2_1'' \<noteq> []" "nul_free ''2_1''" "COMMA \<notin> set ''2_1''" by (simp_all add: nul_free_def)
  show "locateVertice ?vs (Some ''init'') = Some (Some 0)"
    by (simp add: locateVertice_def locateRVertice_def)
      (subst locateRVertice_loop.simps, simp add: INIT_def streq_def)
  have "locateLVertice ?vs 0 = Some 0"
    by (subst locateLVertice.simps) (simp add: vget_def new_vertice_def)
  moreover have "chain_path (get_ledge ?vs) 0 [] 0"
    by (rule here) (simp add: space_access new_vertice_def)
  ultimately show "concurrent ?vs 0" unfolding concurrent_def by blast
  show "op_ok (st ?vs 0) (message_edge ?c 0)"
    by (simp add: op_ok_def message_edge_def createOpEdge_def st_def new_vertice_def sample_arg sample_texts)
qed

end
