(* ===== verification/Uinit.thy ===== *)
theory Uinit
  imports Control_Client
begin

text \<open>
  The command that creates a structure from a text of its classes: it builds a graph with exactly these
  classes and the first vertex of the state space, and so establishes the invariant of a replica.
\<close>

section \<open>Graphs under construction\<close>

text \<open>While the graph is built, \<^verbatim>\<open>vertexnum\<close> already counts the vertices to come.\<close>

abbreviation announce :: "int \<Rightarrow> cudGraph \<Rightarrow> cudGraph" where
  "announce n g \<equiv> g\<lparr>vertexnum := n\<rparr>"

lemma announce_vat [simp]: "vat (announce n g) i = vat g i"
  by (simp add: vat_def)

lemma announce_existEdge [simp]: "existEdge (announce n g) i j = existEdge g i j"
  by (simp add: existEdge_def)

lemma announce_push: "push_edge (announce n g) i j = map_option (announce n) (push_edge g i j)"
  by (cases "vat g i") (simp_all add: push_edge_def)

lemma announce_createEdge: "createEdge (announce n g) i j = map_option (announce n) (createEdge g i j)"
proof -
  have p: "(if b then push_edge (announce n h) i j else Some (announce n h)) =
      map_option (announce n) (if b then push_edge h i j else Some h)" for b h i j
    by (simp add: announce_push)
  show ?thesis
    by (simp add: createEdge_def p bind_map_option map_option_bind' split: if_splits cong: if_cong)
      (simp add: p bind_map_option map_option_bind' if_distrib [of "map_option _"] cong: if_cong)
qed

lemma announce_inner: "links_inner (announce n g) p j qs = map_option (announce n) (links_inner g p j qs)"
proof (induction g p j qs rule: links_inner.induct)
  case (2 g p j q qs)
  show ?case
  proof (cases "if p \<noteq> j then createEdge g p j else Some g")
    case None
    then show ?thesis by (auto simp: announce_createEdge split: if_splits)
  next
    case (Some g1)
    then have "(if p \<noteq> j then createEdge (announce n g) p j else Some (announce n g)) = Some (announce n g1)"
      by (auto simp: announce_createEdge split: if_splits)
    then show ?thesis using Some 2 by (cases "createEdge g1 p q") (simp_all add: announce_createEdge)
  qed
qed simp

lemma announce_outer: "links_outer (announce n g) ps j = map_option (announce n) (links_outer g ps j)"
proof (induction g ps j rule: links_outer.induct)
  case (2 g p ps j)
  then show ?case by (cases "vat g j"; cases "links_inner g p j (firstedge (the (vat g j)))") (auto simp: announce_inner)
qed simp

lemma announce_createLinks: "createLinks (announce n g) i j = map_option (announce n) (createLinks g i j)"
  by (simp add: createLinks_def announce_createEdge announce_outer bind_map_option map_option_bind')

lemma announce_locate:
  assumes "locateVex_loop g e i = Some j" "j \<noteq> -1" "vertexnum g \<le> n"
  shows "locateVex_loop (announce n g) e i = Some j"
  using assms
proof (induction g e i rule: locateVex_loop.induct)
  case (1 g e i)
  then have "i < vertexnum g" by (subst (asm) (2) locateVex_loop.simps) (auto split: if_splits)
  moreover from this obtain v where "vat g i = Some v"
    using 1(2) by (subst (asm) locateVex_loop.simps) (auto simp: bind_eq_Some_conv)
  ultimately show ?case
    using 1 by (subst locateVex_loop.simps, subst (asm) (2) locateVex_loop.simps) (auto split: if_splits)
qed

lemma announce_link:
  assumes "ufs_ok g" "a \<in> names g" "b \<in> names g" "int (length (dlist g)) \<le> n"
  shows "do { i \<leftarrow> locateVex (announce n g) a; j \<leftarrow> locateVex (announce n g) b; createLinks (announce n g) i j } =
    map_option (announce n) (do { i \<leftarrow> locateVex g a; j \<leftarrow> locateVex g b; createLinks g i j })"
proof -
  have l: "locateVex (announce n g) x = locateVex g x" if x: "x \<in> names g" for x
  proof -
    obtain i where i: "locateVex g x = Some i" "i \<in> verts g" using locateVex_name [OF assms(1) x] by metis
    moreover have "i \<noteq> -1" using i(2) by (auto simp: verts_def)
    moreover have "vertexnum g = int (length (dlist g))" using ufs_ok_graph [OF assms(1)] by (simp add: graph_ok_def)
    ultimately show ?thesis using announce_locate [of g x 0 i n] assms(4) by (simp add: locateVex_def)
  qed
  show ?thesis
    unfolding l [OF assms(2)] l [OF assms(3)]
    by (cases "locateVex g a"; cases "locateVex g b") (simp_all add: announce_createLinks)
qed

section \<open>Linking the elements of a class\<close>

text \<open>A step that only merges classes, up to a given relation.\<close>

definition towards :: "int \<Rightarrow> cudGraph \<Rightarrow> (string \<times> string) set \<Rightarrow> cudGraph option \<Rightarrow> (string \<times> string) set \<Rightarrow> bool" where
  "towards n g T r P \<longleftrightarrow> (\<exists>h. r = Some (announce n h) \<and> ufs_ok h \<and> frame g h \<and>
     ufs_rel g \<subseteq> ufs_rel h \<and> ufs_rel h \<subseteq> T \<and> P \<subseteq> ufs_rel h)"

lemma uinit_row_towards:
  assumes "ufs_ok g" "a \<in> names g" "set bs \<subseteq> names g" "int (length (dlist g)) \<le> n"
    "equiv U T" "ufs_rel g \<subseteq> T" "\<forall>b \<in> set bs. (a, b) \<in> T"
  shows "towards n g T (uinit_row (announce n g) k a m bs) {(a, bs ! i) |i. i < length bs \<and> m + i \<noteq> k}"
  using assms
proof (induction bs arbitrary: g m)
  case Nil
  then show ?case by (auto simp: towards_def)
next
  case (Cons b bs)
  have b: "b \<in> names g" "(a, b) \<in> T" "set bs \<subseteq> names g" using Cons.prems by auto
  obtain h where h: "(if m \<noteq> k then do { i \<leftarrow> locateVex (announce n g) a; j \<leftarrow> locateVex (announce n g) b;
        createLinks (announce n g) i j } else Some (announce n g)) = Some (announce n h)"
      "ufs_ok h" "frame g h" "ufs_rel g \<subseteq> ufs_rel h" "ufs_rel h \<subseteq> T" "m \<noteq> k \<Longrightarrow> (a, b) \<in> ufs_rel h"
  proof (cases "m = k")
    case True
    then show thesis using that [of g] Cons.prems by simp
  next
    case False
    obtain h where h: "do { i \<leftarrow> locateVex g a; j \<leftarrow> locateVex g b; createLinks g i j } = Some h"
        "ufs_ok h" "frame g h" "ufs_rel h = merge (ufs_rel g) a b"
      using createLinks_refines [OF Cons.prems(1,2) b(1)] by (auto simp: refines_def)
    have "(a, b) \<in> merge (ufs_rel g) a b"
      by (rule merge_relates [OF equiv_ufs_rel [OF Cons.prems(1)] Cons.prems(2) b(1)])
    moreover have "merge (ufs_rel g) a b \<subseteq> T" by (rule merge_least [OF Cons.prems(5,6) b(2)])
    ultimately show thesis
      using that [of h] h False announce_link [OF Cons.prems(1,2) b(1) Cons.prems(4)] merge_extends [of "ufs_rel g" a b]
      by simp
  qed
  have "towards n h T (uinit_row (announce n h) k a (Suc m) bs) {(a, bs ! i) |i. i < length bs \<and> Suc m + i \<noteq> k}"
    using Cons.prems h b frame_names [OF h(3)] frame_length [OF h(3)] by (intro Cons.IH) auto
  then obtain h' where h': "uinit_row (announce n h) k a (Suc m) bs = Some (announce n h')" "ufs_ok h'" "frame h h'"
      "ufs_rel h \<subseteq> ufs_rel h'" "ufs_rel h' \<subseteq> T" "{(a, bs ! i) |i. i < length bs \<and> Suc m + i \<noteq> k} \<subseteq> ufs_rel h'"
    by (auto simp: towards_def)
  have "(a, (b # bs) ! i) \<in> ufs_rel h'" if "i < length (b # bs)" "m + i \<noteq> k" for i
    using that h(6) h'(4,6) by (cases i) auto
  then show ?case
    using h(1) h' frame_trans [OF h(3) h'(3)] subset_trans [OF h(4) h'(4)] by (auto simp: towards_def)
qed

lemma uinit_rows_towards:
  assumes "ufs_ok g" "set as \<subseteq> set es" "set es \<subseteq> names g" "int (length (dlist g)) \<le> n"
    "equiv U T" "ufs_rel g \<subseteq> T" "\<forall>a \<in> set es. \<forall>b \<in> set es. (a, b) \<in> T"
  shows "towards n g T (uinit_rows (announce n g) k as es)
    {(as ! j, es ! i) |i j. i < length es \<and> j < length as \<and> i \<noteq> k + j}"
  using assms
proof (induction as arbitrary: g k)
  case Nil
  then show ?case by (auto simp: towards_def)
next
  case (Cons a as)
  have a: "a \<in> set es" "set as \<subseteq> set es" using Cons.prems(2) by auto
  have "towards n g T (uinit_row (announce n g) k a 0 es) {(a, es ! i) |i. i < length es \<and> 0 + i \<noteq> k}"
    using Cons.prems a by (intro uinit_row_towards) auto
  then obtain h where h: "uinit_row (announce n g) k a 0 es = Some (announce n h)" "ufs_ok h" "frame g h"
      "ufs_rel g \<subseteq> ufs_rel h" "ufs_rel h \<subseteq> T" "{(a, es ! i) |i. i < length es \<and> 0 + i \<noteq> k} \<subseteq> ufs_rel h"
    by (auto simp: towards_def)
  have "towards n h T (uinit_rows (announce n h) (Suc k) as es)
      {(as ! j, es ! i) |i j. i < length es \<and> j < length as \<and> i \<noteq> Suc k + j}"
    using Cons.prems h a frame_names [OF h(3)] frame_length [OF h(3)] by (intro Cons.IH) auto
  then obtain h' where h': "uinit_rows (announce n h) (Suc k) as es = Some (announce n h')" "ufs_ok h'" "frame h h'"
      "ufs_rel h \<subseteq> ufs_rel h'" "ufs_rel h' \<subseteq> T"
      "{(as ! j, es ! i) |i j. i < length es \<and> j < length as \<and> i \<noteq> Suc k + j} \<subseteq> ufs_rel h'"
    by (auto simp: towards_def)
  have "((a # as) ! j, es ! i) \<in> ufs_rel h'" if i: "i < length es" "j < length (a # as)" "i \<noteq> k + j" for i j
  proof (cases j)
    case 0
    then show ?thesis using i h(6) h'(4) by auto
  next
    case (Suc m)
    then have "(as ! m, es ! i) \<in> {(as ! j, es ! i) |i j. i < length es \<and> j < length as \<and> i \<noteq> Suc k + j}"
      using i by auto
    then have "(as ! m, es ! i) \<in> ufs_rel h'" by (rule subsetD [OF h'(6)])
    then show ?thesis using Suc by simp
  qed
  then show ?case
    using h(1) h' frame_trans [OF h(3) h'(3)] subset_trans [OF h(4) h'(4)] by (auto simp: towards_def)
qed

section \<open>Adding a class\<close>

lemma add_vertices_ok:
  assumes ok: "ufs_ok g" and es: "distinct es" "\<forall>e \<in> set es. nul_free e" "set es \<inter> names g = {}"
  defines "h \<equiv> announce (int (length (dlist g) + length es)) (add_vertices g es)"
  shows "ufs_ok h" "ufs_rel h = ufs_rel g \<union> Id_on (set es)" "names h = names g \<union> set es"
    "length (dlist h) = length (dlist g) + length es" "key h = key g"
proof -
  let ?N = "length (dlist g)"
  have new: "map (\<lambda>e. \<lparr>data = sdsnew e, firstedge = []\<rparr>) es = map (\<lambda>e. \<lparr>data = e, firstedge = []\<rparr>) es"
    using es(2) by simp
  have d: "dlist h = dlist g @ map (\<lambda>e. \<lparr>data = e, firstedge = []\<rparr>) es"
    by (simp add: h_def add_vertices_def new)
  show len: "length (dlist h) = ?N + length es" "key h = key g" by (simp_all add: d) (simp add: h_def add_vertices_def)
  show n: "names h = names g \<union> set es" by (simp add: names_def d image_Un image_image)
  have v: "verts g \<subseteq> verts h" by (auto simp: verts_def len(1))
  have old: "dlist h ! nat i = dlist g ! nat i" if "i \<in> verts g" for i
    using that by (simp add: d nth_append verts_def nat_less_iff)
  have c: "chain h i = chain g i" for i
  proof (cases "i \<in> verts g")
    case True
    then show ?thesis using v old by (auto simp: chain_in)
  next
    case False
    then have "firstedge (dlist h ! nat i) = []" if "i \<in> verts h"
      using that by (auto simp: d nth_append verts_def nat_less_iff len(1))
    then show ?thesis using False by (cases "i \<in> verts h") (simp_all add: chain_in chain_out)
  qed
  then have er: "erel h = erel g" by (simp add: erel_def)
  have vn: "vertexnum h = int (length (dlist h))" using len(1) by (simp add: h_def)
  have "erel g \<subseteq> verts g \<times> verts g" using ufs_ok_graph [OF ok] by (simp add: graph_ok_def)
  then have sub: "erel g \<subseteq> verts h \<times> verts h" using Sigma_mono [OF v v] by (rule subset_trans)
  have "graph_ok h" using ufs_ok_graph [OF ok] sub vn by (simp add: graph_ok_def er c)
  moreover have "distinct (map data (dlist h))"
  proof -
    have "distinct (map data (dlist g))" using ufs_ok_base [OF ok] by (simp add: base_ok_def)
    moreover have "map data (dlist h) = map data (dlist g) @ es" by (simp add: d o_def)
    moreover have "set (map data (dlist g)) = names g" by (simp add: names_def)
    ultimately show ?thesis using es(1,3) by (simp only: distinct_append) blast
  qed
  moreover have "\<forall>v \<in> set (dlist h). nul_free (data v)"
    using ufs_ok_base [OF ok] es(2) by (simp add: base_ok_def d ball_Un)
  ultimately have "base_ok h" by (simp add: base_ok_def)
  moreover have "\<forall>i j k. j \<in> set (chain h i) \<longrightarrow> k \<in> set (chain h j) \<longrightarrow> i \<noteq> k \<longrightarrow> k \<in> set (chain h i)"
    using ok unfolding ufs_ok_def c by (rule conjunct2)
  ultimately show "ufs_ok h" unfolding ufs_ok_def by (rule conjI)
  have nm: "name_of h i = name_of g i" if "i \<in> verts g" for i using old [OF that] by (simp add: name_of_def)
  have i: "irel h = irel g \<union> Id_on {int ?N ..< int (?N + length es)}"
    unfolding irel_def er by (auto simp: verts_def len(1))
  have g: "irel g \<subseteq> verts g \<times> verts g" using equiv_irel [OF ok] by (auto elim: equivE)
  have "map_prod (name_of h) (name_of h) ` irel g = ufs_rel g"
    unfolding ufs_rel_def
  proof (rule image_cong [OF refl])
    fix p assume "p \<in> irel g"
    then have "fst p \<in> verts g" "snd p \<in> verts g" using g by auto
    then show "map_prod (name_of h) (name_of h) p = map_prod (name_of g) (name_of g) p" using nm by (cases p) simp
  qed
  moreover have "map_prod (name_of h) (name_of h) ` Id_on {int ?N ..< int (?N + length es)} = Id_on (set es)"
  proof -
    have "name_of h ` {int ?N ..< int (?N + length es)} = set es"
    proof -
      have "{int ?N ..< int (?N + length es)} = (\<lambda>m. int (?N + m)) ` {0 ..< length es}"
      proof (intro set_eqI iffI)
        fix i assume "i \<in> {int ?N ..< int (?N + length es)}"
        then have "i = int (?N + nat (i - int ?N))" "nat (i - int ?N) \<in> {0 ..< length es}" by auto
        then show "i \<in> (\<lambda>m. int (?N + m)) ` {0 ..< length es}" by (rule image_eqI)
      qed auto
      moreover have "name_of h (int (?N + m)) = es ! m" if "m < length es" for m
        using that by (simp add: name_of_def d nth_append del: of_nat_add)
      ultimately have "name_of h ` {int ?N ..< int (?N + length es)} = (!) es ` {0 ..< length es}"
        by (simp add: image_image del: of_nat_add cong: image_cong_simp)
      then show ?thesis using nth_image [of "length es" es] by simp
    qed
    moreover have "map_prod f f ` Id_on A = Id_on (f ` A)" for f :: "int \<Rightarrow> string" and A
      unfolding Id_on_def image_UN by simp
    ultimately show ?thesis by simp
  qed
  ultimately show "ufs_rel h = ufs_rel g \<union> Id_on (set es)"
    by (simp add: ufs_rel_def [of h] i image_Un)
qed

lemma equiv_add_class:
  assumes E: "equiv U R" and d: "A \<inter> U = {}"
  shows "equiv (U \<union> A) (R \<union> A \<times> A)"
proof (rule equivI_all)
  fix x y z
  assume xy: "(x, y) \<in> R \<union> A \<times> A"
  then show "x \<in> U \<union> A \<and> y \<in> U \<union> A" using equiv_dom [OF E] by auto
  show "(y, x) \<in> R \<union> A \<times> A" using xy equiv_sym [OF E] by auto
  assume "(y, z) \<in> R \<union> A \<times> A"
  then show "(x, z) \<in> R \<union> A \<times> A" using xy d equiv_dom [OF E] equiv_trans [OF E] by auto
qed (use equiv_refl [OF E] in auto)

lemma uinit_class:
  assumes ok: "ufs_ok g" and es: "nms es" "distinct es" "set es \<inter> names g = {}"
    and n: "int (length (dlist g) + length es) \<le> n"
  obtains h where "uinit_rows (add_vertices (announce n g) es) 0 es es = Some (announce n h)" "ufs_ok h"
    "ufs_rel h = ufs_rel g \<union> set es \<times> set es" "names h = names g \<union> set es"
    "length (dlist h) = length (dlist g) + length es" "key h = key g"
proof -
  let ?h = "announce (int (length (dlist g) + length es)) (add_vertices g es)" and ?T = "ufs_rel g \<union> set es \<times> set es"
  have "\<forall>e \<in> set es. nul_free e" using es(1) by (auto simp: nms_def)
  note h = add_vertices_ok [OF ok es(2) this es(3)]
  have E: "equiv (names g \<union> set es) ?T" by (rule equiv_add_class [OF equiv_ufs_rel [OF ok] es(3)])
  have "towards n ?h ?T (uinit_rows (announce n ?h) 0 es es)
      {(es ! j, es ! i) |i j. i < length es \<and> j < length es \<and> i \<noteq> 0 + j}"
    using h n by (intro uinit_rows_towards [OF h(1) _ _ _ E]) auto
  moreover have a: "announce n ?h = add_vertices (announce n g) es" by (simp add: add_vertices_def)
  ultimately obtain h' where h': "uinit_rows (add_vertices (announce n g) es) 0 es es = Some (announce n h')" "ufs_ok h'"
      "frame ?h h'" "ufs_rel ?h \<subseteq> ufs_rel h'" "ufs_rel h' \<subseteq> ?T"
      and P: "{(es ! j, es ! i) |i j. i < length es \<and> j < length es \<and> i \<noteq> 0 + j} \<subseteq> ufs_rel h'"
    unfolding towards_def a by blast
  have "(x, y) \<in> ufs_rel h'" if xy: "x \<in> set es" "y \<in> set es" for x y
  proof (cases "x = y")
    case True
    then show ?thesis using h(2) h'(4) xy by auto
  next
    case False
    obtain i j where "j < length es" "x = es ! j" "i < length es" "y = es ! i"
      using xy by (auto simp: in_set_conv_nth)
    then have "(x, y) \<in> {(es ! j, es ! i) |i j. i < length es \<and> j < length es \<and> i \<noteq> 0 + j}" using False by auto
    then show ?thesis by (rule subsetD [OF P])
  qed
  then have "?T \<subseteq> ufs_rel h'" using h(2) h'(4) by auto
  then have "ufs_rel h' = ?T" using h'(5) by (rule subset_antisym [rotated])
  moreover have "names h' = names g \<union> set es" "length (dlist h') = length (dlist g) + length es" "key h' = key g"
    using frame_names [OF h'(3)] frame_length [OF h'(3)] h(3-5) h'(3) by (simp_all add: frame_def)
  ultimately show thesis using that h'(1,2) by blast
qed

lemma pieces_of_class:
  assumes "nms c"
  shows "pieces COMMA (join COMMA c) = c"
proof (rule pieces_join)
  show "\<forall>w \<in> set c. COMMA \<notin> set w" using assms by (simp add: nms_def)
  show "c \<noteq> [[]]"
  proof
    assume "c = [[]]"
    then have "nm []" using assms by (simp add: nms_def)
    then show False using nm_not_Nil by blast
  qed
qed

lemma uinit_classes_ok:
  assumes "ufs_ok g" "\<forall>c \<in> set cs. nms c" "distinct (concat cs)" "set (concat cs) \<inter> names g = {}"
    "n = int (length (dlist g) + length (concat cs))"
  shows "\<exists>h. uinit_classes (announce n g) (map (join COMMA) cs) = Some h \<and> ufs_ok h \<and>
    ufs_rel h = ufs_rel g \<union> part_rel cs \<and> names h = names g \<union> set (concat cs) \<and> key h = key g \<and>
    length (dlist h) = length (dlist g) + length (concat cs)"
  using assms
proof (induction cs arbitrary: g)
  case Nil
  have "vertexnum g = int (length (dlist g))" using ufs_ok_graph [OF Nil(1)] by (simp add: graph_ok_def)
  then have "announce n g = g" using Nil(5) by simp
  then show ?case using Nil by (simp add: part_rel_def)
next
  case (Cons c cs)
  have c: "nms c" "distinct c" "set c \<inter> names g = {}"
    using Cons.prems(2-4) by (simp_all add: Int_Un_distrib2)
  have sp: "sdssplitlen (join COMMA c) (int (length (join COMMA c))) [COMMA] = Some c"
    using pieces_of_class [OF c(1)] by simp
  obtain h where h: "uinit_rows (add_vertices (announce n g) c) 0 c c = Some (announce n h)" "ufs_ok h"
      "ufs_rel h = ufs_rel g \<union> set c \<times> set c" "names h = names g \<union> set c"
      "length (dlist h) = length (dlist g) + length c" "key h = key g"
    using uinit_class [OF Cons.prems(1) c, of n] Cons.prems(5) by auto
  have "\<exists>h'. uinit_classes (announce n h) (map (join COMMA) cs) = Some h' \<and> ufs_ok h' \<and>
      ufs_rel h' = ufs_rel h \<union> part_rel cs \<and> names h' = names h \<union> set (concat cs) \<and> key h' = key h \<and>
      length (dlist h') = length (dlist h) + length (concat cs)"
    using Cons.prems h by (intro Cons.IH) auto
  then show ?case using sp h by (auto simp: part_rel_def)
qed

lemma count_vertices_eq:
  assumes "\<forall>c \<in> set cs. nms c"
  shows "count_vertices (map (join COMMA) cs) = Some (int (length (concat cs)))"
  using assms
proof (induction cs)
  case (Cons c cs)
  have "pieces COMMA (join COMMA c) = c" using Cons.prems by (intro pieces_of_class) simp
  then show ?case using Cons by simp
qed simp

lemma uinit_graph_ok:
  assumes "text_ok t" "nul_free k"
  obtains g where "uinit_graph k t = Some g" "ufs_ok g" "ufs_rel g = text_rel t" "key g = k"
    "names g = {x. (x, x) \<in> text_rel t}" "length (dlist g) = card (names g)"
proof -
  obtain cs where cs: "t = show_state cs" "state_ok cs" "text_rel t = part_rel cs" by (rule text_cases [OF assms(1)])
  let ?g0 = "\<lparr>key = k, vertexnum = 0, edgenum = 0, dlist = []\<rparr>" and ?n = "int (length (concat cs))"
  have ok: "\<forall>c \<in> set cs. nms c" "distinct (concat cs)" using cs(2) by (auto simp: state_ok_def)
  have g0: "ufs_ok ?g0" "ufs_rel ?g0 = {}" "names ?g0 = {}"
    using discrete_ok [of ?g0] by (simp_all add: names_def Id_on_def)
  obtain h where h: "uinit_classes (announce ?n ?g0) (map (join COMMA) cs) = Some h" "ufs_ok h"
      "ufs_rel h = part_rel cs" "names h = set (concat cs)" "key h = k" "length (dlist h) = length (concat cs)"
    using uinit_classes_ok [OF g0(1) ok, of ?n] g0 by auto
  have "uinit_graph k t = Some h"
    using h(1) split_show [OF cs(2)] count_vertices_eq [OF ok(1)] assms(2)
    by (simp add: uinit_graph_def cs(1))
  moreover have "set (concat cs) = {x. (x, x) \<in> part_rel cs}" by (auto simp: part_rel_iff)
  moreover have "length (dlist h) = card (names h)" using h(4,6) ok(2) distinct_card by metis
  ultimately show thesis using that h cs(3) by simp
qed

section \<open>The replica that uinit creates\<close>

lemma existCVerlist_iff: "existCVerlist l k \<longleftrightarrow> locateCVerlist l k \<noteq> None"
  by (induction l) (auto simp: locateCVerlist_def)

lemma first_index_append:
  "first_index P (xs @ ys) = (case first_index P xs of Some i \<Rightarrow> Some i | None \<Rightarrow> map_option (\<lambda>j. length xs + j) (first_index P ys))"
  by (induction xs; cases "first_index P ys") (auto split: option.splits)

text \<open>A client that has no structure of this name yet.\<close>

definition unused :: "server \<Rightarrow> string \<Rightarrow> bool" where
  "unused sv k \<longleftrightarrow> getUfs sv k = None \<and> (case cspacelist sv of None \<Rightarrow> True | Some l \<Rightarrow> locateCVerlist l k = None)"

text \<open>Texts that name at least two elements, none of them \<open>*\<close>.\<close>

definition initial_text :: "string \<Rightarrow> bool" where
  "initial_text t \<longleftrightarrow> ufs_text t \<and> (\<exists>x y. x \<noteq> y \<and> (x, x) \<in> text_rel t \<and> (y, y) \<in> text_rel t)"

lemma text_rel_nm: "text_ok t \<Longrightarrow> (x, x) \<in> text_rel t \<Longrightarrow> nm x"
  by (rule text_cases) (auto simp: part_rel_iff state_ok_def nms_def)

lemma uinit_fine:
  assumes t: "initial_text t" and k: "nul_free k"
  obtains g where "uinit_graph k t = Some g" "graph_fine g" "ufs_rel g = text_rel t" "key g = k"
proof -
  have ok: "text_ok t" "(star, star) \<notin> text_rel t" using t by (auto simp: initial_text_def ufs_text_def)
  obtain g where g: "uinit_graph k t = Some g" "ufs_ok g" "ufs_rel g = text_rel t" "key g = k"
      "names g = {x. (x, x) \<in> text_rel t}" "length (dlist g) = card (names g)"
    by (rule uinit_graph_ok [OF ok(1) k])
  obtain x y where xy: "x \<noteq> y" "{x, y} \<subseteq> names g" using t g(5) by (auto simp: initial_text_def)
  have "finite (names g)" by (simp add: names_def)
  then have "card {x, y} \<le> card (names g)" using xy(2) by (rule card_mono)
  then have "2 \<le> length (dlist g)" using xy(1) g(6) by simp
  moreover have "names_ok g" using g(5) text_rel_nm [OF ok(1)] by (simp add: names_ok_def)
  ultimately have "graph_fine g" using g(2,5) ok(2) by (simp add: graph_fine_def)
  then show thesis using that g by blast
qed

lemma uinit_client_full:
  assumes sv: "unused sv k" "masterhost sv" and c: "argv c = [cmd, k, t]" and k: "nul_free k" and t: "initial_text t"
  shows "\<exists>sv' g u. uinitCommand sv c = Some (sv', confirm c) \<and> replica (length t) k g [new_vertice u] sv' \<and>
    ufs_rel g = text_rel t \<and> op_num sv' = op_num sv \<and> masterhost sv' = masterhost sv \<and> port sv' = port sv \<and> text_rel u = text_rel t"
proof -
  obtain g where g: "uinit_graph k t = Some g" "graph_fine g" "ufs_rel g = text_rel t" "key g = k"
    by (rule uinit_fine [OF t k])
  have "text_of (length t) t" using t by (simp add: text_of_def initial_text_def)
  then obtain u where u: "updateVerticeUfs g = Some u" "text_of (length t) u" "text_rel u = ufs_rel g"
    using state_printed [OF g(2), of "length t" t] g(3) by auto
  let ?l = "(case ufslist sv of None \<Rightarrow> [] | Some l \<Rightarrow> l) @ [g]"
  let ?sp = "case cspacelist sv of None \<Rightarrow> [] | Some l \<Rightarrow> l"
  let ?s = "\<lparr>ckey = k, clen_ufs = int (length t), cvertices = [new_vertice u]\<rparr>"
  let ?sv = "sv\<lparr>ufslist := Some ?l, cspacelist := Some (?sp @ [?s])\<rparr>"
  have tu: "length u = length t" "text_ok u" using u(2) by (simp_all add: text_of_def ufs_text_def)
  have "nul_free u" by (rule text_cases [OF tu(2)]) (simp add: nul_free_state state_ok_def)
  note lu = tu(1) this
  have free: "locateCVerlist ?sp k = None" using sv(1) by (auto simp: unused_def locateCVerlist_def split: option.splits)
  have "top_vertice g = Some (new_vertice u)" using u(1) by (simp add: top_vertice_def createVertice_def new_vertice_def)
  then have "uinitCommand sv c = Some (?sv, confirm c)"
    using g(1) c sv(2) k lu free
    by (simp add: uinitCommand_def arg_def uinit_client_def existCVerlist_iff new_vertice_def setCverlistUfsLen_def
        createCVerlist_def strlen_eq)
  moreover have "graph_of ?sv k = Some g"
    using sv(1) g(4) k
    by (auto simp: graph_of_def getUfs_def unused_def first_index_append streq_iff split: option.splits)
  moreover have "client_space ?sv k (length ?sp) ?s"
    using free by (simp add: client_space_def locateCVerlist_def first_index_append sdscmp_eq_0)
  moreover have "in_step (length t) g [new_vertice u]"
  proof -
    have "space_ok (length t) [new_vertice u]" "oids_ok [new_vertice u]" "st [new_vertice u] 0 = ufs_rel g"
      using u(2,3) by (auto simp: space_ok_def oids_ok_def st_def new_vertice_def)
    moreover have "locateLVertice [new_vertice u] 0 = Some 0"
      by (subst locateLVertice.simps) (simp add: vget_def new_vertice_def)
    ultimately show ?thesis using g(2) by (simp add: in_step_def at_state_def)
  qed
  ultimately have "uinitCommand sv c = Some (?sv, confirm c) \<and> replica (length t) k g [new_vertice u] ?sv"
    using k by (auto simp: replica_def intro!: exI [of _ "length ?sp"])
  then show ?thesis using g(3) u(3) by (intro exI [of _ ?sv] exI [of _ g] exI [of _ u]) simp
qed

lemma uinit_client_ok:
  assumes sv: "unused sv k" "masterhost sv" and c: "argv c = [cmd, k, t]" and k: "nul_free k" and t: "initial_text t"
  shows "\<exists>sv' g vs. uinitCommand sv c = Some (sv', confirm c) \<and> replica (length t) k g vs sv' \<and>
    ufs_rel g = text_rel t \<and> op_num sv' = op_num sv"
  using uinit_client_full [OF assms] by blast

section \<open>Properties\<close>

text \<open>
  C9. \<^verbatim>\<open>uinit\<close> at a client that does not hold the structure yet, with a well-formed text of at least
  two elements, runs without undefined behaviour, replies OK and establishes the invariant of a replica:
  a graph whose classes are exactly those of the text, and a state space in step with it.
\<close>

theorem uinit_establishes_replica:
  assumes "unused sv k" "masterhost sv" "argv c = [cmd, k, t]" "nul_free k" "initial_text t"
  shows "\<exists>sv' g vs. uinitCommand sv c = Some (sv', confirm c) \<and> replica (length t) k g vs sv' \<and>
    ufs_rel g = text_rel t \<and> op_num sv' = op_num sv"
  using assms by (rule uinit_client_ok)

lemma sample_initial: "initial_text ''a/b''"
proof -
  have "''a'' \<noteq> ''b'' \<and> (''a'', ''a'') \<in> text_rel ''a/b'' \<and> (''b'', ''b'') \<in> text_rel ''a/b''"
    by (simp add: sample_texts)
  then have "\<exists>x y. x \<noteq> y \<and> (x, x) \<in> text_rel ''a/b'' \<and> (y, y) \<in> text_rel ''a/b''" by (intro exI)
  then show ?thesis using sample_text_of(1) by (simp only: initial_text_def text_of_def)
qed

theorem uinit_establishes_replica_witness:
  "\<exists>sv' g vs. uinitCommand sample_server (sample_client [''uinit'', ''z'', ''a/b''] False) =
      Some (sv', confirm (sample_client [''uinit'', ''z'', ''a/b''] False)) \<and>
    replica (length ''a/b'') ''z'' g vs sv' \<and> ufs_rel g = text_rel ''a/b'' \<and> op_num sv' = op_num sample_server"
proof (rule uinit_establishes_replica)
  have "\<not> streq (key sample_graph) ''z''" by (simp add: sample_graph_fine streq_def cstr_def)
  then show "unused sample_server ''z''"
    by (simp add: unused_def getUfs_def sample_server_def locateCVerlist_def sdscmp_eq_0)
qed (simp_all add: nul_free_def sample_initial)

text \<open>
  C16. A structure round-trips through its text: the text that \<^verbatim>\<open>umembers\<close> prints for the graph that
  \<^verbatim>\<open>uinit\<close> has built from a text of two or more elements is well formed and names the same classes.
\<close>

theorem uinit_umembers_roundtrip:
  assumes "initial_text t" "nul_free k"
  shows "\<exists>g u. uinit_graph k t = Some g \<and> umembers_text g = Some u \<and> text_ok u \<and> text_rel u = text_rel t"
proof -
  obtain g where g: "uinit_graph k t = Some g" "graph_fine g" "ufs_rel g = text_rel t" "key g = k"
    by (rule uinit_fine [OF assms])
  have "ufs_ok g" "names_ok g" "2 \<le> length (dlist g)" using g(2) by (simp_all add: graph_fine_def)
  note m = umembers_ok [OF this]
  then have "text_ok (show_state (members g))" "text_rel (show_state (members g)) = text_rel t"
    using text_ok_show [OF m(2)] text_rel_show [OF m(2)] m(3) g(3) by simp_all
  then show ?thesis using g(1) m(1) by (intro exI conjI)
qed

theorem uinit_umembers_roundtrip_witness:
  "\<exists>g u. uinit_graph ''k'' ''a/b'' = Some g \<and> umembers_text g = Some u \<and> text_ok u \<and> text_rel u = text_rel ''a/b''"
  by (rule uinit_umembers_roundtrip [OF sample_initial]) (simp add: nul_free_def)

text \<open>
  C26. \<^verbatim>\<open>uinit\<close> for a name that the client has already replies with an error and does not create a state
  space, but the new graph has been appended to the list of structures by then and stays there.
\<close>

theorem uinit_duplicate_keeps_graph:
  assumes "masterhost sv" "argv c = [cmd, k, t]" "nul_free k" "initial_text t"
    "cspacelist sv = Some l" "existCVerlist l k" "ufslist sv = Some gs"
  shows "\<exists>g. uinitCommand sv c = Some (sv\<lparr>ufslist := Some (gs @ [g])\<rparr>, reject c ArgvUaddExistUfs) \<and> key g = k"
proof -
  obtain g where g: "uinit_graph k t = Some g" "key g = k" by (rule uinit_fine [OF assms(4,3)])
  have "sv\<lparr>ufslist := Some (gs @ [g]), cspacelist := Some l\<rparr> = sv\<lparr>ufslist := Some (gs @ [g])\<rparr>"
    using assms(5) by (cases sv) simp
  moreover have "uinitCommand sv c = Some (sv\<lparr>ufslist := Some (gs @ [g]), cspacelist := Some l\<rparr>, reject c ArgvUaddExistUfs)"
    using assms g by (simp add: uinitCommand_def arg_def uinit_client_def)
  ultimately show ?thesis using g(2) by (intro exI conjI) (simp_all only:)
qed

theorem uinit_duplicate_keeps_graph_witness:
  "\<exists>g. uinitCommand sample_server (sample_client [''uinit'', ''k'', ''a/b''] False) =
    Some (sample_server\<lparr>ufslist := Some ([sample_graph] @ [g])\<rparr>,
      reject (sample_client [''uinit'', ''k'', ''a/b''] False) ArgvUaddExistUfs) \<and> key g = ''k''"
  by (rule uinit_duplicate_keeps_graph [OF _ _ _ sample_initial])
    (simp_all add: nul_free_def, simp_all add: sample_server_def, simp add: sdscmp_eq_0)

end
