(* ===== verification/Control_Server.thy ===== *)
theory Control_Server
  imports Uinit
begin

text \<open>
  The server under \<^verbatim>\<open>controlAlg\<close>: it keeps one state space per client and structure, and the last
  vertices of all spaces of a structure stand for the same classes. An operation of a client is
  transformed in the space of this client, recorded in the spaces of the others, and forwarded.
\<close>

section \<open>The space of the sender\<close>

lemma chain_path_redge:
  assumes "space_ok n vs" "u < length vs" "chain_path (get_redge vs) u es w"
  shows "path vs u (map oid es) w"
  using assms(3,2)
proof (induction rule: chain_path.induct)
  case (here u)
  then show ?case by (simp add: path_Nil)
next
  case (step u e es w)
  then have e: "redge (vs ! u) = Some e" by (simp add: space_access)
  then have "adjv e < length vs" using space_edge(2) [OF assms(1) step.prems] by blast
  then show ?case using path_r [OF step.prems e step.IH] by simp
qed

lemma path_append: "path vs q os u \<Longrightarrow> path vs u os' w \<Longrightarrow> path vs q (os @ os') w"
  by (induction rule: path.induct) (auto intro: path_l path_r)

text \<open>A walk along a chain of remote edges where there are no local ones.\<close>

lemma main_path_chain:
  assumes "chain_path (get_redge vs) j es p" "N \<le> j" "j < length vs" "space_ok n vs"
    "\<And>i. N \<le> i \<Longrightarrow> i < length vs \<Longrightarrow> ledge (vs ! i) = None"
  shows "\<exists>os. main_path vs j os p"
  using assms(1-3)
proof (induction rule: chain_path.induct)
  case (here u)
  then have "main_edge vs u = None" using assms(5) [of u] by (simp add: main_edge_def space_access)
  then show ?case using end_here here.prems by blast
next
  case (step u e es w)
  then have e: "redge (vs ! u) = Some e" by (simp add: space_access)
  then have m: "main_edge vs u = Some e" using assms(5) [of u] step.prems by (simp add: main_edge_def)
  have "u < adjv e" "adjv e < length vs" using space_edge(1,2) [OF assms(4) step.prems(2)] e by blast+
  then obtain os where "main_path vs (adjv e) os w" using step.IH step.prems(1) by auto
  then show ?case using go_on [OF step.prems(2) m] by blast
qed

text \<open>
  After the loop every walk to the last vertex leads to the new last vertex: it takes the old edges
  until a new local edge leaves the old vertices.
\<close>

lemma main_path_integrated:
  assumes old: "main_path vs q os w" and q: "q < N" and N: "length vs = N" "N \<le> length vs'"
    and ok: "space_ok n vs'"
    and keep: "\<And>j. j < N \<Longrightarrow> redge (vs' ! j) = redge (vs ! j)"
      "\<And>j. j < N \<Longrightarrow> ledge (vs' ! j) = ledge (vs ! j) \<or> (\<exists>e. ledge (vs' ! j) = Some e \<and> N \<le> adjv e)"
    and last: "ledge (vs' ! w) = Some e" "N \<le> adjv e"
    and tail: "\<And>j. N \<le> j \<Longrightarrow> j < length vs' \<Longrightarrow> \<exists>os. main_path vs' j os p"
  shows "\<exists>os. main_path vs' q os p"
  using old q last(1)
proof (induction rule: main_path.induct)
  case (end_here q)
  have q: "q < length vs'" using end_here N by simp
  have e: "main_edge vs' q = Some e" using end_here by (simp add: main_edge_def)
  have "adjv e < length vs'" using space_edge(2) [OF ok q] end_here.prems(2) by blast
  then show ?case using tail [OF last(2)] go_on [OF q e] by blast
next
  case (go_on q d os w)
  have q: "q < length vs'" using go_on N by simp
  show ?case
  proof (cases "\<exists>e. ledge (vs' ! q) = Some e \<and> N \<le> adjv e")
    case True
    then obtain e where e: "ledge (vs' ! q) = Some e" "N \<le> adjv e" by blast
    have m: "main_edge vs' q = Some e" using e(1) by (simp add: main_edge_def)
    have "adjv e < length vs'" using space_edge(2) [OF ok q] e(1) by blast
    then show ?thesis using tail [OF e(2)] main_path.go_on [OF q m] by blast
  next
    case False
    then have "ledge (vs' ! q) = ledge (vs ! q)" using keep(2) [OF go_on.prems(1)] by blast
    then have m: "main_edge vs' q = Some d" using keep(1) [of q] go_on(2) go_on.prems(1)
      by (simp add: main_edge_def split: option.splits)
    have "adjv d < N" using go_on(3) N(1) by (auto elim: main_path.cases)
    then show ?thesis using go_on.IH go_on.prems(2) main_path.go_on [OF q m] by blast
  qed
qed

text \<open>An operation of the client and the vertex it belongs to: the operations of the others after this
  vertex lead to the last vertex.\<close>

definition server_concurrent :: "space \<Rightarrow> nat \<Rightarrow> bool" where
  "server_concurrent vs u \<longleftrightarrow> (\<exists>w es. locateLVertice vs 0 = Some w \<and> chain_path (get_redge vs) u es w)"

lemma all_oids_mirror [simp]: "all_oids (mirror vs) = all_oids vs"
  by (auto simp: all_oids_def mirror_def vertice_oids_def)

lemma mirror_new_vertice [simp]: "mirror [new_vertice t] = [new_vertice t]"
  by (simp add: mirror_def new_vertice_def)

lemma mirror_insert:
  assumes "u < length vs"
  shows "mirror (put_redge u e (mirror vs @ [new_vertice t])) = put_ledge u e (vs @ [new_vertice t])"
  using assms mirror_put(1) [of u "mirror vs @ [new_vertice t]" e] by simp

lemma server_loop_ok:
  assumes a: "at_state n R vs" and w: "locateLVertice vs 0 = Some w" "chain_path (get_redge vs) u es w" and u: "u < length vs"
    and e: "op_ok (st vs u) e" "adjv e = length vs" "oid e \<noteq> []" "nul_free (oid e)" "COMMA \<notin> set (oid e)"
    and t: "text_of n t" "text_rel t = op_apply e (st vs u)"
  obtains vs' p' e' where
    "server_loop (int n) (put_ledge u e (vs @ [new_vertice t])) u (length vs) ctx = Some (vs', w, p', add_oids ctx es)"
    "get_ledge vs' w = Some e'" "oid e' = oid e" "optype e' = optype e" "op_ok R e'" "at_state n (op_apply e' R) vs'"
    "client_loop (int n) (put_redge u e (mirror vs @ [new_vertice t])) u (length vs) = Some (mirror vs', w, p')"
proof -
  obtain os where ok: "space_ok n vs" "oids_ok vs" "main_path vs 0 os w" "w < length vs" "st vs w = R"
    by (rule at_stateE [OF a w(1)])
  let ?N = "length vs" and ?ws1 = "put_redge u e (mirror vs @ [new_vertice t])"
  have mu: "u < length (mirror vs)" "op_ok (st (mirror vs) u) e" "adjv e = length (mirror vs)"
    "text_rel t = op_apply e (st (mirror vs) u)" "space_ok n (mirror vs)"
    using u e(1,2) t(2) ok(1) by simp_all
  have "get_ledge (mirror vs) = get_redge vs" by (rule ext) (rule mirror_access)
  then have ch: "chain_path (get_ledge (mirror vs)) u es w" using w(2) by simp
  obtain ws' p' where loop: "server_loop (int n) (mirror ?ws1) u ?N ctx = Some (mirror ws', w, p', add_oids ctx es)"
    and int: "integrated n ?N ?ws1 w e ws' p'" and cl: "client_loop (int n) ?ws1 u ?N = Some (ws', w, p')"
    using insert_integrates [OF mu(5,1) ch mu(2,3) t(1) mu(4)] by auto
  let ?vs' = "mirror ws'"
  have s: "space_ok n ws'" "?N \<le> p'" "p' < length ws'" "all_oids ws' \<subseteq> all_oids ?ws1"
    using int unfolding integrated_def by blast+
  obtain e' where e': "redge (ws' ! w) = Some e'" "adjv e' = p'" "oid e' = oid e" "optype e' = optype e"
    using int unfolding integrated_def by blast
  have keep: "content (ws' ! j) = content (?ws1 ! j)" "ledge (ws' ! j) = ledge (?ws1 ! j)"
    "redge (ws' ! j) = redge (?ws1 ! j) \<or> (\<exists>e. redge (ws' ! j) = Some e \<and> ?N \<le> adjv e)" if "j < ?N" for j
    using int that unfolding integrated_def by blast+
  have new: "ledge (?vs' ! j) = None" "\<exists>es. chain_path (get_redge ?vs') j es p'" if "?N \<le> j" "j < length ?vs'" for j
  proof -
    have "get_redge ?vs' = get_ledge ws'" by (rule ext) (rule mirror_access)
    then show "ledge (?vs' ! j) = None" "\<exists>es. chain_path (get_redge ?vs') j es p'"
      using int that unfolding integrated_def tail_ok_def by auto
  qed
  have old: "content (?ws1 ! j) = content (vs ! j)" "ledge (?ws1 ! j) = redge (vs ! j)"
    "redge (?ws1 ! j) = (if j = u then Some e else ledge (vs ! j))" if "j < ?N" for j
    using that u by (simp_all add: nth_append)
  have sp: "space_ok n ?vs'" using s(1) by simp
  have tail: "\<exists>os. main_path ?vs' j os p'" if "?N \<le> j" "j < length ?vs'" for j
    using main_path_chain [OF _ that sp] new that by blast
  have "\<exists>os. main_path ?vs' 0 os p'"
  proof (rule main_path_integrated [OF ok(3) _ refl _ sp _ _ _ _ tail])
    show "0 < ?N" using u by linarith
    show "?N \<le> length ?vs'" using s(2,3) by simp
    show "ledge (?vs' ! w) = Some e'" "?N \<le> adjv e'" using e'(1,2) ok(4) s(2,3) by simp_all
    fix j assume j: "j < ?N"
    then have l: "j < length ws'" using s(2,3) by simp
    show "redge (?vs' ! j) = redge (vs ! j)" using keep(2) [OF j] old(2) [OF j] l by simp
    show "ledge (?vs' ! j) = ledge (vs ! j) \<or> (\<exists>e. ledge (?vs' ! j) = Some e \<and> ?N \<le> adjv e)"
      using keep(3) [OF j] old(3) [OF j] l e(2) by (auto split: if_splits)
  qed
  then obtain os' where m: "main_path ?vs' 0 os' p'" by blast
  have wl: "w < length ?vs'" using ok(4) s(2,3) by simp
  have "content (?vs' ! w) = content (vs ! w)" using keep(1) [OF ok(4)] old(1) [OF ok(4)] wl by simp
  then have stw: "st ?vs' w = R" using ok(5) by (simp add: st_def)
  have l: "ledge (?vs' ! w) = Some e'" using e'(1) wl by simp
  note ed = space_edge(3,4) [OF sp wl disjI1 [OF l]]
  have "all_oids ?vs' \<subseteq> insert (oid e) (all_oids vs)"
    using s(4) all_oids_put(2) [of u e "mirror vs @ [new_vertice t]"] by auto
  then have "oids_ok ?vs'" by (rule oids_ok_insert [OF ok(2) _ e(3-5)])
  then have "at_state n (op_apply e' R) ?vs'"
    using sp locateL_main [OF m] ed(2) stw e'(2) by (simp add: at_state_def)
  moreover have "get_ledge ?vs' w = Some e'" using l wl by (simp add: space_access)
  moreover have "op_ok R e'" using ed(1) stw by simp
  moreover have "client_loop (int n) ?ws1 u ?N = Some (mirror ?vs', w, p')" using cl by simp
  ultimately show thesis using that loop mirror_insert [OF u] e' by simp
qed

section \<open>The spaces of the other clients\<close>

lemma update_edge_copy: "update_edge t (createOpEdge (optype e) (argv1 e) (argv2 e) i v) = update_edge t e"
  by (simp add: update_edge_def createOpEdge_def fun_eq_iff)

lemma op_copy:
  "op_ok R (createOpEdge (optype e) (argv1 e) (argv2 e) i v) = op_ok R e"
  "op_apply (createOpEdge (optype e) (argv1 e) (argv2 e) i v) = op_apply e"
  by (simp_all add: createOpEdge_def op_ok_def op_apply_def op_den_def fun_eq_iff)

lemma forward_to_full:
  assumes a: "at_state n R vs" and e: "op_ok R e"
  obtains w t where "locateLVertice vs 0 = Some w" "w < length vs" "text_of n t" "text_rel t = op_apply e R"
    "forward_to e (int n) vs =
      Some (put_redge w (createOpEdge (optype e) (argv1 e) (argv2 e) (oid e) (length vs)) (vs @ [new_vertice t]))"
proof -
  obtain w where w: "locateLVertice vs 0 = Some w" using a by (auto simp: at_state_def)
  obtain os where ok: "space_ok n vs" "w < length vs" "st vs w = R" by (rule at_stateE [OF a w])
  obtain cu where cu: "content (vs ! w) = Some cu" "text_of n cu" "st vs w = text_rel cu"
    by (rule space_content [OF ok(1,2)])
  obtain t where t: "update_edge cu e (int n) = Some t" "text_of n t" "text_rel t = op_apply e R"
    using ufs.upd_ok [OF cu(2), of e] e cu(3) ok(3) by auto
  show thesis
    using that [OF w ok(2) t(2,3)] w ok(1,2) cu(1) t(1) insert_space(1) [OF ok(2)]
    by (simp add: forward_to_def locateVertice_def space_access nth_append space_ok_def [of n vs])
qed

lemma forward_to_ok:
  assumes a: "at_state n R vs" and e: "op_ok R e" "oid e \<noteq> []" "nul_free (oid e)" "COMMA \<notin> set (oid e)"
  obtains vs' where "forward_to e (int n) vs = Some vs'" "at_state n (op_apply e R) vs'"
proof -
  let ?d = "createOpEdge (optype e) (argv1 e) (argv2 e) (oid e) (length vs)"
  obtain w t where f: "locateLVertice vs 0 = Some w" "w < length vs" "text_of n t" "text_rel t = op_apply e R"
      "forward_to e (int n) vs = Some (put_redge w ?d (vs @ [new_vertice t]))"
    by (rule forward_to_full [OF a e(1)])
  have d: "op_ok R ?d" "adjv ?d = length vs" "oid ?d = oid e" "text_rel t = op_apply ?d R"
    using e(1) f(4) by (simp_all add: op_copy) (simp_all add: createOpEdge_def)
  have "at_state n (op_apply ?d R) (put_redge w ?d (vs @ [new_vertice t]))"
    using e(2-4) d(3) by (intro at_state_extend(2) [OF a f(1) d(1,2) _ _ _ f(3) d(4)]) simp_all
  then show thesis using that f(5) by (simp add: op_copy)
qed

definition forwarded :: "nat \<Rightarrow> string \<Rightarrow> int \<Rightarrow> (string \<times> string) set \<Rightarrow> verlist \<Rightarrow> verlist \<Rightarrow> bool" where
  "forwarded n k p R s s' \<longleftrightarrow> skey s' = skey s \<and> sid s' = sid s \<and> slen_ufs s' = slen_ufs s \<and>
     (if skey s = k \<and> sid s \<noteq> p then at_state n R (svertices s') else s' = s)"

lemma forward_ok:
  assumes e: "op_ok R e" "oid e \<noteq> []" "nul_free (oid e)" "COMMA \<notin> set (oid e)" and k: "nul_free k"
    and ss: "\<forall>s \<in> set ss. nul_free (skey s) \<and> (skey s = k \<and> sid s \<noteq> p \<longrightarrow> at_state n R (svertices s))"
  shows "\<exists>ss'. forward ss k p e (int n) = Some ss' \<and> list_all2 (forwarded n k p (op_apply e R)) ss ss'"
  using ss
proof (induction ss)
  case (Cons s ss)
  obtain ss' where ss': "forward ss k p e (int n) = Some ss'" "list_all2 (forwarded n k p (op_apply e R)) ss ss'"
    using Cons by auto
  have key: "streq (skey s) k \<longleftrightarrow> skey s = k" using Cons.prems k by (simp add: streq_iff)
  show ?case
  proof (cases "skey s = k \<and> sid s \<noteq> p")
    case True
    then have "at_state n R (svertices s)" using Cons.prems by simp
    then obtain vs' where "forward_to e (int n) (svertices s) = Some vs'" "at_state n (op_apply e R) vs'"
      using forward_to_ok e by blast
    then show ?thesis using True ss' key by (simp add: forwarded_def [of n k p _ s])
  next
    case False
    then show ?thesis using ss' key by (auto simp: forwarded_def [of n k p _ s])
  qed
qed simp

section \<open>The hub\<close>

text \<open>
  The server's side of a structure: all clients' spaces of the structure are in the same state, they
  belong to different clients, and their lengths are those of the contents.
\<close>

definition hub :: "nat \<Rightarrow> string \<Rightarrow> (string \<times> string) set \<Rightarrow> verlist list \<Rightarrow> bool" where
  "hub n k R l \<longleftrightarrow> (\<forall>s \<in> set l. nul_free (skey s) \<and> (skey s = k \<longrightarrow> slen_ufs s = int n \<and> at_state n R (svertices s))) \<and>
     (\<forall>i < length l. \<forall>j < length l. skey (l ! i) = k \<and> skey (l ! j) = k \<and> sid (l ! i) = sid (l ! j) \<longrightarrow> i = j)"

lemma hub_at: "hub n k R l \<Longrightarrow> i < length l \<Longrightarrow> skey (l ! i) = k \<Longrightarrow> slen_ufs (l ! i) = int n \<and> at_state n R (svertices (l ! i))"
  using nth_mem unfolding hub_def by blast

lemma hub_forwarded:
  assumes h: "hub n k R l" and si: "si < length l" "skey (l ! si) = k" "sid (l ! si) = p" and vs: "at_state n R' vs"
    and f: "list_all2 (forwarded n k p R') (l[si := (l ! si)\<lparr>svertices := vs\<rparr>]) l'"
  shows "hub n k R' l'"
proof -
  let ?l = "l[si := (l ! si)\<lparr>svertices := vs\<rparr>]"
  have len: "length l' = length l" using list_all2_lengthD [OF f] by simp
  have fw: "forwarded n k p R' (?l ! j) (l' ! j)" if "j < length l" for j
    using list_all2_nthD [OF f, of j] that by simp
  have upd: "skey (?l ! j) = skey (l ! j) \<and> sid (?l ! j) = sid (l ! j) \<and> slen_ufs (?l ! j) = slen_ufs (l ! j)"
    if "j < length l" for j
    using that by (cases "j = si") simp_all
  have same: "skey (l' ! j) = skey (l ! j)" "sid (l' ! j) = sid (l ! j)" "slen_ufs (l' ! j) = slen_ufs (l ! j)"
    if "j < length l" for j
    using fw [OF that] upd [OF that] unfolding forwarded_def by simp_all
  have at: "at_state n R' (svertices (l' ! j))" if j: "j < length l" "skey (l ! j) = k" for j
  proof (cases "j = si")
    case True
    then show ?thesis using fw [OF j(1)] j si vs by (simp add: forwarded_def)
  next
    case False
    then have "sid (l ! j) \<noteq> p" using h j si unfolding hub_def by blast
    then show ?thesis using fw [OF j(1)] j False by (simp add: forwarded_def)
  qed
  have "nul_free (skey (l ! j))" "skey (l ! j) = k \<longrightarrow> slen_ufs (l ! j) = int n" if "j < length l" for j
    using h nth_mem [OF that] unfolding hub_def by blast+
  then have "\<forall>s \<in> set l'. nul_free (skey s) \<and> (skey s = k \<longrightarrow> slen_ufs s = int n \<and> at_state n R' (svertices s))"
    using same at len by (auto simp: in_set_conv_nth)
  moreover have "\<forall>i < length l'. \<forall>j < length l'. skey (l' ! i) = k \<and> skey (l' ! j) = k \<and> sid (l' ! i) = sid (l' ! j) \<longrightarrow> i = j"
    using h same len unfolding hub_def by simp
  ultimately show ?thesis by (simp add: hub_def)
qed

section \<open>Operations of the clients at the server\<close>

lemma server_insert_ok:
  assumes m: "is_message c i ctx k" "message_of c = Some m" and u: "u < length vs" "content (vs ! u) = Some cu"
    and t: "update_edge cu (message_edge c (length vs)) len = Some t"
  shows "server_insert len vs u c m = Some (put_ledge u (message_edge c (length vs)) (vs @ [new_vertice t]))"
  using m t u insert_space(2) [OF u(1)]
  by (auto simp: is_message_def message_of_def message_edge_def server_insert_def arg_def space_access update_edge_def
      createOpEdge_def cmd_names nth_append) (simp_all add: UNION_def SPLIT_def)

lemma add_oids_context:
  assumes "\<forall>e \<in> set es. nul_free (oid e)"
  shows "add_oids s es = context_text s (map oid es)"
  using assms by (induction es arbitrary: s) (simp_all add: add_oids_def)

text \<open>The command that is forwarded.\<close>

lemma server_rewrite_ok:
  assumes m: "is_message c i ctx k" and e: "op_ok R e" "oid e = i" "optype e = optype (message_edge c v)"
  obtains c' where "server_rewrite (c\<lparr>flag_ufs := 1\<rparr>) e ctx' = Some c'" "is_message c' i ctx' k"
    "op_ok R (message_edge c' 0)" "op_apply (message_edge c' 0) = op_apply e" "flag_ufs c' = 1"
    "optype (message_edge c' 0) = optype e" "argv1 (message_edge c' 0) = argv1 e"
proof -
  from e(1) show thesis
  proof (cases rule: op_cases)
    case (union a b)
    then obtain x y where c: "argv c = [UNION, x, y, i, ctx, k]"
      using m e(3) by (auto simp: is_message_def message_edge_def createOpEdge_def OPTYPE_UNION_def OPTYPE_SPLIT_def
          UNION_def SPLIT_def)
    let ?c = "c\<lparr>flag_ufs := 1, argv := [UNION, a, b, i, ctx', k]\<rparr>"
    have "nul_free a" "nul_free b" using union(4,5) by simp_all
    then have r: "server_rewrite (c\<lparr>flag_ufs := 1\<rparr>) e ctx' = Some ?c"
      using c union(1-3) by (simp add: server_rewrite_def rewriteClientCommandArgument_def eval_nat_numeral)
    have "op_ok R (message_edge ?c 0) = op_ok R e" "op_apply (message_edge ?c 0) = op_apply e"
      using union(1-3) by (simp_all add: message_edge_def createOpEdge_def op_ok_def op_apply_def op_den_def fun_eq_iff)
    then show thesis using that [OF r] e(1) union(1,2) by (simp add: is_message_def) (simp add: message_edge_def createOpEdge_def)
  next
    case (split s)
    then obtain x where c: "argv c = [SPLIT, x, i, ctx, k]"
      using m e(3) by (auto simp: is_message_def message_edge_def createOpEdge_def OPTYPE_UNION_def OPTYPE_SPLIT_def
          UNION_def SPLIT_def)
    let ?c = "c\<lparr>flag_ufs := 1, argv := [SPLIT, s, i, ctx', k]\<rparr>"
    have "nul_free s" using split(3) by (simp add: sarg_def)
    then have r: "server_rewrite (c\<lparr>flag_ufs := 1\<rparr>) e ctx' = Some ?c"
      using c split(1,2) by (simp add: server_rewrite_def rewriteClientCommandArgument_def eval_nat_numeral OPTYPE_UNION_def OPTYPE_SPLIT_def)
    have "op_ok R (message_edge ?c 0) = op_ok R e" "op_apply (message_edge ?c 0) = op_apply e"
      using split(1,2) by (simp_all add: message_edge_def createOpEdge_def op_ok_def op_apply_def op_den_def fun_eq_iff
          UNION_def SPLIT_def OPTYPE_UNION_def OPTYPE_SPLIT_def op_of_def)
    moreover have "optype (message_edge ?c 0) = optype e" "argv1 (message_edge ?c 0) = argv1 e"
      using split(1,2) by (simp_all add: message_edge_def createOpEdge_def UNION_def SPLIT_def)
    ultimately show thesis using that [OF r] e(1) by (simp add: is_message_def)
  qed
qed

lemma path_good: "path vs q os w \<Longrightarrow> oids_ok vs \<Longrightarrow> good_oids os"
  by (induction rule: path.induct) (auto dest: oids_okD)

lemma context_extended:
  assumes p: "mset (pieces COMMA ctx) = mset (INIT # os)" and g: "good_oids (os @ map oid es)"
  shows "pieces COMMA (add_oids (sdsnew ctx) es) = pieces COMMA ctx @ map oid es"
proof -
  let ?ps = "pieces COMMA ctx"
  have s: "set ?ps = insert INIT (set os)" using mset_eq_setD [OF p] by simp
  have free: "nul_free x" "COMMA \<notin> set x" if "x \<in> set (?ps @ map oid es)" for x
    using that s g by (auto simp: good_oids_def INIT_def nul_free_def)
  have "nul_free (join COMMA ?ps)" using free(1) by (subst nul_free_join) simp_all
  then have ctx: "sdsnew ctx = ctx" by simp
  obtain q qs where q: "?ps = q # qs" using s by (cases ?ps) auto
  then have "ctx = context_text q qs" using join_pieces [of COMMA ctx] by (simp add: context_join)
  moreover have "add_oids ctx es = context_text ctx (map oid es)" using free(1) by (intro add_oids_context) simp
  ultimately have "add_oids ctx es = context_text q (qs @ map oid es)" by (simp only: context_text_append)
  then have "add_oids ctx es = join COMMA (?ps @ map oid es)" by (simp only: context_join q append_Cons)
  moreover have "INIT \<in> set (?ps @ map oid es)" using s by simp
  then have "?ps @ map oid es \<noteq> [[]]" using INIT_simps(1) by (metis empty_iff insert_iff list.set list.size(3) zero_neq_numeral)
  then have "pieces COMMA (join COMMA (?ps @ map oid es)) = ?ps @ map oid es" using free(2) by (intro pieces_join ballI)
  ultimately show ?thesis by (simp only: ctx)
qed

lemma server_op_full:
  assumes l: "sspacelist sv = Some l" and h: "hub n k R l" and k: "nul_free k"
    and m: "is_message c i ctx k" and i: "i \<noteq> []" "nul_free i" "COMMA \<notin> set i"
    and si: "locateVerlist l (slave_listening_port c) k = Some si"
    and u: "locateVertice (svertices (l ! si)) (Some ctx) = Some (Some u)" "server_concurrent (svertices (l ! si)) u"
    and e: "op_ok (st (svertices (l ! si)) u) (message_edge c 0)"
  obtains l' c' e' vs' w p' t es os where "server_op sv c = Some (sv\<lparr>sspacelist := Some l'\<rparr>, c')"
    "is_message c' i (add_oids (sdsnew ctx) es) k" "flag_ufs c' = 1" "op_ok R (message_edge c' 0)"
    "op_apply (message_edge c' 0) = op_apply e'" "optype (message_edge c' 0) = optype e'" "argv1 (message_edge c' 0) = argv1 e'"
    "hub n k (op_apply e' R) l'" "op_ok R e'" "oid e' = i" "get_ledge vs' w = Some e'"
    "text_of n t" "text_rel t = op_apply (message_edge c (length (svertices (l ! si)))) (st (svertices (l ! si)) u)"
    "client_loop (int n) (put_redge u (message_edge c (length (svertices (l ! si)))) (mirror (svertices (l ! si)) @ [new_vertice t])) u
      (length (svertices (l ! si))) = Some (mirror vs', w, p')"
    "locateLVertice (svertices (l ! si)) 0 = Some w" "chain_path (get_redge (svertices (l ! si))) u es w"
    "forward (l[si := (l ! si)\<lparr>svertices := vs'\<rparr>]) k (slave_listening_port c) e' (int n) = Some l'"
    "path (svertices (l ! si)) 0 (os @ map oid es) w" "st (svertices (l ! si)) w = R" "mset (pieces COMMA ctx) = mset (INIT # os)"
proof -
  let ?vs = "svertices (l ! si)"
  have s: "si < length l" "sid (l ! si) = slave_listening_port c" "skey (l ! si) = k"
    using si by (auto simp: locateVerlist_def first_index_Some sdscmp_eq_0)
  then have a: "at_state n R ?vs" "slen_ufs (l ! si) = int n" using hub_at [OF h] by simp_all
  obtain w es where w: "locateLVertice ?vs 0 = Some w" "chain_path (get_redge ?vs) u es w"
    using u(2) by (auto simp: server_concurrent_def)
  obtain os1 where ok: "space_ok n ?vs" "oids_ok ?vs" "st ?vs w = R" by (rule at_stateE [OF a(1) w(1)])
  obtain mm where mm: "message_of c = Some mm" "m_ctx mm = ctx" using message_of_ok [OF m] by blast
  obtain os where os: "path ?vs 0 os u" "mset (pieces COMMA ctx) = mset (INIT # os)"
    using locateR_sound [OF ok(1,2), of 0 "[]" ctx u] u(1)
    by (auto simp: locateVertice_def locateRVertice_def split: if_splits)
  have ul: "u < length ?vs" by (rule path_end [OF os(1)])
  obtain cu where cu: "content (?vs ! u) = Some cu" "text_of n cu" "st ?vs u = text_rel cu"
    by (rule space_content [OF ok(1) ul])
  let ?e = "message_edge c (length ?vs)"
  note ef = message_edge_fields [OF m]
  have eo: "op_ok (st ?vs u) ?e" using e ef(4) by blast
  then obtain t where t: "update_edge cu ?e (int n) = Some t" "text_of n t" "text_rel t = op_apply ?e (st ?vs u)"
    using ufs.upd_ok [OF cu(2), of ?e] cu(3) by auto
  have ins: "server_insert (int n) ?vs u c mm = Some (put_ledge u ?e (?vs @ [new_vertice t]))"
    by (rule server_insert_ok [OF m mm(1) ul cu(1) t(1)])
  obtain vs' p' e' where lp:
      "server_loop (int n) (put_ledge u ?e (?vs @ [new_vertice t])) u (length ?vs) (sdsnew ctx) = Some (vs', w, p', add_oids (sdsnew ctx) es)"
      "get_ledge vs' w = Some e'" "oid e' = i" "optype e' = optype ?e" "op_ok R e'" "at_state n (op_apply e' R) vs'"
      "client_loop (int n) (put_redge u ?e (mirror ?vs @ [new_vertice t])) u (length ?vs) = Some (mirror vs', w, p')"
    using server_loop_ok [OF a(1) w ul eo ef(2) _ _ _ t(2,3), of "sdsnew ctx"] i unfolding ef(1) by metis
  let ?l1 = "l[si := (l ! si)\<lparr>svertices := vs'\<rparr>]"
  have ss: "\<forall>s \<in> set ?l1. nul_free (skey s) \<and> (skey s = k \<and> sid s \<noteq> slave_listening_port c \<longrightarrow> at_state n R (svertices s))"
    using h s set_update_subset_insert [of l si "(l ! si)\<lparr>svertices := vs'\<rparr>"] k unfolding hub_def by auto
  obtain l' where l': "forward ?l1 k (slave_listening_port c) e' (int n) = Some l'"
      "list_all2 (forwarded n k (slave_listening_port c) (op_apply e' R)) ?l1 l'"
    using forward_ok [OF lp(5) _ _ _ k ss] i lp(3) by auto
  have h': "hub n k (op_apply e' R) l'" by (rule hub_forwarded [OF h s(1,3,2) lp(6) l'(2)])
  obtain c' where c': "server_rewrite (c\<lparr>flag_ufs := 1\<rparr>) e' (add_oids (sdsnew ctx) es) = Some c'"
      "is_message c' i (add_oids (sdsnew ctx) es) k" "op_ok R (message_edge c' 0)"
      "op_apply (message_edge c' 0) = op_apply e'" "flag_ufs c' = 1"
      "optype (message_edge c' 0) = optype e'" "argv1 (message_edge c' 0) = argv1 e'"
    by (rule server_rewrite_ok [OF m lp(5,3,4)])
  have run: "server_op sv c = Some (sv\<lparr>sspacelist := Some l'\<rparr>, c')"
    unfolding server_op_def using mm l ef(3) si a(2) u(1) ins lp(1,2) l'(1) c'(1) by (simp add: Let_def)
  have pw: "path ?vs 0 (os @ map oid es) w" by (rule path_append [OF os(1) chain_path_redge [OF ok(1) ul w(2)]])
  show thesis
    by (rule that [OF run c'(2,5,3,4,6,7) h' lp(5,3,2) t(2,3) lp(7) w l'(1) pw ok(3) os(2)])
qed

lemma server_op_ok:
  assumes l: "sspacelist sv = Some l" and h: "hub n k R l" and k: "nul_free k"
    and m: "is_message c i ctx k" and i: "i \<noteq> []" "nul_free i" "COMMA \<notin> set i"
    and si: "locateVerlist l (slave_listening_port c) k = Some si"
    and u: "locateVertice (svertices (l ! si)) (Some ctx) = Some (Some u)" "server_concurrent (svertices (l ! si)) u"
    and e: "op_ok (st (svertices (l ! si)) u) (message_edge c 0)"
  shows "\<exists>sv' l' c' ctx' w os. server_op sv c = Some (sv', c') \<and> sspacelist sv' = Some l' \<and>
    is_message c' i ctx' k \<and> flag_ufs c' = 1 \<and> op_ok R (message_edge c' 0) \<and> hub n k (op_apply (message_edge c' 0) R) l' \<and>
    path (svertices (l ! si)) 0 os w \<and> st (svertices (l ! si)) w = R \<and> mset (pieces COMMA ctx') = mset (INIT # os)"
proof -
  let ?vs = "svertices (l ! si)"
  obtain l' c' w es os and e' :: dedge where f: "server_op sv c = Some (sv\<lparr>sspacelist := Some l'\<rparr>, c')"
    "is_message c' i (add_oids (sdsnew ctx) es) k" "flag_ufs c' = 1" "op_ok R (message_edge c' 0)"
    "op_apply (message_edge c' 0) = op_apply e'" "hub n k (op_apply e' R) l'"
    "path ?vs 0 (os @ map oid es) w" "st ?vs w = R" "mset (pieces COMMA ctx) = mset (INIT # os)"
    by (rule server_op_full [OF assms])
  have s: "si < length l" "skey (l ! si) = k" using si by (auto simp: locateVerlist_def first_index_Some sdscmp_eq_0)
  have "oids_ok ?vs" using hub_at [OF h s] by (simp add: at_state_def)
  then have good: "good_oids (os @ map oid es)" by (rule path_good [OF f(7)])
  then have "pieces COMMA (add_oids (sdsnew ctx) es) = pieces COMMA ctx @ map oid es" by (rule context_extended [OF f(9)])
  then have "mset (pieces COMMA (add_oids (sdsnew ctx) es)) = mset (INIT # os @ map oid es)" using f(9) by simp
  moreover have "sspacelist (sv\<lparr>sspacelist := Some l'\<rparr>) = Some l'" by simp
  moreover have "hub n k (op_apply (message_edge c' 0) R) l'" using f(5,6) by simp
  ultimately show ?thesis using f(1-4,7,8) by blast
qed

section \<open>The spaces that uinit creates\<close>

lemma uinit_slaves_ok:
  assumes t: "top_vertice g = Some (new_vertice u)" "strlen u = n" "nul_free k" "0 < n" and len: "len \<in> {0, int n}"
  shows "uinit_slaves spaces ps len k g =
    Some (spaces @ map (\<lambda>p. \<lparr>skey = k, sid = p, slen_ufs = int n, svertices = [new_vertice u]\<rparr>) ps)"
  using len
proof (induction ps arbitrary: spaces len)
  case (Cons p ps)
  then show ?case
    using t by (auto simp: Let_def new_vertice_def createVerlist_def setVerlistUfsLen_def)
qed simp

lemma uinit_server_full:
  assumes sv: "\<not> masterhost sv" "slaves sv = Some ps" "distinct ps"
    and old: "\<forall>l. sspacelist sv = Some l \<longrightarrow> (\<forall>s \<in> set l. nul_free (skey s) \<and> skey s \<noteq> k)"
    and c: "argv c = [cmd, k, t]" and k: "nul_free k" and t: "initial_text t"
  shows "\<exists>sv' l u. uinitCommand sv c = Some (sv', confirm c) \<and> sspacelist sv' = Some l \<and> hub (length t) k (text_rel t) l \<and>
    (\<forall>p \<in> set ps. locateVerlist l p k \<noteq> None) \<and> masterhost sv' = masterhost sv \<and>
    text_of (length t) u \<and> text_rel u = text_rel t \<and> (\<forall>s \<in> set l. skey s = k \<longrightarrow> svertices s = [new_vertice u])"
proof -
  obtain g where g: "uinit_graph k t = Some g" "graph_fine g" "ufs_rel g = text_rel t" "key g = k"
    by (rule uinit_fine [OF t k])
  have "text_of (length t) t" using t by (simp add: text_of_def initial_text_def)
  then obtain u where u: "updateVerticeUfs g = Some u" "text_of (length t) u" "text_rel u = ufs_rel g"
    using state_printed [OF g(2), of "length t" t] g(3) by auto
  let ?o = "case sspacelist sv of None \<Rightarrow> [] | Some l \<Rightarrow> l"
  let ?s = "\<lambda>p. \<lparr>skey = k, sid = p, slen_ufs = int (length t), svertices = [new_vertice u]\<rparr>"
  let ?l = "?o @ map ?s ps"
  have tu: "length u = length t" "text_ok u" using u(2) by (simp_all add: text_of_def ufs_text_def)
  have "nul_free u" by (rule text_cases [OF tu(2)]) (simp add: nul_free_state state_ok_def)
  then have lu: "strlen u = length t" using tu(1) by (simp add: strlen_eq)
  have "u \<noteq> []" by (rule text_cases [OF tu(2)]) (simp add: show_not_Nil)
  then have pos: "0 < length t" using tu(1) by auto
  have "top_vertice g = Some (new_vertice u)" using u(1) by (simp add: top_vertice_def createVertice_def new_vertice_def)
  then have run: "uinit_slaves ?o ps 0 k g = Some ?l" by (rule uinit_slaves_ok [OF _ lu k pos]) simp
  have at: "at_state (length t) (text_rel t) [new_vertice u]"
  proof -
    have "space_ok (length t) [new_vertice u]" "oids_ok [new_vertice u]" "st [new_vertice u] 0 = text_rel t"
      using u(2,3) g(3) by (auto simp: space_ok_def oids_ok_def st_def new_vertice_def)
    moreover have "locateLVertice [new_vertice u] 0 = Some 0"
      by (subst locateLVertice.simps) (simp add: vget_def new_vertice_def)
    ultimately show ?thesis by (simp add: at_state_def)
  qed
  have o: "nul_free (skey s)" "skey s \<noteq> k" if "s \<in> set ?o" for s
    using that old by (cases "sspacelist sv"; simp)+
  have idx: "length ?o \<le> i" "sid (?l ! i) = ps ! (i - length ?o)" if "i < length ?l" "skey (?l ! i) = k" for i
  proof -
    show "length ?o \<le> i" using that(2) o(2) nth_mem by (metis linorder_not_less nth_append)
    then show "sid (?l ! i) = ps ! (i - length ?o)" using that(1) by (simp add: nth_append)
  qed
  have "hub (length t) k (text_rel t) ?l"
    unfolding hub_def
  proof (intro conjI ballI allI impI)
    fix s assume "s \<in> set ?l"
    then show "nul_free (skey s)" using o(1) k by auto
  next
    fix s assume s: "s \<in> set ?l" "skey s = k"
    then have "s \<notin> set ?o" using o(2) by blast
    then obtain p where "s = ?s p" using s(1) by (simp only: set_append set_map Un_iff) blast
    then show "slen_ufs s = int (length t)" "at_state (length t) (text_rel t) (svertices s)" using at by simp_all
  next
    fix i j assume i: "i < length ?l" and j: "j < length ?l"
      and ij: "skey (?l ! i) = k \<and> skey (?l ! j) = k \<and> sid (?l ! i) = sid (?l ! j)"
    note I = idx [OF i conjunct1 [OF ij]] and J = idx [OF j conjunct1 [OF conjunct2 [OF ij]]]
    have "i - length ?o < length ps" "j - length ?o < length ps" using i j I(1) J(1) by simp_all
    then have "i - length ?o = j - length ?o" using ij I(2) J(2) sv(3) by (simp add: nth_eq_iff_index_eq)
    then show "i = j" using I(1) J(1) by simp
  qed
  moreover have "locateVerlist ?l p k \<noteq> None" if "p \<in> set ps" for p
  proof -
    have "?s p \<in> set ?l" using that by simp
    moreover have "sid (?s p) = p \<and> sdscmp (skey (?s p)) k = 0" by (simp add: sdscmp_eq_0)
    ultimately show ?thesis unfolding locateVerlist_def first_index_None by blast
  qed
  moreover have "uinitCommand sv c = Some (sv\<lparr>ufslist := Some ((case ufslist sv of None \<Rightarrow> [] | Some l \<Rightarrow> l) @ [g]), sspacelist := Some ?l\<rparr>, confirm c)"
    using g(1) c sv(1,2) run by (simp add: uinitCommand_def arg_def uinit_server_def Let_def)
  moreover have "\<forall>s \<in> set ?l. skey s = k \<longrightarrow> svertices s = [new_vertice u]"
  proof (intro ballI impI)
    fix s assume s: "s \<in> set ?l" "skey s = k"
    then have "s \<notin> set ?o" using o(2) by blast
    then obtain p where "s = ?s p" using s(1) by (simp only: set_append set_map Un_iff) blast
    then show "svertices s = [new_vertice u]" by simp
  qed
  moreover have "text_of (length t) u" "text_rel u = text_rel t" using u(2,3) g(3) by simp_all
  ultimately show ?thesis by (intro exI [of _ u] exI conjI ballI) (assumption | simp)+
qed

lemma uinit_server_ok:
  assumes sv: "\<not> masterhost sv" "slaves sv = Some ps" "distinct ps"
    and old: "\<forall>l. sspacelist sv = Some l \<longrightarrow> (\<forall>s \<in> set l. nul_free (skey s) \<and> skey s \<noteq> k)"
    and c: "argv c = [cmd, k, t]" and k: "nul_free k" and t: "initial_text t"
  shows "\<exists>sv' l. uinitCommand sv c = Some (sv', confirm c) \<and> sspacelist sv' = Some l \<and> hub (length t) k (text_rel t) l \<and>
    (\<forall>p \<in> set ps. locateVerlist l p k \<noteq> None)"
  using uinit_server_full [OF assms] by blast

section \<open>Properties\<close>

text \<open>
  C6. The server processes an operation of a client without undefined behaviour. If all spaces of a
  structure are in the same state, and the operation is valid at the vertex of its context, from which
  the operations of the other clients lead to the last vertex of the sender's space, then the server
  transforms the operation past those, records the result in all spaces, so that they are again all in
  the same state, and forwards a command with the same identifier that is valid in the previous state
  of the server and carries a context of that state.
\<close>

theorem server_operation_correct:
  assumes "\<not> masterhost sv" "sspacelist sv = Some l" "hub n k R l" "nul_free k" "is_message c i ctx k"
    "i \<noteq> []" "nul_free i" "COMMA \<notin> set i" "locateVerlist l (slave_listening_port c) k = Some si"
    "locateVertice (svertices (l ! si)) (Some ctx) = Some (Some u)" "server_concurrent (svertices (l ! si)) u"
    "op_ok (st (svertices (l ! si)) u) (message_edge c 0)"
  shows "\<exists>sv' l' c' ctx' w os. controlAlg sv c = Some (sv', c') \<and> sspacelist sv' = Some l' \<and>
    is_message c' i ctx' k \<and> flag_ufs c' = 1 \<and> op_ok R (message_edge c' 0) \<and> hub n k (op_apply (message_edge c' 0) R) l' \<and>
    path (svertices (l ! si)) 0 os w \<and> st (svertices (l ! si)) w = R \<and> mset (pieces COMMA ctx') = mset (INIT # os)"
  using server_op_ok [OF assms(2-12)] assms(1) by (simp add: controlAlg_def)

definition sample_hub :: "verlist list" where
  "sample_hub = map (\<lambda>p. \<lparr>skey = ''k'', sid = p, slen_ufs = 3, svertices = [new_vertice ''a/b'']\<rparr>) [6380, 6381]"

definition sample_master :: server where
  "sample_master = \<lparr>masterhost = False, port = 6379, slaves = Some [6380, 6381], ufslist = None, cspacelist = None,
     sspacelist = Some sample_hub, op_num = 0\<rparr>"

lemma sample_hub_ok: "hub 3 ''k'' (text_rel ''a/b'') sample_hub"
proof -
  have "at_state 3 (text_rel ''a/b'') [new_vertice ''a/b'']"
  proof -
    have "space_ok 3 [new_vertice ''a/b'']" "oids_ok [new_vertice ''a/b'']" "st [new_vertice ''a/b''] 0 = text_rel ''a/b''"
      using sample_text_of by (auto simp: space_ok_def oids_ok_def st_def new_vertice_def)
    moreover have "locateLVertice [new_vertice ''a/b''] 0 = Some 0"
      by (subst locateLVertice.simps) (simp add: vget_def new_vertice_def)
    ultimately show ?thesis by (simp add: at_state_def)
  qed
  then show ?thesis by (auto simp: hub_def sample_hub_def nul_free_def less_Suc_eq)
qed

theorem server_operation_correct_witness:
  "\<exists>sv' l' c' ctx'. controlAlg sample_master ((sample_client [UNION, ''a'', ''b'', ''1_1'', INIT, ''k''] False)\<lparr>slave_listening_port := 6380\<rparr>) =
      Some (sv', c') \<and> sspacelist sv' = Some l' \<and> is_message c' ''1_1'' ctx' ''k'' \<and>
    hub 3 ''k'' (op_apply (message_edge c' 0) (text_rel ''a/b'')) l'"
proof -
  let ?c = "(sample_client [UNION, ''a'', ''b'', ''1_1'', INIT, ''k''] False)\<lparr>slave_listening_port := 6380\<rparr>"
  let ?vs = "[new_vertice ''a/b'']"
  have l: "locateVerlist sample_hub 6380 ''k'' = Some 0" "svertices (sample_hub ! 0) = ?vs"
    by (simp_all add: locateVerlist_def sample_hub_def sdscmp_eq_0)
  have "locateRVertice_loop ?vs 0 INIT INIT = Some (Some 0)"
    by (subst locateRVertice_loop.simps) (simp add: streq_def)
  then have v: "locateVertice ?vs (Some INIT) = Some (Some 0)" by (simp add: locateVertice_def locateRVertice_def)
  have "locateLVertice ?vs 0 = Some 0"
    by (subst locateLVertice.simps) (simp add: vget_def new_vertice_def)
  moreover have "chain_path (get_redge ?vs) 0 [] 0" by (rule here) (simp add: space_access new_vertice_def)
  ultimately have "server_concurrent ?vs 0" unfolding server_concurrent_def by blast
  moreover have "op_ok (st ?vs 0) (message_edge ?c 0)"
    by (simp add: op_ok_def message_edge_def createOpEdge_def st_def new_vertice_def sample_arg sample_texts)
  moreover have "is_message ?c ''1_1'' INIT ''k''" by (simp add: is_message_def)
  ultimately show ?thesis
    using server_operation_correct [OF _ _ sample_hub_ok, of sample_master ?c "''1_1''" INIT 0 0] l v
    by (simp add: sample_master_def nul_free_def) blast
qed

text \<open>
  C10. \<^verbatim>\<open>uinit\<close> at the server creates one space for each connected client, all in the state of the given
  text, so that the invariant of the server holds and the operations of each client find their space.
\<close>

theorem uinit_establishes_hub:
  assumes "\<not> masterhost sv" "slaves sv = Some ps" "distinct ps"
    "\<forall>l. sspacelist sv = Some l \<longrightarrow> (\<forall>s \<in> set l. nul_free (skey s) \<and> skey s \<noteq> k)"
    "argv c = [cmd, k, t]" "nul_free k" "initial_text t"
  shows "\<exists>sv' l. uinitCommand sv c = Some (sv', confirm c) \<and> sspacelist sv' = Some l \<and> hub (length t) k (text_rel t) l \<and>
    (\<forall>p \<in> set ps. locateVerlist l p k \<noteq> None)"
  by (rule uinit_server_ok) (fact assms)+

theorem uinit_establishes_hub_witness:
  "\<exists>sv' l. uinitCommand sample_master (sample_client [''uinit'', ''z'', ''a/b''] False) =
      Some (sv', confirm (sample_client [''uinit'', ''z'', ''a/b''] False)) \<and>
    sspacelist sv' = Some l \<and> hub (length ''a/b'') ''z'' (text_rel ''a/b'') l \<and>
    (\<forall>p \<in> set [6380, 6381]. locateVerlist l p ''z'' \<noteq> None)"
  by (rule uinit_establishes_hub [OF _ _ _ _ _ _ sample_initial])
    (simp_all add: sample_master_def sample_hub_def nul_free_def)

end
