(* ===== verification/Util_Num.thy ===== *)
theory Util_Num
  imports Sds
begin

text \<open>
  The conversions between integers and decimal text of \<^verbatim>\<open>src/util.c\<close>, which the protocol and the
  replication link use: \<^verbatim>\<open>digits10\<close>, \<^verbatim>\<open>sdigits10\<close>, \<^verbatim>\<open>ll2string\<close>, \<^verbatim>\<open>string2ll\<close>,
  \<^verbatim>\<open>string2l\<close>. The caller's buffer is a list of bytes; a write outside of it is \<^const>\<open>None\<close>. Unsigned
  64-bit values are natural numbers, with the reduction written out where the code could overflow.
  Shown is that the fast printing routine writes the decimal text inside of the buffer, and that the
  parser accepts exactly the texts it writes.
\<close>

section \<open>Model\<close>

definition ULLONG_MAX :: nat where
  "ULLONG_MAX = 2 ^ 64 - 1"

fun digits10 :: "nat \<Rightarrow> nat" where
  "digits10 v =
     (if v < 10 then 1
      else if v < 100 then 2
      else if v < 1000 then 3
      else if v < 1000000000000 then
        if v < 100000000 then
          if v < 1000000 then
            if v < 10000 then 4 else 5 + of_bool (100000 \<le> v)
          else 7 + of_bool (10000000 \<le> v)
        else if v < 10000000000 then 9 + of_bool (1000000000 \<le> v)
        else 11 + of_bool (100000000000 \<le> v)
      else 12 + digits10 (v div 1000000000000))"

declare digits10.simps [simp del]

definition magnitude :: "int \<Rightarrow> nat" where
  "magnitude v = (if v \<noteq> LLONG_MIN then nat (- v) else nat LLONG_MAX + 1)"

definition sdigits10 :: "int \<Rightarrow> nat" where
  "sdigits10 v = (if v < 0 then digits10 (magnitude v) + 1 else digits10 (nat v))"

text \<open>The table of the two-digit numbers.\<close>

definition digits :: string where
  "digits = ''0001020304050607080910111213141516171819'' @
     ''2021222324252627282930313233343536373839'' @
     ''4041424344454647484950515253545556575859'' @
     ''6061626364656667686970717273747576777879'' @
     ''8081828384858687888990919293949596979899''"

definition wr :: "string \<Rightarrow> int \<Rightarrow> char \<Rightarrow> string option" where
  "wr b i c = (if 0 \<le> i \<and> i < int (length b) then Some (b[nat i := c]) else None)"

definition wr_pair :: "string \<Rightarrow> int \<Rightarrow> nat \<Rightarrow> string option" where
  "wr_pair dst pos v = do {
     dst1 \<leftarrow> wr dst pos (digits ! (2 * v + 1));
     wr dst1 (pos - 1) (digits ! (2 * v))
   }"

fun ll2string_loop :: "string \<Rightarrow> int \<Rightarrow> nat \<Rightarrow> string option" where
  "ll2string_loop dst pos value =
     (if 100 \<le> value then do {
        dst' \<leftarrow> wr_pair dst pos (value mod 100);
        ll2string_loop dst' (pos - 2) (value div 100)
      }
      else if value < 10 then wr dst pos (digit_char value)
      else wr_pair dst pos value)"

declare ll2string_loop.simps [simp del]

definition ll2string :: "string \<Rightarrow> nat \<Rightarrow> int \<Rightarrow> (nat \<times> string) option" where
  "ll2string dst dstlen svalue =
     (let negative = of_bool (svalue < 0);
          value = (if svalue < 0 then magnitude svalue else nat svalue);
          len = digits10 value + negative
      in if dstlen \<le> len then Some (0, dst)
         else do {
           dst1 \<leftarrow> wr dst (int len) (CHR 0x00);
           dst2 \<leftarrow> ll2string_loop dst1 (int len - 1) value;
           dst3 \<leftarrow> (if svalue < 0 then wr dst2 0 (CHR ''-'') else Some dst2);
           Some (len, dst3)
         })"

text \<open>\<^verbatim>\<open>string2ll\<close> gets the bytes it may read; \<^const>\<open>None\<close> is the return value 0.\<close>

definition digit_val :: "char \<Rightarrow> nat" where
  "digit_val c = of_char c - 48"

fun string2ll_loop :: "nat \<Rightarrow> string \<Rightarrow> (nat \<times> string) option" where
  "string2ll_loop v [] = Some (v, [])"
| "string2ll_loop v (c # cs) =
     (if is_digit c then
        if ULLONG_MAX div 10 < v then None
        else
          let v1 = (v * 10) mod 2 ^ 64 in
          if ULLONG_MAX - digit_val c < v1 then None
          else string2ll_loop ((v1 + digit_val c) mod 2 ^ 64) cs
      else Some (v, c # cs))"

definition string2ll :: "string \<Rightarrow> int option" where
  "string2ll s =
     (if s = [] then None
      else if s = ''0'' then Some 0
      else
        let negative = (hd s = CHR ''-'');
            p = (if negative then tl s else s)
        in if p = [] then None
           else if is_digit (hd p) \<and> hd p \<noteq> CHR ''0'' then do {
             (v, rest) \<leftarrow> string2ll_loop (digit_val (hd p)) (tl p);
             if rest \<noteq> [] then None
             else if negative then (if v > nat (- (LLONG_MIN + 1)) + 1 then None else Some (- int v))
             else if int v > LLONG_MAX then None
             else Some (int v)
           }
           else None)"

text \<open>On the 64-bit targets \<^verbatim>\<open>long\<close> and \<^verbatim>\<open>long long\<close> have the same range.\<close>

definition string2l :: "string \<Rightarrow> int option" where
  "string2l s = do {
     v \<leftarrow> string2ll s;
     if v < LLONG_MIN \<or> v > LLONG_MAX then None else Some v
   }"

section \<open>Decimal text\<close>

definition ll_text :: "int \<Rightarrow> string" where
  "ll_text v = (if v < 0 then CHR ''-'' # rev (ull_digits (nat (- v))) else rev (ull_digits (nat v)))"

definition ll_range :: "int \<Rightarrow> bool" where
  "ll_range v \<longleftrightarrow> LLONG_MIN \<le> v \<and> v \<le> LLONG_MAX"

lemma magnitude_eq: "ll_range v \<Longrightarrow> v < 0 \<Longrightarrow> magnitude v = nat (- v)"
  by (auto simp: magnitude_def ll_range_def LLONG_MIN_def LLONG_MAX_def)

text \<open>The cascade of comparisons counts the digits.\<close>

lemma length_ull_digits_iff:
  assumes "0 < k"
  shows "length (ull_digits v) \<le> k \<longleftrightarrow> v < 10 ^ k"
  using assms
proof (induction v arbitrary: k rule: ull_digits.induct)
  case (1 v)
  obtain k' where k: "k = Suc k'" using "1.prems" by (cases k) auto
  show ?case
  proof (cases "v div 10 = 0")
    case True
    then have "v < 10" by (simp add: div_eq_0_iff)
    moreover have "(10::nat) \<le> 10 ^ k" using k by simp
    ultimately have "v < 10 ^ k" by (rule less_le_trans)
    then show ?thesis using True k by (subst ull_digits.simps) simp
  next
    case False
    show ?thesis
    proof (cases "k' = 0")
      case True
      then show ?thesis using False k by (subst ull_digits.simps) simp
    next
      case kp: False
      have "length (ull_digits (v div 10)) \<le> k' \<longleftrightarrow> v div 10 < 10 ^ k'" using 1(1) [OF False] kp by simp
      then show ?thesis using False k by (subst ull_digits.simps) (simp add: div_less_iff_less_mult mult.commute)
    qed
  qed
qed

lemma length_ull_digits_eq:
  assumes "10 ^ k \<le> v" "v < 10 ^ Suc k"
  shows "length (ull_digits v) = Suc k"
proof (cases "k = 0")
  case True
  then show ?thesis using assms by (subst ull_digits.simps) simp
next
  case False
  then show ?thesis using length_ull_digits_iff [of k v] length_ull_digits_iff [of "Suc k" v] assms by simp
qed

lemma length_ull_digits_div:
  assumes "10 ^ k \<le> v"
  shows "length (ull_digits v) = k + length (ull_digits (v div 10 ^ k))"
  using assms
proof (induction k arbitrary: v)
  case (Suc k)
  then have k: "10 ^ k \<le> v div 10" by (simp add: less_eq_div_iff_mult_less_eq mult.commute)
  then have "v div 10 \<noteq> 0" by (metis not_one_le_zero one_le_numeral one_le_power order_trans)
  note this k
  then show ?case using Suc.IH [of "v div 10"] by (subst ull_digits.simps) (simp add: div_mult2_eq)
qed simp

lemma digits10_eq: "digits10 v = length (ull_digits v)"
proof (induction v rule: digits10.induct)
  case (1 v)
  show ?case
  proof (cases "v < 1000000000000")
    case True
    have one: "v < 10 \<Longrightarrow> length (ull_digits v) = 1" by (subst ull_digits.simps) simp
    note len = length_ull_digits_eq [of _ v]
    note lens = one len [of 1, simplified] len [of 2, simplified] len [of 3, simplified] len [of 4, simplified]
      len [of 5, simplified] len [of 6, simplified] len [of 7, simplified] len [of 8, simplified] len [of 9, simplified]
      len [of 10, simplified] len [of 11, simplified]
    show ?thesis using True by (subst digits10.simps) (simp add: lens)
  next
    case False
    then show ?thesis
      using 1 length_ull_digits_div [of 12 v] by (subst digits10.simps) simp
  qed
qed
section \<open>Printing\<close>

lemma digit_chars: "map digit_char [0, 1, 2, 3, 4, 5, 6, 7, 8, 9] = ''0123456789''"
  unfolding digit_char_def by code_simp

lemma digits_list: "digits = concat (map (\<lambda>v. [digit_char (v div 10), digit_char (v mod 10)]) [0..<100])"
  using digit_chars by (simp add: digits_def upt_conv_Cons numeral_2_eq_2 [symmetric])

lemma nth_pairs:
  "v < n \<Longrightarrow> concat (map (\<lambda>v. [f v, g v]) [0..<n]) ! (2 * v) = f v \<and> concat (map (\<lambda>v. [f v, g v]) [0..<n]) ! Suc (2 * v) = g v"
proof (induction n)
  case (Suc n)
  have "length (concat (map (\<lambda>v. [f v, g v]) [0..<n])) = 2 * n" by (induction n) auto
  then show ?case using Suc by (cases "v = n") (auto simp: nth_append)
qed simp

lemma wr_pair_eq:
  assumes "v < 100"
  shows "wr_pair (xs @ [a, b] @ zs) (int (length xs + 1)) v = Some (xs @ [digit_char (v div 10), digit_char (v mod 10)] @ zs)"
proof -
  have "digits ! (2 * v) = digit_char (v div 10)" "digits ! Suc (2 * v) = digit_char (v mod 10)"
    using nth_pairs [OF assms, of "\<lambda>v. digit_char (v div 10)" "\<lambda>v. digit_char (v mod 10)"] by (simp_all only: digits_list)
  then show ?thesis by (simp add: wr_pair_def wr_def nat_add_distrib list_update_append)
qed

lemma ull_digits_two:
  assumes "10 \<le> v"
  shows "ull_digits v = digit_char (v mod 10) # ull_digits (v div 10)"
  using assms by (subst ull_digits.simps) (simp add: div_eq_0_iff)

lemma ull_digits_one: "v < 10 \<Longrightarrow> ull_digits v = [digit_char v]"
  by (subst ull_digits.simps) simp

lemma length_two: "Suc (Suc n) = length ys \<Longrightarrow> \<exists>ys' a b. ys = ys' @ [a, b] \<and> length ys' = n"
  by (cases ys rule: rev_cases; cases "butlast ys" rule: rev_cases) auto

lemma ll2string_loop_eq:
  "length ys = length (ull_digits v) \<Longrightarrow>
    ll2string_loop (xs @ ys @ zs) (int (length (xs @ ys)) - 1) v = Some (xs @ rev (ull_digits v) @ zs)"
proof (induction "xs @ ys @ zs" "int (length (xs @ ys)) - 1" v arbitrary: ys zs rule: ll2string_loop.induct)
  case (1 v)
  show ?case
  proof (cases "v < 10")
    case True
    then obtain y where y: "ys = [y]" using 1(2) by (auto simp: ull_digits_one length_Suc_conv)
    show ?thesis using True by (subst ll2string_loop.simps) (simp add: y wr_def ull_digits_one list_update_append)
  next
    case False
    then have d: "ull_digits v = digit_char (v mod 10) # ull_digits (v div 10)" by (simp add: ull_digits_two)
    show ?thesis
    proof (cases "v < 100")
      case True
      then have d2: "ull_digits (v div 10) = [digit_char (v div 10)]" by (intro ull_digits_one) simp
      then obtain y z where y: "ys = [y, z]" using 1(2) d by (auto simp: length_Suc_conv)
      show ?thesis
        using False True d d2 wr_pair_eq [OF True, of xs y z zs]
        by (subst ll2string_loop.simps) (simp add: y add.commute)
    next
      case big: False
      have d2: "ull_digits (v div 10) = digit_char (v div 10 mod 10) # ull_digits (v div 100)"
        using big ull_digits_two [of "v div 10"] by (simp add: div_mult2_eq [symmetric])
      then obtain ys' y z where y: "ys = ys' @ [y, z]" "length ys' = length (ull_digits (v div 100))"
        using length_two [of "length (ull_digits (v div 100))" ys] 1(2) d by auto
      let ?p = "[digit_char (v mod 100 div 10), digit_char (v mod 100 mod 10)]"
      have w: "wr_pair (xs @ ys @ zs) (int (length (xs @ ys)) - 1) (v mod 100) = Some (xs @ ys' @ ?p @ zs)"
        using wr_pair_eq [of "v mod 100" "xs @ ys'" y z zs] by (simp add: y(1) algebra_simps)
      have "v mod 100 = 10 * (v div 10 mod 10) + v mod 10" using mod_mult2_eq [of v 10 10] by simp
      then have m: "v mod 100 div 10 = v div 10 mod 10" "v mod 100 mod 10 = v mod 10" by simp_all
      have "ll2string_loop (xs @ ys' @ ?p @ zs) (int (length (xs @ ys')) - 1) (v div 100) =
          Some (xs @ rev (ull_digits (v div 100)) @ ?p @ zs)"
        by (rule 1(1) [OF _ w]) (use big y in simp_all)
      moreover have "int (length (xs @ ys)) - 1 - 2 = int (length (xs @ ys')) - 1" using y(1) by simp
      ultimately show ?thesis using big w d d2 m by (subst ll2string_loop.simps) simp
    qed
  qed
qed

lemma length_ll_text: "ll_range v \<Longrightarrow> length (ll_text v) = sdigits10 v"
  by (simp add: ll_text_def sdigits10_def digits10_eq magnitude_eq)

lemma ll2string_eq:
  assumes v: "ll_range v" and dst: "dst = xs @ b # ys" "length xs = length (ll_text v)" and len: "length (ll_text v) < dstlen"
  shows "ll2string dst dstlen v = Some (length (ll_text v), ll_text v @ CHR 0x00 # ys)"
proof (cases "v < 0")
  case True
  let ?d = "ull_digits (nat (- v))"
  obtain x zs where xs: "xs = x # zs" "length zs = length ?d"
    using dst(2) True by (cases xs) (auto simp: ll_text_def)
  have l: "length (ll_text v) = Suc (length ?d)" using True by (simp add: ll_text_def)
  have w: "wr dst (int (Suc (length ?d))) (CHR 0x00) = Some ([x] @ zs @ CHR 0x00 # ys)"
    using xs by (simp add: dst(1) wr_def nat_add_distrib list_update_append)
  have "ll2string_loop ([x] @ zs @ CHR 0x00 # ys) (int (length ?d)) (nat (- v)) = Some ([x] @ rev ?d @ CHR 0x00 # ys)"
    using ll2string_loop_eq [OF xs(2), of "[x]" "CHR 0x00 # ys"] xs(2) by simp
  then show ?thesis
    using w True len l by (simp add: ll2string_def Let_def magnitude_eq [OF v True] digits10_eq wr_def ll_text_def)
next
  case False
  let ?d = "ull_digits (nat v)"
  have l: "length (ll_text v) = length ?d" using False by (simp add: ll_text_def)
  have w: "wr dst (int (length ?d)) (CHR 0x00) = Some ([] @ xs @ CHR 0x00 # ys)"
    using dst(2) l by (simp add: dst(1) wr_def list_update_append)
  have "ll2string_loop ([] @ xs @ CHR 0x00 # ys) (int (length ?d) - 1) (nat v) = Some ([] @ rev ?d @ CHR 0x00 # ys)"
    using ll2string_loop_eq [of xs "nat v" "[]" "CHR 0x00 # ys"] dst(2) l by simp
  then show ?thesis using w False len l by (simp add: ll2string_def Let_def digits10_eq ll_text_def)
qed

lemma ll2string_room:
  assumes v: "ll_range v" and dst: "dstlen \<le> length dst" and len: "length (ll_text v) < dstlen"
  shows "ll2string dst dstlen v = Some (length (ll_text v), ll_text v @ CHR 0x00 # drop (Suc (length (ll_text v))) dst)"
proof -
  let ?n = "length (ll_text v)"
  have "dst = take ?n dst @ dst ! ?n # drop (Suc ?n) dst" using dst len by (intro id_take_nth_drop) simp
  then show ?thesis by (rule ll2string_eq [OF v _ _ len]) (use dst len in simp)
qed

lemma ll2string_no_room: "ll_range v \<Longrightarrow> dstlen \<le> length (ll_text v) \<Longrightarrow> ll2string dst dstlen v = Some (0, dst)"
  by (auto simp: ll2string_def Let_def digits10_eq magnitude_eq ll_text_def)

section \<open>Parsing\<close>

lemma ULLONG_MAX_div: "ULLONG_MAX div 10 = 1844674407370955161" "ULLONG_MAX = 18446744073709551615"
  by (simp_all add: ULLONG_MAX_def)

lemma digit_val_le: "is_digit c \<Longrightarrow> digit_val c \<le> 9"
  unfolding is_digit_def digit_val_def by linarith

definition dec_from :: "nat \<Rightarrow> string \<Rightarrow> nat" where
  "dec_from v s = foldl (\<lambda>a c. 10 * a + digit_val c) v s"

lemma dec_from_simps [simp]: "dec_from v [] = v" "dec_from v (c # s) = dec_from (10 * v + digit_val c) s"
  by (simp_all add: dec_from_def)

lemma dec_from_ge: "v \<le> dec_from v s"
proof (induction s arbitrary: v)
  case (Cons c s)
  have "v \<le> 10 * v + digit_val c" by simp
  also have "\<dots> \<le> dec_from v (c # s)" using Cons [of "10 * v + digit_val c"] by simp
  finally show ?case .
qed simp

text \<open>The overflow checks reject exactly the values above the maximum, and no reduction ever happens.\<close>

lemma string2ll_loop_eq:
  assumes "v \<le> ULLONG_MAX"
  shows "string2ll_loop v s =
    (let d = takeWhile is_digit s in if dec_from v d \<le> ULLONG_MAX then Some (dec_from v d, dropWhile is_digit s) else None)"
  using assms
proof (induction s arbitrary: v)
  case (Cons c s)
  show ?case
  proof (cases "is_digit c")
    case True
    let ?v = "10 * v + digit_val c"
    note d = digit_val_le [OF True]
    show ?thesis
    proof (cases "?v \<le> ULLONG_MAX")
      case ok: True
      then have "(v * 10) mod 2 ^ 64 = v * 10" "(v * 10 + digit_val c) mod 2 ^ 64 = ?v" unfolding ULLONG_MAX_div by simp_all
      moreover have "\<not> ULLONG_MAX div 10 < v" "\<not> ULLONG_MAX - digit_val c < v * 10"
        using ok unfolding ULLONG_MAX_div by linarith+
      ultimately have "string2ll_loop v (c # s) = string2ll_loop ?v s"
        using True unfolding string2ll_loop.simps Let_def by simp
      then show ?thesis using Cons.IH [OF ok] True by (simp add: Let_def)
    next
      case False
      then have "\<not> dec_from v (takeWhile is_digit (c # s)) \<le> ULLONG_MAX"
        using dec_from_ge [of ?v "takeWhile is_digit s"] True by simp
      moreover have "string2ll_loop v (c # s) = None"
      proof (cases "ULLONG_MAX div 10 < v")
        case le: False
        then have "(v * 10) mod 2 ^ 64 = v * 10" unfolding ULLONG_MAX_div by simp
        moreover have "ULLONG_MAX - digit_val c < v * 10" using False d unfolding ULLONG_MAX_div by linarith
        ultimately show ?thesis using True le unfolding string2ll_loop.simps Let_def by simp
      qed (use True in simp)
      ultimately show ?thesis by (simp add: Let_def)
    qed
  qed (use Cons.prems in simp)
qed simp

lemma zero_char [simp]: "digit_char 0 = CHR ''0''"
  using digit_chars by simp

lemma digit_char_val: "is_digit c \<Longrightarrow> digit_char (digit_val c) = c"
  by (simp add: is_digit_def digit_val_def digit_char_def)

lemma digit_val_pos: "is_digit c \<Longrightarrow> c \<noteq> CHR ''0'' \<Longrightarrow> 0 < digit_val c"
  using digit_char_val [of c] by (cases "digit_val c") auto

lemma dec_val_from: "dec_val s = dec_from 0 s"
  by (simp add: dec_val_def dec_from_def digit_val_def)

lemma dec_val_pos: "s \<noteq> [] \<Longrightarrow> is_digit (hd s) \<Longrightarrow> hd s \<noteq> CHR ''0'' \<Longrightarrow> 0 < dec_val s"
  using dec_from_ge [of "digit_val (hd s)" "tl s"] digit_val_pos [of "hd s"] by (cases s) (auto simp: dec_val_from)

lemma canonical_digits:
  assumes "s \<noteq> []" "\<forall>c \<in> set s. is_digit c" "hd s \<noteq> CHR ''0''"
  shows "rev (ull_digits (dec_val s)) = s"
  using assms
proof (induction s rule: rev_induct)
  case (snoc c s)
  have c: "is_digit c" using snoc.prems(2) by simp
  have v: "dec_val (s @ [c]) = 10 * dec_val s + digit_val c" by (simp add: digit_val_def)
  note d = digit_val_le [OF c] digit_char_val [OF c]
  show ?case
  proof (cases "s = []")
    case True
    then show ?thesis using v d by (simp add: ull_digits_one)
  next
    case False
    then have s: "hd s \<noteq> CHR ''0''" "\<forall>c \<in> set s. is_digit c" using snoc.prems by simp_all
    then have "0 < dec_val s" using False dec_val_pos [OF False] by simp
    then have "ull_digits (dec_val (s @ [c])) = c # ull_digits (dec_val s)"
      unfolding v using d by (subst ull_digits_two) simp_all
    then show ?thesis using snoc.IH [OF False s(2,1)] by simp
  qed
qed simp

lemma last_ull_digits: "0 < v \<Longrightarrow> last (ull_digits v) \<noteq> CHR ''0''"
proof (induction v rule: ull_digits.induct)
  case (1 v)
  show ?case
  proof (cases "v < 10")
    case True
    have "digit_val (CHR ''0'') = 0" by (simp add: digit_val_def)
    moreover have "digit_val (digit_char v) = v" using True by (simp add: digit_val_def)
    ultimately show ?thesis using True 1(2) by (auto simp: ull_digits_one)
  next
    case False
    then show ?thesis using 1(1) by (simp add: ull_digits_two div_eq_0_iff)
  qed
qed

lemma natural_text:
  "p \<noteq> [] \<and> hd p \<noteq> CHR ''0'' \<and> (\<forall>c \<in> set p. is_digit c) \<and> dec_val p = v \<longleftrightarrow> 0 < v \<and> p = rev (ull_digits v)"
proof
  assume a: "p \<noteq> [] \<and> hd p \<noteq> CHR ''0'' \<and> (\<forall>c \<in> set p. is_digit c) \<and> dec_val p = v"
  then show "0 < v \<and> p = rev (ull_digits v)"
    using canonical_digits [of p] dec_val_pos [of p] by auto
next
  assume "0 < v \<and> p = rev (ull_digits v)"
  then show "p \<noteq> [] \<and> hd p \<noteq> CHR ''0'' \<and> (\<forall>c \<in> set p. is_digit c) \<and> dec_val p = v"
    using last_ull_digits [of v] ull_digits_digits [of _ v] by (simp add: hd_rev dec_val_rev_ull_digits)
qed

lemma loop_accepts:
  assumes "p \<noteq> []" "is_digit (hd p)"
  shows "string2ll_loop (digit_val (hd p)) (tl p) = Some (v, []) \<longleftrightarrow>
    (\<forall>c \<in> set p. is_digit c) \<and> dec_val p = v \<and> v \<le> ULLONG_MAX"
proof -
  obtain c t where p: "p = c # t" using assms(1) by (cases p) auto
  have "digit_val c \<le> ULLONG_MAX" using digit_val_le [of c] assms(2) p by (simp add: ULLONG_MAX_div)
  then have "string2ll_loop (digit_val c) t = Some (v, []) \<longleftrightarrow>
      (\<forall>c \<in> set t. is_digit c) \<and> dec_from (digit_val c) (takeWhile is_digit t) = v \<and> v \<le> ULLONG_MAX"
    by (subst string2ll_loop_eq) (auto simp: Let_def dropWhile_eq_Nil_conv)
  then show ?thesis using p assms(2) by (auto simp: dec_val_from takeWhile_eq_all_conv [THEN iffD2])
qed

lemma string2ll_natural:
  assumes "p \<noteq> []" "is_digit (hd p)" "hd p \<noteq> CHR ''0''"
  shows "string2ll_loop (digit_val (hd p)) (tl p) = Some (v, []) \<longleftrightarrow> 0 < v \<and> p = rev (ull_digits v) \<and> v \<le> ULLONG_MAX"
  using loop_accepts [OF assms(1,2)] natural_text [of p v] assms by blast

lemma minus_not_digit: "\<not> is_digit (CHR ''-'')"
  by (simp add: is_digit_def)

lemma LL_consts: "LLONG_MIN = - 9223372036854775808" "LLONG_MAX = 9223372036854775807"
  by (simp_all add: LLONG_MIN_def LLONG_MAX_def)

lemma ll_text_simps:
  "ll_text 0 = ''0''" "0 < v \<Longrightarrow> ll_text (int v) = rev (ull_digits v)" "0 < v \<Longrightarrow> ll_text (- int v) = CHR ''-'' # rev (ull_digits v)"
  by (simp_all add: ll_text_def ull_digits_one)

lemma string2ll_sound:
  assumes "string2ll s = Some w"
  shows "ll_range w \<and> s = ll_text w"
proof (cases "s = ''0''")
  case True
  then show ?thesis using assms by (simp add: string2ll_def ll_range_def LL_consts ll_text_simps)
next
  case False
  let ?p = "if hd s = CHR ''-'' then tl s else s"
  have s: "s \<noteq> []" "?p \<noteq> []" "is_digit (hd ?p)" "hd ?p \<noteq> CHR ''0''"
    using assms False unfolding string2ll_def Let_def by (auto split: if_splits)
  then obtain v where v: "string2ll_loop (digit_val (hd ?p)) (tl ?p) = Some (v, [])"
    "if hd s = CHR ''-'' then v \<le> nat (- (LLONG_MIN + 1)) + 1 \<and> w = - int v else int v \<le> LLONG_MAX \<and> w = int v"
    using assms False unfolding string2ll_def Let_def by (auto simp: bind_eq_Some_conv split: if_splits)
  have "0 < v" "?p = rev (ull_digits v)" using string2ll_natural [OF s(2-4)] v(1) by blast+
  then show ?thesis
    using v(2) s(1) by (cases "hd s = CHR ''-''") (auto simp: ll_text_simps ll_range_def LL_consts list.expand)
qed

lemma string2ll_complete:
  assumes "ll_range w"
  shows "string2ll (ll_text w) = Some w"
proof -
  have nat: "hd (rev (ull_digits v)) \<noteq> CHR ''0''" "is_digit (hd (rev (ull_digits v)))" if "0 < v" for v
    using natural_text [of "rev (ull_digits v)" v] that hd_in_set [of "rev (ull_digits v)"] by blast+
  have run: "string2ll_loop (digit_val (hd (rev (ull_digits v)))) (tl (rev (ull_digits v))) = Some (v, [])"
    if "0 < v" "v \<le> ULLONG_MAX" for v
    using string2ll_natural [of "rev (ull_digits v)" v] nat [OF that(1)] that by simp
  consider "w = 0" | v where "w = int v" "0 < v" | v where "w = - int v" "0 < v"
    by (cases w rule: int_cases3) auto
  then show ?thesis
  proof cases
    case 1
    then show ?thesis by (simp add: ll_text_simps string2ll_def)
  next
    case (2 v)
    then have "v \<le> ULLONG_MAX" "int v \<le> LLONG_MAX" using assms by (simp_all add: ll_range_def LL_consts ULLONG_MAX_div)
    moreover have "rev (ull_digits v) \<noteq> ''0''" "hd (rev (ull_digits v)) \<noteq> CHR ''-''"
      using nat [OF 2(2)] minus_not_digit by auto
    ultimately show ?thesis using 2 run [OF 2(2)] nat [OF 2(2)] by (simp add: ll_text_simps string2ll_def Let_def)
  next
    case (3 v)
    then have "v \<le> ULLONG_MAX" "v \<le> nat (- (LLONG_MIN + 1)) + 1"
      using assms by (simp_all add: ll_range_def LL_consts ULLONG_MAX_div)
    then show ?thesis using 3 run [OF 3(2)] nat [OF 3(2)] by (simp add: ll_text_simps string2ll_def Let_def)
  qed
qed

section \<open>Properties\<close>

text \<open>
  C34. \<^verbatim>\<open>string2ll\<close> is strict: it accepts a text if and only if this is the decimal text of a number in
  the range of \<^verbatim>\<open>long long\<close>, and returns that number. In particular every accepted text is the text
  that is printed for the result.
\<close>

theorem string2ll_exact: "string2ll s = Some v \<longleftrightarrow> ll_range v \<and> s = ll_text v"
  using string2ll_sound [of s v] string2ll_complete [of v] by blast

text \<open>
  C35. \<^verbatim>\<open>ll2string\<close> followed by \<^verbatim>\<open>string2ll\<close> gives the number back, for every \<^verbatim>\<open>long long\<close> including
  the least: in a buffer with room for the digits, the sign and the terminating NUL it writes the text, leaves the
  rest of the buffer alone, and returns the length of the text; a buffer that is too small is left as it is.
\<close>

theorem ll2string_roundtrip:
  assumes "ll_range v" "dstlen \<le> length dst"
  shows "if sdigits10 v < dstlen
    then \<exists>s. ll2string dst dstlen v = Some (length s, s @ CHR 0x00 # drop (Suc (length s)) dst) \<and> string2ll s = Some v
    else ll2string dst dstlen v = Some (0, dst)"
proof (cases "sdigits10 v < dstlen")
  case True
  then have "length (ll_text v) < dstlen" using length_ll_text [OF assms(1)] by simp
  then show ?thesis using True ll2string_room [OF assms] string2ll_complete [OF assms(1)] by (simp only: if_True) blast
next
  case False
  then show ?thesis using ll2string_no_room [OF assms(1)] length_ll_text [OF assms(1)] by simp
qed

theorem ll2string_roundtrip_witness:
  "\<exists>s. ll2string (replicate 21 (CHR ''x'')) 21 LLONG_MIN =
    Some (length s, s @ CHR 0x00 # drop (Suc (length s)) (replicate 21 (CHR ''x''))) \<and> string2ll s = Some LLONG_MIN"
proof -
  have r: "ll_range LLONG_MIN" by (simp add: ll_range_def LL_consts)
  have "magnitude LLONG_MIN = 9223372036854775808" by (simp add: magnitude_def LL_consts)
  then have "sdigits10 LLONG_MIN < 21"
    by (simp add: sdigits10_def LL_consts) (simp add: digits10.simps)
  then show ?thesis using ll2string_roundtrip [OF r, of 21 "replicate 21 (CHR ''x'')"] by (simp del: replicate.simps)
qed

end
