(* ===== verification/Client_Output.thy ===== *)
theory Client_Output
  imports Util_Num
begin

text \<open>
  The output buffers of a connection and the protocol encoder of \<^verbatim>\<open>src/networking.c\<close>: which clients
  may be written to, the static buffer and the list of reply chunks, the output limits, and the functions
  that append a reply. Flags are a set, \<^verbatim>\<open>buf\<close> holds the first \<^verbatim>\<open>bufpos\<close> bytes, a node of the
  reply list that is \<^const>\<open>None\<close> stands for a deferred length, and lists of clients hold their
  identifiers. A failed assertion is \<^const>\<open>None\<close>. Shown is that every reply function appends exactly the
  bytes of its reply to the stream of a client that may be written to, and nothing to the others.
\<close>

section \<open>State\<close>

datatype cflag =
    CLIENT_SLAVE
  | CLIENT_MASTER
  | CLIENT_MONITOR
  | CLIENT_CLOSE_AFTER_REPLY
  | CLIENT_LUA
  | CLIENT_CLOSE_ASAP
  | CLIENT_MASTER_FORCE_REPLY
  | CLIENT_FORCE_AOF
  | CLIENT_FORCE_REPL
  | CLIENT_PUBSUB
  | CLIENT_PREVENT_AOF_PROP
  | CLIENT_PREVENT_REPL_PROP
  | CLIENT_PENDING_WRITE
  | CLIENT_REPLY_OFF
  | CLIENT_REPLY_SKIP
  | CLIENT_MODULE
  | CLIENT_UNDER_FEED
  | CLIENT_MULTI
  | CLIENT_BLOCKED
  | CLIENT_ASKING
  | CLIENT_REPLY_SKIP_NEXT
  | CLIENT_DIRTY_CAS
  | CLIENT_DIRTY_EXEC

text \<open>
  \<^verbatim>\<open>db_id\<close> is \<^verbatim>\<open>c->db->id\<close>, \<^verbatim>\<open>mstate\<close> the queue of a transaction with the names and arguments of its commands,
  \<^verbatim>\<open>ufs_flag\<close> is \<^verbatim>\<open>c->flag_ufs\<close>, and \<^verbatim>\<open>module_blocked\<close> tells whether \<^verbatim>\<open>c->btype\<close> is \<^verbatim>\<open>BLOCKED_MODULE\<close>.
\<close>

record conn =
  cid :: nat
  fd :: int
  flags :: "cflag set"
  replstate :: int
  repl_put_online_on_ack :: bool
  obuf_soft_limit_reached_time :: int
  buf :: string
  reply_nodes :: "string option list"
  reply_bytes :: nat
  db_id :: int
  authenticated :: bool
  mstate :: "(string \<times> string list) list"
  woff :: int
  ufs_flag :: int
  module_blocked :: bool

record obuf_limit =
  hard_limit_bytes :: nat
  soft_limit_bytes :: nat
  soft_limit_seconds :: int

record net =
  unixtime :: int
  client_obuf_limits :: "nat \<Rightarrow> obuf_limit"
  clients_pending_write :: "nat list"
  clients_to_close :: "nat list"

definition PROTO_REPLY_CHUNK_BYTES :: nat where
  "PROTO_REPLY_CHUNK_BYTES = 16 * 1024"

definition OBJ_SHARED_BULKHDR_LEN :: int where
  "OBJ_SHARED_BULKHDR_LEN = 32"

definition REPL_STATE_NONE :: int where
  "REPL_STATE_NONE = 0"

definition SLAVE_STATE_WAIT_BGSAVE_START :: int where
  "SLAVE_STATE_WAIT_BGSAVE_START = 6"

definition SLAVE_STATE_ONLINE :: int where
  "SLAVE_STATE_ONLINE = 9"

definition CLIENT_TYPE_NORMAL :: nat where "CLIENT_TYPE_NORMAL = 0"
definition CLIENT_TYPE_SLAVE :: nat where "CLIENT_TYPE_SLAVE = 1"
definition CLIENT_TYPE_PUBSUB :: nat where "CLIENT_TYPE_PUBSUB = 2"
definition CLIENT_TYPE_MASTER :: nat where "CLIENT_TYPE_MASTER = 3"



section \<open>Who may be written to\<close>

definition clientHasPendingReplies :: "conn \<Rightarrow> bool" where
  "clientHasPendingReplies c \<longleftrightarrow> buf c \<noteq> [] \<or> reply_nodes c \<noteq> []"

definition prepareClientToWrite :: "net \<Rightarrow> conn \<Rightarrow> bool \<times> net \<times> conn" where
  "prepareClientToWrite nt c =
     (if CLIENT_LUA \<in> flags c \<or> CLIENT_MODULE \<in> flags c then (True, nt, c)
      else if CLIENT_REPLY_OFF \<in> flags c \<or> CLIENT_REPLY_SKIP \<in> flags c then (False, nt, c)
      else if CLIENT_MASTER \<in> flags c \<and> CLIENT_MASTER_FORCE_REPLY \<notin> flags c then (False, nt, c)
      else if CLIENT_SLAVE \<in> flags c \<and> CLIENT_UNDER_FEED \<notin> flags c then (False, nt, c)
      else if fd c \<le> 0 then (False, nt, c)
      else if \<not> clientHasPendingReplies c \<and> CLIENT_PENDING_WRITE \<notin> flags c \<and>
           (replstate c = REPL_STATE_NONE \<or> (replstate c = SLAVE_STATE_ONLINE \<and> \<not> repl_put_online_on_ack c))
      then (True, nt\<lparr>clients_pending_write := cid c # clients_pending_write nt\<rparr>, c\<lparr>flags := insert CLIENT_PENDING_WRITE (flags c)\<rparr>)
      else (True, nt, c))"

section \<open>Output limits\<close>

text \<open>The size of a list node on the 64-bit targets.\<close>

definition getClientOutputBufferMemoryUsage :: "conn \<Rightarrow> nat" where
  "getClientOutputBufferMemoryUsage c = reply_bytes c + (24 + 5) * length (reply_nodes c)"

definition getClientType :: "conn \<Rightarrow> nat" where
  "getClientType c =
     (if CLIENT_MASTER \<in> flags c then CLIENT_TYPE_MASTER
      else if CLIENT_SLAVE \<in> flags c \<and> CLIENT_MONITOR \<notin> flags c then CLIENT_TYPE_SLAVE
      else if CLIENT_PUBSUB \<in> flags c then CLIENT_TYPE_PUBSUB
      else CLIENT_TYPE_NORMAL)"

definition checkClientOutputBufferLimits :: "net \<Rightarrow> conn \<Rightarrow> bool \<times> conn" where
  "checkClientOutputBufferLimits nt c =
     (let used_mem = getClientOutputBufferMemoryUsage c;
          t = getClientType c;
          l = client_obuf_limits nt (if t = CLIENT_TYPE_MASTER then CLIENT_TYPE_NORMAL else t);
          hard = (hard_limit_bytes l \<noteq> 0 \<and> hard_limit_bytes l \<le> used_mem);
          soft = (soft_limit_bytes l \<noteq> 0 \<and> soft_limit_bytes l \<le> used_mem)
      in if soft then
           if obuf_soft_limit_reached_time c = 0 then (hard, c\<lparr>obuf_soft_limit_reached_time := unixtime nt\<rparr>)
           else (\<not> (unixtime nt - obuf_soft_limit_reached_time c \<le> soft_limit_seconds l) \<or> hard, c)
         else (hard, c\<lparr>obuf_soft_limit_reached_time := 0\<rparr>))"

definition freeClientAsync :: "net \<Rightarrow> conn \<Rightarrow> net \<times> conn" where
  "freeClientAsync nt c =
     (if CLIENT_CLOSE_ASAP \<in> flags c \<or> CLIENT_LUA \<in> flags c then (nt, c)
      else (nt\<lparr>clients_to_close := clients_to_close nt @ [cid c]\<rparr>, c\<lparr>flags := insert CLIENT_CLOSE_ASAP (flags c)\<rparr>))"

definition max_reply_bytes :: nat where
  "max_reply_bytes = 2 ^ 64 - 1 - 1024 * 64"

definition asyncCloseClientOnOutputBufferLimitReached :: "net \<Rightarrow> conn \<Rightarrow> (net \<times> conn) option" where
  "asyncCloseClientOnOutputBufferLimitReached nt c =
     (if \<not> reply_bytes c < max_reply_bytes then None
      else if reply_bytes c = 0 \<or> CLIENT_CLOSE_ASAP \<in> flags c then Some (nt, c)
      else let (b, c') = checkClientOutputBufferLimits nt c in
           Some (if b then freeClientAsync nt c' else (nt, c')))"

section \<open>Appending to the buffers\<close>

definition addReplyToBuffer :: "conn \<Rightarrow> string \<Rightarrow> bool \<times> conn" where
  "addReplyToBuffer c s =
     (if CLIENT_CLOSE_AFTER_REPLY \<in> flags c then (True, c)
      else if 0 < length (reply_nodes c) then (False, c)
      else if PROTO_REPLY_CHUNK_BYTES - length (buf c) < length s then (False, c)
      else (True, c\<lparr>buf := buf c @ s\<rparr>))"

definition append_node :: "conn \<Rightarrow> string \<Rightarrow> conn" where
  "append_node c s =
     (let c' = c\<lparr>reply_bytes := reply_bytes c + length s\<rparr> in
      if reply_nodes c = [] then c'\<lparr>reply_nodes := [Some s]\<rparr>
      else case last (reply_nodes c) of
        Some tail \<Rightarrow>
          if length tail + length s \<le> PROTO_REPLY_CHUNK_BYTES
          then c'\<lparr>reply_nodes := butlast (reply_nodes c) @ [Some (tail @ s)]\<rparr>
          else c'\<lparr>reply_nodes := reply_nodes c @ [Some s]\<rparr>
      | None \<Rightarrow> c'\<lparr>reply_nodes := reply_nodes c @ [Some s]\<rparr>)"

definition addReplyStringToList :: "net \<Rightarrow> conn \<Rightarrow> string \<Rightarrow> (net \<times> conn) option" where
  "addReplyStringToList nt c s =
     (if CLIENT_CLOSE_AFTER_REPLY \<in> flags c then Some (nt, c)
      else asyncCloseClientOnOutputBufferLimitReached nt (append_node c s))"

definition addReplySdsToList :: "net \<Rightarrow> conn \<Rightarrow> string \<Rightarrow> (net \<times> conn) option" where
  "addReplySdsToList nt c s =
     (if CLIENT_CLOSE_AFTER_REPLY \<in> flags c then Some (nt, c)
      else asyncCloseClientOnOutputBufferLimitReached nt (append_node c s))"

definition addReplyObjectToList :: "net \<Rightarrow> conn \<Rightarrow> string \<Rightarrow> (net \<times> conn) option" where
  "addReplyObjectToList nt c s =
     (if CLIENT_CLOSE_AFTER_REPLY \<in> flags c then Some (nt, c)
      else asyncCloseClientOnOutputBufferLimitReached nt (append_node c (sdsdup s)))"
section \<open>Replies\<close>

text \<open>String objects: raw bytes, or an integer that is printed when it is sent.\<close>

datatype robj = RawObj string | IntObj int

definition CRLF :: string where
  "CRLF = [CHR 0x0D, CHR 0x0A]"

text \<open>\<^verbatim>\<open>shared.mbulkhdr[j]\<close> and \<^verbatim>\<open>shared.bulkhdr[j]\<close>.\<close>

definition mbulkhdr :: "int \<Rightarrow> robj option" where
  "mbulkhdr j = (if 0 \<le> j \<and> j < OBJ_SHARED_BULKHDR_LEN then Some (RawObj (''*'' @ ll_text j @ CRLF)) else None)"

definition bulkhdr :: "int \<Rightarrow> robj option" where
  "bulkhdr j = (if 0 \<le> j \<and> j < OBJ_SHARED_BULKHDR_LEN then Some (RawObj (''$'' @ ll_text j @ CRLF)) else None)"

definition print_ll :: "nat \<Rightarrow> int \<Rightarrow> string option" where
  "print_ll n v = do { (len, b) \<leftarrow> ll2string (replicate n (CHR 0x00)) n v; Some (take len b) }"

definition addReplyRaw :: "net \<Rightarrow> conn \<Rightarrow> string \<Rightarrow> (net \<times> conn) option" where
  "addReplyRaw nt c s =
     (let (ok, c') = addReplyToBuffer c s in if ok then Some (nt, c') else addReplyObjectToList nt c' s)"

definition addReply :: "net \<Rightarrow> conn \<Rightarrow> robj \<Rightarrow> (net \<times> conn) option" where
  "addReply nt0 c0 obj =
     (let (ok, nt, c) = prepareClientToWrite nt0 c0 in
      if \<not> ok then Some (nt, c)
      else case obj of
        RawObj s \<Rightarrow> addReplyRaw nt c s
      | IntObj v \<Rightarrow> do {
          s \<leftarrow> print_ll 32 v;
          if reply_nodes c = [] \<and> 32 \<le> PROTO_REPLY_CHUNK_BYTES - length (buf c) then do {
            let (ok, c') = addReplyToBuffer c s;
            if ok then Some (nt, c') else addReplyRaw nt c' s
          }
          else addReplyRaw nt c s
        })"

definition addReplySds :: "net \<Rightarrow> conn \<Rightarrow> string \<Rightarrow> (net \<times> conn) option" where
  "addReplySds nt0 c0 s =
     (let (ok, nt, c) = prepareClientToWrite nt0 c0 in
      if \<not> ok then Some (nt, c)
      else let (ok, c') = addReplyToBuffer c s in if ok then Some (nt, c') else addReplySdsToList nt c' s)"

definition addReplyString :: "net \<Rightarrow> conn \<Rightarrow> string \<Rightarrow> (net \<times> conn) option" where
  "addReplyString nt0 c0 s =
     (let (ok, nt, c) = prepareClientToWrite nt0 c0 in
      if \<not> ok then Some (nt, c)
      else let (ok, c') = addReplyToBuffer c s in if ok then Some (nt, c') else addReplyStringToList nt c' s)"

definition addReplyErrorLength :: "net \<Rightarrow> conn \<Rightarrow> string \<Rightarrow> (net \<times> conn) option" where
  "addReplyErrorLength nt c s = do {
     (nt, c) \<leftarrow> addReplyString nt c ''-ERR '';
     (nt, c) \<leftarrow> addReplyString nt c s;
     addReplyString nt c CRLF
   }"

definition addReplyError :: "net \<Rightarrow> conn \<Rightarrow> string \<Rightarrow> (net \<times> conn) option" where
  "addReplyError nt c err = addReplyErrorLength nt c (cstr err)"

definition addReplyLongLongWithPrefix :: "net \<Rightarrow> conn \<Rightarrow> int \<Rightarrow> char \<Rightarrow> (net \<times> conn) option" where
  "addReplyLongLongWithPrefix nt c ll prefix =
     (if prefix = CHR ''*'' \<and> ll < OBJ_SHARED_BULKHDR_LEN \<and> 0 \<le> ll then do { h \<leftarrow> mbulkhdr ll; addReply nt c h }
      else if prefix = CHR ''$'' \<and> ll < OBJ_SHARED_BULKHDR_LEN \<and> 0 \<le> ll then do { h \<leftarrow> bulkhdr ll; addReply nt c h }
      else do { s \<leftarrow> print_ll 127 ll; addReplyString nt c (prefix # s @ CRLF) })"

definition addReplyLongLong :: "net \<Rightarrow> conn \<Rightarrow> int \<Rightarrow> (net \<times> conn) option" where
  "addReplyLongLong nt c ll =
     (if ll = 0 then addReply nt c (RawObj ('':0'' @ CRLF))
      else if ll = 1 then addReply nt c (RawObj ('':1'' @ CRLF))
      else addReplyLongLongWithPrefix nt c ll (CHR '':''))"

definition addReplyMultiBulkLen :: "net \<Rightarrow> conn \<Rightarrow> int \<Rightarrow> (net \<times> conn) option" where
  "addReplyMultiBulkLen nt c len =
     (if len < OBJ_SHARED_BULKHDR_LEN then do { h \<leftarrow> mbulkhdr len; addReply nt c h }
      else addReplyLongLongWithPrefix nt c len (CHR ''*''))"

fun count_digits :: "nat \<Rightarrow> nat \<Rightarrow> nat" where
  "count_digits n len = (if n div 10 = 0 then len else count_digits (n div 10) (Suc len))"

declare count_digits.simps [simp del]

text \<open>The negation of the least \<^verbatim>\<open>long\<close> overflows.\<close>

definition addReplyBulkLen :: "net \<Rightarrow> conn \<Rightarrow> robj \<Rightarrow> (net \<times> conn) option" where
  "addReplyBulkLen nt c obj = do {
     len \<leftarrow> (case obj of
       RawObj s \<Rightarrow> Some (length s)
     | IntObj n \<Rightarrow>
         if n = LLONG_MIN then None
         else Some (if n < 0 then count_digits (nat (- n)) 2 else count_digits (nat n) 1));
     if int len < OBJ_SHARED_BULKHDR_LEN then do { h \<leftarrow> bulkhdr (int len); addReply nt c h }
     else addReplyLongLongWithPrefix nt c (int len) (CHR ''$'')
   }"

definition addReplyBulk :: "net \<Rightarrow> conn \<Rightarrow> robj \<Rightarrow> (net \<times> conn) option" where
  "addReplyBulk nt c obj = do {
     (nt, c) \<leftarrow> addReplyBulkLen nt c obj;
     (nt, c) \<leftarrow> addReply nt c obj;
     addReply nt c (RawObj CRLF)
   }"

definition addReplyBulkCBuffer :: "net \<Rightarrow> conn \<Rightarrow> string \<Rightarrow> (net \<times> conn) option" where
  "addReplyBulkCBuffer nt c p = do {
     (nt, c) \<leftarrow> addReplyLongLongWithPrefix nt c (int (length p)) (CHR ''$'');
     (nt, c) \<leftarrow> addReplyString nt c p;
     addReply nt c (RawObj CRLF)
   }"

definition addReplyBulkSds :: "net \<Rightarrow> conn \<Rightarrow> string \<Rightarrow> (net \<times> conn) option" where
  "addReplyBulkSds nt c s = do {
     (nt, c) \<leftarrow> addReplyLongLongWithPrefix nt c (int (length s)) (CHR ''$'');
     (nt, c) \<leftarrow> addReplySds nt c s;
     addReply nt c (RawObj CRLF)
   }"

definition addReplyBulkCString :: "net \<Rightarrow> conn \<Rightarrow> string option \<Rightarrow> (net \<times> conn) option" where
  "addReplyBulkCString nt c s =
     (case s of None \<Rightarrow> addReply nt c (RawObj (''$-1'' @ CRLF)) | Some s \<Rightarrow> addReplyBulkCBuffer nt c (cstr s))"

definition addReplyBulkLongLong :: "net \<Rightarrow> conn \<Rightarrow> int \<Rightarrow> (net \<times> conn) option" where
  "addReplyBulkLongLong nt c ll = do { s \<leftarrow> print_ll 64 ll; addReplyBulkCBuffer nt c s }"

definition copyClientOutputBuffer :: "conn \<Rightarrow> conn \<Rightarrow> conn" where
  "copyClientOutputBuffer dst src = dst\<lparr>reply_nodes := reply_nodes src, buf := buf src, reply_bytes := reply_bytes src\<rparr>"

section \<open>The stream of a client\<close>

text \<open>What has been queued for a client, and the clients that replies are queued for.\<close>

definition out :: "conn \<Rightarrow> string" where
  "out c = buf c @ concat (map (\<lambda>n. case n of Some s \<Rightarrow> s | None \<Rightarrow> []) (reply_nodes c))"

definition may_write :: "conn \<Rightarrow> bool" where
  "may_write c \<longleftrightarrow> CLIENT_LUA \<in> flags c \<or> CLIENT_MODULE \<in> flags c \<or>
     (CLIENT_REPLY_OFF \<notin> flags c \<and> CLIENT_REPLY_SKIP \<notin> flags c \<and>
      (CLIENT_MASTER \<in> flags c \<longrightarrow> CLIENT_MASTER_FORCE_REPLY \<in> flags c) \<and>
      (CLIENT_SLAVE \<in> flags c \<longrightarrow> CLIENT_UNDER_FEED \<in> flags c) \<and> 0 < fd c)"

definition writable :: "conn \<Rightarrow> bool" where
  "writable c \<longleftrightarrow> may_write c \<and> CLIENT_CLOSE_AFTER_REPLY \<notin> flags c"

text \<open>The rest of the state: the flags that appending may set and the time stamp of the limits are left out.\<close>

definition same_client :: "conn \<Rightarrow> conn \<Rightarrow> bool" where
  "same_client c c' \<longleftrightarrow> cid c' = cid c \<and> fd c' = fd c \<and> replstate c' = replstate c \<and>
     flags c' - {CLIENT_PENDING_WRITE, CLIENT_CLOSE_ASAP} = flags c - {CLIENT_PENDING_WRITE, CLIENT_CLOSE_ASAP}"

lemma same_client_refl [simp]: "same_client c c"
  by (simp add: same_client_def)

lemma same_client_trans: "same_client a b \<Longrightarrow> same_client b c \<Longrightarrow> same_client a c"
  by (simp add: same_client_def)

lemma same_client_flag:
  assumes "same_client c c'" "f \<noteq> CLIENT_PENDING_WRITE" "f \<noteq> CLIENT_CLOSE_ASAP"
  shows "f \<in> flags c' \<longleftrightarrow> f \<in> flags c"
  using assms unfolding same_client_def by blast

lemma same_client_writable: "same_client c c' \<Longrightarrow> may_write c' = may_write c \<and> writable c' = writable c"
  using same_client_flag [of c c'] by (simp add: may_write_def writable_def) (simp add: same_client_def)

text \<open>The result of appending \<^term>\<open>s\<close>; the byte count grows by at most its length.\<close>

definition appended :: "string \<Rightarrow> conn \<Rightarrow> (net \<times> conn) option \<Rightarrow> bool" where
  "appended s c r \<longleftrightarrow> (\<exists>nt' c'. r = Some (nt', c') \<and> out c' = out c @ s \<and> same_client c c' \<and>
     reply_bytes c' \<le> reply_bytes c + length s)"

lemma prepare_ok:
  assumes "may_write c"
  obtains nt' c' where "prepareClientToWrite nt c = (True, nt', c')" "same_client c c'" "out c' = out c" "reply_bytes c' = reply_bytes c"
    "buf c' = buf c" "reply_nodes c' = reply_nodes c"
proof -
  let ?r = "prepareClientToWrite nt c"
  have "fst ?r" using assms by (auto simp: may_write_def prepareClientToWrite_def)
  moreover have "same_client c (snd (snd ?r))" "out (snd (snd ?r)) = out c" "reply_bytes (snd (snd ?r)) = reply_bytes c"
    "buf (snd (snd ?r)) = buf c" "reply_nodes (snd (snd ?r)) = reply_nodes c"
    by (simp_all add: prepareClientToWrite_def same_client_def out_def)
  ultimately show thesis using that [of "fst (snd ?r)" "snd (snd ?r)"] by (simp add: prod_eq_iff)
qed

lemma prepare_no: "\<not> may_write c \<Longrightarrow> prepareClientToWrite nt c = (False, nt, c)"
  by (auto simp: may_write_def prepareClientToWrite_def)

lemma close_check_ok:
  assumes "reply_bytes c < max_reply_bytes"
  obtains nt' c' where "asyncCloseClientOnOutputBufferLimitReached nt c = Some (nt', c')" "same_client c c'" "out c' = out c"
    "reply_bytes c' = reply_bytes c"
proof -
  let ?r = "checkClientOutputBufferLimits nt c"
  have k: "same_client c (snd ?r)" "out (snd ?r) = out c" "reply_bytes (snd ?r) = reply_bytes c"
    by (simp_all add: checkClientOutputBufferLimits_def Let_def same_client_def out_def)
  have f: "same_client d (snd (freeClientAsync nt d)) \<and> out (snd (freeClientAsync nt d)) = out d \<and>
      reply_bytes (snd (freeClientAsync nt d)) = reply_bytes d" for d
    by (auto simp: freeClientAsync_def same_client_def out_def)
  show thesis
  proof (cases "reply_bytes c = 0 \<or> CLIENT_CLOSE_ASAP \<in> flags c")
    case True
    then show thesis using that [of nt c] assms by (simp add: asyncCloseClientOnOutputBufferLimitReached_def)
  next
    case False
    let ?s = "if fst ?r then freeClientAsync nt (snd ?r) else (nt, snd ?r)"
    have "asyncCloseClientOnOutputBufferLimitReached nt c = Some ?s"
      using False assms by (simp add: asyncCloseClientOnOutputBufferLimitReached_def split_def)
    moreover have "same_client c (snd ?s)" "out (snd ?s) = out c" "reply_bytes (snd ?s) = reply_bytes c"
      using k f [of "snd ?r"] same_client_trans [OF k(1)] by auto
    ultimately show thesis using that [of "fst ?s" "snd ?s"] by simp
  qed
qed

lemma append_node_ok: "out (append_node c s) = out c @ s" "same_client c (append_node c s)"
  "reply_bytes (append_node c s) = reply_bytes c + length s"
proof -
  have nodes: "concat (map (\<lambda>n. case n of Some s \<Rightarrow> s | None \<Rightarrow> []) ns) =
      concat (map (\<lambda>n. case n of Some s \<Rightarrow> s | None \<Rightarrow> []) (butlast ns)) @ t" if "ns \<noteq> []" "last ns = Some t" for ns t
    using that by (cases ns rule: rev_cases) auto
  show "out (append_node c s) = out c @ s"
    using nodes [of "reply_nodes c"] by (auto simp: append_node_def Let_def out_def split: option.splits)
  show "same_client c (append_node c s)" "reply_bytes (append_node c s) = reply_bytes c + length s"
    by (auto simp: append_node_def Let_def same_client_def split: option.splits)
qed

lemma to_list_ok:
  assumes "CLIENT_CLOSE_AFTER_REPLY \<notin> flags c" "reply_bytes c + length s < max_reply_bytes"
  shows "appended s c (addReplyStringToList nt c s)" "appended s c (addReplySdsToList nt c s)"
    "appended s c (addReplyObjectToList nt c s)"
proof -
  obtain nt' c' where "asyncCloseClientOnOutputBufferLimitReached nt (append_node c s) = Some (nt', c')"
      "same_client (append_node c s) c'" "out c' = out (append_node c s)" "reply_bytes c' = reply_bytes (append_node c s)"
    using assms(2) close_check_ok [of "append_node c s" nt] append_node_ok(3) by metis
  then have "appended s c (asyncCloseClientOnOutputBufferLimitReached nt (append_node c s))"
    using append_node_ok [of c s] same_client_trans unfolding appended_def by auto
  then show "appended s c (addReplyStringToList nt c s)" "appended s c (addReplySdsToList nt c s)"
    "appended s c (addReplyObjectToList nt c s)"
    using assms(1) by (simp_all add: addReplyStringToList_def addReplySdsToList_def addReplyObjectToList_def sdsdup_def)
qed

section \<open>Functions that write a reply\<close>

text \<open>
  A writer of a text appends it to the stream of a client that may be written to, and does nothing for a
  client that may not. Writers compose.
\<close>

locale reply_writer =
  fixes w :: "net \<Rightarrow> conn \<Rightarrow> (net \<times> conn) option" and t :: string
  assumes writes: "writable c \<Longrightarrow> reply_bytes c + length t < max_reply_bytes \<Longrightarrow> appended t c (w nt c)"
    and silent: "\<not> may_write c \<Longrightarrow> w nt c = Some (nt, c)"
begin

lemma writer_then:
  assumes "reply_writer w' t'"
  shows "reply_writer (\<lambda>nt c. Option.bind (w nt c) (\<lambda>(nt, c). w' nt c)) (t @ t')"
proof
  fix c nt
  assume c: "writable c" "reply_bytes c + length (t @ t') < max_reply_bytes"
  then obtain nt1 c1 where 1: "w nt c = Some (nt1, c1)" "out c1 = out c @ t" "same_client c c1"
      "reply_bytes c1 \<le> reply_bytes c + length t"
    using writes [of c nt] by (auto simp: appended_def)
  have "writable c1" "reply_bytes c1 + length t' < max_reply_bytes"
    using c 1(3,4) same_client_writable by simp_all
  then have "appended t' c1 (w' nt1 c1)" by (rule reply_writer.writes [OF assms])
  then show "appended (t @ t') c (Option.bind (w nt c) (\<lambda>(nt, c). w' nt c))"
    using 1 same_client_trans [OF 1(3)] by (fastforce simp: appended_def)
next
  fix c nt
  assume "\<not> may_write c"
  then show "Option.bind (w nt c) (\<lambda>(nt, c). w' nt c) = Some (nt, c)"
    using silent [of c nt] reply_writer.silent [OF assms, of c nt] by simp
qed

end

lemma buffer_or_list:
  assumes "CLIENT_CLOSE_AFTER_REPLY \<notin> flags c" "\<And>c. CLIENT_CLOSE_AFTER_REPLY \<notin> flags c \<Longrightarrow> reply_bytes c + length s < max_reply_bytes \<Longrightarrow> appended s c (f c)"
    "reply_bytes c + length s < max_reply_bytes"
  shows "appended s c (let (ok, c') = addReplyToBuffer c s in if ok then Some (nt, c') else f c')"
proof (cases "fst (addReplyToBuffer c s)")
  case True
  then have "addReplyToBuffer c s = (True, c\<lparr>buf := buf c @ s\<rparr>)" "reply_nodes c = []"
    using assms(1) by (auto simp: addReplyToBuffer_def split: if_splits)
  then show ?thesis by (simp add: appended_def out_def same_client_def)
next
  case False
  then have "addReplyToBuffer c s = (False, c)" using assms(1) by (auto simp: addReplyToBuffer_def split: if_splits)
  then show ?thesis using assms by simp
qed

lemma prepared_writer:
  assumes f: "\<And>nt c. writable c \<Longrightarrow> reply_bytes c + length s < max_reply_bytes \<Longrightarrow> appended s c (f nt c)"
  shows "reply_writer (\<lambda>nt0 c0. let (ok, nt, c) = prepareClientToWrite nt0 c0 in if \<not> ok then Some (nt, c) else f nt c) s"
proof
  fix c nt
  assume c: "writable c" "reply_bytes c + length s < max_reply_bytes"
  obtain nt' c' where p: "prepareClientToWrite nt c = (True, nt', c')" "same_client c c'" "out c' = out c" "reply_bytes c' = reply_bytes c"
    using c(1) by (auto simp: writable_def intro: prepare_ok [of c nt])
  have "appended s c' (f nt' c')" using f [of c' nt'] c p same_client_writable by simp
  then show "appended s c (let (ok, nt, c) = prepareClientToWrite nt c in if \<not> ok then Some (nt, c) else f nt c)"
    using p same_client_trans [OF p(2)] by (fastforce simp: appended_def)
qed (simp add: prepare_no)

lemma addReplyRaw_ok:
  "CLIENT_CLOSE_AFTER_REPLY \<notin> flags c \<Longrightarrow> reply_bytes c + length s < max_reply_bytes \<Longrightarrow> appended s c (addReplyRaw nt c s)"
  unfolding addReplyRaw_def by (rule buffer_or_list) (simp_all add: to_list_ok)

lemma addReplyString_writer: "reply_writer (\<lambda>nt c. addReplyString nt c s) s"
  unfolding addReplyString_def
  by (rule prepared_writer, rule buffer_or_list) (simp_all add: writable_def to_list_ok)

lemma addReplySds_writer: "reply_writer (\<lambda>nt c. addReplySds nt c s) s"
  unfolding addReplySds_def
  by (rule prepared_writer, rule buffer_or_list) (simp_all add: writable_def to_list_ok)

lemma print_ll_eq: "ll_range v \<Longrightarrow> length (ll_text v) < n \<Longrightarrow> print_ll n v = Some (ll_text v)"
  by (simp add: print_ll_def ll2string_room)

lemma length_ll_text_le: "ll_range v \<Longrightarrow> length (ll_text v) \<le> 20"
proof -
  assume v: "ll_range v"
  then have "\<bar>v\<bar> < 10 ^ 19" unfolding ll_range_def LL_consts by simp linarith
  then have "nat \<bar>v\<bar> < 10 ^ 19" by (simp add: nat_less_iff)
  then have "length (ull_digits (nat \<bar>v\<bar>)) \<le> 19" by (intro length_ull_digits) simp_all
  then show ?thesis by (cases "v < 0") (simp_all add: ll_text_def)
qed

fun obj_text :: "robj \<Rightarrow> string" where
  "obj_text (RawObj s) = s"
| "obj_text (IntObj v) = ll_text v"

fun obj_ok :: "robj \<Rightarrow> bool" where
  "obj_ok (RawObj s) \<longleftrightarrow> int (length s) \<le> LLONG_MAX"
| "obj_ok (IntObj v) \<longleftrightarrow> ll_range v \<and> v \<noteq> LLONG_MIN"

lemma addReply_writer:
  assumes "obj_ok obj"
  shows "reply_writer (\<lambda>nt c. addReply nt c obj) (obj_text obj)"
  unfolding addReply_def
proof (rule prepared_writer)
  fix nt c
  assume c: "writable c" "reply_bytes c + length (obj_text obj) < max_reply_bytes"
  have f: "CLIENT_CLOSE_AFTER_REPLY \<notin> flags c" using c(1) by (simp add: writable_def)
  show "appended (obj_text obj) c (case obj of RawObj s \<Rightarrow> addReplyRaw nt c s
    | IntObj v \<Rightarrow> do {
        s \<leftarrow> print_ll 32 v;
        if reply_nodes c = [] \<and> 32 \<le> PROTO_REPLY_CHUNK_BYTES - length (buf c) then do {
          let (ok, c') = addReplyToBuffer c s;
          if ok then Some (nt, c') else addReplyRaw nt c' s
        }
        else addReplyRaw nt c s
      })"
  proof (cases obj)
    case (RawObj s)
    then show ?thesis using c f by (simp add: addReplyRaw_ok)
  next
    case (IntObj v)
    then have v: "print_ll 32 v = Some (ll_text v)"
      using assms length_ll_text_le [of v] by (intro print_ll_eq) simp_all
    have "appended (ll_text v) c (let (ok, c') = addReplyToBuffer c (ll_text v) in if ok then Some (nt, c') else addReplyRaw nt c' (ll_text v))"
      using c IntObj by (intro buffer_or_list [OF f]) (simp_all add: addReplyRaw_ok)
    then show ?thesis using c f IntObj v by (simp add: addReplyRaw_ok)
  qed
qed

interpretation str: reply_writer "\<lambda>nt c. addReplyString nt c s" s for s
  by (rule addReplyString_writer)

interpretation sds: reply_writer "\<lambda>nt c. addReplySds nt c s" s for s
  by (rule addReplySds_writer)

lemma bulkhdr_ok:
  assumes "0 \<le> n" "n < OBJ_SHARED_BULKHDR_LEN"
  shows "mbulkhdr n = Some (RawObj (CHR ''*'' # ll_text n @ CRLF)) \<and> reply_writer (\<lambda>nt c. addReply nt c (RawObj (CHR ''*'' # ll_text n @ CRLF))) (CHR ''*'' # ll_text n @ CRLF)"
    "bulkhdr n = Some (RawObj (CHR ''$'' # ll_text n @ CRLF)) \<and> reply_writer (\<lambda>nt c. addReply nt c (RawObj (CHR ''$'' # ll_text n @ CRLF))) (CHR ''$'' # ll_text n @ CRLF)"
proof -
  have "ll_range n" using assms by (simp add: ll_range_def LL_consts OBJ_SHARED_BULKHDR_LEN_def)
  then have "length (p # ll_text n @ CRLF) \<le> 23" for p using length_ll_text_le [of n] by (simp add: CRLF_def)
  then have "obj_ok (RawObj (p # ll_text n @ CRLF))" for p by (simp add: LL_consts)
  then show "mbulkhdr n = Some (RawObj (CHR ''*'' # ll_text n @ CRLF)) \<and> reply_writer (\<lambda>nt c. addReply nt c (RawObj (CHR ''*'' # ll_text n @ CRLF))) (CHR ''*'' # ll_text n @ CRLF)"
    "bulkhdr n = Some (RawObj (CHR ''$'' # ll_text n @ CRLF)) \<and> reply_writer (\<lambda>nt c. addReply nt c (RawObj (CHR ''$'' # ll_text n @ CRLF))) (CHR ''$'' # ll_text n @ CRLF)"
    using assms addReply_writer [of "RawObj (_ # ll_text n @ CRLF)"] by (simp_all add: mbulkhdr_def bulkhdr_def)
qed

lemma prefix_writer:
  assumes "ll_range v"
  shows "reply_writer (\<lambda>nt c. addReplyLongLongWithPrefix nt c v p) (p # ll_text v @ CRLF)"
proof -
  have "print_ll 127 v = Some (ll_text v)" using assms length_ll_text_le [OF assms] by (intro print_ll_eq) simp_all
  then show ?thesis
    using bulkhdr_ok [of v] addReplyString_writer [of "p # ll_text v @ CRLF"] unfolding addReplyLongLongWithPrefix_def
    by (cases "v < OBJ_SHARED_BULKHDR_LEN"; cases "0 \<le> v"; cases "p = CHR ''*''"; cases "p = CHR ''$''") simp_all
qed

lemma multibulk_writer:
  assumes "ll_range v" "0 \<le> v"
  shows "reply_writer (\<lambda>nt c. addReplyMultiBulkLen nt c v) (CHR ''*'' # ll_text v @ CRLF)"
  using assms bulkhdr_ok(1) [of v] prefix_writer [OF assms(1), of "CHR ''*''"] unfolding addReplyMultiBulkLen_def
  by (cases "v < OBJ_SHARED_BULKHDR_LEN") simp_all

lemma count_digits_eq: "count_digits n k + 1 = length (ull_digits n) + k"
  by (induction n k rule: count_digits.induct) (subst count_digits.simps, subst ull_digits.simps, auto)

lemma bulklen_writer:
  assumes "obj_ok obj"
  shows "reply_writer (\<lambda>nt c. addReplyBulkLen nt c obj) (CHR ''$'' # ll_text (int (length (obj_text obj))) @ CRLF)"
proof -
  let ?n = "length (obj_text obj)"
  have r: "ll_range (int ?n)"
  proof (cases obj)
    case (RawObj s)
    then show ?thesis using assms by (simp add: ll_range_def LL_consts)
  next
    case (IntObj v)
    then have "length (ll_text v) \<le> 20" using assms length_ll_text_le by simp
    then show ?thesis using IntObj by (simp add: ll_range_def LL_consts)
  qed
  have "(case obj of RawObj s \<Rightarrow> Some (length s)
     | IntObj n \<Rightarrow> if n = LLONG_MIN then None
         else Some (if n < 0 then count_digits (nat (- n)) 2 else count_digits (nat n) 1)) = Some ?n"
    using assms count_digits_eq [of _ 1] count_digits_eq [of _ 2] by (cases obj) (auto simp: ll_text_def)
  then have "(\<lambda>nt c. addReplyBulkLen nt c obj) = (\<lambda>nt c.
      if int ?n < OBJ_SHARED_BULKHDR_LEN then do { h \<leftarrow> bulkhdr (int ?n); addReply nt c h }
      else addReplyLongLongWithPrefix nt c (int ?n) (CHR ''$''))"
    by (simp add: addReplyBulkLen_def fun_eq_iff)
  then show ?thesis
    using bulkhdr_ok(2) [of "int ?n"] prefix_writer [OF r, of "CHR ''$''"]
    by (cases "int ?n < OBJ_SHARED_BULKHDR_LEN") simp_all
qed

section \<open>Commands on the wire\<close>

text \<open>A bulk string, and a command as an array of bulk strings.\<close>

definition resp_bulk :: "string \<Rightarrow> string" where
  "resp_bulk s = CHR ''$'' # ll_text (int (length s)) @ CRLF @ s @ CRLF"

definition resp :: "string list \<Rightarrow> string" where
  "resp as = CHR ''*'' # ll_text (int (length as)) @ CRLF @ concat (map resp_bulk as)"

lemma addReplyBulk_writer:
  assumes "obj_ok obj"
  shows "reply_writer (\<lambda>nt c. addReplyBulk nt c obj) (resp_bulk (obj_text obj))"
proof -
  have crlf: "reply_writer (\<lambda>nt c. addReply nt c (RawObj CRLF)) CRLF"
    using addReply_writer [of "RawObj CRLF"] by (simp add: CRLF_def LL_consts)
  note two = reply_writer.writer_then [OF addReply_writer [OF assms] crlf]
  show ?thesis
    using reply_writer.writer_then [OF bulklen_writer [OF assms] two]
    unfolding addReplyBulk_def resp_bulk_def by simp
qed

lemma addReplyBulkCBuffer_writer:
  assumes "ll_range (int (length s))"
  shows "reply_writer (\<lambda>nt c. addReplyBulkCBuffer nt c s) (resp_bulk s)"
    "reply_writer (\<lambda>nt c. addReplyBulkSds nt c s) (resp_bulk s)"
proof -
  have crlf: "reply_writer (\<lambda>nt c. addReply nt c (RawObj CRLF)) CRLF"
    using addReply_writer [of "RawObj CRLF"] by (simp add: CRLF_def LL_consts)
  note two = str.writer_then [OF crlf, of s] sds.writer_then [OF crlf, of s]
  show "reply_writer (\<lambda>nt c. addReplyBulkCBuffer nt c s) (resp_bulk s)"
    "reply_writer (\<lambda>nt c. addReplyBulkSds nt c s) (resp_bulk s)"
    using reply_writer.writer_then [OF prefix_writer [OF assms, of "CHR ''$''"] two(1)]
      reply_writer.writer_then [OF prefix_writer [OF assms, of "CHR ''$''"] two(2)]
    unfolding addReplyBulkCBuffer_def addReplyBulkSds_def resp_bulk_def by simp_all
qed

fun addBulks :: "net \<Rightarrow> conn \<Rightarrow> robj list \<Rightarrow> (net \<times> conn) option" where
  "addBulks nt c [] = Some (nt, c)"
| "addBulks nt c (a # as) = do { (nt, c) \<leftarrow> addReplyBulk nt c a; addBulks nt c as }"

text \<open>The command as it is written to the connection of a slave or of the master.\<close>

definition add_command :: "net \<Rightarrow> conn \<Rightarrow> robj list \<Rightarrow> (net \<times> conn) option" where
  "add_command nt c as = do {
     (nt, c) \<leftarrow> addReplyMultiBulkLen nt c (int (length as));
     addBulks nt c as
   }"

lemma addBulks_writer:
  "\<forall>a \<in> set as. obj_ok a \<Longrightarrow> reply_writer (\<lambda>nt c. addBulks nt c as) (concat (map (\<lambda>a. resp_bulk (obj_text a)) as))"
proof (induction as)
  case Nil
  show ?case by unfold_locales (simp_all add: appended_def)
next
  case (Cons a as)
  then show ?case using reply_writer.writer_then [OF addReplyBulk_writer [of a] Cons.IH] by simp
qed

lemma add_command_writer:
  assumes "\<forall>a \<in> set as. obj_ok a" "int (length as) \<le> LLONG_MAX"
  shows "reply_writer (\<lambda>nt c. add_command nt c as) (resp (map obj_text as))"
proof -
  have "ll_range (int (length as))" using assms(2) by (simp add: ll_range_def LL_consts)
  then show ?thesis
    using reply_writer.writer_then [OF multibulk_writer [of "int (length as)"] addBulks_writer [OF assms(1)]]
    unfolding add_command_def resp_def by (simp add: comp_def)
qed

text \<open>A connection and a server for examples.\<close>

definition sample_conn :: conn where
  "sample_conn = \<lparr>cid = 1, fd = 5, flags = {}, replstate = 0, repl_put_online_on_ack = False,
     obuf_soft_limit_reached_time = 0, buf = [], reply_nodes = [], reply_bytes = 0, db_id = 0, authenticated = False,
     mstate = [], woff = 0, ufs_flag = 0, module_blocked = False\<rparr>"

definition sample_net :: net where
  "sample_net = \<lparr>unixtime = 0, client_obuf_limits = (\<lambda>_. \<lparr>hard_limit_bytes = 0, soft_limit_bytes = 0, soft_limit_seconds = 0\<rparr>),
     clients_pending_write = [], clients_to_close = []\<rparr>"

lemma sample_writable: "writable sample_conn" "reply_bytes sample_conn = 0" "out sample_conn = []"
  by (simp_all add: writable_def may_write_def sample_conn_def out_def)

end
