(* ===== verification/Client_Input.thy ===== *)
theory Client_Input
  imports Client_Output
begin

text \<open>
  The query buffer of a connection and the parser of commands, \<^verbatim>\<open>processMultibulkBuffer\<close> of
  \<^verbatim>\<open>src/networking.c\<close>. The parser is called whenever bytes have arrived and keeps its position in the
  command between the calls. Shown is that a command that arrives in any number of pieces is parsed
  completely once its last byte is there, and that this inverts the encoder.
\<close>

section \<open>Model\<close>

record input =
  querybuf :: string
  iargv :: "string list"
  multibulklen :: nat
  bulklen :: int

definition PROTO_INLINE_MAX_SIZE :: nat where
  "PROTO_INLINE_MAX_SIZE = 1024 * 64"

definition PROTO_MBULK_BIG_ARG :: int where
  "PROTO_MBULK_BIG_ARG = 1024 * 32"

abbreviation CR :: char where
  "CR \<equiv> CHR 0x0D"

text \<open>The conversion to a signed 32-bit integer.\<close>

definition to_signed :: "nat \<Rightarrow> int" where
  "to_signed n = (int n + 2 ^ 31) mod 2 ^ 32 - 2 ^ 31"

text \<open>\<^verbatim>\<open>addReplyErrorFormat\<close> gets the formatted text; line breaks in it become blanks.\<close>

definition addReplyErrorFormat :: "net \<Rightarrow> conn \<Rightarrow> string \<Rightarrow> (net \<times> conn) option" where
  "addReplyErrorFormat nt c s =
     addReplyErrorLength nt c (map (\<lambda>x. if x = CR \<or> x = CHR 0x0A then CHR '' '' else x) (cstr s))"

definition setProtocolError :: "conn \<Rightarrow> input \<Rightarrow> nat \<Rightarrow> conn \<times> input" where
  "setProtocolError c i pos =
     (c\<lparr>flags := insert CLIENT_CLOSE_AFTER_REPLY (flags c)\<rparr>, i\<lparr>querybuf := sdsrange (querybuf i) (int pos) (-1)\<rparr>)"

text \<open>The ways out of a step: more input is needed, the command is refused, or the step is done.\<close>

datatype 'a outcome = Wait | Refuse net conn input | Next 'a

definition refuse :: "(net \<times> conn) option \<Rightarrow> input \<Rightarrow> nat \<Rightarrow> 'a outcome option" where
  "refuse r i pos = do {
     (nt, c) \<leftarrow> r;
     let (c', i') = setProtocolError c i pos;
     Some (Refuse nt c' i')
   }"

definition find_cr :: "string \<Rightarrow> nat option" where
  "find_cr s = first_index (\<lambda>x. x = CR) (cstr s)"

text \<open>The number of arguments. The result is the new position, or the end of an empty command.\<close>

definition mbulk_count :: "net \<Rightarrow> conn \<Rightarrow> input \<Rightarrow> (input \<times> nat) outcome option" where
  "mbulk_count nt c i =
     (let q = querybuf i in
      if iargv i \<noteq> [] then None
      else case find_cr q of
        None \<Rightarrow>
          if PROTO_INLINE_MAX_SIZE < length q
          then refuse (addReplyError nt c ''Protocol error: too big mbulk count string'') i 0
          else Some Wait
      | Some nl \<Rightarrow>
          if to_signed (length q) - 2 < int nl then Some Wait
          else if q ! 0 \<noteq> CHR ''*'' then None
          else case string2ll (take (nl - 1) (drop 1 q)) of
            None \<Rightarrow> refuse (addReplyError nt c ''Protocol error: invalid multibulk length'') i 0
          | Some ll \<Rightarrow>
              if 1024 * 1024 < ll
              then refuse (addReplyError nt c ''Protocol error: invalid multibulk length'') i 0
              else if ll \<le> 0 then Some (Next (i\<lparr>querybuf := sdsrange q (int (nl + 2)) (-1)\<rparr>, 0))
              else Some (Next (i\<lparr>multibulklen := nat ll\<rparr>, nl + 2)))"

text \<open>The length of the next argument.\<close>

definition mbulk_length :: "int \<Rightarrow> net \<Rightarrow> conn \<Rightarrow> input \<Rightarrow> nat \<Rightarrow> (input \<times> nat) outcome option" where
  "mbulk_length max_len nt c i pos =
     (let q = querybuf i in
      case find_cr (drop pos q) of
        None \<Rightarrow>
          if PROTO_INLINE_MAX_SIZE < length q
          then refuse (addReplyError nt c ''Protocol error: too big bulk count string'') i 0
          else Some Wait
      | Some k \<Rightarrow>
          if to_signed (length q) - 2 < int (pos + k) then Some Wait
          else if q ! pos \<noteq> CHR ''$''
          then refuse (addReplyErrorFormat nt c (''Protocol error: expected '' @ [CHR 0x27] @ ''$'' @ [CHR 0x27] @ '', got '' @
                 [CHR 0x27, q ! pos, CHR 0x27])) i pos
          else case string2ll (take (k - 1) (drop (pos + 1) q)) of
            None \<Rightarrow> refuse (addReplyError nt c ''Protocol error: invalid bulk length'') i pos
          | Some ll \<Rightarrow>
              if ll < 0 \<or> max_len < ll
              then refuse (addReplyError nt c ''Protocol error: invalid bulk length'') i pos
              else if PROTO_MBULK_BIG_ARG \<le> ll
              then Some (Next (i\<lparr>querybuf := sdsrange q (int (pos + k + 2)) (-1), bulklen := ll\<rparr>, 0))
              else Some (Next (i\<lparr>bulklen := ll\<rparr>, pos + k + 2)))"

text \<open>The argument itself. A position past the end of the buffer would make the unsigned difference wrap around.\<close>

definition mbulk_arg :: "input \<Rightarrow> nat \<Rightarrow> (input \<times> nat) outcome option" where
  "mbulk_arg i pos =
     (let q = querybuf i in
      if length q < pos \<or> bulklen i < 0 then None
      else if int (length q - pos) < bulklen i + 2 then Some Wait
      else
        let i' = i\<lparr>bulklen := -1, multibulklen := multibulklen i - 1\<rparr> in
        if pos = 0 \<and> PROTO_MBULK_BIG_ARG \<le> bulklen i \<and> int (length q) = bulklen i + 2
        then Some (Next (i'\<lparr>iargv := iargv i @ [take (nat (bulklen i)) q], querybuf := []\<rparr>, 0))
        else Some (Next (i'\<lparr>iargv := iargv i @ [take (nat (bulklen i)) (drop pos q)]\<rparr>, pos + nat (bulklen i) + 2)))"

definition mbulk_step :: "int \<Rightarrow> net \<Rightarrow> conn \<Rightarrow> input \<Rightarrow> nat \<Rightarrow> (input \<times> nat) outcome option" where
  "mbulk_step max_len nt c i pos =
     (if bulklen i = -1 then mbulk_length max_len nt c i pos else Some (Next (i, pos)))"

text \<open>The loop; what has been read of an argument's length is kept when the argument is not complete.\<close>

fun mbulk_loop :: "int \<Rightarrow> net \<Rightarrow> conn \<Rightarrow> nat \<Rightarrow> input \<Rightarrow> nat \<Rightarrow> (input \<times> nat) outcome option" where
  "mbulk_loop max_len nt c 0 i pos = Some (Next (i, pos))"
| "mbulk_loop max_len nt c (Suc n) i pos = do {
     r \<leftarrow> mbulk_step max_len nt c i pos;
     case r of
       Wait \<Rightarrow> Some (Next (i, pos))
     | Refuse nt' c' i' \<Rightarrow> Some (Refuse nt' c' i')
     | Next (i1, pos1) \<Rightarrow> do {
         r \<leftarrow> mbulk_arg i1 pos1;
         case r of
           Next (i2, pos2) \<Rightarrow> mbulk_loop max_len nt c n i2 pos2
         | _ \<Rightarrow> Some (Next (i1, pos1))
       }
   }"

text \<open>The result is \<^const>\<open>True\<close> for \<^verbatim>\<open>C_OK\<close>.\<close>

definition mbulk_args :: "int \<Rightarrow> net \<Rightarrow> conn \<Rightarrow> input \<Rightarrow> nat \<Rightarrow> (bool \<times> net \<times> conn \<times> input) option" where
  "mbulk_args max_len nt c i pos = do {
     r \<leftarrow> mbulk_loop max_len nt c (multibulklen i) i pos;
     case r of
       Next (i', pos') \<Rightarrow>
         let i'' = (if pos' \<noteq> 0 then i'\<lparr>querybuf := sdsrange (querybuf i') (int pos') (-1)\<rparr> else i')
         in Some (multibulklen i'' = 0, nt, c, i'')
     | Refuse nt' c' i' \<Rightarrow> Some (False, nt', c', i')
     | Wait \<Rightarrow> None
   }"

definition processMultibulkBuffer :: "int \<Rightarrow> net \<Rightarrow> conn \<Rightarrow> input \<Rightarrow> (bool \<times> net \<times> conn \<times> input) option" where
  "processMultibulkBuffer max_len nt c i =
     (if multibulklen i = 0 then do {
        r \<leftarrow> mbulk_count nt c i;
        case r of
          Wait \<Rightarrow> Some (False, nt, c, i)
        | Refuse nt' c' i' \<Rightarrow> Some (False, nt', c', i')
        | Next (i', pos) \<Rightarrow>
            if multibulklen i' = 0 then Some (True, nt, c, i')
            else mbulk_args max_len nt c i' pos
      }
      else mbulk_args max_len nt c i 0)"

section \<open>Headers\<close>

lemma sdsrange_drop: "sdsrange s (int n) (-1) = drop n s"
proof (cases "n = 0")
  case True
  then show ?thesis using sdsrange_last [of s] by simp
next
  case False
  then show ?thesis by (cases s) (auto simp: sdsrange_def Let_def nat_diff_distrib)
qed

lemma to_signed_small: "n < 2 ^ 31 \<Longrightarrow> to_signed n = int n"
  by (simp add: to_signed_def)

text \<open>A number between a prefix character and a line end is found in every text that starts with it.\<close>

lemma ll_text_chars:
  assumes "x \<in> set (ll_text v)"
  shows "x \<noteq> CR" "x \<noteq> CHR 0x00"
proof -
  have "is_digit x \<or> x = CHR ''-''" using assms ull_digits_digits by (auto simp: ll_text_def split: if_splits)
  then show "x \<noteq> CR" "x \<noteq> CHR 0x00" by (auto simp: is_digit_def)
qed

lemma find_cr_header:
  assumes "p \<noteq> CR" "p \<noteq> CHR 0x00"
  shows "find_cr (p # ll_text v @ CRLF @ rest) = Some (Suc (length (ll_text v)))"
proof -
  have "cstr (p # ll_text v @ CRLF @ rest) = p # ll_text v @ CR # cstr (CHR 0x0A # rest)"
    using assms ll_text_chars [of _ v] by (simp add: cstr_def CRLF_def takeWhile_append2)
  then show ?thesis
    using assms ll_text_chars(1) [of _ v] unfolding find_cr_def first_index_Some
    by (auto simp: nth_append nth_Cons split: nat.splits)
qed

lemma first_index_prefix: "m \<le> length s \<Longrightarrow> first_index P (take m s) = (case first_index P s of Some k \<Rightarrow> if k < m then Some k else None | None \<Rightarrow> None)"
proof (induction s arbitrary: m)
  case (Cons x s)
  then show ?case by (cases m) (auto split: option.splits)
qed simp

lemma cstr_take: "nul_free s \<Longrightarrow> cstr (take m s) = take m s"
  by (rule cstr_id) (auto simp: nul_free_def dest: in_set_takeD)

text \<open>In a part of a header the line end is missing, or it is not complete.\<close>

lemma find_cr_part:
  assumes "p \<noteq> CR" "p \<noteq> CHR 0x00" "m < length (p # ll_text v @ CRLF)"
  shows "find_cr (take m (p # ll_text v @ CRLF)) = None \<or>
    (\<exists>k. find_cr (take m (p # ll_text v @ CRLF)) = Some k \<and> Suc k = m)"
proof -
  let ?h = "p # ll_text v @ CRLF"
  let ?n = "Suc (length (ll_text v))"
  have free: "nul_free ?h" using assms(2) ll_text_chars(2) [of _ v] by (auto simp: nul_free_def CRLF_def)
  have "find_cr ?h = Some ?n" using find_cr_header [OF assms(1,2), of v "[]"] by simp
  then have "first_index (\<lambda>x. x = CR) ?h = Some ?n" using free by (simp only: find_cr_def cstr_id)
  then have "find_cr (take m ?h) = (if ?n < m then Some ?n else None)"
    unfolding find_cr_def cstr_take [OF free] using first_index_prefix [of m ?h "\<lambda>x. x = CR"] assms(3) by (simp del: take_Cons')
  then show ?thesis using assms(3) by (simp add: CRLF_def)
qed

text \<open>A buffer whose contents and the bytes still to come are a given text.\<close>

lemma split_known:
  assumes "d @ r = h @ n"
  shows "if length d < length h then d = take (length d) h else \<exists>d'. d = h @ d' \<and> d' @ r = n"
proof (cases "length d < length h")
  case True
  then have "d = take (length d) (h @ n)" unfolding assms [symmetric] by simp
  then show ?thesis using True by simp
next
  case False
  then have "h = take (length h) (d @ r)" unfolding assms by simp
  then have "h = take (length h) d" using False by simp
  then have "d = h @ drop (length h) d" by (metis append_take_drop_id)
  then show ?thesis using False assms by (metis append.assoc append_same_eq same_append_eq)
qed

section \<open>The steps of the parser\<close>

abbreviation bulk_header :: "string \<Rightarrow> string" where
  "bulk_header a \<equiv> CHR ''$'' # ll_text (int (length a)) @ CRLF"

lemma resp_bulk_header: "resp_bulk a = bulk_header a @ a @ CRLF"
  by (simp add: resp_bulk_def)

lemma mbulk_length_wait:
  assumes "drop pos (querybuf i) = take m (bulk_header a)" "m < length (bulk_header a)" "pos \<le> length (querybuf i)"
    "length (querybuf i) \<le> PROTO_INLINE_MAX_SIZE"
  shows "mbulk_length max_len nt c i pos = Some Wait"
proof -
  have l: "length (querybuf i) = pos + m" using arg_cong [OF assms(1), of length] assms(2,3) by simp
  have "to_signed (length (querybuf i)) = int (length (querybuf i))"
    using assms(4) by (intro to_signed_small) (simp add: PROTO_INLINE_MAX_SIZE_def)
  then show ?thesis
    using find_cr_part [OF _ _ assms(2)] assms(1,4) l by (auto simp: mbulk_length_def Let_def)
qed

lemma mbulk_length_next:
  assumes q: "drop pos (querybuf i) = bulk_header a @ d" and pos: "pos \<le> length (querybuf i)"
    and len: "length (querybuf i) \<le> PROTO_INLINE_MAX_SIZE" and a: "int (length a) \<le> max_len" "max_len \<le> LLONG_MAX"
  shows "\<exists>q' pos'. mbulk_length max_len nt c i pos = Some (Next (i\<lparr>querybuf := q', bulklen := int (length a)\<rparr>, pos')) \<and>
    drop pos' q' = d \<and> pos' \<le> length q' \<and> length q' \<le> length (querybuf i)"
proof -
  let ?q = "querybuf i" and ?n = "length (ll_text (int (length a)))"
  have l: "length ?q = pos + ?n + 3 + length d" using arg_cong [OF q, of length] pos by (simp add: CRLF_def)
  have cr: "find_cr (drop pos ?q) = Some (Suc ?n)"
    unfolding q using find_cr_header [of "CHR ''$''" "int (length a)" d] by simp
  have s: "\<not> to_signed (length ?q) - 2 < int (pos + Suc ?n)"
    using len l to_signed_small [of "length ?q"] by (simp add: PROTO_INLINE_MAX_SIZE_def)
  have h: "?q ! pos = CHR ''$''" using q pos l by (metis append_Cons hd_drop_conv_nth less_add_Suc1 list.sel(1) add.assoc add_less_cancel_left not_add_less1 not_less le_less add_cancel_right_right add_is_0 numeral_neq_zero)
  have "drop (pos + 1) ?q = ll_text (int (length a)) @ CRLF @ d" using arg_cong [OF q, of tl] by (simp add: drop_Suc tl_drop)
  then have t: "string2ll (take (Suc ?n - 1) (drop (pos + 1) ?q)) = Some (int (length a))"
    using a by (simp add: string2ll_complete ll_range_def LL_consts)
  have d: "drop (pos + Suc ?n + 2) ?q = d"
    using arg_cong [OF q, of "drop (Suc ?n + 2)"] by (simp add: CRLF_def add.commute add.left_commute)
  have run: "mbulk_length max_len nt c i pos = Some (Next
      (if PROTO_MBULK_BIG_ARG \<le> int (length a)
       then (i\<lparr>querybuf := sdsrange ?q (int (pos + Suc ?n + 2)) (-1), bulklen := int (length a)\<rparr>, 0)
       else (i\<lparr>bulklen := int (length a)\<rparr>, pos + Suc ?n + 2)))"
    unfolding mbulk_length_def Let_def cr using s h t a(1) by simp
  show ?thesis
  proof (cases "PROTO_MBULK_BIG_ARG \<le> int (length a)")
    case True
    then show ?thesis using run l unfolding sdsrange_drop d by (intro exI [of _ d] exI [of _ 0]) simp
  next
    case False
    then show ?thesis using run d l by (intro exI [of _ ?q] exI [of _ "pos + Suc ?n + 2"]) simp
  qed
qed

lemma mbulk_arg_wait:
  assumes "bulklen i = int (length a)" "pos \<le> length (querybuf i)" "length (drop pos (querybuf i)) < length (a @ CRLF)"
  shows "mbulk_arg i pos = Some Wait"
proof -
  have "int (length (querybuf i) - pos) < bulklen i + 2" using assms(1,3) by (simp add: CRLF_def)
  then show ?thesis using assms(1,2) unfolding mbulk_arg_def Let_def by (simp del: of_nat_diff)
qed

lemma mbulk_arg_next:
  assumes "bulklen i = int (length a)" "pos \<le> length (querybuf i)" "drop pos (querybuf i) = a @ CRLF @ d"
  shows "\<exists>q' pos'. mbulk_arg i pos = Some (Next (i\<lparr>bulklen := -1, multibulklen := multibulklen i - 1, iargv := iargv i @ [a], querybuf := q'\<rparr>, pos')) \<and>
    drop pos' q' = d \<and> pos' \<le> length q' \<and> length q' \<le> length (querybuf i)"
proof -
  let ?q = "querybuf i"
  have l: "length ?q = pos + length a + 2 + length d" using arg_cong [OF assms(3), of length] assms(2) by (simp add: CRLF_def)
  have d: "drop (pos + length a + 2) ?q = d"
    using arg_cong [OF assms(3), of "drop (length a + 2)"] by (simp add: CRLF_def add.commute add.left_commute)
  show ?thesis
  proof (cases "pos = 0 \<and> PROTO_MBULK_BIG_ARG \<le> bulklen i \<and> int (length ?q) = bulklen i + 2")
    case True
    then have "d = []" "take (length a) ?q = a" using l assms by auto
    then show ?thesis using True assms l by (intro exI [of _ "[]"] exI [of _ 0]) (simp add: mbulk_arg_def Let_def)
  next
    case False
    then have "mbulk_arg i pos = Some (Next (i\<lparr>bulklen := -1, multibulklen := multibulklen i - 1, iargv := iargv i @ [a], querybuf := ?q\<rparr>, pos + length a + 2))"
      using assms l by (simp add: mbulk_arg_def Let_def)
    then show ?thesis using d l by (intro exI [of _ ?q] exI [of _ "pos + length a + 2"]) simp
  qed
qed

section \<open>The loop\<close>

text \<open>
  The position in a command: the arguments that are still to be read, and the bytes they consist of. The
  length of the first of them may have been read already.
\<close>

definition reading :: "string list \<Rightarrow> string list \<Rightarrow> input \<Rightarrow> string \<Rightarrow> bool" where
  "reading as todo i need \<longleftrightarrow> iargv i @ todo = as \<and> todo \<noteq> [] \<and> multibulklen i = length todo \<and>
     (bulklen i = -1 \<and> need = concat (map resp_bulk todo) \<or>
      bulklen i = int (length (hd todo)) \<and> need = hd todo @ CRLF @ concat (map resp_bulk (tl todo)))"

definition read_all :: "string list \<Rightarrow> input \<Rightarrow> bool" where
  "read_all as i \<longleftrightarrow> iargv i = as \<and> multibulklen i = 0 \<and> bulklen i = -1"

text \<open>What a call leaves behind: everything has been read if the bytes were there, or the position is kept.\<close>

definition progressed :: "string list \<Rightarrow> string \<Rightarrow> string \<Rightarrow> bool \<Rightarrow> input \<Rightarrow> nat \<Rightarrow> bool" where
  "progressed as r rest complete i pos \<longleftrightarrow> pos \<le> length (querybuf i) \<and>
     (if complete then read_all as i \<and> drop pos (querybuf i) @ r = rest
      else \<exists>todo need. reading as todo i need \<and> drop pos (querybuf i) @ r = need @ rest \<and>
        length (drop pos (querybuf i)) < length need)"

lemma progressed_waiting:
  assumes "reading as todo i need" "drop pos (querybuf i) @ r = need @ rest" "pos \<le> length (querybuf i)"
    "length (drop pos (querybuf i)) < length need"
  shows "progressed as r rest (length need \<le> length (drop pos (querybuf i))) i pos"
proof -
  have "\<exists>todo need. reading as todo i need \<and> drop pos (querybuf i) @ r = need @ rest \<and> length (drop pos (querybuf i)) < length need"
    using assms(1,2,4) by (intro exI conjI)
  moreover have n: "\<not> length need \<le> length (drop pos (querybuf i))" using assms(4) by (simp only: not_le)
  ultimately show ?thesis unfolding progressed_def if_not_P [OF n] using assms(3) by (intro conjI)
qed

lemma mbulk_loop_ok:
  assumes "reading as todo i need" "drop pos (querybuf i) @ r = need @ rest" "pos \<le> length (querybuf i)"
    "length (querybuf i) \<le> PROTO_INLINE_MAX_SIZE" "\<forall>a \<in> set as. int (length a) \<le> max_len" "max_len \<le> LLONG_MAX"
  shows "\<exists>i' pos'. mbulk_loop max_len nt c (length todo) i pos = Some (Next (i', pos')) \<and>
    progressed as r rest (length need \<le> length (drop pos (querybuf i))) i' pos' \<and> length (querybuf i') \<le> length (querybuf i)"
  using assms(1-4)
proof (induction todo arbitrary: i need pos)
  case Nil
  then show ?case by (simp add: reading_def)
next
  case (Cons a ts)
  let ?d = "drop pos (querybuf i)" and ?N = "concat (map resp_bulk ts)"
  have a: "int (length a) \<le> max_len" using Cons.prems(1) assms(5) by (auto simp: reading_def)
  have arg: "\<exists>i' pos'. Option.bind (mbulk_arg i1 pos1) (case_outcome (Some (Next (i1, pos1))) (\<lambda>_ _ _. Some (Next (i1, pos1)))
        (\<lambda>(i2, pos2). mbulk_loop max_len nt c (length ts) i2 pos2)) = Some (Next (i', pos')) \<and>
      progressed as r rest (length (a @ CRLF @ ?N) \<le> length (drop pos1 (querybuf i1))) i' pos' \<and> length (querybuf i') \<le> length (querybuf i1)"
    if i1: "iargv i1 @ a # ts = as" "multibulklen i1 = Suc (length ts)" "bulklen i1 = int (length a)" "pos1 \<le> length (querybuf i1)"
      "drop pos1 (querybuf i1) @ r = a @ CRLF @ ?N @ rest" "length (querybuf i1) \<le> PROTO_INLINE_MAX_SIZE" for i1 pos1
  proof (cases "length (drop pos1 (querybuf i1)) < length (a @ CRLF)")
    case True
    have "reading as (a # ts) i1 (a @ CRLF @ ?N)" using i1 by (simp add: reading_def)
    moreover have "drop pos1 (querybuf i1) @ r = (a @ CRLF @ ?N) @ rest" using i1(5) by simp
    moreover have "length (drop pos1 (querybuf i1)) < length (a @ CRLF @ ?N)" using True by simp
    ultimately have "progressed as r rest (length (a @ CRLF @ ?N) \<le> length (drop pos1 (querybuf i1))) i1 pos1"
      using i1(4) by (intro progressed_waiting)
    then show ?thesis using mbulk_arg_wait [OF i1(3,4) True] by simp
  next
    case False
    have "drop pos1 (querybuf i1) @ r = (a @ CRLF) @ ?N @ rest" using i1(5) by simp
    from split_known [OF this] obtain d where d: "drop pos1 (querybuf i1) = a @ CRLF @ d" "d @ r = ?N @ rest" using False by auto
    obtain q' pos' where q': "mbulk_arg i1 pos1 = Some (Next (i1\<lparr>bulklen := -1, multibulklen := multibulklen i1 - 1, iargv := iargv i1 @ [a], querybuf := q'\<rparr>, pos'))"
        "drop pos' q' = d" "pos' \<le> length q'" "length q' \<le> length (querybuf i1)"
      using mbulk_arg_next [OF i1(3,4) d(1)] by blast
    let ?i2 = "i1\<lparr>bulklen := -1, multibulklen := multibulklen i1 - 1, iargv := iargv i1 @ [a], querybuf := q'\<rparr>"
    have le: "length (a @ CRLF @ ?N) \<le> length (drop pos1 (querybuf i1)) \<longleftrightarrow> length ?N \<le> length (drop pos' (querybuf ?i2))"
      using arg_cong [OF d(1), of length] q'(2) by simp
    show ?thesis
    proof (cases "ts = []")
      case True
      then show ?thesis using q' d(2) i1(1,2) le by (auto simp: progressed_def read_all_def)
    next
      case ts: False
      have "reading as ts ?i2 ?N" using i1(1,2) ts by (simp add: reading_def)
      then have "\<exists>i' pos''. mbulk_loop max_len nt c (length ts) ?i2 pos' = Some (Next (i', pos'')) \<and>
          progressed as r rest (length ?N \<le> length (drop pos' (querybuf ?i2))) i' pos'' \<and> length (querybuf i') \<le> length (querybuf ?i2)"
        using Cons.IH [of ?i2 ?N pos'] q'(2-4) d(2) i1(6) by simp
      then show ?thesis using q'(1,4) le by auto
    qed
  qed
  have st: "iargv i @ a # ts = as" "multibulklen i = Suc (length ts)" using Cons.prems(1) by (simp_all add: reading_def)
  show ?case
  proof (cases "bulklen i = -1")
    case False
    then have "bulklen i = int (length a)" "need = a @ CRLF @ ?N" using Cons.prems(1) by (auto simp: reading_def)
    then show ?thesis
      using arg [OF st, of pos] Cons.prems(2-4) False by (simp add: mbulk_step_def)
  next
    case True
    then have need: "need = bulk_header a @ a @ CRLF @ ?N" using Cons.prems(1) by (auto simp: reading_def resp_bulk_def)
    show ?thesis
    proof (cases "length ?d < length (bulk_header a)")
      case short: True
      have "?d @ r = bulk_header a @ a @ CRLF @ ?N @ rest" using Cons.prems(2) need by simp
      from split_known [OF this] have "?d = take (length ?d) (bulk_header a)" using short by simp
      then have "mbulk_length max_len nt c i pos = Some Wait"
        by (rule mbulk_length_wait [OF _ short Cons.prems(3,4)])
      moreover have "length ?d < length need" using short need by simp
      then have "progressed as r rest (length need \<le> length ?d) i pos" by (rule progressed_waiting [OF Cons.prems(1-3)])
      ultimately show ?thesis using True by (simp add: mbulk_step_def)
    next
      case long: False
      have "?d @ r = bulk_header a @ a @ CRLF @ ?N @ rest" using Cons.prems(2) need by simp
      from split_known [OF this] obtain d where d: "?d = bulk_header a @ d" "d @ r = a @ CRLF @ ?N @ rest" using long by auto
      obtain q' pos' where q': "mbulk_length max_len nt c i pos = Some (Next (i\<lparr>querybuf := q', bulklen := int (length a)\<rparr>, pos'))"
          "drop pos' q' = d" "pos' \<le> length q'" "length q' \<le> length (querybuf i)"
        using mbulk_length_next [OF d(1) Cons.prems(3,4) a assms(6)] by blast
      have "length need \<le> length ?d \<longleftrightarrow> length (a @ CRLF @ ?N) \<le> length (drop pos' q')"
        using arg_cong [OF d(1), of length] need q'(2) by simp
      then show ?thesis
        using arg [of "i\<lparr>querybuf := q', bulklen := int (length a)\<rparr>" pos'] st q' d(2) True Cons.prems(4)
        by (auto simp: mbulk_step_def)
    qed
  qed
qed

section \<open>Whole calls\<close>

definition fresh :: "input \<Rightarrow> bool" where
  "fresh i \<longleftrightarrow> iargv i = [] \<and> multibulklen i = 0 \<and> bulklen i = -1"

definition expecting :: "string list \<Rightarrow> input \<Rightarrow> string \<Rightarrow> bool" where
  "expecting as i need \<longleftrightarrow> fresh i \<and> need = resp as \<or> (\<exists>todo. reading as todo i need)"

text \<open>The commands that the parser accepts.\<close>

definition command_ok :: "int \<Rightarrow> string list \<Rightarrow> bool" where
  "command_ok max_len as \<longleftrightarrow> as \<noteq> [] \<and> int (length as) \<le> 1024 * 1024 \<and> max_len \<le> LLONG_MAX \<and>
     (\<forall>a \<in> set as. int (length a) \<le> max_len)"

lemma reading_querybuf [simp]: "reading as todo (i\<lparr>querybuf := q\<rparr>) need = reading as todo i need"
  by (simp add: reading_def)

lemma mbulk_args_ok:
  assumes "reading as todo i need" "drop pos (querybuf i) @ r = need @ rest" "pos \<le> length (querybuf i)"
    "length (querybuf i) \<le> PROTO_INLINE_MAX_SIZE" "command_ok max_len as"
  shows "\<exists>b i'. mbulk_args max_len nt c i pos = Some (b, nt, c, i') \<and> b = (length need \<le> length (drop pos (querybuf i))) \<and>
    (if b then read_all as i' \<and> querybuf i' @ r = rest
     else \<exists>need'. expecting as i' need' \<and> querybuf i' @ r = need' @ rest \<and> length (querybuf i') < length need') \<and>
    length (querybuf i') \<le> length (querybuf i)"
proof -
  let ?b = "length need \<le> length (drop pos (querybuf i))"
  have n: "multibulklen i = length todo" using assms(1) by (simp add: reading_def)
  obtain i' pos' where l: "mbulk_loop max_len nt c (length todo) i pos = Some (Next (i', pos'))" "progressed as r rest ?b i' pos'"
      "length (querybuf i') \<le> length (querybuf i)"
    using mbulk_loop_ok [OF assms(1-4), of max_len nt c] assms(5) by (auto simp: command_ok_def)
  let ?i = "if pos' \<noteq> 0 then i'\<lparr>querybuf := sdsrange (querybuf i') (int pos') (-1)\<rparr> else i'"
  have run: "mbulk_args max_len nt c i pos = Some (multibulklen ?i = 0, nt, c, ?i)"
    using l(1) n by (simp add: mbulk_args_def)
  have q: "querybuf ?i = drop pos' (querybuf i')" by (simp add: sdsrange_drop)
  then have le: "length (querybuf ?i) \<le> length (querybuf i)" using l(3) by simp
  show ?thesis
  proof (cases ?b)
    case True
    then have "read_all as i'" "drop pos' (querybuf i') @ r = rest" using l(2) by (simp_all add: progressed_def)
    then have "read_all as ?i" "querybuf ?i @ r = rest" "multibulklen ?i = 0" using q by (simp_all add: read_all_def)
    then show ?thesis using run True le by (intro exI [of _ True] exI [of _ ?i]) simp
  next
    case False
    then obtain todo' need' where t: "reading as todo' i' need'" "drop pos' (querybuf i') @ r = need' @ rest"
        "length (drop pos' (querybuf i')) < length need'"
      using l(2) by (auto simp: progressed_def)
    then have "expecting as ?i need'" "querybuf ?i @ r = need' @ rest" "multibulklen ?i \<noteq> 0" "length (querybuf ?i) < length need'"
      using q by (auto simp: expecting_def reading_def)
    then show ?thesis using run False le by (intro exI [of _ False] exI [of _ ?i]) auto
  qed
qed

abbreviation count_header :: "string list \<Rightarrow> string" where
  "count_header as \<equiv> CHR ''*'' # ll_text (int (length as)) @ CRLF"

lemma mbulk_count_ok:
  assumes i: "fresh i" and q: "querybuf i @ r = count_header as @ n" and len: "length (querybuf i) \<le> PROTO_INLINE_MAX_SIZE"
    and as: "as \<noteq> []" "int (length as) \<le> 1024 * 1024"
  shows "if length (querybuf i) < length (count_header as) then mbulk_count nt c i = Some Wait
    else \<exists>d. querybuf i = count_header as @ d \<and> d @ r = n \<and>
      mbulk_count nt c i = Some (Next (i\<lparr>multibulklen := length as\<rparr>, length (count_header as)))"
proof -
  let ?q = "querybuf i" and ?n = "length (ll_text (int (length as)))"
  have s: "to_signed (length ?q) = int (length ?q)" using len by (intro to_signed_small) (simp add: PROTO_INLINE_MAX_SIZE_def)
  have arg: "iargv i = []" using i by (simp add: fresh_def)
  show ?thesis
  proof (cases "length ?q < length (count_header as)")
    case True
    then have p: "?q = take (length ?q) (count_header as)" using split_known [OF q] by simp
    have "find_cr ?q = None \<or> (\<exists>k. find_cr ?q = Some k \<and> Suc k = length ?q)"
      using find_cr_part [OF _ _ True] p by auto
    then have "mbulk_count nt c i = Some Wait" using arg s len by (auto simp: mbulk_count_def Let_def)
    then show ?thesis using True by simp
  next
    case False
    then obtain d where d: "?q = count_header as @ d" "d @ r = n" using split_known [OF q] by auto
    have cr: "find_cr ?q = Some (Suc ?n)" unfolding d(1) using find_cr_header [of "CHR ''*''" "int (length as)" d] by simp
    have l: "\<not> to_signed (length ?q) - 2 < int (Suc ?n)" unfolding s using d(1) by (simp add: CRLF_def)
    have "ll_range (int (length as))" using as(2) by (simp add: ll_range_def LL_consts)
    then have t: "string2ll (take (Suc ?n - 1) (drop 1 ?q)) = Some (int (length as))"
      unfolding d(1) by (simp add: string2ll_complete)
    have h: "?q ! 0 = CHR ''*''" unfolding d(1) by simp
    have "mbulk_count nt c i = Some (Next (i\<lparr>multibulklen := length as\<rparr>, Suc ?n + 2))"
      unfolding mbulk_count_def Let_def cr using arg l h t as by simp
    then show ?thesis using False d by (simp add: CRLF_def)
  qed
qed

lemma process_ok:
  assumes e: "expecting as i need" and q: "querybuf i @ r = need @ rest" and len: "length (querybuf i) \<le> PROTO_INLINE_MAX_SIZE"
    and as: "command_ok max_len as"
  shows "\<exists>b i'. processMultibulkBuffer max_len nt c i = Some (b, nt, c, i') \<and> b = (length need \<le> length (querybuf i)) \<and>
    (if b then read_all as i' \<and> querybuf i' @ r = rest
     else \<exists>need'. expecting as i' need' \<and> querybuf i' @ r = need' @ rest \<and> length (querybuf i') < length need') \<and>
    length (querybuf i') \<le> length (querybuf i)"
proof (cases "fresh i \<and> need = resp as")
  case True
  let ?N = "concat (map resp_bulk as)" and ?i = "i\<lparr>multibulklen := length as\<rparr>"
  have need: "need = count_header as @ ?N" using True by (simp add: resp_def)
  have m: "multibulklen i = 0" using True by (simp add: fresh_def)
  have c: "if length (querybuf i) < length (count_header as) then mbulk_count nt c i = Some Wait
    else \<exists>d. querybuf i = count_header as @ d \<and> d @ r = ?N @ rest \<and>
      mbulk_count nt c i = Some (Next (?i, length (count_header as)))"
    using True q need as by (intro mbulk_count_ok [OF _ _ len]) (simp_all add: command_ok_def)
  show ?thesis
  proof (cases "length (querybuf i) < length (count_header as)")
    case short: True
    then have "processMultibulkBuffer max_len nt c i = Some (False, nt, c, i)" using c m by (simp add: processMultibulkBuffer_def)
    then show ?thesis using short e q need by (intro exI [of _ False] exI [of _ i]) auto
  next
    case False
    then obtain d where d: "querybuf i = count_header as @ d" "d @ r = ?N @ rest"
        "mbulk_count nt c i = Some (Next (?i, length (count_header as)))" using c by auto
    have r: "reading as as ?i ?N" using True as by (simp add: reading_def fresh_def command_ok_def)
    have dr: "drop (length (count_header as)) (querybuf ?i) = d" using d(1) by simp
    have "processMultibulkBuffer max_len nt c i = mbulk_args max_len nt c ?i (length (count_header as))"
      using d(3) m as by (simp add: processMultibulkBuffer_def command_ok_def)
    moreover have "length need \<le> length (querybuf i) \<longleftrightarrow> length ?N \<le> length (drop (length (count_header as)) (querybuf ?i))"
      unfolding dr unfolding d(1) need by simp
    ultimately show ?thesis
      using mbulk_args_ok [OF r _ _ _ as, of "length (count_header as)" "r" rest nt c] dr d len by simp
  qed
next
  case False
  then obtain todo where t: "reading as todo i need" using e by (auto simp: expecting_def)
  then have "multibulklen i \<noteq> 0" by (simp add: reading_def)
  then show ?thesis
    using mbulk_args_ok [OF t _ _ len as, of 0 r rest nt c] q by (simp add: processMultibulkBuffer_def)
qed

section \<open>Arrival in pieces\<close>

text \<open>
  \<^verbatim>\<open>readQueryFromClient\<close> appends the bytes of one read to the query buffer and has them processed. The
  result has the reads that were not needed for the command.
\<close>

fun receive :: "int \<Rightarrow> net \<Rightarrow> conn \<Rightarrow> input \<Rightarrow> string list \<Rightarrow> (bool \<times> net \<times> conn \<times> input \<times> string list) option" where
  "receive max_len nt c i [] = Some (False, nt, c, i, [])"
| "receive max_len nt c i (x # xs) = do {
     (ok, nt', c', i') \<leftarrow> processMultibulkBuffer max_len nt c (i\<lparr>querybuf := querybuf i @ x\<rparr>);
     if ok then Some (True, nt', c', i', xs) else receive max_len nt' c' i' xs
   }"

lemma expecting_querybuf [simp]: "expecting as (i\<lparr>querybuf := q\<rparr>) need = expecting as i need"
  by (simp add: expecting_def fresh_def)

lemma receive_ok:
  assumes "expecting as i need" "querybuf i @ concat xs = need @ rest" "length (querybuf i @ concat xs) \<le> PROTO_INLINE_MAX_SIZE"
    "command_ok max_len as" "length (querybuf i) < length need"
  shows "\<exists>i' xs'. receive max_len nt c i xs = Some (True, nt, c, i', xs') \<and> read_all as i' \<and> querybuf i' @ concat xs' = rest"
  using assms(1-3,5)
proof (induction xs arbitrary: i need)
  case Nil
  then show ?case using arg_cong [OF Nil(2), of length] by simp
next
  case (Cons x xs)
  let ?i = "i\<lparr>querybuf := querybuf i @ x\<rparr>"
  have q: "querybuf ?i @ concat xs = need @ rest" "expecting as ?i need" using Cons.prems(1,2) by simp_all
  have len: "length (querybuf ?i) \<le> PROTO_INLINE_MAX_SIZE" using Cons.prems(3) by simp
  obtain b i' where p: "processMultibulkBuffer max_len nt c ?i = Some (b, nt, c, i')"
    "if b then read_all as i' \<and> querybuf i' @ concat xs = rest
     else \<exists>need'. expecting as i' need' \<and> querybuf i' @ concat xs = need' @ rest \<and> length (querybuf i') < length need'"
    "length (querybuf i') \<le> length (querybuf ?i)"
    using process_ok [OF q(2,1) len assms(4), of nt c] by blast
  show ?case
  proof (cases b)
    case True
    then show ?thesis using p by simp
  next
    case False
    then obtain need' where n: "expecting as i' need'" "querybuf i' @ concat xs = need' @ rest" "length (querybuf i') < length need'"
      using p(2) by auto
    have "length (querybuf i' @ concat xs) \<le> PROTO_INLINE_MAX_SIZE" using p(3) Cons.prems(3) by simp
    then show ?thesis using Cons.IH [OF n(1,2) _ n(3)] p(1) False by simp
  qed
qed

section \<open>Properties\<close>

text \<open>
  A command is eventually read: from a fresh state, in whatever pieces its bytes arrive (not more than
  64 KB of them unprocessed), the parser waits until the last byte is there and then returns the command with
  exactly its arguments; the bytes that follow the command are still there.
\<close>

theorem command_eventually_read:
  assumes "fresh i" "querybuf i = []" "concat xs = resp as @ rest" "length (concat xs) \<le> PROTO_INLINE_MAX_SIZE" "command_ok max_len as"
  shows "\<exists>i' xs'. receive max_len nt c i xs = Some (True, nt, c, i', xs') \<and> iargv i' = as \<and> querybuf i' @ concat xs' = rest"
proof -
  have "expecting as i (resp as)" using assms(1) by (simp add: expecting_def)
  moreover have "length (querybuf i) < length (resp as)" using assms(2) by (simp add: resp_def)
  ultimately show ?thesis using receive_ok [of as i "resp as" xs rest max_len nt c] assms by (auto simp: read_all_def)
qed

definition sample_input :: input where
  "sample_input = \<lparr>querybuf = [], iargv = [], multibulklen = 0, bulklen = -1\<rparr>"

lemma sample_length: "length (resp [''find'', ''a'']) = 21"
  by (simp add: resp_def resp_bulk_def ll_text_def ull_digits_one CRLF_def)

lemma sample_command: "fresh sample_input" "querybuf sample_input = []" "command_ok 100 [''find'', ''a'']"
  by (simp_all add: fresh_def sample_input_def command_ok_def LL_consts)

theorem command_eventually_read_witness:
  "\<exists>i' xs'. receive 100 sample_net sample_conn sample_input
      [take 3 (resp [''find'', ''a'']), drop 3 (resp [''find'', ''a''])] = Some (True, sample_net, sample_conn, i', xs') \<and>
    iargv i' = [''find'', ''a''] \<and> querybuf i' @ concat xs' = []"
proof (rule command_eventually_read [OF sample_command(1,2) _ _ sample_command(3)])
  show c: "concat [take 3 (resp [''find'', ''a'']), drop 3 (resp [''find'', ''a''])] = resp [''find'', ''a''] @ []"
    by (simp only: concat.simps append_take_drop_id append_Nil2)
  show "length (concat [take 3 (resp [''find'', ''a'']), drop 3 (resp [''find'', ''a''])]) \<le> PROTO_INLINE_MAX_SIZE"
    unfolding c by (simp add: sample_length PROTO_INLINE_MAX_SIZE_def)
qed

text \<open>
  C32. Commands survive the wire: what the replication code writes for a command to the connection of a
  writable peer is parsed on the other side, in whatever pieces it arrives, as the same arguments.
\<close>

theorem command_survives_wire:
  assumes "\<forall>a \<in> set as. obj_ok a" "writable c" "reply_bytes c + length (resp (map obj_text as)) < max_reply_bytes"
    "fresh i" "querybuf i = []" "length (resp (map obj_text as)) \<le> PROTO_INLINE_MAX_SIZE" "command_ok max_len (map obj_text as)"
  shows "\<exists>nt' c' w. add_command nt c as = Some (nt', c') \<and> out c' = out c @ w \<and>
    (\<forall>xs nt2 c2. concat xs = w \<longrightarrow> (\<exists>i' xs'. receive max_len nt2 c2 i xs = Some (True, nt2, c2, i', xs') \<and>
      iargv i' = map obj_text as \<and> querybuf i' @ concat xs' = []))"
proof -
  have "int (length as) \<le> LLONG_MAX" using assms(7) by (simp add: command_ok_def LL_consts)
  then have "reply_writer (\<lambda>nt c. add_command nt c as) (resp (map obj_text as))" by (rule add_command_writer [OF assms(1)])
  then have "appended (resp (map obj_text as)) c (add_command nt c as)" using assms(2,3) by (rule reply_writer.writes)
  then obtain nt' c' where w: "add_command nt c as = Some (nt', c')" "out c' = out c @ resp (map obj_text as)"
    by (auto simp: appended_def)
  have "\<exists>i' xs'. receive max_len nt2 c2 i xs = Some (True, nt2, c2, i', xs') \<and> iargv i' = map obj_text as \<and> querybuf i' @ concat xs' = []"
    if "concat xs = resp (map obj_text as)" for xs nt2 c2
    using receive_ok [of "map obj_text as" i "resp (map obj_text as)" xs "[]" max_len nt2 c2] assms(4-7) that
    by (auto simp: expecting_def read_all_def resp_def)
  then show ?thesis using w by (intro exI [of _ nt'] exI [of _ c'] exI [of _ "resp (map obj_text as)"]) simp
qed

theorem command_survives_wire_witness:
  "\<exists>nt' c' w. add_command sample_net sample_conn [RawObj ''find'', RawObj ''a''] = Some (nt', c') \<and> out c' = out sample_conn @ w \<and>
    (\<forall>xs nt2 c2. concat xs = w \<longrightarrow> (\<exists>i' xs'. receive 100 nt2 c2 sample_input xs = Some (True, nt2, c2, i', xs') \<and>
      iargv i' = map obj_text [RawObj ''find'', RawObj ''a''] \<and> querybuf i' @ concat xs' = []))"
proof (rule command_survives_wire)
  show "writable sample_conn" by (simp add: writable_def may_write_def sample_conn_def)
  show "reply_bytes sample_conn + length (resp (map obj_text [RawObj ''find'', RawObj ''a''])) < max_reply_bytes"
    by (simp add: sample_length max_reply_bytes_def sample_conn_def)
qed (simp_all add: sample_command sample_length PROTO_INLINE_MAX_SIZE_def LL_consts)

end
