(* ===== verification/Backlog.thy ===== *)
theory Backlog
  imports Client_Output "HOL-Library.Signed_Division"
begin

text \<open>
  The replication backlog of \<^verbatim>\<open>src/replication.c\<close>: a circular buffer with the most recent bytes of the
  replication stream. \<^const>\<open>None\<close> for the buffer is the null pointer; the contents of freshly allocated
  memory are an argument. A loop that would not end, or access memory outside of the buffer, is \<^const>\<open>None\<close>.
  Shown is that the buffer always holds the end of the stream, and that a slave that asks for an offset
  in it is sent exactly the bytes of the stream from there on.
\<close>

section \<open>Model\<close>

record backlog =
  repl_backlog :: "string option"
  repl_backlog_size :: nat
  repl_backlog_histlen :: nat
  repl_backlog_idx :: nat
  repl_backlog_off :: int
  master_repl_offset :: int

definition CONFIG_REPL_BACKLOG_MIN_SIZE :: nat where
  "CONFIG_REPL_BACKLOG_MIN_SIZE = 1024 * 16"

text \<open>\<^verbatim>\<open>mem\<close> stands for the allocated memory, as long as the backlog.\<close>

definition empty_backlog :: "backlog \<Rightarrow> string \<Rightarrow> backlog" where
  "empty_backlog b mem =
     b\<lparr>repl_backlog := Some mem, repl_backlog_histlen := 0, repl_backlog_idx := 0,
       repl_backlog_off := master_repl_offset b + 1\<rparr>"

definition createReplicationBacklog :: "backlog \<Rightarrow> string \<Rightarrow> backlog option" where
  "createReplicationBacklog b mem = (if repl_backlog b \<noteq> None then None else Some (empty_backlog b mem))"

definition resizeReplicationBacklog :: "backlog \<Rightarrow> nat \<Rightarrow> string \<Rightarrow> backlog" where
  "resizeReplicationBacklog b newsize0 mem =
     (let newsize = max newsize0 CONFIG_REPL_BACKLOG_MIN_SIZE in
      if repl_backlog_size b = newsize then b
      else
        let b' = b\<lparr>repl_backlog_size := newsize\<rparr> in
        if repl_backlog b' \<noteq> None then empty_backlog b' mem else b')"

definition freeReplicationBacklog :: "backlog \<Rightarrow> conn list \<Rightarrow> backlog option" where
  "freeReplicationBacklog b slaves = (if slaves \<noteq> [] then None else Some (b\<lparr>repl_backlog := None\<rparr>))"

function feed_loop :: "backlog \<Rightarrow> string \<Rightarrow> backlog option" where
  "feed_loop b p =
     (if p = [] then Some b
      else case repl_backlog b of
        None \<Rightarrow> None
      | Some d \<Rightarrow>
          let thislen = min (repl_backlog_size b - repl_backlog_idx b) (length p);
              idx = repl_backlog_idx b + thislen
          in if thislen = 0 \<or> length d < idx then None
             else feed_loop (b\<lparr>repl_backlog := Some (take (repl_backlog_idx b) d @ take thislen p @ drop idx d),
                    repl_backlog_idx := (if idx = repl_backlog_size b then 0 else idx),
                    repl_backlog_histlen := repl_backlog_histlen b + thislen\<rparr>) (drop thislen p))"
  by pat_completeness auto
termination by (relation "measure (\<lambda>(b, p). length p)") auto

declare feed_loop.simps [simp del]

definition feedReplicationBacklog :: "backlog \<Rightarrow> string \<Rightarrow> backlog option" where
  "feedReplicationBacklog b p = do {
     b1 \<leftarrow> feed_loop (b\<lparr>master_repl_offset := master_repl_offset b + int (length p)\<rparr>) p;
     let b2 = b1\<lparr>repl_backlog_histlen := min (repl_backlog_histlen b1) (repl_backlog_size b1)\<rparr>;
     Some (b2\<lparr>repl_backlog_off := master_repl_offset b2 - int (repl_backlog_histlen b2) + 1\<rparr>)
   }"

definition LONG_STR_SIZE :: nat where
  "LONG_STR_SIZE = 21"

definition feedReplicationBacklogWithObject :: "backlog \<Rightarrow> robj \<Rightarrow> backlog option" where
  "feedReplicationBacklogWithObject b obj = do {
     p \<leftarrow> (case obj of IntObj v \<Rightarrow> print_ll LONG_STR_SIZE v | RawObj s \<Rightarrow> Some s);
     feedReplicationBacklog b p
   }"

function send_loop :: "net \<Rightarrow> conn \<Rightarrow> string \<Rightarrow> nat \<Rightarrow> nat \<Rightarrow> nat \<Rightarrow> (net \<times> conn) option" where
  "send_loop nt c d sz j len =
     (if len = 0 then Some (nt, c)
      else
        let thislen = (if sz - j < len then sz - j else len) in
        if thislen = 0 \<or> length d < j + thislen then None
        else case addReplySds nt c (take thislen (drop j d)) of
          None \<Rightarrow> None
        | Some (nt, c) \<Rightarrow> send_loop nt c d sz 0 (len - thislen))"
  by pat_completeness auto
termination by (relation "measure (\<lambda>(nt, c, d, sz, j, len). len)") auto

declare send_loop.simps [simp del]

definition addReplyReplicationBacklog :: "net \<Rightarrow> conn \<Rightarrow> backlog \<Rightarrow> int \<Rightarrow> (int \<times> net \<times> conn) option" where
  "addReplyReplicationBacklog nt c b offset =
     (if repl_backlog_histlen b = 0 then Some (0, nt, c)
      else if repl_backlog_size b = 0 then None
      else do {
        d \<leftarrow> repl_backlog b;
        let skip = offset - repl_backlog_off b;
        let sz = int (repl_backlog_size b);
        let j = (int (repl_backlog_idx b) + (sz - int (repl_backlog_histlen b))) smod sz;
        let j = (j + skip) smod sz;
        let len = int (repl_backlog_histlen b) - skip;
        if len < 0 \<or> j < 0 \<and> len \<noteq> 0 then None
        else do {
          (nt, c) \<leftarrow> send_loop nt c d (repl_backlog_size b) (nat j) (nat len);
          Some (len, nt, c)
        }
      })"

section \<open>The end of the stream\<close>

definition backlog_ok :: "backlog \<Rightarrow> bool" where
  "backlog_ok b \<longleftrightarrow> repl_backlog_idx b < repl_backlog_size b \<and> repl_backlog_histlen b \<le> repl_backlog_size b \<and>
     (\<exists>d. repl_backlog b = Some d \<and> length d = repl_backlog_size b) \<and>
     repl_backlog_off b = master_repl_offset b - int (repl_backlog_histlen b) + 1"

text \<open>The buffer from its oldest byte on.\<close>

definition ring :: "backlog \<Rightarrow> string" where
  "ring b = (case repl_backlog b of Some d \<Rightarrow> drop (repl_backlog_idx b) d @ take (repl_backlog_idx b) d | None \<Rightarrow> [])"

definition history :: "backlog \<Rightarrow> string" where
  "history b = drop (repl_backlog_size b - repl_backlog_histlen b) (ring b)"

lemma length_ring: "repl_backlog b = Some d \<Longrightarrow> length (ring b) = length d"
  by (simp add: ring_def)

lemma ring_write:
  assumes "i + length x \<le> length d" "d1 = take i d @ x @ drop (i + length x) d"
    "j = (if i + length x = length d then 0 else i + length x)"
  shows "drop j d1 @ take j d1 = drop (length x) ((drop i d @ take i d) @ x)"
  using assms by (cases "i + length x = length d") (simp_all add: add.commute)

lemma drop_twice_append:
  assumes "length x \<le> length r"
  shows "drop (length y) (drop (length x) (r @ x) @ y) = drop (length (x @ y)) (r @ x @ y)"
  using assms by (simp add: add.commute)

lemma feed_loop_ok:
  assumes "repl_backlog b = Some d" "length d = repl_backlog_size b" "repl_backlog_idx b < repl_backlog_size b"
  shows "\<exists>d' i. feed_loop b p = Some (b\<lparr>repl_backlog := Some d', repl_backlog_idx := i,
      repl_backlog_histlen := repl_backlog_histlen b + length p\<rparr>) \<and>
    length d' = length d \<and> i < repl_backlog_size b \<and> drop i d' @ take i d' = drop (length p) (ring b @ p)"
  using assms
proof (induction "length p" arbitrary: b p d rule: less_induct)
  case less
  show ?case
  proof (cases "p = []")
    case True
    then show ?thesis
      using less(2-4) by (intro exI [of _ d] exI [of _ "repl_backlog_idx b"]) (simp add: feed_loop.simps ring_def)
  next
    case False
    define t where "t = min (repl_backlog_size b - repl_backlog_idx b) (length p)"
    define x where "x = take t p"
    define y where "y = drop t p"
    define d1 where "d1 = take (repl_backlog_idx b) d @ x @ drop (repl_backlog_idx b + t) d"
    define j where "j = (if repl_backlog_idx b + t = repl_backlog_size b then 0 else repl_backlog_idx b + t)"
    define b1 where "b1 = b\<lparr>repl_backlog := Some d1, repl_backlog_idx := j, repl_backlog_histlen := repl_backlog_histlen b + t\<rparr>"
    have t: "t \<noteq> 0" "repl_backlog_idx b + t \<le> length d" using False less(3,4) by (auto simp: t_def)
    have x: "length x = t" "p = x @ y" "length y < length p" using t False by (simp_all add: x_def y_def t_def)
    have step: "feed_loop b p = feed_loop b1 y"
      using False less(2) t by (subst feed_loop.simps)
        (simp add: Let_def t_def [symmetric] x_def [symmetric] y_def [symmetric] d1_def [symmetric] j_def [symmetric] b1_def [symmetric])
    have b1: "repl_backlog b1 = Some d1" "length d1 = repl_backlog_size b1" "repl_backlog_idx b1 < repl_backlog_size b1"
      using t x(1) less(3,4) by (auto simp: b1_def d1_def j_def)
    have "drop j d1 @ take j d1 = drop (length x) ((drop (repl_backlog_idx b) d @ take (repl_backlog_idx b) d) @ x)"
      by (rule ring_write) (use t(2) x(1) less(3) in \<open>simp_all add: d1_def j_def\<close>)
    moreover have "ring b1 = drop j d1 @ take j d1" "ring b = drop (repl_backlog_idx b) d @ take (repl_backlog_idx b) d"
      using less(2) by (simp_all add: ring_def b1_def)
    ultimately have r: "ring b1 = drop (length x) (ring b @ x)" by (simp only:)
    obtain d' i where d': "feed_loop b1 y = Some (b1\<lparr>repl_backlog := Some d', repl_backlog_idx := i,
        repl_backlog_histlen := repl_backlog_histlen b1 + length y\<rparr>)"
      "length d' = length d1" "i < repl_backlog_size b1" "drop i d' @ take i d' = drop (length y) (ring b1 @ y)"
      using less(1) [OF x(3) b1] by blast
    have "drop (length y) (ring b1 @ y) = drop (length p) (ring b @ p)"
      unfolding r x(2) by (rule drop_twice_append) (use length_ring [OF less(2)] x(1) t(2) in simp)
    then show ?thesis
      using step d' less(3) b1(2) x(1,2) by (intro exI [of _ d'] exI [of _ i]) (simp add: b1_def)
  qed
qed

lemma feed_ok:
  assumes "backlog_ok b"
  shows "\<exists>b'. feedReplicationBacklog b p = Some b' \<and> backlog_ok b' \<and> repl_backlog_size b' = repl_backlog_size b \<and>
    master_repl_offset b' = master_repl_offset b + int (length p) \<and>
    repl_backlog_histlen b' = min (repl_backlog_histlen b + length p) (repl_backlog_size b) \<and>
    ring b' = drop (length p) (ring b @ p)"
proof -
  obtain d where d: "repl_backlog b = Some d" "length d = repl_backlog_size b" "repl_backlog_idx b < repl_backlog_size b"
    using assms by (auto simp: backlog_ok_def)
  let ?b = "b\<lparr>master_repl_offset := master_repl_offset b + int (length p)\<rparr>"
  obtain d' i where d': "feed_loop ?b p = Some (?b\<lparr>repl_backlog := Some d', repl_backlog_idx := i,
      repl_backlog_histlen := repl_backlog_histlen b + length p\<rparr>)"
    "length d' = length d" "i < repl_backlog_size b" "drop i d' @ take i d' = drop (length p) (ring b @ p)"
    using feed_loop_ok [of ?b d p] d by (auto simp: ring_def)
  show ?thesis
    unfolding feedReplicationBacklog_def d'(1)
    using d'(2-4) d(2) by (simp add: backlog_ok_def ring_def)
qed

lemma history_length: "backlog_ok b \<Longrightarrow> length (history b) = repl_backlog_histlen b"
  by (auto simp: backlog_ok_def history_def length_ring)

lemma suffix_min:
  assumes "length r = n" "h \<le> n"
  shows "drop (n - min (h + length p) n) (drop (length p) (r @ p)) =
    drop (length (drop (n - h) r @ p) - min (h + length p) n) (drop (n - h) r @ p)"
proof (cases "h + length p \<le> n")
  case True
  then show ?thesis using assms by (simp add: add.commute)
next
  case False
  then show ?thesis using assms by (simp add: add.commute)
qed

text \<open>The buffer holds the end of the stream it has been fed.\<close>

lemma feed_history:
  assumes "backlog_ok b"
  shows "\<exists>b'. feedReplicationBacklog b p = Some b' \<and> backlog_ok b' \<and> repl_backlog_size b' = repl_backlog_size b \<and>
    master_repl_offset b' = master_repl_offset b + int (length p) \<and>
    repl_backlog_histlen b' = min (repl_backlog_histlen b + length p) (repl_backlog_size b) \<and>
    history b' = drop (length (history b @ p) - repl_backlog_size b) (history b @ p)"
proof -
  obtain b' where b': "feedReplicationBacklog b p = Some b'" "backlog_ok b'" "repl_backlog_size b' = repl_backlog_size b"
    "master_repl_offset b' = master_repl_offset b + int (length p)"
    "repl_backlog_histlen b' = min (repl_backlog_histlen b + length p) (repl_backlog_size b)"
    "ring b' = drop (length p) (ring b @ p)"
    using feed_ok [OF assms] by blast
  have n: "length (ring b) = repl_backlog_size b" "repl_backlog_histlen b \<le> repl_backlog_size b"
    using assms by (auto simp: backlog_ok_def length_ring)
  have "history b' = drop (length (history b @ p) - min (repl_backlog_histlen b + length p) (repl_backlog_size b)) (history b @ p)"
    using suffix_min [OF n] b'(3,5,6) by (simp add: history_def)
  also have "\<dots> = drop (length (history b @ p) - repl_backlog_size b) (history b @ p)"
    using history_length [OF assms] by (simp add: min_def)
  finally show ?thesis using b'(1-5) by blast
qed
section \<open>Sending the end of the stream to a slave\<close>

lemma send_loop_ends: "reply_writer (\<lambda>nt c. send_loop nt c d sz j 0) []"
  by unfold_locales (simp_all add: send_loop.simps appended_def)

lemma send_loop_step:
  assumes "thislen = (if sz - j < len then sz - j else len)" "thislen \<noteq> 0" "j + thislen \<le> length d"
    "reply_writer (\<lambda>nt c. send_loop nt c d sz 0 (len - thislen)) s"
  shows "reply_writer (\<lambda>nt c. send_loop nt c d sz j len) (take thislen (drop j d) @ s)"
proof -
  have "len \<noteq> 0" using assms(1,2) by (auto split: if_splits)
  then have "send_loop nt c d sz j len =
      Option.bind (addReplySds nt c (take thislen (drop j d))) (\<lambda>(nt, c). send_loop nt c d sz 0 (len - thislen))" for nt c
    using assms(2,3) unfolding send_loop.simps [of nt c d sz j len] Let_def assms(1) [symmetric]
    by (cases "addReplySds nt c (take thislen (drop j d))") (simp_all add: not_less)
  then show ?thesis using sds.writer_then [OF assms(4)] by simp
qed

lemma send_loop_within:
  assumes "length d = sz" "j + len \<le> sz"
  shows "reply_writer (\<lambda>nt c. send_loop nt c d sz j len) (take len (drop j d))"
proof (cases "len = 0")
  case True
  then show ?thesis using send_loop_ends by simp
next
  case False
  then show ?thesis
    using send_loop_step [of len sz j len d "[]"] send_loop_ends [of d sz 0] assms by simp
qed

lemma send_loop_writer:
  assumes "length d = sz" "j < sz" "len \<le> sz"
  shows "reply_writer (\<lambda>nt c. send_loop nt c d sz j len) (take len (drop j d @ take j d))"
proof (cases "j + len \<le> sz")
  case True
  then show ?thesis using send_loop_within [OF assms(1) True] assms(1) by simp
next
  case False
  have "reply_writer (\<lambda>nt c. send_loop nt c d sz 0 (len - (sz - j))) (take (len - (sz - j)) (drop 0 d))"
    using assms by (intro send_loop_within) simp_all
  then have "reply_writer (\<lambda>nt c. send_loop nt c d sz j len) (take (sz - j) (drop j d) @ take (len - (sz - j)) (drop 0 d))"
    using False assms by (intro send_loop_step) simp_all
  moreover have "take (sz - j) (drop j d) @ take (len - (sz - j)) (drop 0 d) = take len (drop j d @ take j d)"
  proof -
    have "len - (sz - j) \<le> j" using False assms by simp
    then show ?thesis using False assms by (simp add: min_absorb2)
  qed
  ultimately show ?thesis by simp
qed

lemma smod_nat: "0 < n \<Longrightarrow> int m smod int n = int (m mod n)"
  by (simp add: signed_modulo_int_def of_nat_mod sgn_if)

lemma rotated_suffix:
  assumes "length d = sz" "i < sz" "len \<le> sz"
  shows "take len (rotate (i + (sz - len)) d) = drop (sz - len) (drop i d @ take i d)"
proof -
  have "drop i d @ take i d = rotate i d" using assms by (simp add: rotate_drop_take)
  moreover have "rotate (i + (sz - len)) d = rotate (sz - len) (rotate i d)" by (simp add: rotate_rotate add.commute)
  ultimately show ?thesis
    using assms by (cases "len = 0") (simp_all add: rotate_drop_take [of "sz - len"])
qed

lemma backlog_reply:
  assumes "backlog_ok b" "repl_backlog_off b \<le> offset" "offset \<le> repl_backlog_off b + int (repl_backlog_histlen b)"
  shows "\<exists>w. reply_writer w (drop (nat (offset - repl_backlog_off b)) (history b)) \<and>
    (\<forall>nt c. addReplyReplicationBacklog nt c b offset =
       Option.bind (w nt c) (\<lambda>(nt', c'). Some (repl_backlog_off b + int (repl_backlog_histlen b) - offset, nt', c')))"
proof (cases "repl_backlog_histlen b = 0")
  case True
  moreover have "history b = []" using history_length [OF assms(1)] True by simp
  ultimately show ?thesis
    using assms(2,3) send_loop_ends [of "[]" 0 0]
    by (intro exI [of _ "\<lambda>nt c. send_loop nt c [] 0 0 0"]) (simp add: addReplyReplicationBacklog_def send_loop.simps)
next
  case False
  obtain d where d: "repl_backlog b = Some d" "length d = repl_backlog_size b" "repl_backlog_idx b < repl_backlog_size b"
      "repl_backlog_histlen b \<le> repl_backlog_size b"
    using assms(1) by (auto simp: backlog_ok_def)
  define skip where "skip = nat (offset - repl_backlog_off b)"
  define sz where "sz = repl_backlog_size b"
  define len where "len = repl_backlog_histlen b - skip"
  have skip: "offset - repl_backlog_off b = int skip" "skip \<le> repl_backlog_histlen b" using assms(2,3) by (auto simp: skip_def)
  define j where "j = (repl_backlog_idx b + (sz - len)) mod sz"
  have len: "len \<le> sz" "0 < sz" "j < sz" using d by (auto simp: len_def sz_def j_def)
  have "int (repl_backlog_idx b) + (int sz - int (repl_backlog_histlen b)) = int (repl_backlog_idx b + (sz - repl_backlog_histlen b))"
    using d(4) by (simp add: sz_def)
  then have "(int (repl_backlog_idx b) + (int sz - int (repl_backlog_histlen b))) smod int sz =
      int ((repl_backlog_idx b + (sz - repl_backlog_histlen b)) mod sz)"
    using smod_nat [OF len(2)] by (simp only:)
  moreover have "(int ((repl_backlog_idx b + (sz - repl_backlog_histlen b)) mod sz) + int skip) smod int sz = int j"
  proof -
    have "j = ((repl_backlog_idx b + (sz - repl_backlog_histlen b)) mod sz + skip) mod sz"
      using skip(2) d(4) by (simp add: j_def len_def sz_def mod_add_left_eq add.assoc)
    then show ?thesis using smod_nat [OF len(2)] by (simp only: of_nat_add [symmetric])
  qed
  moreover have "int (repl_backlog_histlen b) - int skip = int len" using skip(2) by (simp add: len_def)
  ultimately have eq: "addReplyReplicationBacklog nt c b offset =
      Option.bind (send_loop nt c d sz j len) (\<lambda>(nt', c'). Some (int len, nt', c'))" for nt c
    using False d(1) len(2) unfolding addReplyReplicationBacklog_def sz_def [symmetric] skip(1) by (simp add: Let_def)
  have "take len (drop j d @ take j d) = drop skip (history b)"
  proof -
    have "take len (drop j d @ take j d) = take len (rotate (repl_backlog_idx b + (sz - len)) d)"
      using d(2) by (simp add: rotate_drop_take j_def sz_def)
    also have "\<dots> = drop (sz - len) (ring b)" using d len rotated_suffix [of d sz] by (simp add: ring_def sz_def)
    also have "\<dots> = drop skip (history b)" using skip(2) d(4) by (simp add: history_def len_def sz_def add.commute)
    finally show ?thesis .
  qed
  then have "reply_writer (\<lambda>nt c. send_loop nt c d sz j len) (drop skip (history b))"
    using send_loop_writer [of d sz j len] d(2) len by (simp add: sz_def)
  moreover have "int len = repl_backlog_off b + int (repl_backlog_histlen b) - offset" using skip by (simp add: len_def)
  ultimately show ?thesis using eq unfolding skip_def by auto
qed

fun feed_all :: "backlog \<Rightarrow> string list \<Rightarrow> backlog option" where
  "feed_all b [] = Some b"
| "feed_all b (p # ps) = do { b \<leftarrow> feedReplicationBacklog b p; feed_all b ps }"

lemma drop_to_bound:
  "drop (length (drop (length x - n) x @ y) - n) (drop (length x - n) x @ y) = drop (length (x @ y) - n) (x @ y)"
  by (cases "length x \<le> n") (simp_all add: add.commute)

lemma feed_all_history:
  assumes "backlog_ok b" "history b = drop (length s - repl_backlog_size b) s"
  shows "\<exists>b'. feed_all b ps = Some b' \<and> backlog_ok b' \<and> repl_backlog_size b' = repl_backlog_size b \<and>
    master_repl_offset b' = master_repl_offset b + int (length (concat ps)) \<and>
    history b' = drop (length (s @ concat ps) - repl_backlog_size b) (s @ concat ps)"
  using assms
proof (induction ps arbitrary: b s)
  case (Cons p ps)
  obtain b1 where b1: "feedReplicationBacklog b p = Some b1" "backlog_ok b1" "repl_backlog_size b1 = repl_backlog_size b"
    "master_repl_offset b1 = master_repl_offset b + int (length p)"
    "history b1 = drop (length (history b @ p) - repl_backlog_size b) (history b @ p)"
    using feed_history [OF Cons.prems(1), of p] by blast
  have "history b1 = drop (length (s @ p) - repl_backlog_size b1) (s @ p)"
    using drop_to_bound [of s "repl_backlog_size b" p] b1(3,5) Cons.prems(2) by simp
  then show ?case using Cons.IH [OF b1(2)] b1(1,3,4) by fastforce
qed simp

lemma created_ok:
  assumes "repl_backlog b = None" "length mem = repl_backlog_size b" "0 < repl_backlog_size b"
  shows "createReplicationBacklog b mem = Some (empty_backlog b mem) \<and> backlog_ok (empty_backlog b mem) \<and>
    history (empty_backlog b mem) = [] \<and> repl_backlog_size (empty_backlog b mem) = repl_backlog_size b \<and>
    master_repl_offset (empty_backlog b mem) = master_repl_offset b"
  using assms by (simp add: createReplicationBacklog_def empty_backlog_def backlog_ok_def history_def ring_def)

text \<open>
  C33. A slave that reconnects misses nothing: from the creation of the backlog on, whatever is fed into it
  in whatever pieces, a slave that asks for an offset that the backlog still covers is sent exactly the
  bytes of the stream from that offset on, and the number of these bytes is returned. The offsets
  covered reach from the oldest of the last \<^verbatim>\<open>repl_backlog_size\<close> bytes to the next byte to come.
\<close>

theorem backlog_serves_stream:
  assumes "repl_backlog b = None" "length mem = repl_backlog_size b" "0 < repl_backlog_size b"
    "skip \<le> length (concat ps)" "length (concat ps) \<le> skip + repl_backlog_size b"
    "writable c" "reply_bytes c + (length (concat ps) - skip) < max_reply_bytes"
  shows "\<exists>b0 b' nt' c'. createReplicationBacklog b mem = Some b0 \<and> feed_all b0 ps = Some b' \<and>
    addReplyReplicationBacklog nt c b' (master_repl_offset b + 1 + int skip) = Some (int (length (concat ps) - skip), nt', c') \<and>
    out c' = out c @ drop skip (concat ps)"
proof -
  let ?n = "repl_backlog_size b" and ?s = "concat ps" and ?o = "master_repl_offset b + 1 + int skip"
  let ?b0 = "empty_backlog b mem"
  note b0 = created_ok [OF assms(1-3)]
  obtain b' where b': "feed_all ?b0 ps = Some b'" "backlog_ok b'" "repl_backlog_size b' = ?n"
    "master_repl_offset b' = master_repl_offset b + int (length ?s)" "history b' = drop (length ?s - ?n) ?s"
    using feed_all_history [of ?b0 "[]" ps] b0 by auto
  have h: "repl_backlog_histlen b' = min (length ?s) ?n" using history_length [OF b'(2)] b'(5) by simp
  have off: "repl_backlog_off b' = master_repl_offset b + 1 + int (length ?s - ?n)"
    using b'(2,4) h unfolding backlog_ok_def by (simp add: min_def)
  have o1: "repl_backlog_off b' \<le> ?o" "?o \<le> repl_backlog_off b' + int (repl_backlog_histlen b')"
    using assms(4,5) off h by auto
  have nat: "nat (?o - repl_backlog_off b') = skip - (length ?s - ?n)" using off by auto
  have len: "repl_backlog_off b' + int (repl_backlog_histlen b') - ?o = int (length ?s - skip)" using off h assms(4) by auto
  have rest: "drop (nat (?o - repl_backlog_off b')) (history b') = drop skip ?s" unfolding nat b'(5) using assms(5) by simp
  obtain w where w: "reply_writer w (drop skip ?s)"
    "addReplyReplicationBacklog nt c b' ?o = Option.bind (w nt c) (\<lambda>(nt', c'). Some (int (length ?s - skip), nt', c'))"
    using backlog_reply [OF b'(2) o1] unfolding rest len by auto
  have "appended (drop skip ?s) c (w nt c)" using assms(6,7) by (intro reply_writer.writes [OF w(1)]) simp_all
  then show ?thesis using b0 b'(1) w(2) by (fastforce simp: appended_def)
qed


text \<open>Four bytes of room, six bytes fed in two pieces, and a slave that has the first three.\<close>

theorem backlog_serves_stream_witness:
  "let b = \<lparr>repl_backlog = None, repl_backlog_size = 4, repl_backlog_histlen = 0, repl_backlog_idx = 0,
       repl_backlog_off = 0, master_repl_offset = 10\<rparr> in
   \<exists>b0 b' nt' c'. createReplicationBacklog b ''????'' = Some b0 \<and> feed_all b0 [''abc'', ''def''] = Some b' \<and>
     addReplyReplicationBacklog sample_net sample_conn b' 14 = Some (3, nt', c') \<and> out c' = ''def''"
  using backlog_serves_stream [of "\<lparr>repl_backlog = None, repl_backlog_size = 4, repl_backlog_histlen = 0, repl_backlog_idx = 0,
      repl_backlog_off = 0, master_repl_offset = 10\<rparr>" "''????''" 3 "[''abc'', ''def'']" sample_conn sample_net]
  by (simp add: sample_writable max_reply_bytes_def)

end
