(* ===== verification/Sds_Args.thy ===== *)
theory Sds_Args
  imports Sds
begin

text \<open>
  Quoted arguments of \<^verbatim>\<open>src/sds.c\<close>: \<^verbatim>\<open>sdscatrepr\<close> writes a string of arbitrary bytes as a quoted text, \<^verbatim>\<open>sdssplitargs\<close>
  splits a line into arguments. The pointer into the line is the rest of the line it points to. The classification
  of characters is that of the C locale. Shown is that splitting always ends and inverts quoting.
\<close>

section \<open>Model\<close>

definition isspace :: "char \<Rightarrow> bool" where
  "isspace c \<longleftrightarrow> c = CHR '' '' \<or> (9 \<le> (of_char c :: nat) \<and> (of_char c :: nat) \<le> 13)"

definition isprint :: "char \<Rightarrow> bool" where
  "isprint c \<longleftrightarrow> 32 \<le> (of_char c :: nat) \<and> (of_char c :: nat) \<le> 126"

text \<open>The two digits of \<^verbatim>\<open>%02x\<close>.\<close>

definition hex_char :: "nat \<Rightarrow> char" where
  "hex_char d = (if d < 10 then char_of (48 + d) else char_of (87 + d))"

fun catrepr_loop :: "sds \<Rightarrow> string \<Rightarrow> sds" where
  "catrepr_loop s [] = s"
| "catrepr_loop s (c # p) =
     catrepr_loop
       (if c = CHR 0x5C \<or> c = CHR 0x22 then sdscatlen s [CHR 0x5C, c]
        else if c = CHR 0x0A then sdscatlen s [CHR 0x5C, CHR ''n'']
        else if c = CHR 0x0D then sdscatlen s [CHR 0x5C, CHR ''r'']
        else if c = CHR 0x09 then sdscatlen s [CHR 0x5C, CHR ''t'']
        else if c = CHR 0x07 then sdscatlen s [CHR 0x5C, CHR ''a'']
        else if c = CHR 0x08 then sdscatlen s [CHR 0x5C, CHR ''b'']
        else if isprint c then sdscatlen s [c]
        else sdscatlen s [CHR 0x5C, CHR ''x'', hex_char (of_char c div 16), hex_char (of_char c mod 16)]) p"

definition sdscatrepr :: "sds \<Rightarrow> string \<Rightarrow> sds" where
  "sdscatrepr s p = sdscatlen (catrepr_loop (sdscatlen s [CHR 0x22]) p) [CHR 0x22]"

definition is_hex_digit :: "char \<Rightarrow> bool" where
  "is_hex_digit c \<longleftrightarrow>
     (let n = (of_char c :: nat) in 48 \<le> n \<and> n \<le> 57 \<or> 97 \<le> n \<and> n \<le> 102 \<or> 65 \<le> n \<and> n \<le> 70)"

definition hex_digit_to_int :: "char \<Rightarrow> nat" where
  "hex_digit_to_int c =
     (let n = (of_char c :: nat) in
      if 48 \<le> n \<and> n \<le> 57 then n - 48 else if 97 \<le> n \<and> n \<le> 102 then n - 87 else if 65 \<le> n \<and> n \<le> 70 then n - 55 else 0)"

text \<open>The character at an offset from the pointer; behind the line is its terminator.\<close>

definition at :: "string \<Rightarrow> nat \<Rightarrow> char" where
  "at r i = (if i < length r then r ! i else NUL)"

definition unescape :: "char \<Rightarrow> char" where
  "unescape c =
     (if c = CHR ''n'' then CHR 0x0A else if c = CHR ''r'' then CHR 0x0D else if c = CHR ''t'' then CHR 0x09
      else if c = CHR ''b'' then CHR 0x08 else if c = CHR ''a'' then CHR 0x07 else c)"

text \<open>The states of the inner loop: outside quotes, in double quotes, in single quotes. \<^const>\<open>None\<close> is the jump to \<^verbatim>\<open>err\<close>.\<close>

datatype quoting = Plain | In_Q | In_SQ

function split_token :: "quoting \<Rightarrow> string \<Rightarrow> sds \<Rightarrow> (sds \<times> string) option" where
  "split_token q r current =
     (case q of
        In_Q \<Rightarrow>
          if at r 0 = CHR 0x5C \<and> at r 1 = CHR ''x'' \<and> is_hex_digit (at r 2) \<and> is_hex_digit (at r 3)
          then split_token In_Q (drop 4 r)
                 (sdscatlen current [char_of (hex_digit_to_int (at r 2) * 16 + hex_digit_to_int (at r 3))])
          else if at r 0 = CHR 0x5C \<and> at r 1 \<noteq> NUL
          then split_token In_Q (drop 2 r) (sdscatlen current [unescape (at r 1)])
          else if at r 0 = CHR 0x22
          then (if at r 1 \<noteq> NUL \<and> \<not> isspace (at r 1) then None else Some (current, drop 1 r))
          else if r = [] then None
          else split_token In_Q (drop 1 r) (sdscatlen current [at r 0])
      | In_SQ \<Rightarrow>
          if at r 0 = CHR 0x5C \<and> at r 1 = CHR 0x27
          then split_token In_SQ (drop 2 r) (sdscatlen current [CHR 0x27])
          else if at r 0 = CHR 0x27
          then (if at r 1 \<noteq> NUL \<and> \<not> isspace (at r 1) then None else Some (current, drop 1 r))
          else if r = [] then None
          else split_token In_SQ (drop 1 r) (sdscatlen current [at r 0])
      | Plain \<Rightarrow>
          if r = [] then Some (current, [])
          else if at r 0 \<in> {CHR '' '', CHR 0x0A, CHR 0x0D, CHR 0x09} then Some (current, drop 1 r)
          else if at r 0 = CHR 0x22 then split_token In_Q (drop 1 r) current
          else if at r 0 = CHR 0x27 then split_token In_SQ (drop 1 r) current
          else split_token Plain (drop 1 r) (sdscatlen current [at r 0]))"
  by pat_completeness auto
termination
  by (relation "measure (\<lambda>(q, r, current). length r)") (auto simp: at_def split: if_splits)

declare split_token.simps [simp del]

lemma at_simps [simp]: "at [] i = NUL" "at (c # r) 0 = c" "at (c # r) (Suc i) = at r i"
  by (simp_all add: at_def)

lemma split_token_rest: "split_token q r current = Some (t, r') \<Longrightarrow> length r' \<le> length r - 1"
proof (induction "length r" arbitrary: q r current rule: less_induct)
  case less
  note run = less.prems [unfolded split_token.simps [of q r current]]
  show ?case
  proof (cases "r = []")
    case True
    then show ?thesis using run by (auto split: quoting.splits if_splits)
  next
    case False
    have step: "length r' \<le> length r - Suc 0" if "split_token q' (drop k r) c = Some (t, r')" "0 < k" for q' k c
      using less.hyps [OF _ that(1)] that(2) False by (cases r) auto
    show ?thesis using run False by (auto split: quoting.splits if_splits dest: step)
  qed
qed

lemma split_token_shorter: "split_token q r current = Some (t, r') \<Longrightarrow> r \<noteq> [] \<Longrightarrow> length r' < length r"
  by (drule split_token_rest) (cases r; simp)

function splitargs_loop :: "string \<Rightarrow> sds list \<Rightarrow> sds list option" where
  "splitargs_loop r vector =
     (let p = dropWhile isspace r in
      if p = [] then Some vector
      else case split_token Plain p sdsempty of
        None \<Rightarrow> None
      | Some (current, p') \<Rightarrow> splitargs_loop p' (vector @ [current]))"
  by pat_completeness auto
termination
proof (relation "measure (\<lambda>(r, vector). length r)")
  fix r vector p x current p'
  assume "p = dropWhile isspace r" "p \<noteq> []" "split_token Plain p sdsempty = Some x" "(current, p') = x"
  then have "length p' < length p" using split_token_shorter [of Plain p sdsempty current p'] by simp
  then show "((p', vector @ [current]), r, vector) \<in> measure (\<lambda>(r, vector). length r)"
    using length_dropWhile_le [of isspace r] \<open>p = _\<close> by simp
qed simp

declare splitargs_loop.simps [simp del]

definition sdssplitargs :: "string \<Rightarrow> sds list option" where
  "sdssplitargs line = splitargs_loop (cstr line) []"

section \<open>Splitting inverts quoting\<close>

text \<open>What \<^verbatim>\<open>sdscatrepr\<close> writes for one byte.\<close>

definition repr :: "char \<Rightarrow> string" where
  "repr c = catrepr_loop [] [c]"

lemma catrepr_append: "catrepr_loop s p = s @ concat (map repr p)"
  by (induction p arbitrary: s) (simp_all add: repr_def sdscatlen_def)

lemma sdscatrepr_eq: "sdscatrepr s p = s @ CHR 0x22 # concat (map repr p) @ [CHR 0x22]"
  by (simp add: sdscatrepr_def sdscatlen_def catrepr_append)

lemma of_hex: "d < 16 \<Longrightarrow> (of_char (hex_char d) :: nat) = (if d < 10 then 48 + d else 87 + d)"
  by (simp add: hex_char_def)

lemma hex_digits:
  assumes "d < 16"
  shows "is_hex_digit (hex_char d)" "hex_digit_to_int (hex_char d) = d" "hex_char d \<noteq> NUL"
proof -
  show "is_hex_digit (hex_char d)" "hex_digit_to_int (hex_char d) = d"
    using assms by (auto simp: is_hex_digit_def hex_digit_to_int_def of_hex Let_def)
  have "(of_char (hex_char d) :: nat) \<noteq> 0" using assms by (simp add: of_hex)
  then show "hex_char d \<noteq> NUL" by auto
qed

lemma nibbles: "(of_char c :: nat) div 16 < 16" "(of_char c :: nat) mod 16 < 16"
  by (rule less_mult_imp_div_less) simp_all

lemma split_token_repr: "split_token In_Q (repr c @ r) current = split_token In_Q r (current @ [c])"
proof -
  consider "c \<in> {CHR 0x5C, CHR 0x22, CHR 0x0A, CHR 0x0D, CHR 0x09, CHR 0x07, CHR 0x08}"
    | "c \<notin> {CHR 0x5C, CHR 0x22, CHR 0x0A, CHR 0x0D, CHR 0x09, CHR 0x07, CHR 0x08}" "isprint c"
    | "c \<notin> {CHR 0x5C, CHR 0x22, CHR 0x0A, CHR 0x0D, CHR 0x09, CHR 0x07, CHR 0x08}" "\<not> isprint c" by blast
  then show ?thesis
  proof cases
    case 1
    then show ?thesis
      by (subst split_token.simps) (auto simp: repr_def sdscatlen_def unescape_def numeral_2_eq_2)
  next
    case 2
    then show ?thesis by (subst split_token.simps) (auto simp: repr_def sdscatlen_def)
  next
    case 3
    let ?n = "of_char c :: nat"
    note d = nibbles [of c]
    have c: "char_of (?n div 16 * 16 + ?n mod 16) = c" by simp
    have r: "repr c = [CHR 0x5C, CHR ''x'', hex_char (?n div 16), hex_char (?n mod 16)]"
      using 3 by (simp add: repr_def sdscatlen_def)
    have a: "at (repr c @ r) 0 = CHR 0x5C" "at (repr c @ r) 1 = CHR ''x''" "at (repr c @ r) 2 = hex_char (?n div 16)"
      "at (repr c @ r) 3 = hex_char (?n mod 16)" "drop 4 (repr c @ r) = r"
      unfolding r by (simp_all add: at_def)
    show ?thesis
      unfolding split_token.simps [of In_Q "repr c @ r"] quoting.case a
      by (simp only: hex_digits [OF d(1)] hex_digits [OF d(2)] c sdscatlen_def simp_thms if_True)
  qed
qed

lemma split_token_body: "split_token In_Q (concat (map repr p) @ r) current = split_token In_Q r (current @ p)"
  by (induction p arbitrary: current) (simp_all add: split_token_repr)

lemma split_token_quoted:
  assumes "r = [] \<or> isspace (hd r)"
  shows "split_token Plain (sdscatrepr [] p @ r) [] = Some (p, r)"
proof -
  have "split_token Plain (sdscatrepr [] p @ r) [] = split_token In_Q (concat (map repr p) @ CHR 0x22 # r) []"
    unfolding sdscatrepr_eq by (subst split_token.simps) simp
  also have "\<dots> = split_token In_Q (CHR 0x22 # r) p" unfolding split_token_body by simp
  also have "\<dots> = Some (p, r)" using assms by (subst split_token.simps) (cases r; simp)
  finally show ?thesis .
qed

lemma splitargs_step:
  assumes "r = [] \<or> isspace (hd r)"
  shows "splitargs_loop (sdscatrepr [] a @ r) vector = splitargs_loop r (vector @ [a])"
proof -
  have "dropWhile isspace (sdscatrepr [] a @ r) = sdscatrepr [] a @ r" by (simp add: sdscatrepr_eq isspace_def)
  moreover have "sdscatrepr [] a \<noteq> []" by (simp add: sdscatrepr_eq)
  ultimately show ?thesis
    using split_token_quoted [OF assms, of a] by (subst splitargs_loop.simps) (simp add: Let_def)
qed

lemma splitargs_quoted:
  "splitargs_loop (join (CHR '' '') (map (sdscatrepr []) as)) vector = Some (vector @ as)"
proof (induction as arbitrary: vector)
  case Nil
  then show ?case by (subst splitargs_loop.simps) simp
next
  case (Cons a as)
  let ?r = "if as = [] then [] else CHR '' '' # join (CHR '' '') (map (sdscatrepr []) as)"
  have j: "join (CHR '' '') (map (sdscatrepr []) (a # as)) = sdscatrepr [] a @ ?r"
    by (cases as) simp_all
  have run: "splitargs_loop (join (CHR '' '') (map (sdscatrepr []) (a # as))) vector = splitargs_loop ?r (vector @ [a])"
    unfolding j by (rule splitargs_step) (simp add: isspace_def)
  have "splitargs_loop ?r (vector @ [a]) = splitargs_loop (join (CHR '' '') (map (sdscatrepr []) as)) (vector @ [a])"
  proof (cases "as = []")
    case False
    have "dropWhile isspace ?r = dropWhile isspace (join (CHR '' '') (map (sdscatrepr []) as))" using False by (simp add: isspace_def)
    then show ?thesis by (subst (1 2) splitargs_loop.simps) (simp only:)
  qed simp
  then show ?case using run Cons.IH by simp
qed

lemma repr_nul_free: "NUL \<notin> set (repr c)"
proof -
  note d = nibbles [of c]
  have "\<not> isprint NUL" by (simp add: isprint_def)
  then show ?thesis using hex_digits(3) [OF d(1)] hex_digits(3) [OF d(2)] by (auto simp: repr_def sdscatlen_def)
qed

lemma quoted_nul_free: "nul_free (join (CHR '' '') (map (sdscatrepr []) as))"
proof -
  have "nul_free (sdscatrepr [] a)" for a using repr_nul_free by (simp add: nul_free_def sdscatrepr_eq)
  then show ?thesis by (induction as rule: induct_list012) (simp_all add: nul_free_def)
qed

section \<open>Properties\<close>

text \<open>
  C40. Splitting inverts quoting: the line of the quoted forms of any byte strings, NUL bytes, quotes and line breaks
  included, is split into exactly these strings.
\<close>

theorem splitargs_inverts_repr: "sdssplitargs (join (CHR '' '') (map (sdscatrepr []) as)) = Some as"
  using splitargs_quoted [of as "[]"] quoted_nul_free [of as] by (simp add: sdssplitargs_def)

end
