(* ===== verification/Aof.thy ===== *)
theory Aof
  imports Client_Output Sds_Args
begin

text \<open>
  The append only file of \<^verbatim>\<open>src/aof.c\<close>: how a command is appended to the buffer of the file and to the
  blocks that are sent to a rewriting child, and how the commands are read back when the file is loaded.
  The clock and the results of \<^verbatim>\<open>write\<close> are arguments. \<^const>\<open>None\<close> is undefined behaviour or an abort.
  Loading is modelled up to the arguments of the commands, without their execution. Shown is which commands the file holds after
  any commands have been fed, that a file that was cut off at an arbitrary byte is parsed as the commands that are complete in
  it, and that no byte is lost on its way to the child.
\<close>

section \<open>Numbers of the C library\<close>

text \<open>\<^verbatim>\<open>strtol\<close> and \<^verbatim>\<open>strtoll\<close> with base 10 and 64-bit results; \<^verbatim>\<open>atoi\<close> keeps the low 32 bits.\<close>

definition strtoll :: "string \<Rightarrow> int" where
  "strtoll s =
     (let p = dropWhile isspace (cstr s);
          neg = (p \<noteq> [] \<and> hd p = CHR ''-'');
          p = (if p \<noteq> [] \<and> (hd p = CHR ''-'' \<or> hd p = CHR ''+'') then tl p else p);
          v = int (dec_from 0 (takeWhile is_digit p))
      in if neg then max LLONG_MIN (- v) else min LLONG_MAX v)"

definition atoi :: "string \<Rightarrow> int" where
  "atoi s = (strtoll s + 2 ^ 31) mod 2 ^ 32 - 2 ^ 31"

section \<open>Feeding\<close>

datatype aof_mode = AOF_OFF | AOF_ON | AOF_WAIT_REWRITE

record aof =
  aof_state :: aof_mode
  aof_selected_db :: int
  aof_buf :: string
  aof_child_pid :: int
  aof_rewrite_buf_blocks :: "string list"

text \<open>The implementations that \<^verbatim>\<open>feedAppendOnlyFile\<close>, and then those that \<^verbatim>\<open>processCommand\<close> and \<^verbatim>\<open>resetClient\<close>, tell apart.\<close>

datatype cmd_proc =
    expireCommand | pexpireCommand | expireatCommand | setexCommand | psetexCommand | setCommand
  | authCommand | execCommand | pingCommand | subscribeCommand | unsubscribeCommand | psubscribeCommand | punsubscribeCommand
  | replconfCommand | shutdownCommand | scriptCommand | discardCommand | multiCommand | watchCommand | askingCommand
  | other_command

text \<open>A block is the string of its used bytes; the rest of the \<^verbatim>\<open>AOF_RW_BUF_BLOCK_SIZE\<close> bytes are free.\<close>

definition AOF_RW_BUF_BLOCK_SIZE :: nat where
  "AOF_RW_BUF_BLOCK_SIZE = 1024 * 1024 * 10"

definition aofRewriteBufferReset :: "aof \<Rightarrow> aof" where
  "aofRewriteBufferReset a = a\<lparr>aof_rewrite_buf_blocks := []\<rparr>"

definition aofRewriteBufferSize :: "aof \<Rightarrow> nat" where
  "aofRewriteBufferSize a = sum_list (map length (aof_rewrite_buf_blocks a))"

definition fill_block :: "string list \<Rightarrow> string \<Rightarrow> string list \<times> string" where
  "fill_block bs s =
     (if bs = [] then (bs, s)
      else
        let thislen = min (AOF_RW_BUF_BLOCK_SIZE - length (last bs)) (length s)
        in (butlast bs @ [last bs @ take thislen s], drop thislen s))"

function append_blocks :: "string list \<Rightarrow> string \<Rightarrow> string list" where
  "append_blocks bs s =
     (if s = [] then bs
      else
        let (bs', s') = fill_block bs s in
        if s' \<noteq> [] then append_blocks (bs' @ [[]]) s' else append_blocks bs' s')"
  by pat_completeness auto
termination
  by (relation "measure (\<lambda>(bs, s). 2 * length s + (if bs = [] \<or> AOF_RW_BUF_BLOCK_SIZE \<le> length (last bs) then 1 else 0))")
    (auto simp: fill_block_def AOF_RW_BUF_BLOCK_SIZE_def Let_def min_def split: if_splits)

declare append_blocks.simps [simp del]

definition aofRewriteBufferAppend :: "aof \<Rightarrow> string \<Rightarrow> aof" where
  "aofRewriteBufferAppend a s = a\<lparr>aof_rewrite_buf_blocks := append_blocks (aof_rewrite_buf_blocks a) s\<rparr>"

text \<open>
  Sending the blocks to the child: \<^verbatim>\<open>ws\<close> are the results of the calls of \<^verbatim>\<open>write\<close>, the pipe would block after
  them. The result are the bytes that were written and the blocks that are left.
\<close>

fun aofChildWriteDiffData :: "bool \<Rightarrow> string list \<Rightarrow> int list \<Rightarrow> string \<times> string list" where
  "aofChildWriteDiffData stop [] ws = ([], [])"
| "aofChildWriteDiffData stop (b # bs) ws =
     (if stop then ([], b # bs)
      else if b = [] then aofChildWriteDiffData stop bs ws
      else case ws of
        [] \<Rightarrow> ([], b # bs)
      | nwritten # ws' \<Rightarrow>
          if nwritten \<le> 0 then ([], b # bs)
          else
            let rest = drop (nat nwritten) b;
                (sent, left) = (if rest = [] then aofChildWriteDiffData stop bs ws' else aofChildWriteDiffData stop (rest # bs) ws')
            in (take (nat nwritten) b @ sent, left))"

definition getDecodedObject :: "robj \<Rightarrow> string option" where
  "getDecodedObject obj = (case obj of RawObj s \<Rightarrow> Some s | IntObj v \<Rightarrow> map_option cstr (print_ll 32 v))"

definition aof_header :: "char \<Rightarrow> nat \<Rightarrow> string option" where
  "aof_header c n = do { s \<leftarrow> print_ll 31 (int n); Some (c # s @ CRLF) }"

fun cat_args :: "string \<Rightarrow> robj list \<Rightarrow> string option" where
  "cat_args dst [] = Some dst"
| "cat_args dst (obj # objs) = do {
     s \<leftarrow> getDecodedObject obj;
     h \<leftarrow> aof_header (CHR ''$'') (length s);
     cat_args (dst @ h @ s @ CRLF) objs
   }"

definition catAppendOnlyGenericCommand :: "string \<Rightarrow> robj list \<Rightarrow> string option" where
  "catAppendOnlyGenericCommand dst argv = do {
     h \<leftarrow> aof_header (CHR ''*'') (length argv);
     cat_args (dst @ h) argv
   }"

definition in_range :: "int \<Rightarrow> int option" where
  "in_range v = (if LLONG_MIN \<le> v \<and> v \<le> LLONG_MAX then Some v else None)"

definition catAppendOnlyExpireAtCommand :: "int \<Rightarrow> string \<Rightarrow> cmd_proc \<Rightarrow> robj \<Rightarrow> robj \<Rightarrow> string option" where
  "catAppendOnlyExpireAtCommand mstime b cmd key seconds = do {
     s \<leftarrow> getDecodedObject seconds;
     w1 \<leftarrow> (if cmd = expireCommand \<or> cmd = setexCommand \<or> cmd = expireatCommand
           then in_range (strtoll s * 1000) else Some (strtoll s));
     w2 \<leftarrow> (if cmd = expireCommand \<or> cmd = pexpireCommand \<or> cmd = setexCommand \<or> cmd = psetexCommand
           then in_range (w1 + mstime) else Some w1);
     catAppendOnlyGenericCommand b [RawObj ''PEXPIREAT'', key, IntObj w2]
   }"

definition argv_at :: "robj list \<Rightarrow> nat \<Rightarrow> robj option" where
  "argv_at argv i = (if i < length argv then Some (argv ! i) else None)"

definition to_lower :: "char \<Rightarrow> char" where
  "to_lower c = (if 65 \<le> (of_char c :: nat) \<and> (of_char c :: nat) \<le> 90 then char_of (of_char c + (32 :: nat)) else c)"

definition strcaseeq :: "string \<Rightarrow> string \<Rightarrow> bool" where
  "strcaseeq s t \<longleftrightarrow> map to_lower (cstr s) = map to_lower (cstr t)"

text \<open>The options of \<^verbatim>\<open>SET\<close> from the fourth argument on: the last \<^verbatim>\<open>ex\<close> and the last \<^verbatim>\<open>px\<close> argument.\<close>

fun set_options :: "robj list \<Rightarrow> robj option \<Rightarrow> robj option \<Rightarrow> (robj option \<times> robj option) option" where
  "set_options [] exarg pxarg = Some (exarg, pxarg)"
| "set_options (RawObj s # as) exarg pxarg =
     (if strcaseeq s ''ex'' then (case as of [] \<Rightarrow> None | a # _ \<Rightarrow> set_options as (Some a) pxarg)
      else if strcaseeq s ''px'' then (case as of [] \<Rightarrow> None | a # _ \<Rightarrow> set_options as exarg (Some a))
      else set_options as exarg pxarg)"
| "set_options (IntObj v # as) exarg pxarg = None"

definition aof_select :: "int \<Rightarrow> string option" where
  "aof_select dictid =
     (let seldb = ll_text dictid in
      Some (''*2'' @ CRLF @ ''$6'' @ CRLF @ ''SELECT'' @ CRLF @ ''$'' @ ll_text (int (length seldb)) @ CRLF @ seldb @ CRLF))"

definition aof_translate :: "int \<Rightarrow> string \<Rightarrow> cmd_proc \<Rightarrow> robj list \<Rightarrow> string option" where
  "aof_translate mstime b cmd argv =
     (if cmd = expireCommand \<or> cmd = pexpireCommand \<or> cmd = expireatCommand then do {
        a1 \<leftarrow> argv_at argv 1;
        a2 \<leftarrow> argv_at argv 2;
        catAppendOnlyExpireAtCommand mstime b cmd a1 a2
      }
      else if cmd = setexCommand \<or> cmd = psetexCommand then do {
        a1 \<leftarrow> argv_at argv 1;
        a2 \<leftarrow> argv_at argv 2;
        a3 \<leftarrow> argv_at argv 3;
        b \<leftarrow> catAppendOnlyGenericCommand b [RawObj ''SET'', a1, a3];
        catAppendOnlyExpireAtCommand mstime b cmd a1 a2
      }
      else if cmd = setCommand \<and> 3 < length argv then do {
        b \<leftarrow> catAppendOnlyGenericCommand b (take 3 argv);
        (exarg, pxarg) \<leftarrow> set_options (drop 3 argv) None None;
        case (exarg, pxarg) of
          (Some _, Some _) \<Rightarrow> None
        | (Some e, None) \<Rightarrow> catAppendOnlyExpireAtCommand mstime b expireCommand (argv ! 1) e
        | (None, Some p) \<Rightarrow> catAppendOnlyExpireAtCommand mstime b pexpireCommand (argv ! 1) p
        | (None, None) \<Rightarrow> Some b
      }
      else catAppendOnlyGenericCommand b argv)"

definition feedAppendOnlyFile :: "int \<Rightarrow> aof \<Rightarrow> cmd_proc \<Rightarrow> int \<Rightarrow> robj list \<Rightarrow> aof option" where
  "feedAppendOnlyFile mstime a cmd dictid argv = do {
     b \<leftarrow> (if dictid \<noteq> aof_selected_db a then aof_select dictid else Some []);
     b \<leftarrow> aof_translate mstime b cmd argv;
     let a = a\<lparr>aof_selected_db := dictid\<rparr>;
     let a = (if aof_state a = AOF_ON then a\<lparr>aof_buf := aof_buf a @ b\<rparr> else a);
     Some (if aof_child_pid a \<noteq> -1 then aofRewriteBufferAppend a b else a)
   }"

section \<open>Loading\<close>

datatype load_error = readerr | fmterr

definition LF :: char where
  "LF = CHR 0x0A"

definition fgets :: "nat \<Rightarrow> string \<Rightarrow> (string \<times> string) option" where
  "fgets n s =
     (if s = [] then None
      else
        let line = takeWhile (\<lambda>c. c \<noteq> LF) s;
            k = min (n - 1) (length line + 1)
        in Some (take k s, drop k s))"

definition load_arg :: "string \<Rightarrow> (load_error + string \<times> string) option" where
  "load_arg f =
     (case fgets 128 f of
        None \<Rightarrow> Some (Inl readerr)
      | Some (b, f1) \<Rightarrow>
          if rd b 0 \<noteq> Some (CHR ''$'') then Some (Inl fmterr)
          else
            let v = strtoll (tl b) in
            if v < 0 then None
            else if length f1 < nat v then Some (Inl readerr)
            else if length f1 < nat v + 2 then Some (Inl readerr)
            else Some (Inr (take (nat v) f1, drop (nat v + 2) f1)))"

fun load_args :: "nat \<Rightarrow> string \<Rightarrow> (load_error + string list \<times> string) option" where
  "load_args 0 f = Some (Inr ([], f))"
| "load_args (Suc n) f = do {
     r \<leftarrow> load_arg f;
     case r of
       Inl e \<Rightarrow> Some (Inl e)
     | Inr (a, f1) \<Rightarrow> do {
         q \<leftarrow> load_args n f1;
         case q of Inl e \<Rightarrow> Some (Inl e) | Inr (as, f2) \<Rightarrow> Some (Inr (a # as, f2))
       }
   }"

definition load_command :: "string \<Rightarrow> (load_error + string list \<times> string) option" where
  "load_command f = do {
     (b, f1) \<leftarrow> fgets 128 f;
     if rd b 0 \<noteq> Some (CHR ''*'') then Some (Inl fmterr)
     else if rd b 1 = Some NUL then Some (Inl readerr)
     else if atoi (tl b) < 1 then Some (Inl fmterr)
     else load_args (nat (atoi (tl b))) f1
   }"

text \<open>
  The argument vectors that are read from the file until its end or the first error. The bytes that are
  left behind the last complete command are the ones that are cut off with \<^verbatim>\<open>aof_load_truncated\<close>.
\<close>

partial_function (option) load_commands :: "string \<Rightarrow> (string list list \<times> load_error option \<times> string) option" where
  "load_commands f =
     (if f = [] then Some ([], None, [])
      else do {
        r \<leftarrow> load_command f;
        case r of
          Inl e \<Rightarrow> Some ([], Some e, f)
        | Inr (argv, f1) \<Rightarrow> do {
            (argvs, e, rest) \<leftarrow> load_commands f1;
            Some (argv # argvs, e, rest)
          }
      })"

section \<open>Reading what was written\<close>

lemma digit_not_space: "is_digit c \<Longrightarrow> \<not> isspace c \<and> c \<noteq> CHR ''-'' \<and> c \<noteq> CHR ''+'' \<and> c \<noteq> NUL \<and> c \<noteq> LF"
  by (auto simp: is_digit_def isspace_def LF_def)

lemma strtoll_digits:
  assumes "\<forall>c \<in> set d. is_digit c" "d \<noteq> []" "nul_free t" "t = [] \<or> \<not> is_digit (hd t)"
  shows "strtoll (d @ t) = min LLONG_MAX (int (dec_from 0 d))"
proof -
  have "nul_free d" using assms(1) digit_not_space by (auto simp: nul_free_def)
  then have c: "cstr (d @ t) = d @ t" using assms(3) by simp
  have h: "is_digit (hd d)" using assms(1,2) by simp
  then have "dropWhile isspace (d @ t) = d @ t" using assms(2) digit_not_space by (cases d) auto
  moreover have "hd (d @ t) \<noteq> CHR ''-''" "hd (d @ t) \<noteq> CHR ''+''" using h assms(2) digit_not_space [OF h] by simp_all
  moreover have "takeWhile is_digit (d @ t) = d" using assms(1,4) by (cases t) (simp_all add: takeWhile_append2)
  ultimately show ?thesis using c assms(2) by (simp add: strtoll_def Let_def)
qed

lemma strtoll_Nil [simp]: "strtoll [] = 0"
  by (simp add: strtoll_def LL_consts)

lemma fgets_line:
  assumes "LF \<notin> set l" "length l < 127"
  shows "fgets 128 (l @ LF # r) = Some (l @ [LF], r)"
proof -
  have "takeWhile (\<lambda>c. c \<noteq> LF) (l @ LF # r) = l" using assms(1) by (subst takeWhile_append2) auto
  moreover have "min (128 - 1) (length l + 1) = length l + 1" using assms(2) by simp
  ultimately show ?thesis by (simp add: fgets_def Let_def)
qed

lemma fgets_cut:
  assumes "LF \<notin> set l" "l \<noteq> []" "length l < 127"
  shows "fgets 128 l = Some (l, [])"
proof -
  have line: "takeWhile (\<lambda>c. c \<noteq> LF) l = l" using assms(1) by (auto simp: takeWhile_eq_all_conv)
  have k: "min (128 - 1) (length l + 1) = length l + 1" using assms(3) by simp
  show ?thesis unfolding fgets_def Let_def line k by (simp add: assms(2))
qed

text \<open>The decimal text of a length.\<close>

definition len_text :: "nat \<Rightarrow> string" where
  "len_text n = ll_text (int n)"

lemma len_text_digits: "c \<in> set (len_text n) \<Longrightarrow> is_digit c" "len_text n \<noteq> []" "dec_from 0 (len_text n) = n"
  "0 < n \<Longrightarrow> hd (len_text n) \<noteq> CHR ''0''"
  using ull_digits_digits [of c n] last_ull_digits [of n]
  by (simp_all add: len_text_def ll_text_def dec_val_from [symmetric] dec_val_rev_ull_digits hd_rev)

lemma length_len_text: "int n \<le> LLONG_MAX \<Longrightarrow> length (len_text n) \<le> 20"
  by (simp add: len_text_def length_ll_text_le ll_range_def LL_consts)

lemma resp_bulk_len: "resp_bulk s = CHR ''$'' # len_text (length s) @ [CHR 0x0D, LF] @ s @ CRLF"
  by (simp add: resp_bulk_def len_text_def CRLF_def LF_def)

lemma resp_len: "resp as = CHR ''*'' # len_text (length as) @ [CHR 0x0D, LF] @ concat (map resp_bulk as)"
  by (simp add: resp_def len_text_def CRLF_def LF_def)

lemma header_chars: "LF \<notin> set (len_text n)" "nul_free [CHR 0x0D, LF]" "\<not> is_digit (CHR 0x0D)" "CHR 0x0D \<noteq> LF" "nul_free (len_text n)"
  using len_text_digits(1) [of _ n] digit_not_space by (auto simp: LF_def is_digit_def nul_free_def)

lemma header_line:
  assumes "int n \<le> LLONG_MAX" "c \<noteq> LF"
  shows "fgets 128 (c # len_text n @ [CHR 0x0D, LF] @ f) = Some (c # len_text n @ [CHR 0x0D, LF], f)"
proof -
  have "fgets 128 ((c # len_text n @ [CHR 0x0D]) @ LF # f) = Some ((c # len_text n @ [CHR 0x0D]) @ [LF], f)"
    using assms length_len_text [of n] header_chars by (intro fgets_line) auto
  then show ?thesis by simp
qed

lemma header_number: "int n \<le> LLONG_MAX \<Longrightarrow> strtoll (len_text n @ [CHR 0x0D, LF]) = int n"
  using strtoll_digits [of "len_text n" "[CHR 0x0D, LF]"] len_text_digits header_chars by simp

lemma load_arg_ok:
  assumes "int (length s) \<le> LLONG_MAX"
  shows "load_arg (resp_bulk s @ f) = Some (Inr (s, f))"
proof -
  have "fgets 128 (resp_bulk s @ f) = Some (CHR ''$'' # len_text (length s) @ [CHR 0x0D, LF], s @ CRLF @ f)"
    using header_line [OF assms, of "CHR ''$''" "s @ CRLF @ f"] by (simp add: resp_bulk_len LF_def)
  then show ?thesis using header_number [OF assms] by (simp add: load_arg_def CRLF_def)
qed

lemma load_args_ok:
  assumes "\<forall>a \<in> set as. int (length a) \<le> LLONG_MAX"
  shows "load_args (length as) (concat (map resp_bulk as) @ f) = Some (Inr (as, f))"
  using assms by (induction as) (simp_all add: load_arg_ok)

definition loadable :: "string list \<Rightarrow> bool" where
  "loadable as \<longleftrightarrow> as \<noteq> [] \<and> int (length as) < 2 ^ 31 \<and> (\<forall>a \<in> set as. int (length a) \<le> LLONG_MAX)"

lemma atoi_small: "0 \<le> strtoll s \<Longrightarrow> strtoll s < 2 ^ 31 \<Longrightarrow> atoi s = strtoll s"
  by (simp add: atoi_def)

lemma header_number_present: "(len_text n @ t) ! 0 \<noteq> NUL"
  using len_text_digits(1) [of _ n] len_text_digits(2) [of n] digit_not_space by (cases "len_text n") auto

lemma load_command_ok:
  assumes "loadable as"
  shows "load_command (resp as @ f) = Some (Inr (as, f))"
proof -
  have n: "int (length as) \<le> LLONG_MAX" "int (length as) < 2 ^ 31" "1 \<le> int (length as)"
    using assms by (cases as; simp add: loadable_def LL_consts)+
  have "fgets 128 (resp as @ f) = Some (CHR ''*'' # len_text (length as) @ [CHR 0x0D, LF], concat (map resp_bulk as) @ f)"
    using header_line [OF n(1), of "CHR ''*''" "concat (map resp_bulk as) @ f"] by (simp add: resp_len LF_def)
  moreover have "atoi (len_text (length as) @ [CHR 0x0D, LF]) = int (length as)"
    using header_number [OF n(1)] n(2) by (simp add: atoi_small)
  ultimately show ?thesis
    using n(3) load_args_ok [of as f] assms header_number_present [of "length as"] by (simp add: load_command_def loadable_def)
qed

section \<open>Files that were cut off\<close>

lemma cut_or_past:
  assumes "p @ q = h @ r"
  obtains u where "u \<noteq> []" "p @ u = h" | f where "p = h @ f" "f @ q = r"
  using assms by (auto simp: append_eq_append_conv2) (metis append_Nil append_Nil2)

text \<open>A header that is cut off is a line without its end.\<close>

lemma header_cut:
  assumes "p @ q = c # len_text n @ [CHR 0x0D, LF]" "q \<noteq> []" "p \<noteq> []" "c \<noteq> LF" "int n \<le> LLONG_MAX"
  obtains d t where "p = c # d @ t" "fgets 128 p = Some (p, [])" "\<exists>e. len_text n = d @ e" "nul_free t" "t = [] \<or> \<not> is_digit (hd t)"
    "d = [] \<Longrightarrow> t = []"
proof -
  obtain p' where p: "p = c # p'" "p' @ q = len_text n @ [CHR 0x0D, LF]" using assms(1,3) by (cases p) auto
  have fg: "fgets 128 p = Some (p, [])" if "set p' \<subseteq> insert (CHR 0x0D) (set (len_text n))" "length p' \<le> Suc (length (len_text n))"
    using that p(1) assms(4) header_chars(1,4) length_len_text [OF assms(5)] by (intro fgets_cut) auto
  show thesis
    using p(2)
  proof (cases rule: cut_or_past)
    case (1 u)
    then have sub: "set p' \<subseteq> insert (CHR 0x0D) (set (len_text n))" "length p' \<le> Suc (length (len_text n))"
      by (auto simp flip: 1(2))
    show thesis by (rule that [of p' "[]"]) (use p(1) fg [OF sub] 1(2) [symmetric] in auto)
  next
    case t: (2 t)
    then have "t = [] \<or> t = [CHR 0x0D]" using assms(2) by (cases t; cases "tl t") auto
    then show thesis using that [of "len_text n" t] p(1) t(1) fg header_chars(2,3) len_text_digits(2) by force
  qed
qed

lemma cut_number:
  assumes "len_text n = d @ e" "nul_free t" "t = [] \<or> \<not> is_digit (hd t)" "d = [] \<Longrightarrow> t = []" "int n \<le> LLONG_MAX"
  shows "0 \<le> strtoll (d @ t)" "strtoll (d @ t) \<le> int n" "0 < n \<Longrightarrow> d \<noteq> [] \<Longrightarrow> 1 \<le> strtoll (d @ t)"
proof -
  have d: "\<forall>c \<in> set d. is_digit c" using len_text_digits(1) [of _ n] assms(1) by auto
  have "dec_from 0 (len_text n) = dec_from (dec_from 0 d) e" using assms(1) by (simp add: dec_from_def)
  then have le: "dec_from 0 d \<le> n" using dec_from_ge [of "dec_from 0 d" e] len_text_digits(3) [of n] by simp
  then have v: "strtoll (d @ t) = int (dec_from 0 d)"
    using strtoll_digits [OF d _ assms(2,3)] assms(4,5) by (cases "d = []") auto
  show "0 \<le> strtoll (d @ t)" "strtoll (d @ t) \<le> int n" using v le by simp_all
  assume n: "0 < n" "d \<noteq> []"
  have "hd d = hd (len_text n)" using n(2) assms(1) by simp
  then show "1 \<le> strtoll (d @ t)"
    using dec_val_pos [OF n(2) d [rule_format, OF hd_in_set [OF n(2)]]] len_text_digits(4) [OF n(1)] v
    by (simp add: dec_val_from Suc_le_eq)
qed

lemma load_arg_cut:
  assumes "p @ q = resp_bulk s" "q \<noteq> []" "int (length s) \<le> LLONG_MAX"
  shows "load_arg p = Some (Inl readerr)"
proof (cases "p = []")
  case True
  then show ?thesis by (simp add: load_arg_def fgets_def)
next
  case False
  let ?h = "CHR ''$'' # len_text (length s) @ [CHR 0x0D, LF]"
  have "p @ q = ?h @ s @ CRLF" using assms(1) by (simp add: resp_bulk_len)
  then show ?thesis
  proof (cases rule: cut_or_past)
    case u: (1 u)
    obtain d t where d: "p = CHR ''$'' # d @ t" "fgets 128 p = Some (p, [])" "\<exists>e. len_text (length s) = d @ e" "nul_free t"
      "t = [] \<or> \<not> is_digit (hd t)" "d = [] \<Longrightarrow> t = []"
      using header_cut [OF u(2,1) False _ assms(3)] by (auto simp: LF_def)
    then have "0 \<le> strtoll (d @ t)" using cut_number(1) [OF _ d(4,5,6) assms(3)] by blast
    then show ?thesis using d(1,2) by (simp add: load_arg_def Let_def)
  next
    case f: (2 f)
    then have "fgets 128 p = Some (?h, f)" using header_line [OF assms(3), of "CHR ''$''" f] by (simp add: LF_def)
    moreover have "length f < length s + 2"
    proof -
      have "length (f @ q) = length s + 2" unfolding f(2) by (simp add: CRLF_def)
      then show ?thesis using assms(2) by (cases q) auto
    qed
    ultimately show ?thesis using header_number [OF assms(3)] by (simp add: load_arg_def Let_def)
  qed
qed

lemma load_args_cut:
  assumes "p @ q = concat (map resp_bulk as)" "q \<noteq> []" "\<forall>a \<in> set as. int (length a) \<le> LLONG_MAX"
  shows "load_args (length as) p = Some (Inl readerr)"
  using assms
proof (induction as arbitrary: p)
  case (Cons a as)
  have "p @ q = resp_bulk a @ concat (map resp_bulk as)" using Cons.prems(1) by simp
  then show ?case
  proof (cases rule: cut_or_past)
    case (1 u)
    then show ?thesis using load_arg_cut [of p u a] Cons.prems(3) by simp
  next
    case f: (2 f)
    then show ?thesis using Cons.IH [OF f(2) Cons.prems(2)] Cons.prems(3) by (simp add: load_arg_ok)
  qed
qed simp

lemma load_command_cut:
  assumes "p @ q = resp as" "q \<noteq> []" "p \<noteq> []" "loadable as"
  shows "load_command p = Some (Inl readerr)"
proof -
  let ?h = "CHR ''*'' # len_text (length as) @ [CHR 0x0D, LF]"
  have n: "int (length as) \<le> LLONG_MAX" "int (length as) < 2 ^ 31" "0 < length as"
    using assms(4) by (cases as; simp add: loadable_def LL_consts)+
  have "p @ q = ?h @ concat (map resp_bulk as)" using assms(1) by (simp add: resp_len)
  then show ?thesis
  proof (cases rule: cut_or_past)
    case u: (1 u)
    obtain d t where d: "p = CHR ''*'' # d @ t" "fgets 128 p = Some (p, [])" "\<exists>e. len_text (length as) = d @ e" "nul_free t"
      "t = [] \<or> \<not> is_digit (hd t)" "d = [] \<Longrightarrow> t = []"
      using header_cut [OF u(2,1) assms(3) _ n(1)] by (auto simp: LF_def)
    show ?thesis
    proof (cases "d = []")
      case True
      then show ?thesis using d(1,2,6) by (simp add: load_command_def)
    next
      case False
      obtain e where e: "len_text (length as) = d @ e" using d(3) by blast
      have v: "1 \<le> strtoll (d @ t)" "strtoll (d @ t) \<le> int (length as)"
        using cut_number [OF e d(4,5,6) n(1)] n(3) False by blast+
      then have a: "atoi (d @ t) = strtoll (d @ t)" using n(2) by (intro atoi_small) simp_all
      have "(d @ t) ! 0 \<noteq> NUL" "d @ t \<noteq> []" using header_number_present [of "length as" "[]"] e False by (auto simp: nth_append)
      moreover obtain k where "nat (strtoll (d @ t)) = Suc k" using v(1) by (cases "nat (strtoll (d @ t))") auto
      ultimately show ?thesis using d(1,2) v(1) a by (simp add: load_command_def load_arg_def fgets_def)
    qed
  next
    case f: (2 f)
    then have "fgets 128 p = Some (?h, f)" using header_line [OF n(1), of "CHR ''*''" f] by (simp add: LF_def)
    moreover have "atoi (len_text (length as) @ [CHR 0x0D, LF]) = int (length as)"
      using header_number [OF n(1)] n(2) by (simp add: atoi_small)
    ultimately show ?thesis
      using load_args_cut [OF f(2) assms(2)] assms(4) n(3) header_number_present [of "length as"] by (simp add: load_command_def loadable_def)
  qed
qed

text \<open>
  The commands that are loaded from a file that was cut off are the complete ones: what is left is a
  proper beginning of the next command.
\<close>

definition cut_in :: "nat \<Rightarrow> string list list \<Rightarrow> string \<Rightarrow> bool" where
  "cut_in m cmds rest \<longleftrightarrow> (if m < length cmds then \<exists>u. u \<noteq> [] \<and> rest @ u = resp (cmds ! m) else m = length cmds \<and> rest = [])"

lemma cut_in_length:
  assumes "cut_in m cmds rest"
  shows "m < length cmds \<Longrightarrow> length rest < length (resp (cmds ! m))" "length cmds \<le> m \<Longrightarrow> m = length cmds \<and> rest = []"
proof -
  assume "m < length cmds"
  then obtain u where u: "u \<noteq> []" "resp (cmds ! m) = rest @ u" using assms by (auto simp: cut_in_def)
  show "length rest < length (resp (cmds ! m))" unfolding u(2) using u(1) by simp
qed (use assms in \<open>auto simp: cut_in_def\<close>)

lemma load_commands_cut:
  assumes "p @ q = concat (map resp cmds)" "\<forall>as \<in> set cmds. loadable as"
  shows "\<exists>m rest. load_commands p = Some (take m cmds, if rest = [] then None else Some readerr, rest) \<and>
    p = concat (map resp (take m cmds)) @ rest \<and> cut_in m cmds rest"
  using assms
proof (induction cmds arbitrary: p)
  case Nil
  then show ?case by (simp add: load_commands.simps cut_in_def)
next
  case (Cons as cmds)
  have "p @ q = resp as @ concat (map resp cmds)" using Cons.prems(1) by simp
  then show ?case
  proof (cases rule: cut_or_past)
    case (1 u)
    then have "load_commands p = Some ([], if p = [] then None else Some readerr, p)"
      using load_command_cut [of p u as] Cons.prems(2) by (subst load_commands.simps) auto
    then show ?thesis using 1 by (intro exI [of _ 0] exI [of _ p]) (auto simp: cut_in_def)
  next
    case (2 f)
    obtain m rest where m: "load_commands f = Some (take m cmds, if rest = [] then None else Some readerr, rest)"
      "f = concat (map resp (take m cmds)) @ rest" "cut_in m cmds rest"
      using Cons.IH [OF 2(2)] Cons.prems(2) by auto
    have "load_command p = Some (Inr (as, f))" using load_command_ok [of as f] 2(1) Cons.prems(2) by simp
    moreover have "p \<noteq> []" using 2(1) by (simp add: resp_def)
    ultimately have "load_commands p = Some (as # take m cmds, if rest = [] then None else Some readerr, rest)"
      using m(1) by (subst load_commands.simps) simp
    then show ?thesis using m(2,3) 2(1) by (intro exI [of _ "Suc m"] exI [of _ rest]) (simp add: cut_in_def)
  qed
qed

section \<open>What is fed\<close>

fun decodable :: "robj \<Rightarrow> bool" where
  "decodable (RawObj s) \<longleftrightarrow> int (length s) \<le> LLONG_MAX"
| "decodable (IntObj v) \<longleftrightarrow> ll_range v"

lemma decoded_ok: "decodable obj \<Longrightarrow> getDecodedObject obj = Some (obj_text obj)"
proof (cases obj)
  case (IntObj v)
  assume "decodable obj"
  then have v: "ll_range v" using IntObj by simp
  have "nul_free (ll_text v)"
    using digit_not_space ull_digits_digits by (fastforce simp: ll_text_def nul_free_def)
  then show ?thesis using IntObj print_ll_eq [OF v, of 32] length_ll_text_le [OF v] by (simp add: getDecodedObject_def)
qed (simp add: getDecodedObject_def)

lemma obj_text_length: "decodable obj \<Longrightarrow> int (length (obj_text obj)) \<le> LLONG_MAX"
proof (cases obj)
  case (IntObj v)
  assume "decodable obj"
  then show ?thesis using IntObj length_ll_text_le [of v] by (simp add: LL_consts)
qed simp

lemma aof_header_ok: "int n \<le> LLONG_MAX \<Longrightarrow> aof_header c n = Some (c # ll_text (int n) @ CRLF)"
proof -
  assume "int n \<le> LLONG_MAX"
  then have r: "ll_range (int n)" by (simp add: ll_range_def LL_consts)
  then show ?thesis using print_ll_eq [OF r, of 31] length_ll_text_le [OF r] by (simp add: aof_header_def)
qed

lemma cat_args_ok:
  "\<forall>obj \<in> set objs. decodable obj \<Longrightarrow> cat_args dst objs = Some (dst @ concat (map (\<lambda>obj. resp_bulk (obj_text obj)) objs))"
proof (induction objs arbitrary: dst)
  case (Cons obj objs)
  then have "decodable obj" by simp
  then show ?case
    using Cons decoded_ok aof_header_ok [OF obj_text_length] by (simp add: resp_bulk_def)
qed simp

text \<open>Arguments that \<^verbatim>\<open>catAppendOnlyGenericCommand\<close> can write; those of a command that is also sent to other servers.\<close>

definition catable :: "robj list \<Rightarrow> bool" where
  "catable argv \<longleftrightarrow> argv \<noteq> [] \<and> int (length argv) < 2 ^ 31 \<and> (\<forall>obj \<in> set argv. decodable obj)"

definition feedable :: "robj list \<Rightarrow> bool" where
  "feedable argv \<longleftrightarrow> argv \<noteq> [] \<and> int (length argv) < 2 ^ 31 \<and> (\<forall>obj \<in> set argv. obj_ok obj)"

lemma obj_ok_decodable: "obj_ok obj \<Longrightarrow> decodable obj"
  by (cases obj) simp_all

lemma feedable_catable: "feedable argv \<Longrightarrow> catable argv"
  by (simp add: feedable_def catable_def obj_ok_decodable)

lemma catable_loadable: "catable argv \<Longrightarrow> loadable (map obj_text argv)"
  by (simp add: catable_def loadable_def obj_text_length)

lemma generic_command_ok: "catable argv \<Longrightarrow> catAppendOnlyGenericCommand dst argv = Some (dst @ resp (map obj_text argv))"
  by (simp add: catAppendOnlyGenericCommand_def catable_def aof_header_ok LL_consts cat_args_ok resp_def comp_def)

text \<open>
  The commands that the file has for one command: an expire is written with the absolute time, and the
  time to live of a \<^verbatim>\<open>SET\<close> as a command of its own. \<^const>\<open>None\<close> stands for a missing argument, for a time that
  overflows, and for a \<^verbatim>\<open>SET\<close> with both kinds of times.
\<close>

definition expire_at :: "int \<Rightarrow> cmd_proc \<Rightarrow> robj \<Rightarrow> robj \<Rightarrow> string list option" where
  "expire_at mstime cmd key time = do {
     w1 \<leftarrow> (if cmd \<in> {expireCommand, setexCommand, expireatCommand}
           then in_range (strtoll (obj_text time) * 1000) else Some (strtoll (obj_text time)));
     w2 \<leftarrow> (if cmd \<in> {expireCommand, pexpireCommand, setexCommand, psetexCommand} then in_range (w1 + mstime) else Some w1);
     Some [''PEXPIREAT'', obj_text key, ll_text w2]
   }"

definition rewritten :: "int \<Rightarrow> cmd_proc \<Rightarrow> robj list \<Rightarrow> string list list option" where
  "rewritten mstime cmd argv =
     (if cmd \<in> {expireCommand, pexpireCommand, expireatCommand} then
        (case argv of _ # key # time # _ \<Rightarrow> map_option (\<lambda>e. [e]) (expire_at mstime cmd key time) | _ \<Rightarrow> None)
      else if cmd \<in> {setexCommand, psetexCommand} then
        (case argv of
           _ # key # time # val # _ \<Rightarrow> map_option (\<lambda>e. [[''SET'', obj_text key, obj_text val], e]) (expire_at mstime cmd key time)
         | _ \<Rightarrow> None)
      else if cmd = setCommand then
        (case argv of
           s # key # val # opts \<Rightarrow> do {
             (exarg, pxarg) \<leftarrow> set_options opts None None;
             ex \<leftarrow> (case (exarg, pxarg) of
                (Some _, Some _) \<Rightarrow> None
              | (Some e, None) \<Rightarrow> map_option (\<lambda>e. [e]) (expire_at mstime expireCommand key e)
              | (None, Some p) \<Rightarrow> map_option (\<lambda>e. [e]) (expire_at mstime pexpireCommand key p)
              | (None, None) \<Rightarrow> Some []);
             Some (map obj_text [s, key, val] # ex)
           }
         | _ \<Rightarrow> Some [map obj_text argv])
      else Some [map obj_text argv])"

text \<open>The commands that the file has for a sequence of commands, each with its time and its database.\<close>

fun logged :: "int \<Rightarrow> (int \<times> int \<times> cmd_proc \<times> robj list) list \<Rightarrow> string list list option" where
  "logged db [] = Some []"
| "logged db ((mstime, dictid, cmd, argv) # cs) = do {
     rs \<leftarrow> rewritten mstime cmd argv;
     ls \<leftarrow> logged dictid cs;
     Some ((if dictid \<noteq> db then [[''SELECT'', ll_text dictid]] else []) @ rs @ ls)
   }"

fun feed_commands :: "aof \<Rightarrow> (int \<times> int \<times> cmd_proc \<times> robj list) list \<Rightarrow> aof option" where
  "feed_commands a [] = Some a"
| "feed_commands a ((mstime, dictid, cmd, argv) # cs) = do {
     a \<leftarrow> feedAppendOnlyFile mstime a cmd dictid argv;
     feed_commands a cs
   }"

lemma in_range_ll: "in_range v = Some w \<Longrightarrow> ll_range w"
  by (auto simp: in_range_def ll_range_def split: if_splits)

lemma strtoll_range: "ll_range (strtoll s)"
  by (auto simp: strtoll_def Let_def ll_range_def LL_consts)

lemma expire_at_ok:
  assumes "decodable key" "decodable time"
  shows "catAppendOnlyExpireAtCommand mstime b cmd key time = map_option (\<lambda>e. b @ resp e) (expire_at mstime cmd key time)"
    "expire_at mstime cmd key time = Some e \<Longrightarrow> loadable e"
proof -
  have f: "catable [RawObj ''PEXPIREAT'', key, IntObj w]" if "ll_range w" for w
    using assms(1) that by (simp add: catable_def LL_consts)
  let ?w1 = "if cmd \<in> {expireCommand, setexCommand, expireatCommand} then in_range (strtoll (obj_text time) * 1000) else Some (strtoll (obj_text time))"
  let ?w2 = "\<lambda>w1. if cmd \<in> {expireCommand, pexpireCommand, setexCommand, psetexCommand} then in_range (w1 + mstime) else Some w1"
  have r: "ll_range w2" if "?w1 = Some w1" "?w2 w1 = Some w2" for w1 w2
    using that in_range_ll strtoll_range by (auto split: if_splits)
  show "catAppendOnlyExpireAtCommand mstime b cmd key time = map_option (\<lambda>e. b @ resp e) (expire_at mstime cmd key time)"
  proof (cases ?w1)
    case (Some w1)
    show ?thesis
    proof (cases "?w2 w1")
      case w2: (Some w2)
      show ?thesis
        using Some w2 generic_command_ok [OF f [OF r [OF Some w2]], of b] decoded_ok [OF assms(2)]
        by (simp add: catAppendOnlyExpireAtCommand_def expire_at_def disj_assoc)
    qed (use Some decoded_ok [OF assms(2)] in \<open>simp add: catAppendOnlyExpireAtCommand_def expire_at_def disj_assoc\<close>)
  qed (use decoded_ok [OF assms(2)] in \<open>simp add: catAppendOnlyExpireAtCommand_def expire_at_def disj_assoc\<close>)
  assume e: "expire_at mstime cmd key time = Some e"
  from e obtain w1 w2 where w: "?w1 = Some w1" "?w2 w1 = Some w2" "e = [''PEXPIREAT'', obj_text key, ll_text w2]"
    unfolding expire_at_def bind_eq_Some_conv by auto
  then show "loadable e" using catable_loadable [OF f [OF r [OF w(1,2)]]] by simp
qed

lemma set_options_subset:
  "set_options as e p = Some (e', p') \<Longrightarrow> set_option e' \<subseteq> set as \<union> set_option e \<and> set_option p' \<subseteq> set as \<union> set_option p"
  by (induction as e p rule: set_options.induct) (fastforce split: if_splits list.splits)+

lemma select_ok: "aof_select dictid = Some (resp [''SELECT'', ll_text dictid])"
  using digit_chars by (simp add: aof_select_def resp_def resp_bulk_def ll_text_def ull_digits_one)

lemma append_blocks_concat:
  "concat (append_blocks bs s) = concat bs @ s"
proof (induction bs s rule: append_blocks.induct)
  case (1 bs s)
  obtain bs' s' where f: "fill_block bs s = (bs', s')" by fastforce
  have e: "concat bs' @ s' = concat bs @ s"
  proof (cases bs rule: rev_cases)
    case Nil
    then show ?thesis using f by (auto simp: fill_block_def)
  next
    case (snoc ys y)
    then show ?thesis using f by (auto simp: fill_block_def Let_def)
  qed
  show ?case
  proof (cases "s = []")
    case True
    then show ?thesis by (simp add: append_blocks.simps)
  next
    case False
    then show ?thesis
      using e 1(1) [OF False f [symmetric] refl] 1(2) [OF False f [symmetric] refl] f
      by (subst append_blocks.simps) (cases "s' = []"; simp)
  qed
qed

lemma long_lists:
  "3 \<le> length xs \<longleftrightarrow> (\<exists>a b c ys. xs = a # b # c # ys)" "4 \<le> length xs \<longleftrightarrow> (\<exists>a b c d ys. xs = a # b # c # d # ys)"
  by (auto simp: eval_nat_numeral Suc_le_length_iff)

lemma translate_ok:
  assumes f: "catable argv"
  shows "aof_translate mstime b cmd argv = map_option (\<lambda>rs. b @ concat (map resp rs)) (rewritten mstime cmd argv)"
    "rewritten mstime cmd argv = Some rs \<Longrightarrow> \<forall>as \<in> set rs. loadable as"
proof -
  let ?ok = "aof_translate mstime b cmd argv = map_option (\<lambda>rs. b @ concat (map resp rs)) (rewritten mstime cmd argv) \<and>
    (rewritten mstime cmd argv = Some rs \<longrightarrow> (\<forall>as \<in> set rs. loadable as))"
  have d: "\<forall>obj \<in> set argv. decodable obj" using f by (simp add: catable_def)
  have g: "catAppendOnlyGenericCommand b argv = Some (b @ resp (map obj_text argv))" "loadable (map obj_text argv)"
    using generic_command_ok [OF f] catable_loadable [OF f] by simp_all
  consider (expire) "cmd \<in> {expireCommand, pexpireCommand, expireatCommand}" | (setex) "cmd \<in> {setexCommand, psetexCommand}"
    | (set) "cmd = setCommand" | (other) "cmd \<notin> {expireCommand, pexpireCommand, expireatCommand, setexCommand, psetexCommand, setCommand}"
    by blast
  then have ?ok
  proof cases
    case expire
    show ?thesis
    proof (cases "\<exists>c key time as. argv = c # key # time # as")
      case True
      then obtain c key time as where v: "argv = c # key # time # as" by blast
      then have e: "decodable key" "decodable time" using d by simp_all
      show ?thesis using expire expire_at_ok [OF e] by (auto simp: aof_translate_def rewritten_def v argv_at_def option.map_comp comp_def)
    next
      case False
      then have "length argv \<le> 2" unfolding long_lists(1) [symmetric] by simp
      then have "rewritten mstime cmd argv = None" "argv_at argv 1 = None \<or> argv_at argv 2 = None"
        using expire by (auto simp: rewritten_def argv_at_def split: list.splits)
      then show ?thesis using expire by (auto simp: aof_translate_def bind_eq_None_conv)
    qed
  next
    case setex
    show ?thesis
    proof (cases "\<exists>c key time val as. argv = c # key # time # val # as")
      case True
      then obtain c key time val as where v: "argv = c # key # time # val # as" by blast
      then have e: "decodable key" "decodable time" "catable [RawObj ''SET'', key, val]"
        using d by (simp_all add: catable_def LL_consts)
      show ?thesis
        using setex expire_at_ok [OF e(1,2)] generic_command_ok [OF e(3)] catable_loadable [OF e(3)]
        by (auto simp: aof_translate_def rewritten_def v argv_at_def option.map_comp comp_def)
    next
      case False
      then have "length argv \<le> 3" unfolding long_lists(2) [symmetric] by simp
      then have "rewritten mstime cmd argv = None" "argv_at argv 1 = None \<or> argv_at argv 2 = None \<or> argv_at argv 3 = None"
        using setex by (auto simp: rewritten_def argv_at_def split: list.splits)
      then show ?thesis using setex by (auto simp: aof_translate_def bind_eq_None_conv)
    qed
  next
    case set
    show ?thesis
    proof (cases "\<exists>c key val opt as. argv = c # key # val # opt # as")
      case True
      then obtain c key val opt as where v: "argv = c # key # val # opt # as" by blast
      then have e: "decodable key" "catable [c, key, val]" using d by (simp_all add: catable_def)
      note c = generic_command_ok [OF e(2), of b] catable_loadable [OF e(2)]
      show ?thesis
      proof (cases "set_options (opt # as) None None")
        case None
        then show ?thesis using set c by (simp add: aof_translate_def rewritten_def v del: set_options.simps)
      next
        case (Some r)
        obtain ex px where r: "r = (ex, px)" by fastforce
        have dec: "\<forall>e \<in> set_option ex \<union> set_option px. decodable e"
          using set_options_subset [of "opt # as" None None ex px] Some r d unfolding v by fastforce
        show ?thesis
          using set c Some dec r expire_at_ok [OF e(1)]
          by (cases ex; cases px; cases "expire_at mstime expireCommand key (the ex)"; cases "expire_at mstime pexpireCommand key (the px)")
            (auto simp: aof_translate_def rewritten_def v option.map_comp comp_def simp del: set_options.simps)
      qed
    next
      case False
      then have "\<not> 3 < length argv" unfolding long_lists(2) [symmetric] by simp
      then have "rewritten mstime cmd argv = Some [map obj_text argv]" "aof_translate mstime b cmd argv = Some (b @ resp (map obj_text argv))"
        using set g by (auto simp: rewritten_def aof_translate_def split: list.splits)
      then show ?thesis using g(2) by auto
    qed
  next
    case other
    then show ?thesis using g by (auto simp: aof_translate_def rewritten_def)
  qed
  then show "aof_translate mstime b cmd argv = map_option (\<lambda>rs. b @ concat (map resp rs)) (rewritten mstime cmd argv)"
    "rewritten mstime cmd argv = Some rs \<Longrightarrow> \<forall>as \<in> set rs. loadable as" by simp_all
qed

lemma feed_commands_ok:
  assumes "\<forall>(mstime, dictid, cmd, argv) \<in> set cs. catable argv" "aof_state a = AOF_ON"
  shows "(feed_commands a cs = None \<longleftrightarrow> logged (aof_selected_db a) cs = None) \<and>
    (\<forall>a' L. feed_commands a cs = Some a' \<longrightarrow> logged (aof_selected_db a) cs = Some L \<longrightarrow>
      aof_buf a' = aof_buf a @ concat (map resp L) \<and>
      (aof_child_pid a \<noteq> -1 \<longrightarrow> concat (aof_rewrite_buf_blocks a') = concat (aof_rewrite_buf_blocks a) @ concat (map resp L)))"
  using assms
proof (induction cs arbitrary: a)
  case (Cons c cs)
  obtain mstime dictid cmd argv where c: "c = (mstime, dictid, cmd, argv)" by (cases c)
  then have ok: "catable argv" using Cons.prems(1) by simp
  let ?sel = "if dictid \<noteq> aof_selected_db a then [[''SELECT'', ll_text dictid]] else []"
  have tr: "aof_translate mstime b cmd argv = map_option (\<lambda>rs. b @ concat (map resp rs)) (rewritten mstime cmd argv)" for b
    by (rule translate_ok(1) [OF ok])
  show ?case
  proof (cases "rewritten mstime cmd argv")
    case None
    then show ?thesis using tr c by (simp add: feedAppendOnlyFile_def select_ok)
  next
    case (Some rs)
    let ?b = "concat (map resp (?sel @ rs))"
    define a1 where "a1 = a\<lparr>aof_selected_db := dictid, aof_buf := aof_buf a @ ?b\<rparr>"
    define a2 where "a2 = (if aof_child_pid a \<noteq> -1 then aofRewriteBufferAppend a1 ?b else a1)"
    have f: "feedAppendOnlyFile mstime a cmd dictid argv = Some a2"
      using tr Some Cons.prems(2) by (auto simp: feedAppendOnlyFile_def select_ok Let_def a2_def a1_def)
    have a2: "aof_state a2 = AOF_ON" "aof_selected_db a2 = dictid" "aof_child_pid a2 = aof_child_pid a" "aof_buf a2 = aof_buf a @ ?b"
      using Cons.prems(2) by (simp_all add: a2_def a1_def aofRewriteBufferAppend_def)
    have bl: "aof_child_pid a \<noteq> -1 \<Longrightarrow> concat (aof_rewrite_buf_blocks a2) = concat (aof_rewrite_buf_blocks a) @ ?b"
      by (simp add: a2_def a1_def aofRewriteBufferAppend_def append_blocks_concat)
    have ih: "(feed_commands a2 cs = None \<longleftrightarrow> logged dictid cs = None) \<and>
      (\<forall>a' L. feed_commands a2 cs = Some a' \<longrightarrow> logged dictid cs = Some L \<longrightarrow>
        aof_buf a' = aof_buf a2 @ concat (map resp L) \<and>
        (aof_child_pid a \<noteq> -1 \<longrightarrow> concat (aof_rewrite_buf_blocks a') = concat (aof_rewrite_buf_blocks a2) @ concat (map resp L)))"
      using Cons.IH [of a2] Cons.prems(1) a2 by simp
    have l: "logged (aof_selected_db a) (c # cs) = map_option (\<lambda>ls. ?sel @ rs @ ls) (logged dictid cs)"
      unfolding c using Some by (cases "logged dictid cs") simp_all
    have fc: "feed_commands a (c # cs) = feed_commands a2 cs" unfolding c using f by simp
    show ?thesis unfolding l fc using ih a2(4) bl by (cases "logged dictid cs") auto
  qed
qed simp

lemma logged_loadable:
  assumes "\<forall>(mstime, dictid, cmd, argv) \<in> set cs. catable argv \<and> ll_range dictid" "logged db cs = Some L"
  shows "\<forall>as \<in> set L. loadable as"
  using assms
proof (induction cs arbitrary: db L)
  case (Cons c cs)
  obtain mstime dictid cmd argv where c: "c = (mstime, dictid, cmd, argv)" by (cases c)
  then have ok: "catable argv" "ll_range dictid" using Cons.prems(1) by auto
  have s: "loadable [''SELECT'', ll_text dictid]"
    using length_ll_text_le [OF ok(2)] by (simp add: loadable_def LL_consts)
  obtain rs ls where r: "rewritten mstime cmd argv = Some rs" "logged dictid cs = Some ls"
      "L = (if dictid \<noteq> db then [[''SELECT'', ll_text dictid]] else []) @ rs @ ls"
    using Cons.prems(2) unfolding c by (auto simp: bind_eq_Some_conv)
  show ?case using Cons.IH [OF _ r(2)] Cons.prems(1) translate_ok(2) [OF ok(1) r(1)] s unfolding r(3) by auto
qed simp

text \<open>
  C36. The append only file survives a crash. Feed any sequence of commands, each at its time, in its database
  and with any implementation, to an empty file: this is defined exactly when no expire has a missing argument
  or a time that overflows and no \<^verbatim>\<open>SET\<close> has both \<^verbatim>\<open>ex\<close> and \<^verbatim>\<open>px\<close>. Then cut the file off after any byte. Parsing what is left
  gives exactly the commands that are complete in it, with the expires translated to \<^verbatim>\<open>PEXPIREAT\<close> and a \<^verbatim>\<open>SELECT\<close> wherever the
  database changes. The bytes behind them, a proper beginning of the next command, are reported as a short
  read and are what is cut off with \<^verbatim>\<open>aof_load_truncated\<close>; without such bytes there is no error.
\<close>

theorem aof_survives_crash:
  assumes "aof_state a = AOF_ON" "aof_buf a = []" "\<forall>(mstime, dictid, cmd, argv) \<in> set cs. catable argv \<and> ll_range dictid"
  shows "(feed_commands a cs = None \<longleftrightarrow> logged (aof_selected_db a) cs = None) \<and>
    (\<forall>a' p q. feed_commands a cs = Some a' \<and> p @ q = aof_buf a' \<longrightarrow>
      (\<exists>L m rest. logged (aof_selected_db a) cs = Some L \<and> aof_buf a' = concat (map resp L) \<and>
        load_commands p = Some (take m L, if rest = [] then None else Some readerr, rest) \<and>
        p = concat (map resp (take m L)) @ rest \<and> cut_in m L rest))"
proof (intro conjI allI impI)
  have fd: "\<forall>(mstime, dictid, cmd, argv) \<in> set cs. catable argv" using assms(3) by auto
  note ok = feed_commands_ok [OF fd assms(1)]
  show "feed_commands a cs = None \<longleftrightarrow> logged (aof_selected_db a) cs = None" using ok by simp
  fix a' p q
  assume f: "feed_commands a cs = Some a' \<and> p @ q = aof_buf a'"
  then obtain L where L: "logged (aof_selected_db a) cs = Some L" using ok by (cases "logged (aof_selected_db a) cs") auto
  then have b: "aof_buf a' = concat (map resp L)" using ok f assms(2) by auto
  then have "\<exists>m rest. load_commands p = Some (take m L, if rest = [] then None else Some readerr, rest) \<and>
      p = concat (map resp (take m L)) @ rest \<and> cut_in m L rest"
    using load_commands_cut [of p q L] logged_loadable [OF assms(3) L] f by simp
  then show "\<exists>L m rest. logged (aof_selected_db a) cs = Some L \<and> aof_buf a' = concat (map resp L) \<and>
      load_commands p = Some (take m L, if rest = [] then None else Some readerr, rest) \<and>
      p = concat (map resp (take m L)) @ rest \<and> cut_in m L rest"
    using L b by blast
qed

text \<open>A union, a \<^verbatim>\<open>PSETEX\<close> in another database, and the file loses its last three bytes.\<close>

theorem aof_survives_crash_witness:
  "\<exists>a' p q rest. feed_commands \<lparr>aof_state = AOF_ON, aof_selected_db = 0, aof_buf = [], aof_child_pid = -1, aof_rewrite_buf_blocks = []\<rparr>
      [(0, 0, other_command, [RawObj ''union'', RawObj ''a'']),
       (4, 1, psetexCommand, [RawObj ''psetex'', RawObj ''k'', RawObj ''5'', RawObj ''v''])] = Some a' \<and> p @ q = aof_buf a' \<and> length q = 3 \<and>
    load_commands p = Some ([[''union'', ''a''], [''SELECT'', ''1''], [''SET'', ''k'', ''v'']], Some readerr, rest)"
proof -
  define a :: aof where "a = \<lparr>aof_state = AOF_ON, aof_selected_db = 0, aof_buf = [], aof_child_pid = -1, aof_rewrite_buf_blocks = []\<rparr>"
  define cs where "cs = [(0 :: int, 0 :: int, other_command, [RawObj ''union'', RawObj ''a'']),
    (4, 1, psetexCommand, [RawObj ''psetex'', RawObj ''k'', RawObj ''5'', RawObj ''v''])]"
  let ?e = "[''PEXPIREAT'', ''k'', ''9'']"
  let ?L = "[[''union'', ''a''], [''SELECT'', ''1''], [''SET'', ''k'', ''v''], ?e]"
  have ok: "\<forall>(mstime, dictid, cmd, argv) \<in> set cs. catable argv \<and> ll_range dictid"
    by (simp add: cs_def catable_def ll_range_def LL_consts)
  have a: "aof_state a = AOF_ON" "aof_buf a = []" "aof_selected_db a = 0" by (simp_all add: a_def)
  have "strtoll ''5'' = 5" by (simp add: strtoll_def cstr_def isspace_def dec_from_def is_digit_def digit_val_def LL_consts)
  then have l: "logged 0 cs = Some ?L"
    using digit_chars by (simp add: cs_def rewritten_def expire_at_def in_range_def LL_consts ll_text_def ull_digits_one)
  note srv = aof_survives_crash [OF a(1,2) ok, unfolded a(3)]
  obtain a' where a': "feed_commands a cs = Some a'" using conjunct1 [OF srv] l by (cases "feed_commands a cs") simp_all
  let ?f = "aof_buf a'"
  have cut: "\<exists>m rest. ?f = concat (map resp ?L) \<and> load_commands p = Some (take m ?L, if rest = [] then None else Some readerr, rest) \<and>
      p = concat (map resp (take m ?L)) @ rest \<and> cut_in m ?L rest" if pq: "p @ q = ?f" for p q
  proof -
    obtain L m rest where c: "logged 0 cs = Some L" "?f = concat (map resp L)"
        "load_commands p = Some (take m L, if rest = [] then None else Some readerr, rest)"
        "p = concat (map resp (take m L)) @ rest" "cut_in m L rest"
      using conjunct2 [OF srv, rule_format, OF conjI [OF a' pq]] by blast
    have "L = ?L" using c(1) l by simp
    then show ?thesis using c(2-5) by blast
  qed
  define n where "n = length (concat (map resp (butlast ?L)))"
  have f: "?f = concat (map resp (butlast ?L)) @ resp ?e" using cut [of ?f "[]"] by auto
  have e: "3 < length (resp ?e)" by (simp add: resp_def resp_bulk_def)
  let ?p = "take (length ?f - 3) ?f" and ?q = "drop (length ?f - 3) ?f"
  obtain m rest where m: "load_commands ?p = Some (take m ?L, if rest = [] then None else Some readerr, rest)"
      "?p = concat (map resp (take m ?L)) @ rest" "cut_in m ?L rest"
    using cut [of ?p ?q] by auto
  have lp: "length ?p = n + length (resp ?e) - 3" unfolding f n_def by simp
  have "length (concat (map resp (take m ?L))) + length rest = n + length (resp ?e) - 3"
    using arg_cong [OF m(2), of length] lp by simp
  moreover have "m < 4 \<Longrightarrow> length rest < length (resp (?L ! m))" "m \<ge> 4 \<Longrightarrow> m = 4 \<and> rest = []"
    using cut_in_length [OF m(3)] by simp_all
  ultimately have "m = 3 \<and> rest \<noteq> []"
    using e unfolding n_def by (cases "m = 0 \<or> m = 1 \<or> m = 2 \<or> m = 3"; force)
  then show ?thesis using a' m(1) e f unfolding a_def cs_def by (intro exI [of _ a'] exI [of _ ?p] exI [of _ ?q] exI [of _ rest]) simp
qed

text \<open>
  No change is lost on its way to the rewriting child: what has been written to the pipe and what is left in
  the blocks is what was in the blocks, whatever the calls of \<^verbatim>\<open>write\<close> return.
\<close>

lemma child_gets_all:
  "aofChildWriteDiffData stop bs ws = (sent, left) \<Longrightarrow> sent @ concat left = concat bs"
proof (induction stop bs ws arbitrary: sent left rule: aofChildWriteDiffData.induct)
  case (2 stop b bs ws)
  show ?case
  proof (cases "stop \<or> b = [] \<or> ws = [] \<or> hd ws \<le> 0")
    case True
    then show ?thesis using 2 by (cases ws) (auto split: if_splits)
  next
    case False
    then obtain n ws' where ws: "ws = n # ws'" "0 < n" by (cases ws) auto
    obtain s' l' where s: "(if drop (nat n) b = [] then aofChildWriteDiffData stop bs ws' else aofChildWriteDiffData stop (drop (nat n) b # bs) ws') = (s', l')"
      by fastforce
    have "s' @ concat l' = drop (nat n) b @ concat bs"
    proof (cases "drop (nat n) b = []")
      case True
      then show ?thesis using 2(2) [of n ws' "drop (nat n) b" s' l'] s ws False by simp
    next
      case dr: False
      then show ?thesis using 2(3) [of n ws' "drop (nat n) b" s' l'] s ws False by (simp del: aofChildWriteDiffData.simps)
    qed
    moreover have "aofChildWriteDiffData stop (b # bs) ws = (take (nat n) b @ s', l')"
      using ws False by (subst aofChildWriteDiffData.simps(2)) (simp del: aofChildWriteDiffData.simps add: Let_def s [simplified])
    then have "sent = take (nat n) b @ s'" "left = l'" using 2(4) by simp_all
    ultimately show ?thesis by (simp only: append_assoc concat.simps) (simp only: append_assoc [symmetric] append_take_drop_id)
  qed
qed simp

end
