(* ===== verification/Propagate.thy ===== *)
theory Propagate
  imports Backlog Aof
begin

text \<open>
  The propagation of commands: the \<^verbatim>\<open>replicationFeed\<close> functions of \<^verbatim>\<open>src/replication.c\<close> and the \<^verbatim>\<open>propagate\<close>
  functions and the propagation part of \<^verbatim>\<open>call\<close> of \<^verbatim>\<open>src/server.c\<close>. A master forwards the commands of one
  slave to all other slaves, a slave sends the commands of its clients to its master. Shown is that
  every other slave and the backlog get exactly the bytes of the command, and what \<^verbatim>\<open>call\<close> propagates at a server that has a
  master. The state of a failed assertion is
  \<^const>\<open>None\<close>; the waiting times of \<^verbatim>\<open>replicationFeedMaster\<close> have no effect on the state.
\<close>

section \<open>Model\<close>

record repl =
  repl_log :: backlog
  repl_net :: net
  slaves :: "conn list"
  master :: "conn option"
  masterhost :: bool
  repl_slave_ro :: bool
  append_only :: aof

definition stringObjectLen :: "robj \<Rightarrow> nat" where
  "stringObjectLen obj = (case obj of RawObj s \<Rightarrow> length s | IntObj v \<Rightarrow> sdigits10 v)"

definition feed_header :: "backlog \<Rightarrow> char \<Rightarrow> nat \<Rightarrow> backlog option" where
  "feed_header b c n = do {
     s \<leftarrow> print_ll (LONG_STR_SIZE + 2) (int n);
     feedReplicationBacklog b (c # s @ CRLF)
   }"

fun feed_args :: "backlog \<Rightarrow> robj list \<Rightarrow> backlog option" where
  "feed_args b [] = Some b"
| "feed_args b (obj # objs) = do {
     b \<leftarrow> feed_header b (CHR ''$'') (stringObjectLen obj);
     b \<leftarrow> feedReplicationBacklogWithObject b obj;
     b \<leftarrow> feedReplicationBacklog b CRLF;
     feed_args b objs
   }"

text \<open>The command in the backlog, if there is one.\<close>

definition feed_command :: "backlog \<Rightarrow> robj list \<Rightarrow> backlog option" where
  "feed_command b argv =
     (if repl_backlog b = None then Some b
      else do {
        b \<leftarrow> feed_header b (CHR ''*'') (length argv);
        feed_args b argv
      })"

definition set_flag :: "cflag \<Rightarrow> conn \<Rightarrow> conn" where
  "set_flag f c = c\<lparr>flags := insert f (flags c)\<rparr>"

definition clear_flag :: "cflag \<Rightarrow> conn \<Rightarrow> conn" where
  "clear_flag f c = c\<lparr>flags := flags c - {f}\<rparr>"

text \<open>The loop over the slaves; \<^verbatim>\<open>excluded\<close> is the test of \<^verbatim>\<open>replicationFeedExSlave\<close>.\<close>

fun feed_slaves :: "(conn \<Rightarrow> bool) \<Rightarrow> net \<Rightarrow> conn list \<Rightarrow> robj list \<Rightarrow> (net \<times> conn list) option" where
  "feed_slaves excluded nt [] argv = Some (nt, [])"
| "feed_slaves excluded nt (slave0 # rest) argv = do {
     let slave = set_flag CLIENT_UNDER_FEED slave0;
     (nt, slave) \<leftarrow>
       (if excluded slave \<or> replstate slave = SLAVE_STATE_WAIT_BGSAVE_START then Some (nt, slave)
        else do {
          (nt, slave) \<leftarrow> add_command nt slave argv;
          Some (nt, clear_flag CLIENT_UNDER_FEED slave)
        });
     (nt, rest) \<leftarrow> feed_slaves excluded nt rest argv;
     Some (nt, slave # rest)
   }"

definition feed_all_slaves :: "(conn \<Rightarrow> bool) \<Rightarrow> repl \<Rightarrow> robj list \<Rightarrow> repl option" where
  "feed_all_slaves excluded r argv =
     (if masterhost r then Some r
      else if repl_backlog (repl_log r) = None \<and> slaves r = [] then Some r
      else if slaves r \<noteq> [] \<and> repl_backlog (repl_log r) = None then None
      else do {
        b \<leftarrow> feed_command (repl_log r) argv;
        (nt, ss) \<leftarrow> feed_slaves excluded (repl_net r) (slaves r) argv;
        Some (r\<lparr>repl_log := b, repl_net := nt, slaves := ss\<rparr>)
      })"

definition replicationFeedSlaves :: "repl \<Rightarrow> robj list \<Rightarrow> repl option" where
  "replicationFeedSlaves r argv = feed_all_slaves (\<lambda>_. False) r argv"

definition replicationFeedExSlave :: "repl \<Rightarrow> nat \<Rightarrow> robj list \<Rightarrow> repl option" where
  "replicationFeedExSlave r sid argv = feed_all_slaves (\<lambda>slave. cid slave = sid) r argv"

definition replicationFeedMaster :: "repl \<Rightarrow> robj list \<Rightarrow> repl option" where
  "replicationFeedMaster r argv =
     (case master r of
        None \<Rightarrow> Some r
      | Some m \<Rightarrow>
          if repl_backlog (repl_log r) = None \<and> \<not> masterhost r then Some r
          else do {
            b \<leftarrow> feed_command (repl_log r) argv;
            (nt, m) \<leftarrow> add_command (repl_net r) (set_flag CLIENT_MASTER_FORCE_REPLY m) argv;
            Some (r\<lparr>repl_log := b, repl_net := nt, master := Some (clear_flag CLIENT_MASTER_FORCE_REPLY m)\<rparr>)
          })"

fun stream_slaves :: "net \<Rightarrow> conn list \<Rightarrow> string \<Rightarrow> (net \<times> conn list) option" where
  "stream_slaves nt [] s = Some (nt, [])"
| "stream_slaves nt (slave # rest) s = do {
     (nt, slave) \<leftarrow>
       (if replstate slave = SLAVE_STATE_WAIT_BGSAVE_START then Some (nt, slave) else addReplyString nt slave s);
     (nt, rest) \<leftarrow> stream_slaves nt rest s;
     Some (nt, slave # rest)
   }"

definition replicationFeedSlavesFromMasterStream :: "repl \<Rightarrow> string \<Rightarrow> repl option" where
  "replicationFeedSlavesFromMasterStream r s = do {
     b \<leftarrow> (if repl_backlog (repl_log r) \<noteq> None then feedReplicationBacklog (repl_log r) s else Some (repl_log r));
     (nt, ss) \<leftarrow> stream_slaves (repl_net r) (slaves r) s;
     Some (r\<lparr>repl_log := b, repl_net := nt, slaves := ss\<rparr>)
   }"

datatype propagate_flag = PROPAGATE_AOF | PROPAGATE_REPL

definition propagate_aof :: "int \<Rightarrow> repl \<Rightarrow> cmd_proc \<Rightarrow> int \<Rightarrow> robj list \<Rightarrow> propagate_flag set \<Rightarrow> repl option" where
  "propagate_aof mstime r cmd dbid argv pf =
     (if aof_state (append_only r) \<noteq> AOF_OFF \<and> PROPAGATE_AOF \<in> pf then do {
        a \<leftarrow> feedAppendOnlyFile mstime (append_only r) cmd dbid argv;
        Some (r\<lparr>append_only := a\<rparr>)
      }
      else Some r)"

definition propagate :: "int \<Rightarrow> repl \<Rightarrow> cmd_proc \<Rightarrow> int \<Rightarrow> robj list \<Rightarrow> propagate_flag set \<Rightarrow> repl option" where
  "propagate mstime r cmd dbid argv pf = do {
     r \<leftarrow> propagate_aof mstime r cmd dbid argv pf;
     if PROPAGATE_REPL \<in> pf then replicationFeedSlaves r argv else Some r
   }"

definition propagateToMaster :: "int \<Rightarrow> repl \<Rightarrow> cmd_proc \<Rightarrow> int \<Rightarrow> robj list \<Rightarrow> propagate_flag set \<Rightarrow> repl option" where
  "propagateToMaster mstime r cmd dbid argv pf = do {
     r \<leftarrow> propagate_aof mstime r cmd dbid argv pf;
     if PROPAGATE_REPL \<in> pf then replicationFeedMaster r argv else Some r
   }"

definition propagateExSlave :: "int \<Rightarrow> repl \<Rightarrow> cmd_proc \<Rightarrow> int \<Rightarrow> nat \<Rightarrow> robj list \<Rightarrow> propagate_flag set \<Rightarrow> repl option" where
  "propagateExSlave mstime r cmd dbid sid argv pf = do {
     r \<leftarrow> propagate_aof mstime r cmd dbid argv pf;
     if PROPAGATE_REPL \<in> pf then replicationFeedExSlave r sid argv else Some r
   }"

datatype call_flag = CMD_CALL_SLOWLOG | CMD_CALL_STATS | CMD_CALL_PROPAGATE_AOF | CMD_CALL_PROPAGATE_REPL

text \<open>The flags that \<^verbatim>\<open>call\<close> computes from what the command did.\<close>

definition propagate_flags :: "cflag set \<Rightarrow> call_flag set \<Rightarrow> bool \<Rightarrow> bool \<Rightarrow> propagate_flag set" where
  "propagate_flags cf cl dirty flag_ufs =
     (let pf0 = (if dirty \<or> flag_ufs then {PROPAGATE_AOF, PROPAGATE_REPL} else {});
          pf1 = (if CLIENT_FORCE_REPL \<in> cf then insert PROPAGATE_REPL pf0 else pf0);
          pf2 = (if CLIENT_FORCE_AOF \<in> cf then insert PROPAGATE_AOF pf1 else pf1);
          pf3 = (if CLIENT_PREVENT_REPL_PROP \<in> cf \<or> CMD_CALL_PROPAGATE_REPL \<notin> cl then pf2 - {PROPAGATE_REPL} else pf2)
      in (if CLIENT_PREVENT_AOF_PROP \<in> cf \<or> CMD_CALL_PROPAGATE_AOF \<notin> cl then pf3 - {PROPAGATE_AOF} else pf3))"

text \<open>
  The propagation in \<^verbatim>\<open>call\<close>: \<^verbatim>\<open>cf\<close> and \<^verbatim>\<open>sid\<close> are the flags and the identifier of the client after the command has
  been executed, \<^verbatim>\<open>is_module\<close> is the flag \<^verbatim>\<open>CMD_MODULE\<close> of the command.
\<close>

definition call_propagate ::
    "int \<Rightarrow> repl \<Rightarrow> cflag set \<Rightarrow> nat \<Rightarrow> call_flag set \<Rightarrow> cmd_proc \<Rightarrow> bool \<Rightarrow> int \<Rightarrow> robj list \<Rightarrow> bool \<Rightarrow> bool \<Rightarrow> repl option" where
  "call_propagate mstime r cf sid cl cmd is_module dbid argv dirty flag_ufs =
     (if (CMD_CALL_PROPAGATE_AOF \<in> cl \<or> CMD_CALL_PROPAGATE_REPL \<in> cl) \<and>
         \<not> (CLIENT_PREVENT_AOF_PROP \<in> cf \<and> CLIENT_PREVENT_REPL_PROP \<in> cf) then
        let pf = propagate_flags cf cl dirty flag_ufs in
        if pf \<noteq> {} \<and> \<not> is_module then
          if masterhost r \<and> \<not> repl_slave_ro r then
            if CLIENT_MASTER \<notin> cf then propagateToMaster mstime r cmd dbid argv pf else Some r
          else if CLIENT_SLAVE \<in> cf then propagateExSlave mstime r cmd dbid sid argv pf
          else propagate mstime r cmd dbid argv pf
        else Some r
      else Some r)"

record redis_op =
  op_cmd :: cmd_proc
  op_dbid :: int
  op_argv :: "robj list"
  op_target :: "propagate_flag set"

fun also_propagate :: "int \<Rightarrow> repl \<Rightarrow> call_flag set \<Rightarrow> redis_op list \<Rightarrow> repl option" where
  "also_propagate mstime r cl [] = Some r"
| "also_propagate mstime r cl (rop # rops) =
     (if CMD_CALL_PROPAGATE_AOF \<in> cl \<or> CMD_CALL_PROPAGATE_REPL \<in> cl then do {
        let t0 = (if CMD_CALL_PROPAGATE_AOF \<notin> cl then op_target rop - {PROPAGATE_AOF} else op_target rop);
        let target = (if CMD_CALL_PROPAGATE_REPL \<notin> cl then t0 - {PROPAGATE_REPL} else t0);
        r \<leftarrow> (if target \<noteq> {} then propagate mstime r (op_cmd rop) (op_dbid rop) (op_argv rop) target else Some r);
        also_propagate mstime r cl rops
      }
      else Some r)"

section \<open>The backlog\<close>

definition fed :: "backlog \<Rightarrow> string \<Rightarrow> backlog \<Rightarrow> bool" where
  "fed b s b' \<longleftrightarrow> backlog_ok b' \<and> repl_backlog_size b' = repl_backlog_size b \<and>
     master_repl_offset b' = master_repl_offset b + int (length s) \<and>
     history b' = drop (length (history b @ s) - repl_backlog_size b) (history b @ s)"

lemma fed_feed: "backlog_ok b \<Longrightarrow> \<exists>b'. feedReplicationBacklog b s = Some b' \<and> fed b s b'"
  using feed_history [of b s] unfolding fed_def by blast

lemma fed_trans: "fed b s b1 \<Longrightarrow> fed b1 t b2 \<Longrightarrow> fed b (s @ t) b2"
  using drop_to_bound [of "history b @ s" "repl_backlog_size b" t] unfolding fed_def by simp

lemma fed_nothing: "backlog_ok b \<Longrightarrow> fed b [] b"
  using history_length [of b] by (simp add: fed_def backlog_ok_def)

lemma fed_ok: "fed b s b' \<Longrightarrow> backlog_ok b'"
  by (simp add: fed_def)

lemma feed_header_ok:
  assumes "backlog_ok b" "int n \<le> LLONG_MAX"
  shows "\<exists>b'. feed_header b c n = Some b' \<and> fed b (c # ll_text (int n) @ CRLF) b'"
proof -
  have r: "ll_range (int n)" using assms(2) by (simp add: ll_range_def LL_consts)
  then have "print_ll (LONG_STR_SIZE + 2) (int n) = Some (ll_text (int n))"
    using length_ll_text_le [OF r] by (intro print_ll_eq) (simp_all add: LONG_STR_SIZE_def)
  then show ?thesis using fed_feed [OF assms(1)] by (simp add: feed_header_def)
qed

lemma feed_object_ok:
  assumes "backlog_ok b" "obj_ok obj"
  shows "\<exists>b'. feedReplicationBacklogWithObject b obj = Some b' \<and> fed b (obj_text obj) b'"
proof (cases obj)
  case (IntObj v)
  then have "print_ll LONG_STR_SIZE v = Some (ll_text v)"
    using assms(2) length_ll_text_le [of v] by (intro print_ll_eq) (simp_all add: LONG_STR_SIZE_def)
  then show ?thesis using fed_feed [OF assms(1)] IntObj by (simp add: feedReplicationBacklogWithObject_def)
qed (use fed_feed [OF assms(1)] in \<open>simp add: feedReplicationBacklogWithObject_def\<close>)

lemma stringObjectLen_ok: "obj_ok obj \<Longrightarrow> stringObjectLen obj = length (obj_text obj)"
  by (cases obj) (simp_all add: stringObjectLen_def length_ll_text)

lemma feed_args_ok:
  assumes "backlog_ok b" "\<forall>obj \<in> set objs. obj_ok obj"
  shows "\<exists>b'. feed_args b objs = Some b' \<and> fed b (concat (map (\<lambda>obj. resp_bulk (obj_text obj)) objs)) b'"
  using assms
proof (induction objs arbitrary: b)
  case Nil
  then show ?case by (simp add: fed_nothing)
next
  case (Cons obj objs)
  have ok: "obj_ok obj" "\<forall>obj \<in> set objs. obj_ok obj" using Cons.prems(2) by simp_all
  obtain b1 where b1: "feed_header b (CHR ''$'') (stringObjectLen obj) = Some b1"
      "fed b (CHR ''$'' # ll_text (int (length (obj_text obj))) @ CRLF) b1"
    using feed_header_ok [OF Cons.prems(1) obj_text_length [OF obj_ok_decodable [OF ok(1)]]] ok(1) by (auto simp: stringObjectLen_ok)
  obtain b2 where b2: "feedReplicationBacklogWithObject b1 obj = Some b2" "fed b1 (obj_text obj) b2"
    using feed_object_ok [OF fed_ok [OF b1(2)] ok(1)] by blast
  obtain b3 where b3: "feedReplicationBacklog b2 CRLF = Some b3" "fed b2 CRLF b3" using fed_feed [OF fed_ok [OF b2(2)]] by blast
  obtain b4 where b4: "feed_args b3 objs = Some b4" "fed b3 (concat (map (\<lambda>obj. resp_bulk (obj_text obj)) objs)) b4"
    using Cons.IH [OF fed_ok [OF b3(2)] ok(2)] by blast
  show ?case
    using b1(1) b2(1) b3(1) b4(1) fed_trans [OF fed_trans [OF fed_trans [OF b1(2) b2(2)] b3(2)] b4(2)] by (simp add: resp_bulk_def)
qed

lemma feed_command_ok:
  assumes "backlog_ok b" "feedable argv"
  shows "\<exists>b'. feed_command b argv = Some b' \<and> fed b (resp (map obj_text argv)) b'"
proof -
  have n: "int (length argv) \<le> LLONG_MAX" "\<forall>obj \<in> set argv. obj_ok obj" using assms(2) by (simp_all add: feedable_def LL_consts)
  obtain b1 where b1: "feed_header b (CHR ''*'') (length argv) = Some b1" "fed b (CHR ''*'' # ll_text (int (length argv)) @ CRLF) b1"
    using feed_header_ok [OF assms(1) n(1)] by blast
  obtain b2 where b2: "feed_args b1 argv = Some b2" "fed b1 (concat (map (\<lambda>obj. resp_bulk (obj_text obj)) argv)) b2"
    using feed_args_ok [OF fed_ok [OF b1(2)] n(2)] by blast
  have "repl_backlog b \<noteq> None" using assms(1) by (auto simp: backlog_ok_def)
  then show ?thesis using b1(1) b2(1) fed_trans [OF b1(2) b2(2)] by (auto simp: feed_command_def resp_def comp_def)
qed

section \<open>The slaves\<close>

text \<open>A slave that can be fed, and what feeding does to it.\<close>

definition can_feed :: "string \<Rightarrow> conn \<Rightarrow> bool" where
  "can_feed s slave \<longleftrightarrow> writable (set_flag CLIENT_UNDER_FEED slave) \<and> reply_bytes slave + length s < max_reply_bytes"

definition fed_slave :: "(conn \<Rightarrow> bool) \<Rightarrow> string \<Rightarrow> conn \<Rightarrow> conn \<Rightarrow> bool" where
  "fed_slave excluded s slave slave' \<longleftrightarrow> cid slave' = cid slave \<and>
     (if excluded slave \<or> replstate slave = SLAVE_STATE_WAIT_BGSAVE_START
      then slave' = set_flag CLIENT_UNDER_FEED slave
      else out slave' = out slave @ s \<and> CLIENT_UNDER_FEED \<notin> flags slave' \<and> replstate slave' = replstate slave)"

lemma flag_simps [simp]:
  "out (set_flag f c) = out c" "out (clear_flag f c) = out c" "cid (set_flag f c) = cid c" "cid (clear_flag f c) = cid c"
  "replstate (set_flag f c) = replstate c" "replstate (clear_flag f c) = replstate c"
  "reply_bytes (set_flag f c) = reply_bytes c" "flags (set_flag f c) = insert f (flags c)" "flags (clear_flag f c) = flags c - {f}"
  by (simp_all add: set_flag_def clear_flag_def out_def)

lemma feed_slaves_ok:
  assumes "feedable argv" "\<forall>slave \<in> set ss. excluded (set_flag CLIENT_UNDER_FEED slave) = excluded slave"
    "\<forall>slave \<in> set ss. \<not> excluded slave \<and> replstate slave \<noteq> SLAVE_STATE_WAIT_BGSAVE_START \<longrightarrow> can_feed (resp (map obj_text argv)) slave"
  shows "\<exists>nt' ss'. feed_slaves excluded nt ss argv = Some (nt', ss') \<and>
    list_all2 (fed_slave excluded (resp (map obj_text argv))) ss ss'"
  using assms(2,3)
proof (induction ss arbitrary: nt)
  case (Cons slave ss)
  let ?s = "set_flag CLIENT_UNDER_FEED slave" and ?w = "resp (map obj_text argv)"
  have ex: "excluded ?s = excluded slave" using Cons.prems(1) by simp
  have "\<exists>nt1 slave'. (if excluded ?s \<or> replstate ?s = SLAVE_STATE_WAIT_BGSAVE_START then Some (nt, ?s)
      else do { (nt, slave) \<leftarrow> add_command nt ?s argv; Some (nt, clear_flag CLIENT_UNDER_FEED slave) }) = Some (nt1, slave') \<and>
    fed_slave excluded ?w slave slave'"
  proof (cases "excluded slave \<or> replstate slave = SLAVE_STATE_WAIT_BGSAVE_START")
    case True
    then show ?thesis using ex by (simp add: fed_slave_def)
  next
    case False
    then have "can_feed ?w slave" using Cons.prems(2) by simp
    moreover have "reply_writer (\<lambda>nt c. add_command nt c argv) ?w"
      using assms(1) by (intro add_command_writer) (simp_all add: feedable_def LL_consts)
    ultimately have "appended ?w ?s (add_command nt ?s argv)" by (intro reply_writer.writes) (simp_all add: can_feed_def)
    then show ?thesis using False ex by (auto simp: appended_def fed_slave_def same_client_def)
  qed
  then obtain nt1 slave' where s': "(if excluded ?s \<or> replstate ?s = SLAVE_STATE_WAIT_BGSAVE_START then Some (nt, ?s)
      else do { (nt, slave) \<leftarrow> add_command nt ?s argv; Some (nt, clear_flag CLIENT_UNDER_FEED slave) }) = Some (nt1, slave')"
    "fed_slave excluded ?w slave slave'" by blast
  obtain nt' ss' where ss': "feed_slaves excluded nt1 ss argv = Some (nt', ss')" "list_all2 (fed_slave excluded ?w) ss ss'"
    using Cons.IH Cons.prems by fastforce
  show ?case unfolding feed_slaves.simps Let_def s'(1) using s'(2) ss' by simp
qed simp

lemma feed_all_slaves_ok:
  assumes "feedable argv" "\<forall>slave \<in> set (slaves r). excluded (set_flag CLIENT_UNDER_FEED slave) = excluded slave"
    "\<forall>slave \<in> set (slaves r). \<not> excluded slave \<and> replstate slave \<noteq> SLAVE_STATE_WAIT_BGSAVE_START \<longrightarrow> can_feed (resp (map obj_text argv)) slave"
    "\<not> masterhost r" "backlog_ok (repl_log r)"
  shows "\<exists>b nt ss. feed_all_slaves excluded r argv = Some (r\<lparr>repl_log := b, repl_net := nt, slaves := ss\<rparr>) \<and>
    fed (repl_log r) (resp (map obj_text argv)) b \<and> list_all2 (fed_slave excluded (resp (map obj_text argv))) (slaves r) ss"
proof -
  have "repl_backlog (repl_log r) \<noteq> None" using assms(5) by (auto simp: backlog_ok_def)
  moreover obtain b where "feed_command (repl_log r) argv = Some b" "fed (repl_log r) (resp (map obj_text argv)) b"
    using feed_command_ok [OF assms(5,1)] by blast
  moreover obtain nt ss where "feed_slaves excluded (repl_net r) (slaves r) argv = Some (nt, ss)"
      "list_all2 (fed_slave excluded (resp (map obj_text argv))) (slaves r) ss"
    using feed_slaves_ok [OF assms(1-3)] by blast
  ultimately show ?thesis using assms(4) by (auto simp: feed_all_slaves_def)
qed


section \<open>The propagation of a command\<close>

lemma feed_aof_ok: "feedable argv \<Longrightarrow> \<exists>a'. feedAppendOnlyFile mstime a other_command dbid argv = Some a'"
  by (auto simp: feedAppendOnlyFile_def aof_translate_def select_ok generic_command_ok feedable_catable Let_def)

lemma propagate_aof_ok:
  "feedable argv \<Longrightarrow> \<exists>a'. propagate_aof mstime r other_command dbid argv pf = Some (r\<lparr>append_only := a'\<rparr>)"
  using feed_aof_ok [of argv mstime "append_only r" dbid] by (auto simp: propagate_aof_def intro: exI [of _ "append_only r"])

text \<open>A command that changed something and that is not kept back.\<close>

definition to_propagate :: "cflag set \<Rightarrow> call_flag set \<Rightarrow> bool \<Rightarrow> bool \<Rightarrow> bool" where
  "to_propagate cf cl dirty flag_ufs \<longleftrightarrow> (dirty \<or> flag_ufs \<or> CLIENT_FORCE_REPL \<in> cf) \<and>
     CLIENT_PREVENT_REPL_PROP \<notin> cf \<and> CMD_CALL_PROPAGATE_REPL \<in> cl"

lemma propagate_flags_repl: "PROPAGATE_REPL \<in> propagate_flags cf cl dirty flag_ufs \<longleftrightarrow> to_propagate cf cl dirty flag_ufs"
  by (auto simp: propagate_flags_def to_propagate_def Let_def)

text \<open>
  C27. The master forwards a command of a slave: if the command changed something, every other slave that
  is not waiting for its first synchronisation gets exactly the bytes of the command, also the
  replication backlog, and the slave that sent it gets nothing. In the sending slave the only
  change is the flag \<^verbatim>\<open>CLIENT_UNDER_FEED\<close>, which stays set after the function has returned.
\<close>

theorem command_forwarded_to_others:
  assumes "\<not> masterhost r" "backlog_ok (repl_log r)" "CLIENT_SLAVE \<in> cf" "to_propagate cf cl dirty flag_ufs" "feedable argv"
    "\<forall>slave \<in> set (slaves r). cid slave \<noteq> sid \<and> replstate slave \<noteq> SLAVE_STATE_WAIT_BGSAVE_START \<longrightarrow>
       can_feed (resp (map obj_text argv)) slave"
  shows "\<exists>r'. call_propagate mstime r cf sid cl other_command False dbid argv dirty flag_ufs = Some r' \<and>
    fed (repl_log r) (resp (map obj_text argv)) (repl_log r') \<and>
    list_all2 (\<lambda>slave slave'. cid slave' = cid slave \<and>
      (if cid slave = sid \<or> replstate slave = SLAVE_STATE_WAIT_BGSAVE_START
       then slave' = set_flag CLIENT_UNDER_FEED slave
       else out slave' = out slave @ resp (map obj_text argv) \<and> CLIENT_UNDER_FEED \<notin> flags slave')) (slaves r) (slaves r')"
proof -
  let ?pf = "propagate_flags cf cl dirty flag_ufs"
  have pf: "PROPAGATE_REPL \<in> ?pf" using assms(4) by (simp add: propagate_flags_repl)
  obtain a' where a': "propagate_aof mstime r other_command dbid argv ?pf = Some (r\<lparr>append_only := a'\<rparr>)"
    using propagate_aof_ok [OF assms(5)] by blast
  obtain b nt ss where f: "feed_all_slaves (\<lambda>slave. cid slave = sid) (r\<lparr>append_only := a'\<rparr>) argv =
      Some (r\<lparr>append_only := a', repl_log := b, repl_net := nt, slaves := ss\<rparr>)" "fed (repl_log r) (resp (map obj_text argv)) b"
    "list_all2 (fed_slave (\<lambda>slave. cid slave = sid) (resp (map obj_text argv))) (slaves r) ss"
    using feed_all_slaves_ok [of argv "r\<lparr>append_only := a'\<rparr>" "\<lambda>slave. cid slave = sid"] assms by auto
  have "call_propagate mstime r cf sid cl other_command False dbid argv dirty flag_ufs =
      Some (r\<lparr>append_only := a', repl_log := b, repl_net := nt, slaves := ss\<rparr>)"
    using assms(1,3,4) pf a' f(1)
    by (auto simp: call_propagate_def to_propagate_def propagateExSlave_def replicationFeedExSlave_def Let_def)
  moreover have "list_all2 (\<lambda>slave slave'. cid slave' = cid slave \<and>
      (if cid slave = sid \<or> replstate slave = SLAVE_STATE_WAIT_BGSAVE_START then slave' = set_flag CLIENT_UNDER_FEED slave
       else out slave' = out slave @ resp (map obj_text argv) \<and> CLIENT_UNDER_FEED \<notin> flags slave')) (slaves r) ss"
    using f(3) by (rule list_all2_mono) (auto simp: fed_slave_def)
  ultimately show ?thesis using f(2) by simp
qed

definition sample_slave :: "nat \<Rightarrow> conn" where
  "sample_slave n = sample_conn\<lparr>cid := n, flags := {CLIENT_SLAVE}, replstate := SLAVE_STATE_ONLINE\<rparr>"

definition sample_repl :: "bool \<Rightarrow> repl" where
  "sample_repl sl = \<lparr>repl_log = \<lparr>repl_backlog = Some ''????'', repl_backlog_size = 4, repl_backlog_histlen = 0, repl_backlog_idx = 0,
       repl_backlog_off = 1, master_repl_offset = 0\<rparr>, repl_net = sample_net, slaves = [sample_slave 1, sample_slave 2],
     master = Some (sample_conn\<lparr>flags := {CLIENT_MASTER}\<rparr>), masterhost = sl, repl_slave_ro = False,
     append_only = \<lparr>aof_state = AOF_OFF, aof_selected_db = 0, aof_buf = [], aof_child_pid = -1, aof_rewrite_buf_blocks = []\<rparr>\<rparr>"

lemma sample_repl_ok:
  "backlog_ok (repl_log (sample_repl sl))" "masterhost (sample_repl sl) = sl" "slaves (sample_repl sl) = [sample_slave 1, sample_slave 2]"
  "\<not> repl_slave_ro (sample_repl sl)" "master (sample_repl sl) = Some (sample_conn\<lparr>flags := {CLIENT_MASTER}\<rparr>)"
  "feedable [RawObj ''union'', RawObj ''a'']" "can_feed (resp [''union'', ''a'']) (sample_slave n)"
  "reply_bytes sample_conn + length (resp [''union'', ''a'']) < max_reply_bytes"
  "writable (set_flag CLIENT_MASTER_FORCE_REPLY (sample_conn\<lparr>flags := {CLIENT_MASTER}\<rparr>))"
  by (simp_all add: sample_repl_def backlog_ok_def feedable_def LL_consts can_feed_def writable_def may_write_def sample_slave_def
    sample_conn_def set_flag_def max_reply_bytes_def resp_def resp_bulk_def ll_text_def ull_digits_one CRLF_def)

lemma sample_slave_cid [simp]: "cid (sample_slave n) = n" "replstate (sample_slave n) \<noteq> SLAVE_STATE_WAIT_BGSAVE_START" "out (sample_slave n) = []"
  by (simp_all add: sample_slave_def SLAVE_STATE_ONLINE_def SLAVE_STATE_WAIT_BGSAVE_START_def out_def sample_conn_def)

theorem command_forwarded_to_others_witness:
  "\<exists>r' other. call_propagate 0 (sample_repl False) {CLIENT_SLAVE} 1 {CMD_CALL_PROPAGATE_REPL} other_command False 0
      [RawObj ''union'', RawObj ''a''] False True = Some r' \<and>
    slaves r' = [set_flag CLIENT_UNDER_FEED (sample_slave 1), other] \<and> out other = resp [''union'', ''a'']"
proof -
  have "to_propagate {CLIENT_SLAVE} {CMD_CALL_PROPAGATE_REPL} False True" by (simp add: to_propagate_def)
  then show ?thesis
    using command_forwarded_to_others [of "sample_repl False" "{CLIENT_SLAVE}" "{CMD_CALL_PROPAGATE_REPL}" False True
        "[RawObj ''union'', RawObj ''a'']" 1 0 0]
    by (auto simp: sample_repl_ok list_all2_Cons1)
qed

text \<open>
  C28. What \<^verbatim>\<open>call\<close> itself propagates at a server that has a master, for a command that changed something and
  is written to the append only file without translation. The slaves get nothing from
  \<^verbatim>\<open>call\<close>. If the server is read-only, nothing goes to the master or the backlog either. Otherwise a command of an own
  client is appended to the output for the master and to the backlog, and a command of the master itself changes nothing at
  all: \<^verbatim>\<open>call\<close> does not even append it to the append only file.
\<close>

theorem command_sent_to_master:
  assumes "masterhost r" "backlog_ok (repl_log r)" "to_propagate cf cl dirty flag_ufs" "feedable argv"
    "master r = Some m" "writable (set_flag CLIENT_MASTER_FORCE_REPLY m)" "reply_bytes m + length (resp (map obj_text argv)) < max_reply_bytes"
  shows "\<exists>r'. call_propagate mstime r cf sid cl other_command False dbid argv dirty flag_ufs = Some r' \<and> slaves r' = slaves r \<and>
    (if repl_slave_ro r then master r' = master r \<and> repl_log r' = repl_log r
     else if CLIENT_MASTER \<in> cf then r' = r
     else fed (repl_log r) (resp (map obj_text argv)) (repl_log r') \<and>
       (\<exists>m'. master r' = Some m' \<and> out m' = out m @ resp (map obj_text argv) \<and> CLIENT_MASTER_FORCE_REPLY \<notin> flags m'))"
proof (cases "repl_slave_ro r \<or> CLIENT_MASTER \<in> cf")
  case True
  let ?pf = "propagate_flags cf cl dirty flag_ufs"
  obtain a' where a': "propagate_aof mstime r other_command dbid argv ?pf = Some (r\<lparr>append_only := a'\<rparr>)"
    using propagate_aof_ok [OF assms(4)] by blast
  then show ?thesis using True assms(1)
    by (auto simp: call_propagate_def Let_def propagateExSlave_def propagate_def replicationFeedExSlave_def replicationFeedSlaves_def
        feed_all_slaves_def)
next
  case False
  let ?pf = "propagate_flags cf cl dirty flag_ufs" and ?w = "resp (map obj_text argv)"
  have pf: "PROPAGATE_REPL \<in> ?pf" using assms(3) by (simp add: propagate_flags_repl)
  obtain a' where a': "propagate_aof mstime r other_command dbid argv ?pf = Some (r\<lparr>append_only := a'\<rparr>)"
    using propagate_aof_ok [OF assms(4)] by blast
  obtain b where b: "feed_command (repl_log r) argv = Some b" "fed (repl_log r) ?w b" using feed_command_ok [OF assms(2,4)] by blast
  have "reply_writer (\<lambda>nt c. add_command nt c argv) ?w"
    using assms(4) by (intro add_command_writer) (simp_all add: feedable_def LL_consts)
  then have "appended ?w (set_flag CLIENT_MASTER_FORCE_REPLY m) (add_command (repl_net r) (set_flag CLIENT_MASTER_FORCE_REPLY m) argv)"
    using assms(6,7) by (intro reply_writer.writes) simp_all
  then obtain nt m1 where m1: "add_command (repl_net r) (set_flag CLIENT_MASTER_FORCE_REPLY m) argv = Some (nt, m1)" "out m1 = out m @ ?w"
    by (auto simp: appended_def)
  have "call_propagate mstime r cf sid cl other_command False dbid argv dirty flag_ufs =
      Some (r\<lparr>append_only := a', repl_log := b, repl_net := nt, master := Some (clear_flag CLIENT_MASTER_FORCE_REPLY m1)\<rparr>)"
    using assms(1,3,5) pf a' b(1) m1(1) False
    by (auto simp: call_propagate_def to_propagate_def propagateToMaster_def replicationFeedMaster_def Let_def)
  then show ?thesis using m1(2) b(2) False by simp
qed


theorem command_sent_to_master_witness:
  "\<exists>r' m'. call_propagate 0 (sample_repl True) {} 1 {CMD_CALL_PROPAGATE_REPL} other_command False 0
      [RawObj ''union'', RawObj ''a''] False True = Some r' \<and> slaves r' = [sample_slave 1, sample_slave 2] \<and>
    master r' = Some m' \<and> out m' = resp [''union'', ''a'']"
proof -
  have "to_propagate {} {CMD_CALL_PROPAGATE_REPL} False True" by (simp add: to_propagate_def)
  moreover have "out (sample_conn\<lparr>flags := {CLIENT_MASTER}\<rparr>) = []" by (simp add: sample_conn_def out_def)
  ultimately show ?thesis
    using command_sent_to_master [of "sample_repl True" "{}" "{CMD_CALL_PROPAGATE_REPL}" False True
        "[RawObj ''union'', RawObj ''a'']" "sample_conn\<lparr>flags := {CLIENT_MASTER}\<rparr>" 0 1 0] sample_repl_ok
    by auto
qed

end
