(* ===== verification/Client_Loop.thy ===== *)
theory Client_Loop
  imports Client_Input Propagate
begin

text \<open>
  The way of a command from the socket to its execution: \<^verbatim>\<open>readQueryFromClient\<close>, \<^verbatim>\<open>processInputBuffer\<close>, \<^verbatim>\<open>processInlineBuffer\<close>
  and \<^verbatim>\<open>resetClient\<close> of \<^verbatim>\<open>src/networking.c\<close>. The handler of a command, \<^verbatim>\<open>processCommand\<close>, is an argument here, and so is the
  value of \<^verbatim>\<open>clientsArePaused\<close>, which depends on the part of the state that the handler works on; the handler is modelled
  in \<^verbatim>\<open>Process_Command\<close>. Logging is left out. A locale states what the loop needs of a handler, for the commands that it accepts.
  Shown in it is that a stream of such commands is executed completely and in order however it is cut into reads, and that a replica hands
  exactly the bytes of the commands it has executed to \<^verbatim>\<open>replicationFeedSlavesFromMasterStream\<close>; and how inline commands are read.
\<close>

section \<open>Model\<close>

definition PROTO_IOBUF_LEN :: int where
  "PROTO_IOBUF_LEN = 1024 * 16"

definition PROTO_REQ_INLINE :: nat where "PROTO_REQ_INLINE = 1"
definition PROTO_REQ_MULTIBULK :: nat where "PROTO_REQ_MULTIBULK = 2"

text \<open>\<^verbatim>\<open>asking_cmd\<close> tells whether \<^verbatim>\<open>c->cmd\<close> is the command \<^verbatim>\<open>asking\<close>.\<close>

record session =
  sconn :: conn
  inp :: input
  reqtype :: nat
  asking_cmd :: bool
  querybuf_peak :: nat
  lastinteraction :: int
  pending_querybuf :: string
  read_reploff :: int
  reploff :: int
  repl_ack_time :: int

record server_io =
  srepl :: repl
  stat_net_input_bytes :: nat
  proto_max_bulk_len :: int
  client_max_querybuf_len :: nat

definition reset_flags :: "bool \<Rightarrow> cflag set \<Rightarrow> cflag set" where
  "reset_flags asking fs =
     (let fs1 = (if CLIENT_MULTI \<notin> fs \<and> \<not> asking then fs - {CLIENT_ASKING} else fs);
          fs2 = fs1 - {CLIENT_REPLY_SKIP}
      in if CLIENT_REPLY_SKIP_NEXT \<in> fs2 then insert CLIENT_REPLY_SKIP fs2 - {CLIENT_REPLY_SKIP_NEXT} else fs2)"

definition resetClient :: "session \<Rightarrow> session" where
  "resetClient s =
     s\<lparr>inp := (inp s)\<lparr>iargv := [], multibulklen := 0, bulklen := -1\<rparr>, reqtype := 0, asking_cmd := False,
       sconn := (sconn s)\<lparr>flags := reset_flags (asking_cmd s) (flags (sconn s))\<rparr>\<rparr>"

definition inline_error :: "net \<Rightarrow> session \<Rightarrow> string \<Rightarrow> (bool \<times> net \<times> session) option" where
  "inline_error nt s err = do {
     (nt, c) \<leftarrow> addReplyError nt (sconn s) err;
     let (c', i') = setProtocolError c (inp s) 0;
     Some (False, nt, s\<lparr>sconn := c', inp := i'\<rparr>)
   }"

definition processInlineBuffer :: "net \<Rightarrow> session \<Rightarrow> (bool \<times> net \<times> session) option" where
  "processInlineBuffer nt s =
     (let q = querybuf (inp s) in
      case first_index (\<lambda>x. x = CHR 0x0A) (cstr q) of
        None \<Rightarrow>
          if PROTO_INLINE_MAX_SIZE < length q then inline_error nt s ''Protocol error: too big inline request''
          else Some (False, nt, s)
      | Some nl \<Rightarrow> do {
          let querylen = (if nl \<noteq> 0 \<and> q ! (nl - 1) = CR then nl - 1 else nl);
          aux \<leftarrow> sdsnewlen (Some q) querylen;
          case sdssplitargs aux of
            None \<Rightarrow> inline_error nt s ''Protocol error: unbalanced quotes in request''
          | Some argv \<Rightarrow>
              let s1 = (if querylen = 0 \<and> CLIENT_SLAVE \<in> flags (sconn s) then s\<lparr>repl_ack_time := unixtime nt\<rparr> else s)
              in Some (True, nt, s1\<lparr>inp := (inp s)\<lparr>querybuf := sdsrange q (int querylen + 2) (-1),
                   iargv := filter (\<lambda>a. length a \<noteq> 0) argv\<rparr>\<rparr>)
        })"

definition request_type :: "session \<Rightarrow> session" where
  "request_type s =
     (if reqtype s = 0
      then s\<lparr>reqtype := (if querybuf (inp s) ! 0 = CHR ''*'' then PROTO_REQ_MULTIBULK else PROTO_REQ_INLINE)\<rparr>
      else s)"

definition read_request :: "int \<Rightarrow> net \<Rightarrow> session \<Rightarrow> (bool \<times> net \<times> session) option" where
  "read_request max_len nt s =
     (if reqtype s = PROTO_REQ_INLINE then processInlineBuffer nt s
      else if reqtype s = PROTO_REQ_MULTIBULK then do {
        (ok, nt, c, i) \<leftarrow> processMultibulkBuffer max_len nt (sconn s) (inp s);
        Some (ok, nt, s\<lparr>sconn := c, inp := i\<rparr>)
      }
      else None)"

definition may_process :: "bool \<Rightarrow> session \<Rightarrow> bool" where
  "may_process paused s \<longleftrightarrow>
     querybuf (inp s) \<noteq> [] \<and> \<not> (CLIENT_SLAVE \<notin> flags (sconn s) \<and> paused) \<and> CLIENT_BLOCKED \<notin> flags (sconn s) \<and>
     CLIENT_CLOSE_AFTER_REPLY \<notin> flags (sconn s) \<and> CLIENT_CLOSE_ASAP \<notin> flags (sconn s)"

definition after_command :: "session \<Rightarrow> session" where
  "after_command s =
     (let s1 = (if CLIENT_MASTER \<in> flags (sconn s) \<and> CLIENT_MULTI \<notin> flags (sconn s)
                then s\<lparr>reploff := read_reploff s - int (length (querybuf (inp s)))\<rparr> else s)
      in if CLIENT_BLOCKED \<notin> flags (sconn s1) \<or> \<not> module_blocked (sconn s1) then resetClient s1 else s1)"

text \<open>
  A handler returns whether the result is \<^verbatim>\<open>C_OK\<close>, and no session if it has freed the client. Using a freed client is undefined.
\<close>

type_synonym 'w handler = "server_io \<Rightarrow> 'w \<Rightarrow> session \<Rightarrow> (bool \<times> server_io \<times> 'w \<times> session option) option"

partial_function (option) processInputBuffer ::
    "('w \<Rightarrow> bool) \<Rightarrow> 'w handler \<Rightarrow> server_io \<Rightarrow> 'w \<Rightarrow> session \<Rightarrow> (server_io \<times> 'w \<times> session option) option" where
  "processInputBuffer paused processCommand io w s =
     (if \<not> may_process (paused w) s then Some (io, w, Some s)
      else do {
        (ok, nt, s1) \<leftarrow> read_request (proto_max_bulk_len io) (repl_net (srepl io)) (request_type s);
        let io1 = io\<lparr>srepl := (srepl io)\<lparr>repl_net := nt\<rparr>\<rparr>;
        if \<not> ok then Some (io1, w, Some s1)
        else if iargv (inp s1) = [] then processInputBuffer paused processCommand io1 w (resetClient s1)
        else do {
          (done, io2, w2, so) \<leftarrow> processCommand io1 w s1;
          case so of
            None \<Rightarrow> if done then None else Some (io2, w2, None)
          | Some s2 \<Rightarrow> processInputBuffer paused processCommand io2 w2 (if done then after_command s2 else s2)
        }
      })"

datatype read_result = Again | Failed | Closed | Data string

definition read_length :: "session \<Rightarrow> int" where
  "read_length s =
     (let remaining = bulklen (inp s) + 2 - int (length (querybuf (inp s)))
      in if reqtype s = PROTO_REQ_MULTIBULK \<and> multibulklen (inp s) \<noteq> 0 \<and> bulklen (inp s) \<noteq> -1 \<and>
           PROTO_MBULK_BIG_ARG \<le> bulklen (inp s) \<and> remaining < PROTO_IOBUF_LEN
         then remaining else PROTO_IOBUF_LEN)"

definition add_data :: "int \<Rightarrow> string \<Rightarrow> session \<Rightarrow> session" where
  "add_data now data s =
     (let master = CLIENT_MASTER \<in> flags (sconn s) in
      s\<lparr>pending_querybuf := (if master then sdscatlen (pending_querybuf s) data else pending_querybuf s),
        inp := (inp s)\<lparr>querybuf := querybuf (inp s) @ data\<rparr>, lastinteraction := now,
        read_reploff := (if master then read_reploff s + int (length data) else read_reploff s)\<rparr>)"

text \<open>The result of \<^verbatim>\<open>read\<close> is an argument; it has at least one and at most as many bytes as were asked for.\<close>

definition readQueryFromClient ::
    "('w \<Rightarrow> bool) \<Rightarrow> 'w handler \<Rightarrow> server_io \<Rightarrow> 'w \<Rightarrow> session \<Rightarrow> read_result \<Rightarrow> (server_io \<times> 'w \<times> session option) option" where
  "readQueryFromClient paused processCommand io w s0 result =
     (let qblen = length (querybuf (inp s0));
          s = s0\<lparr>querybuf_peak := (if querybuf_peak s0 < qblen then qblen else querybuf_peak s0)\<rparr>
      in case result of
        Again \<Rightarrow> Some (io, w, Some s)
      | Failed \<Rightarrow> Some (io, w, None)
      | Closed \<Rightarrow> Some (io, w, None)
      | Data data \<Rightarrow>
          if data = [] \<or> read_length s < int (length data) then None
          else
            let s1 = add_data (unixtime (repl_net (srepl io))) data s;
                io1 = io\<lparr>stat_net_input_bytes := stat_net_input_bytes io + length data\<rparr>
            in if client_max_querybuf_len io1 < length (querybuf (inp s1)) then Some (io1, w, None)
               else if CLIENT_MASTER \<notin> flags (sconn s1) then processInputBuffer paused processCommand io1 w s1
               else do {
                 (io2, w2, so) \<leftarrow> processInputBuffer paused processCommand io1 w s1;
                 s2 \<leftarrow> so;
                 let applied = nat ((reploff s2 - reploff s1) mod 2 ^ 64);
                 if applied = 0 then Some (io2, w2, Some s2)
                 else if length (pending_querybuf s2) < applied then None
                 else do {
                   r \<leftarrow> replicationFeedSlavesFromMasterStream (srepl io2) (take applied (pending_querybuf s2));
                   Some (io2\<lparr>srepl := r\<rparr>, w2, Some (s2\<lparr>pending_querybuf := sdsrange (pending_querybuf s2) (int applied) (-1)\<rparr>))
                 }
               })"

section \<open>Streams of commands\<close>

text \<open>The part of the state that a command works on, and the connections that the loop goes on with.\<close>

type_synonym 'w served = "repl \<times> 'w \<times> conn"

definition serving :: "('w \<Rightarrow> bool) \<Rightarrow> 'w served \<Rightarrow> bool" where
  "serving paused x \<longleftrightarrow> (case x of (rp, w, c) \<Rightarrow> \<not> paused w \<and>
     flags c \<inter> {CLIENT_BLOCKED, CLIENT_CLOSE_AFTER_REPLY, CLIENT_CLOSE_ASAP} = {} \<and>
     (CLIENT_MASTER \<in> flags c \<longrightarrow> CLIENT_MULTI \<notin> flags c))"

text \<open>
  The effect of a command, with whether it was \<^verbatim>\<open>asking\<close>, and then the flags that \<^verbatim>\<open>resetClient\<close> changes.
\<close>

type_synonym 'w effect = "'w served \<Rightarrow> string list \<Rightarrow> repl \<times> 'w \<times> conn \<times> bool"

definition serve_command :: "'w effect \<Rightarrow> 'w served \<Rightarrow> string list \<Rightarrow> 'w served" where
  "serve_command h x as = (case h x as of (rp, w, c, b) \<Rightarrow> (rp, w, c\<lparr>flags := reset_flags b (flags c)\<rparr>))"

text \<open>Each command of a sequence is accepted when its turn comes.\<close>

fun accepted :: "'w effect \<Rightarrow> ('w served \<Rightarrow> string list \<Rightarrow> bool) \<Rightarrow> 'w served \<Rightarrow> string list list \<Rightarrow> bool" where
  "accepted h ok x [] \<longleftrightarrow> True"
| "accepted h ok x (as # cs) \<longleftrightarrow> ok x as \<and> accepted h ok (serve_command h x as) cs"

lemma accepted_drop: "accepted h ok x cs \<Longrightarrow> accepted h ok (foldl (serve_command h) x (take k cs)) (drop k cs)"
  by (induction cs arbitrary: x k) (simp_all add: take_Cons drop_Cons split: nat.split)

definition stream :: "string list list \<Rightarrow> string" where
  "stream cs = concat (map resp cs)"

lemma stream_simps [simp]: "stream [] = []" "stream (as # cs) = resp as @ stream cs"
  by (simp_all add: stream_def)

text \<open>
  The parser waits for the bytes \<^verbatim>\<open>need\<close> of a command; with \<^verbatim>\<open>r\<close> the bytes that are to come, the commands \<^verbatim>\<open>cs\<close> have still to be
  executed. When the parser is parked, not all bytes of the first of them are in the buffer.
\<close>

definition waiting :: "session \<Rightarrow> string list \<Rightarrow> string \<Rightarrow> bool" where
  "waiting s as need \<longleftrightarrow> expecting as (inp s) need \<and>
     (reqtype s = PROTO_REQ_MULTIBULK \<or> reqtype s = 0 \<and> fresh (inp s) \<and> need = resp as)"

definition offsets_ok :: "session \<Rightarrow> string list list \<Rightarrow> string \<Rightarrow> bool" where
  "offsets_ok s cs r \<longleftrightarrow> (CLIENT_MASTER \<in> flags (sconn s) \<longrightarrow>
     reploff s = read_reploff s + int (length r) - int (length (stream cs)))"

definition stream_state :: "bool \<Rightarrow> session \<Rightarrow> string list list \<Rightarrow> string \<Rightarrow> bool" where
  "stream_state parked s cs r \<longleftrightarrow> \<not> asking_cmd s \<and> offsets_ok s cs r \<and>
     (case cs of
        [] \<Rightarrow> fresh (inp s) \<and> reqtype s = 0 \<and> querybuf (inp s) = [] \<and> r = []
      | as # cs' \<Rightarrow> \<exists>need. waiting s as need \<and> querybuf (inp s) @ r = need @ stream cs' \<and>
          (parked \<longrightarrow> length (querybuf (inp s)) < length need))"

definition small :: "int \<Rightarrow> string list \<Rightarrow> bool" where
  "small max_len as \<longleftrightarrow> command_ok max_len as \<and> length (resp as) \<le> 32 * 1024"

lemma length_resp: "length (concat (map resp_bulk as)) < length (resp as)"
  by (simp add: resp_def)

lemma expecting_need:
  assumes "expecting as i need"
  shows "need \<noteq> []" "length need \<le> length (resp as)"
proof -
  have "need \<noteq> [] \<and> length need \<le> length (resp as)"
  proof (cases "fresh i \<and> need = resp as")
    case True
    then show ?thesis by (simp add: resp_def)
  next
    case False
    then obtain todo where t: "reading as todo i need" using assms by (auto simp: expecting_def)
    obtain a ts where todo: "todo = a # ts" using t by (cases todo) (auto simp: reading_def)
    have as: "as = iargv i @ todo" using t by (simp add: reading_def)
    have "length need \<le> length (concat (map resp_bulk todo))" using t todo by (auto simp: reading_def resp_bulk_def)
    also have "\<dots> \<le> length (concat (map resp_bulk as))" unfolding as by simp
    finally have "length need \<le> length (resp as)" using length_resp [of as] by simp
    moreover have "need \<noteq> []" using t todo by (auto simp: reading_def resp_bulk_def CRLF_def)
    ultimately show ?thesis by simp
  qed
  then show "need \<noteq> []" "length need \<le> length (resp as)" by auto
qed

lemma stream_parked: "stream_state True s cs r \<Longrightarrow> stream_state False s cs r"
  by (auto simp: stream_state_def split: list.splits)

lemma parked_end: "stream_state True s cs [] \<Longrightarrow> cs = []"
  by (cases cs) (auto simp: stream_state_def)

lemma process_waiting:
  assumes w: "waiting s as need" and q: "querybuf (inp s) @ r = need @ rest" "querybuf (inp s) \<noteq> []"
    and len: "length (querybuf (inp s)) \<le> PROTO_INLINE_MAX_SIZE" and as: "command_ok max_len as"
  shows "\<exists>b i. read_request max_len nt (request_type s) = Some (b, nt, s\<lparr>inp := i, reqtype := PROTO_REQ_MULTIBULK\<rparr>) \<and>
    (if b then read_all as i \<and> querybuf i @ r = rest
     else \<exists>need'. expecting as i need' \<and> querybuf i @ r = need' @ rest \<and> length (querybuf i) < length need')"
proof -
  have e: "expecting as (inp s) need" using w by (simp add: waiting_def)
  have "querybuf (inp s) ! 0 = CHR ''*''" if "reqtype s = 0"
  proof -
    have "need = resp as" using w that by (auto simp: waiting_def PROTO_REQ_MULTIBULK_def)
    then have "(querybuf (inp s) @ r) ! 0 = CHR ''*''" unfolding q(1) by (simp add: resp_def)
    then show ?thesis using q(2) by (cases "querybuf (inp s)") simp_all
  qed
  then have rq: "request_type s = s\<lparr>reqtype := PROTO_REQ_MULTIBULK\<rparr>" using w by (auto simp: request_type_def waiting_def)
  obtain b i where p: "processMultibulkBuffer max_len nt (sconn s) (inp s) = Some (b, nt, sconn s, i)"
    "if b then read_all as i \<and> querybuf i @ r = rest
     else \<exists>need'. expecting as i need' \<and> querybuf i @ r = need' @ rest \<and> length (querybuf i) < length need'"
    using process_ok [OF e q(1) len as, of nt "sconn s"] by blast
  have "read_request max_len nt (request_type s) = Some (b, nt, s\<lparr>inp := i, reqtype := PROTO_REQ_MULTIBULK\<rparr>)"
    unfolding rq using p(1) by (simp add: read_request_def PROTO_REQ_MULTIBULK_def PROTO_REQ_INLINE_def)
  then show ?thesis using p(2) by blast
qed

lemma reset_flags_serving: "serving paused (rp, w, c) \<Longrightarrow> serving paused (rp, w, c\<lparr>flags := reset_flags b (flags c)\<rparr>)"
  by (auto simp: serving_def reset_flags_def Let_def split: if_splits)

lemma reset_flags_master: "CLIENT_MASTER \<in> reset_flags b fs \<longleftrightarrow> CLIENT_MASTER \<in> fs"
  by (auto simp: reset_flags_def Let_def)

lemma processInputBuffer_stop: "\<not> may_process (paused w) s \<Longrightarrow> processInputBuffer paused f io w s = Some (io, w, Some s)"
  by (subst processInputBuffer.simps) simp

text \<open>
  What the loop needs of a handler of commands: a command that it accepts has the effect \<^term>\<open>h\<close> on the state of the
  server and of the connection, the result is \<^verbatim>\<open>C_OK\<close>, nothing of the input but the arguments is changed, and the
  connection can go on.
\<close>

locale command_handler =
  fixes paused :: "'w \<Rightarrow> bool" and f :: "'w handler" and h :: "'w effect" and ok :: "'w served \<Rightarrow> string list \<Rightarrow> bool"
  assumes handled: "serving paused (srepl io, w, sconn s) \<Longrightarrow> ok (srepl io, w, sconn s) (iargv (inp s)) \<Longrightarrow>
      h (srepl io, w, sconn s) (iargv (inp s)) = (rp', w', c', b) \<Longrightarrow>
      \<exists>as'. f io w s = Some (True, io\<lparr>srepl := rp'\<rparr>, w', Some (s\<lparr>sconn := c', asking_cmd := b, inp := (inp s)\<lparr>iargv := as'\<rparr>\<rparr>))"
    and goes_on: "serving paused (rp, w, c) \<Longrightarrow> ok (rp, w, c) as \<Longrightarrow> h (rp, w, c) as = (rp', w', c', b) \<Longrightarrow>
      serving paused (rp', w', c') \<and> (CLIENT_MASTER \<in> flags c' \<longleftrightarrow> CLIENT_MASTER \<in> flags c)"
begin

text \<open>One command: what is left is the session after the command, for the commands that follow.\<close>

lemma command_served:
  assumes sv: "serving paused (srepl io, w, sconn s)" and a: "ok (srepl io, w, sconn s) as"
    and i: "read_all as i" "querybuf i @ r = stream cs" and x: "serve_command h (srepl io, w, sconn s) as = (rp', w', c')"
  obtains s2 where "f io w (s\<lparr>inp := i, reqtype := PROTO_REQ_MULTIBULK\<rparr>) = Some (True, io\<lparr>srepl := rp'\<rparr>, w', Some s2)"
    "stream_state False (after_command s2) cs r" "sconn (after_command s2) = c'" "serving paused (rp', w', c')"
    "pending_querybuf (after_command s2) = pending_querybuf s" "read_reploff (after_command s2) = read_reploff s"
    "CLIENT_MASTER \<in> flags c' \<longleftrightarrow> CLIENT_MASTER \<in> flags (sconn s)" "querybuf (inp (after_command s2)) = querybuf i"
proof -
  let ?s = "s\<lparr>inp := i, reqtype := PROTO_REQ_MULTIBULK\<rparr>"
  obtain c1 b where c1: "h (srepl io, w, sconn s) as = (rp', w', c1, b)" "c' = c1\<lparr>flags := reset_flags b (flags c1)\<rparr>"
    using x by (auto simp: serve_command_def split: prod.splits)
  have pre: "serving paused (srepl io, w, sconn ?s)" "ok (srepl io, w, sconn ?s) (iargv (inp ?s))"
      "h (srepl io, w, sconn ?s) (iargv (inp ?s)) = (rp', w', c1, b)"
    using sv a c1(1) i(1) by (simp_all add: read_all_def)
  obtain as' where run: "f io w ?s = Some (True, io\<lparr>srepl := rp'\<rparr>, w', Some (?s\<lparr>sconn := c1, asking_cmd := b, inp := i\<lparr>iargv := as'\<rparr>\<rparr>))"
    using handled [OF pre] by auto
  have on: "serving paused (rp', w', c1)" "CLIENT_MASTER \<in> flags c1 \<longleftrightarrow> CLIENT_MASTER \<in> flags (sconn s)"
    using goes_on [OF sv a c1(1)] by auto
  let ?s2 = "after_command (?s\<lparr>sconn := c1, asking_cmd := b, inp := i\<lparr>iargv := as'\<rparr>\<rparr>)"
  have fl: "CLIENT_BLOCKED \<notin> flags c1" "CLIENT_MASTER \<in> flags c1 \<Longrightarrow> CLIENT_MULTI \<notin> flags c1" using on(1) by (auto simp: serving_def)
  have s2: "?s2 = s\<lparr>sconn := c', inp := i\<lparr>iargv := [], multibulklen := 0, bulklen := -1\<rparr>, reqtype := 0, asking_cmd := False,
      reploff := (if CLIENT_MASTER \<in> flags c1 then read_reploff s - int (length (querybuf i)) else reploff s)\<rparr>"
    using fl c1(2) by (cases "CLIENT_MASTER \<in> flags c1") (simp_all add: after_command_def resetClient_def Let_def)
  have fr: "fresh (i\<lparr>iargv := [], multibulklen := 0, bulklen := -1\<rparr>)" by (simp add: fresh_def)
  have "offsets_ok ?s2 cs r"
    using arg_cong [OF i(2), of length] reset_flags_master unfolding offsets_ok_def s2 c1(2) by simp
  then have st: "stream_state False ?s2 cs r"
    using i(2) fr unfolding stream_state_def s2 by (cases cs) (auto simp: waiting_def expecting_def)
  show thesis
    by (rule that [OF _ st]) (use run on c1(2) s2 reset_flags_serving reset_flags_master in auto)
qed

end

lemma same_net [simp]: "io\<lparr>srepl := (srepl io)\<lparr>repl_net := repl_net (srepl io)\<rparr>\<rparr> = io"
  by (cases io; cases "srepl io") simp

text \<open>What stays the same, or is known, after processing.\<close>

definition processed :: "('w \<Rightarrow> bool) \<Rightarrow> session \<Rightarrow> string list list \<Rightarrow> string \<Rightarrow> repl \<Rightarrow> 'w \<Rightarrow> session \<Rightarrow> bool" where
  "processed paused s cs r rp' w' s' \<longleftrightarrow> stream_state True s' cs r \<and> serving paused (rp', w', sconn s') \<and>
     pending_querybuf s' = pending_querybuf s \<and> read_reploff s' = read_reploff s \<and>
     (CLIENT_MASTER \<in> flags (sconn s') \<longleftrightarrow> CLIENT_MASTER \<in> flags (sconn s))"

context command_handler begin

lemma processInputBuffer_ok:
  assumes "\<forall>as\<in>set cs. small (proto_max_bulk_len io) as" "serving paused (srepl io, w, sconn s)"
    "stream_state False s cs r" "length (querybuf (inp s)) \<le> PROTO_INLINE_MAX_SIZE" "accepted h ok (srepl io, w, sconn s) cs"
  shows "\<exists>k rp' w' s'. processInputBuffer paused f io w s = Some (io\<lparr>srepl := rp'\<rparr>, w', Some s') \<and>
    foldl (serve_command h) (srepl io, w, sconn s) (take k cs) = (rp', w', sconn s') \<and> processed paused s (drop k cs) r rp' w' s'"
  using assms
proof (induction cs arbitrary: io w s)
  case Nil
  then have "\<not> may_process (paused w) s" by (simp add: stream_state_def may_process_def)
  moreover have "stream_state True s [] r" using Nil by (auto simp: stream_state_def)
  ultimately show ?case using Nil(2) processInputBuffer_stop [of paused w s f io] by (auto simp: processed_def)
next
  case (Cons as cs)
  obtain need where n: "waiting s as need" "querybuf (inp s) @ r = need @ stream cs" "\<not> asking_cmd s" "offsets_ok s (as # cs) r"
    using Cons.prems(3) by (auto simp: stream_state_def)
  have cok: "command_ok (proto_max_bulk_len io) as" using Cons.prems(1) by (simp add: small_def)
  show ?case
  proof (cases "querybuf (inp s) = []")
    case True
    then have "\<not> may_process (paused w) s" by (simp add: may_process_def)
    note stop = processInputBuffer_stop [of paused w s f io, OF this]
    have "need \<noteq> []" using n(1) expecting_need(1) by (auto simp: waiting_def)
    then have "stream_state True s (as # cs) r" using n True by (auto simp: stream_state_def)
    then have "processed paused s (drop 0 (as # cs)) r (srepl io) w s" using Cons.prems(2) by (simp add: processed_def)
    then show ?thesis using stop by (intro exI [of _ 0] exI [of _ "srepl io"] exI [of _ w] exI [of _ s]) simp
  next
    case False
    have may: "may_process (paused w) s" using False Cons.prems(2) by (auto simp: may_process_def serving_def)
    obtain b i where p: "read_request (proto_max_bulk_len io) (repl_net (srepl io)) (request_type s) =
        Some (b, repl_net (srepl io), s\<lparr>inp := i, reqtype := PROTO_REQ_MULTIBULK\<rparr>)"
      "if b then read_all as i \<and> querybuf i @ r = stream cs
       else \<exists>need'. expecting as i need' \<and> querybuf i @ r = need' @ stream cs \<and> length (querybuf i) < length need'"
      using process_waiting [OF n(1,2) False Cons.prems(4) cok] by blast
    let ?s = "s\<lparr>inp := i, reqtype := PROTO_REQ_MULTIBULK\<rparr>"
    show ?thesis
    proof (cases b)
      case False
      then obtain need' where n': "expecting as i need'" "querybuf i @ r = need' @ stream cs" "length (querybuf i) < length need'"
        using p(2) by auto
      have run: "processInputBuffer paused f io w s = Some (io, w, Some ?s)"
        by (subst processInputBuffer.simps) (use may p(1) False in simp)
      have "stream_state True ?s (as # cs) r"
        using n(3,4) n' by (auto simp: stream_state_def waiting_def offsets_ok_def)
      then have "processed paused s (drop 0 (as # cs)) r (srepl io) w ?s" using Cons.prems(2) by (simp add: processed_def)
      then show ?thesis using run by (intro exI [of _ 0] exI [of _ "srepl io"] exI [of _ w] exI [of _ ?s]) simp
    next
      case True
      then have i: "read_all as i" "querybuf i @ r = stream cs" using p(2) by auto
      obtain rp' w' c' where x: "serve_command h (srepl io, w, sconn s) as = (rp', w', c')" by (cases "serve_command h (srepl io, w, sconn s) as")
      let ?io = "io\<lparr>srepl := rp'\<rparr>"
      have acc: "ok (srepl io, w, sconn s) as" "accepted h ok (rp', w', c') cs" using Cons.prems(5) x by simp_all
      obtain s2 where s2: "f io w ?s = Some (True, ?io, w', Some s2)" "stream_state False (after_command s2) cs r"
          "sconn (after_command s2) = c'" "serving paused (rp', w', c')"
          "pending_querybuf (after_command s2) = pending_querybuf s" "read_reploff (after_command s2) = read_reploff s"
          "CLIENT_MASTER \<in> flags c' \<longleftrightarrow> CLIENT_MASTER \<in> flags (sconn s)" "querybuf (inp (after_command s2)) = querybuf i"
        by (rule command_served [OF Cons.prems(2) acc(1) i x])
      have ne: "iargv i \<noteq> []" using i(1) cok by (simp add: read_all_def command_ok_def)
      have run: "processInputBuffer paused f io w s = processInputBuffer paused f ?io w' (after_command s2)"
        by (subst processInputBuffer.simps) (use may p(1) True ne s2(1) in simp)
      have len: "length (querybuf (inp (after_command s2))) \<le> PROTO_INLINE_MAX_SIZE"
      proof -
        have "length (querybuf i) + length r = length (stream cs)" using arg_cong [OF i(2), of length] by simp
        moreover have "length (querybuf (inp s)) + length r = length need + length (stream cs)" using arg_cong [OF n(2), of length] by simp
        ultimately show ?thesis using Cons.prems(4) s2(8) by simp
      qed
      have "\<forall>as\<in>set cs. small (proto_max_bulk_len ?io) as" using Cons.prems(1) by simp
      moreover have "serving paused (srepl ?io, w', sconn (after_command s2))" "accepted h ok (srepl ?io, w', sconn (after_command s2)) cs"
        using s2(3,4) acc(2) by simp_all
      ultimately obtain k rp2 w2 s3 where r: "processInputBuffer paused f ?io w' (after_command s2) = Some (?io\<lparr>srepl := rp2\<rparr>, w2, Some s3)"
        "foldl (serve_command h) (srepl ?io, w', sconn (after_command s2)) (take k cs) = (rp2, w2, sconn s3)"
        "processed paused (after_command s2) (drop k cs) r rp2 w2 s3"
        using Cons.IH [OF _ _ s2(2) len] by blast
      have "processed paused s (drop (Suc k) (as # cs)) r rp2 w2 s3" using r(3) s2(3,5-7) by (simp add: processed_def)
      moreover have "foldl (serve_command h) (srepl io, w, sconn s) (take (Suc k) (as # cs)) = (rp2, w2, sconn s3)"
        using r(2) x s2(3) by simp
      ultimately show ?thesis using run r(1) by (intro exI [of _ "Suc k"] exI [of _ rp2] exI [of _ w2] exI [of _ s3]) simp
    qed
  qed
qed

end

section \<open>Reads\<close>

lemma parked_short:
  assumes st: "stream_state True s cs r" and cs: "\<forall>as\<in>set cs. small max_len as"
  shows "length (querybuf (inp s)) \<le> 32 * 1024" "read_length s = PROTO_IOBUF_LEN"
proof -
  have "length (querybuf (inp s)) \<le> 32 * 1024 \<and> bulklen (inp s) < PROTO_MBULK_BIG_ARG"
  proof (cases cs)
    case Nil
    then show ?thesis using st by (simp add: stream_state_def fresh_def PROTO_MBULK_BIG_ARG_def)
  next
    case (Cons as cs')
    obtain need where n: "expecting as (inp s) need" "length (querybuf (inp s)) < length need"
      using st Cons by (auto simp: stream_state_def waiting_def)
    have l: "length (resp as) \<le> 32 * 1024" using cs Cons by (simp add: small_def)
    have "bulklen (inp s) < PROTO_MBULK_BIG_ARG"
    proof (cases "bulklen (inp s) = -1")
      case False
      then obtain todo where t: "reading as todo (inp s) need" using n(1) by (auto simp: expecting_def fresh_def)
      then have "bulklen (inp s) = int (length (hd todo))" "hd todo \<in> set as" using False by (auto simp: reading_def)
      moreover from this(2) have "length (hd todo) < length (resp as)"
        using split_list [of "hd todo" as] by (auto simp: resp_def resp_bulk_def)
      ultimately show ?thesis using l by (simp add: PROTO_MBULK_BIG_ARG_def)
    qed (simp add: PROTO_MBULK_BIG_ARG_def)
    then show ?thesis using n(2) expecting_need(2) [OF n(1)] l by simp
  qed
  then show "length (querybuf (inp s)) \<le> 32 * 1024" "read_length s = PROTO_IOBUF_LEN" by (auto simp: read_length_def Let_def)
qed

lemma stream_length: "stream_state p s cs r \<Longrightarrow> length r \<le> length (stream cs)"
proof (cases cs)
  case (Cons as cs')
  assume "stream_state p s cs r"
  then obtain need where n: "expecting as (inp s) need" "querybuf (inp s) @ r = need @ stream cs'"
    using Cons by (auto simp: stream_state_def waiting_def)
  have "length (querybuf (inp s)) + length r = length need + length (stream cs')" using arg_cong [OF n(2), of length] by simp
  then show ?thesis using expecting_need(2) [OF n(1)] Cons by simp
qed (simp add: stream_state_def)

lemma add_data_stream:
  assumes "stream_state True s cs (x @ r)" "x \<noteq> []"
  shows "stream_state False (add_data now x s) cs r" "cs \<noteq> []"
  using assms
  by (cases cs; auto simp: stream_state_def add_data_def waiting_def fresh_def offsets_ok_def Let_def)+

lemma stream_state_peak [simp]: "stream_state p (s\<lparr>querybuf_peak := n\<rparr>) cs r = stream_state p s cs r"
  by (simp add: stream_state_def waiting_def offsets_ok_def split: list.split)

text \<open>The session at the moment when the new bytes are processed.\<close>

definition arrived :: "server_io \<Rightarrow> string \<Rightarrow> session \<Rightarrow> session" where
  "arrived io x s =
     (let n = length (querybuf (inp s))
      in add_data (unixtime (repl_net (srepl io))) x (s\<lparr>querybuf_peak := (if querybuf_peak s < n then n else querybuf_peak s)\<rparr>))"

definition counted :: "server_io \<Rightarrow> string \<Rightarrow> server_io" where
  "counted io x = io\<lparr>stat_net_input_bytes := stat_net_input_bytes io + length x\<rparr>"

lemma arrived_sel [simp]:
  "sconn (arrived io x s) = sconn s" "reploff (arrived io x s) = reploff s"
  "querybuf (inp (arrived io x s)) = querybuf (inp s) @ x"
  "pending_querybuf (arrived io x s) = (if CLIENT_MASTER \<in> flags (sconn s) then pending_querybuf s @ x else pending_querybuf s)"
  "srepl (counted io x) = srepl io" "proto_max_bulk_len (counted io x) = proto_max_bulk_len io"
  "client_max_querybuf_len (counted io x) = client_max_querybuf_len io"
  by (simp_all add: arrived_def add_data_def counted_def sdscatlen_def Let_def)

text \<open>The hypotheses on one read, and the state it is processed in.\<close>

definition can_read :: "('w \<Rightarrow> bool) \<Rightarrow> server_io \<Rightarrow> 'w \<Rightarrow> session \<Rightarrow> string list list \<Rightarrow> string \<Rightarrow> string \<Rightarrow> bool" where
  "can_read paused io w s cs x r \<longleftrightarrow> serving paused (srepl io, w, sconn s) \<and> stream_state True s cs (x @ r) \<and> x \<noteq> [] \<and>
     int (length x) \<le> PROTO_IOBUF_LEN \<and> (\<forall>as\<in>set cs. small (proto_max_bulk_len io) as) \<and> 48 * 1024 \<le> client_max_querybuf_len io"

context command_handler begin

lemma read_processed:
  assumes c: "can_read paused io w s cs x r" and a: "accepted h ok (srepl io, w, sconn s) cs"
  shows "\<exists>k rp' w' s'. processInputBuffer paused f (counted io x) w (arrived io x s) = Some ((counted io x)\<lparr>srepl := rp'\<rparr>, w', Some s') \<and>
    foldl (serve_command h) (srepl io, w, sconn s) (take k cs) = (rp', w', sconn s') \<and>
    processed paused (arrived io x s) (drop k cs) r rp' w' s'"
proof -
  have st: "stream_state True s cs (x @ r)" "x \<noteq> []" "\<forall>as\<in>set cs. small (proto_max_bulk_len io) as"
    "serving paused (srepl io, w, sconn s)" "int (length x) \<le> PROTO_IOBUF_LEN" using c by (auto simp: can_read_def)
  have "stream_state False (arrived io x s) cs r"
    unfolding arrived_def Let_def by (rule add_data_stream(1) [OF _ st(2)]) (use st(1) in simp)
  moreover have "length (querybuf (inp (arrived io x s))) \<le> PROTO_INLINE_MAX_SIZE"
    using parked_short(1) [OF st(1,3)] st(5) by (simp add: PROTO_IOBUF_LEN_def PROTO_INLINE_MAX_SIZE_def)
  ultimately show ?thesis
    using processInputBuffer_ok [of cs "counted io x" w "arrived io x s" r] st(3,4) a by simp
qed

end

lemma read_unfold:
  assumes "can_read paused io w s cs x r"
  shows "readQueryFromClient paused f io w s (Data x) =
    (if CLIENT_MASTER \<notin> flags (sconn s) then processInputBuffer paused f (counted io x) w (arrived io x s)
     else do {
       (io2, w2, so) \<leftarrow> processInputBuffer paused f (counted io x) w (arrived io x s);
       s2 \<leftarrow> so;
       let applied = nat ((reploff s2 - reploff s) mod 2 ^ 64);
       if applied = 0 then Some (io2, w2, Some s2)
       else if length (pending_querybuf s2) < applied then None
       else do {
         r \<leftarrow> replicationFeedSlavesFromMasterStream (srepl io2) (take applied (pending_querybuf s2));
         Some (io2\<lparr>srepl := r\<rparr>, w2, Some (s2\<lparr>pending_querybuf := sdsrange (pending_querybuf s2) (int applied) (-1)\<rparr>))
       }
     })"
proof -
  have st: "stream_state True s cs (x @ r)" "x \<noteq> []" "\<forall>as\<in>set cs. small (proto_max_bulk_len io) as"
    "int (length x) \<le> PROTO_IOBUF_LEN" "48 * 1024 \<le> client_max_querybuf_len io" using assms by (auto simp: can_read_def)
  let ?s = "s\<lparr>querybuf_peak := (if querybuf_peak s < length (querybuf (inp s)) then length (querybuf (inp s)) else querybuf_peak s)\<rparr>"
  have "read_length ?s = PROTO_IOBUF_LEN" using parked_short(2) [OF _ st(3), of ?s "x @ r"] st(1) by simp
  then have "\<not> (x = [] \<or> read_length ?s < int (length x))" using st(2,4) by simp
  moreover have "\<not> client_max_querybuf_len (counted io x) < length (querybuf (inp (arrived io x s)))"
    using parked_short(1) [OF st(1,3)] st(4,5) by (simp add: PROTO_IOBUF_LEN_def)
  ultimately show ?thesis
    unfolding readQueryFromClient_def Let_def read_result.case
    unfolding arrived_def [unfolded Let_def, symmetric] counted_def [symmetric] by (simp only: if_False arrived_sel)
qed

text \<open>A connection that is read until nothing more arrives.\<close>

fun serve :: "('w \<Rightarrow> bool) \<Rightarrow> 'w handler \<Rightarrow> server_io \<Rightarrow> 'w \<Rightarrow> session \<Rightarrow> string list \<Rightarrow> (server_io \<times> 'w \<times> session option) option" where
  "serve paused f io w s [] = Some (io, w, Some s)"
| "serve paused f io w s (x # xs) = do {
     (io, w, so) \<leftarrow> readQueryFromClient paused f io w s (Data x);
     case so of None \<Rightarrow> Some (io, w, None) | Some s \<Rightarrow> serve paused f io w s xs
   }"

lemma foldl_take_drop: "foldl g (foldl g a (take k xs)) (drop k xs) = foldl g a xs"
  by (simp add: foldl_append [symmetric])

context command_handler begin

lemma serve_ok:
  assumes "serving paused (srepl io, w, sconn s)" "stream_state True s cs (concat xs)"
    "CLIENT_MASTER \<notin> flags (sconn s)" "\<forall>x\<in>set xs. x \<noteq> [] \<and> int (length x) \<le> PROTO_IOBUF_LEN"
    "\<forall>as\<in>set cs. small (proto_max_bulk_len io) as" "48 * 1024 \<le> client_max_querybuf_len io" "accepted h ok (srepl io, w, sconn s) cs"
  shows "\<exists>io' w' s'. serve paused f io w s xs = Some (io', w', Some s') \<and>
    foldl (serve_command h) (srepl io, w, sconn s) cs = (srepl io', w', sconn s') \<and> stream_state True s' [] []"
  using assms
proof (induction xs arbitrary: io w s cs)
  case Nil
  then have "cs = []" using parked_end by simp
  then show ?case using Nil(2) by simp
next
  case (Cons x xs)
  have c: "can_read paused io w s cs x (concat xs)" using Cons.prems by (simp add: can_read_def)
  obtain k rp' w' s' where r: "processInputBuffer paused f (counted io x) w (arrived io x s) = Some ((counted io x)\<lparr>srepl := rp'\<rparr>, w', Some s')"
    "foldl (serve_command h) (srepl io, w, sconn s) (take k cs) = (rp', w', sconn s')"
    "processed paused (arrived io x s) (drop k cs) (concat xs) rp' w' s'"
    using read_processed [OF c Cons.prems(7)] by blast
  let ?io = "(counted io x)\<lparr>srepl := rp'\<rparr>"
  have run: "readQueryFromClient paused f io w s (Data x) = Some (?io, w', Some s')"
    using read_unfold [OF c, of f] r(1) Cons.prems(3) by simp
  have p: "serving paused (srepl ?io, w', sconn s')" "stream_state True s' (drop k cs) (concat xs)" "CLIENT_MASTER \<notin> flags (sconn s')"
    using r(3) Cons.prems(3) by (simp_all add: processed_def)
  have q: "\<forall>x\<in>set xs. x \<noteq> [] \<and> int (length x) \<le> PROTO_IOBUF_LEN" "\<forall>as\<in>set (drop k cs). small (proto_max_bulk_len ?io) as"
    "48 * 1024 \<le> client_max_querybuf_len ?io"
    "accepted h ok (srepl ?io, w', sconn s') (drop k cs)"
    using Cons.prems(4-6) accepted_drop [OF Cons.prems(7), of k] r(2) by (auto dest: in_set_dropD)
  from Cons.IH [OF p q] obtain io2 w2 s2 where i: "serve paused f ?io w' s' xs = Some (io2, w2, Some s2)"
    "foldl (serve_command h) (srepl ?io, w', sconn s') (drop k cs) = (srepl io2, w2, sconn s2)" "stream_state True s2 [] []" by blast
  have "foldl (serve_command h) (srepl io, w, sconn s) cs = (srepl io2, w2, sconn s2)"
    using i(2) r(2) foldl_take_drop [of "serve_command h" "(srepl io, w, sconn s)" k cs] by simp
  then show ?case using run i(1,3) by simp
qed

end

lemma stream_Nil: "stream cs = [] \<longleftrightarrow> cs = []"
  by (cases cs) (simp_all add: resp_def)

lemma parked_pending:
  assumes c: "can_read paused io w s cs x r" and pq: "pending_querybuf s @ x @ r = stream cs"
  shows "length (pending_querybuf s @ x) \<le> 48 * 1024"
proof -
  have st: "stream_state True s cs (x @ r)" "x \<noteq> []" "\<forall>as\<in>set cs. small (proto_max_bulk_len io) as" "int (length x) \<le> PROTO_IOBUF_LEN"
    using c by (auto simp: can_read_def)
  obtain as cs' where cs: "cs = as # cs'" using add_data_stream(2) [OF st(1,2)] by (cases cs) auto
  obtain need where n: "querybuf (inp s) @ x @ r = need @ stream cs'" "length (querybuf (inp s)) < length need"
    using st(1) cs by (auto simp: stream_state_def)
  have "length (querybuf (inp s)) + length (x @ r) = length need + length (stream cs')" using arg_cong [OF n(1), of length] by simp
  moreover have "length (pending_querybuf s) + length (x @ r) = length (resp as) + length (stream cs')"
    using arg_cong [OF pq, of length] cs by simp
  ultimately have "length (pending_querybuf s) < length (resp as)" using n(2) by linarith
  moreover have "length (resp as) \<le> 32 * 1024" using st(3) cs by (simp add: small_def)
  ultimately show ?thesis using st(4) by (simp add: PROTO_IOBUF_LEN_def)
qed

lemma stream_state_pending [simp]: "stream_state p (s\<lparr>pending_querybuf := q\<rparr>) cs r = stream_state p s cs r"
  by (simp add: stream_state_def waiting_def offsets_ok_def split: list.split)

section \<open>Inline commands\<close>

lemma line_end:
  assumes "nul_free l" "CHR 0x0A \<notin> set l"
  shows "first_index (\<lambda>x. x = CHR 0x0A) (cstr (l @ CHR 0x0A # rest)) = Some (length l)"
proof -
  have c: "cstr (l @ CHR 0x0A # rest) = l @ CHR 0x0A # cstr rest"
    using assms(1) by (induction l) (auto simp: cstr_def nul_free_def)
  show ?thesis unfolding c using assms(2) by (induction l) auto
qed

lemma sdsnewlen_take: "n \<le> length q \<Longrightarrow> sdsnewlen (Some q) n = Some (take n q)"
  by (simp add: sdsnewlen_def)

section \<open>Properties\<close>

definition sample_session :: "cflag set \<Rightarrow> session" where
  "sample_session fs = \<lparr>sconn = sample_conn\<lparr>flags := fs\<rparr>, inp = sample_input, reqtype = 0, asking_cmd = False,
     querybuf_peak = 0, lastinteraction = 0, pending_querybuf = [], read_reploff = 0, reploff = 0, repl_ack_time = 0\<rparr>"

definition sample_io :: server_io where
  "sample_io = \<lparr>srepl = sample_repl True, stat_net_input_bytes = 0, proto_max_bulk_len = 512 * 1024 * 1024, client_max_querybuf_len = 1024 * 1024 * 1024\<rparr>"

definition new_session :: "session \<Rightarrow> bool" where
  "new_session s \<longleftrightarrow> fresh (inp s) \<and> querybuf (inp s) = [] \<and> reqtype s = 0 \<and> \<not> asking_cmd s"

lemma new_session_stream:
  assumes "new_session s" "CLIENT_MASTER \<notin> flags (sconn s) \<or> reploff s = read_reploff s"
  shows "stream_state True s cs (stream cs)"
  using assms by (cases cs) (auto simp: new_session_def stream_state_def offsets_ok_def waiting_def expecting_def resp_def)

context command_handler begin

lemma stream_served:
  assumes "serving paused (srepl io, w, sconn s)" "new_session s" "CLIENT_MASTER \<notin> flags (sconn s)"
    "concat xs = concat (map resp cs)" "\<forall>x\<in>set xs. x \<noteq> [] \<and> int (length x) \<le> PROTO_IOBUF_LEN"
    "\<forall>as\<in>set cs. command_ok (proto_max_bulk_len io) as \<and> length (resp as) \<le> 32 * 1024" "48 * 1024 \<le> client_max_querybuf_len io"
    "accepted h ok (srepl io, w, sconn s) cs"
  shows "\<exists>io' w' s'. serve paused f io w s xs = Some (io', w', Some s') \<and>
    foldl (serve_command h) (srepl io, w, sconn s) cs = (srepl io', w', sconn s') \<and> new_session s'"
proof -
  have "stream_state True s cs (concat xs)" using new_session_stream [OF assms(2)] assms(3,4) by (simp add: stream_def)
  from serve_ok [OF assms(1) this assms(3,5) _ assms(7,8)] assms(6)
  obtain io' w' s' where r: "serve paused f io w s xs = Some (io', w', Some s')"
      "foldl (serve_command h) (srepl io, w, sconn s) cs = (srepl io', w', sconn s')" "stream_state True s' [] []"
    by (auto simp: small_def)
  then show ?thesis by (auto simp: stream_state_def new_session_def)
qed

lemma master_stream_read:
  assumes c: "can_read paused io w s cs x r" and m: "CLIENT_MASTER \<in> flags (sconn s)"
    and pq: "pending_querybuf s @ x @ r = stream cs" and acc: "accepted h ok (srepl io, w, sconn s) cs"
  shows "\<exists>k rp' w' s'. foldl (serve_command h) (srepl io, w, sconn s) (take k cs) = (rp', w', sconn s') \<and>
    readQueryFromClient paused f io w s (Data x) =
      map_option (\<lambda>rp. ((counted io x)\<lparr>srepl := rp\<rparr>, w', Some s'))
        (if take k cs = [] then Some rp' else replicationFeedSlavesFromMasterStream rp' (stream (take k cs))) \<and>
    stream_state True s' (drop k cs) r \<and> pending_querybuf s' @ r = stream (drop k cs) \<and>
    reploff s' = reploff s + int (length (stream (take k cs)))"
proof -
  obtain k rp' w' s' where p: "processInputBuffer paused f (counted io x) w (arrived io x s) = Some ((counted io x)\<lparr>srepl := rp'\<rparr>, w', Some s')"
    "foldl (serve_command h) (srepl io, w, sconn s) (take k cs) = (rp', w', sconn s')"
    "processed paused (arrived io x s) (drop k cs) r rp' w' s'"
    using read_processed [OF c acc] by blast
  let ?t = "stream (take k cs)" and ?d = "stream (drop k cs)"
  have split: "stream cs = ?t @ ?d" by (simp add: stream_def concat_append [symmetric] map_append [symmetric])
  have st: "stream_state True s cs (x @ r)" "stream_state True s' (drop k cs) r" using c p(3) by (simp_all add: can_read_def processed_def)
  have pend: "pending_querybuf s' = pending_querybuf s @ x" using p(3) m by (simp add: processed_def)
  have "offsets_ok s cs (x @ r)" "offsets_ok s' (drop k cs) r" using st by (simp_all add: stream_state_def)
  moreover have "CLIENT_MASTER \<in> flags (sconn s')" "read_reploff s' = read_reploff s + int (length x)"
    using p(3) m by (simp_all add: processed_def arrived_def add_data_def Let_def)
  ultimately have off: "reploff s' = reploff s + int (length ?t)" using m split by (simp add: offsets_ok_def)
  have len: "length ?t \<le> length (pending_querybuf s')"
    using arg_cong [OF pq, of length] stream_length [OF st(2)] split pend by simp
  have all: "pending_querybuf s' @ r = ?t @ ?d" using pq pend split by simp
  obtain d where "pending_querybuf s' = ?t @ d" "d @ r = ?d" using split_known [OF all] len by auto
  then have pre: "take (length ?t) (pending_querybuf s') = ?t" "drop (length ?t) (pending_querybuf s') @ r = ?d" by simp_all
  have small: "length (pending_querybuf s') \<le> 48 * 1024" using parked_pending [OF c pq] pend by simp
  have applied: "nat ((reploff s' - reploff s) mod 2 ^ 64) = length ?t" using off len small by simp
  let ?s = "s'\<lparr>pending_querybuf := drop (length ?t) (pending_querybuf s')\<rparr>"
  have e: "?t = [] \<longleftrightarrow> take k cs = []" by (simp only: stream_Nil)
  have m': "\<not> CLIENT_MASTER \<notin> flags (sconn s)" using m by simp
  note run = read_unfold [OF c, of f, unfolded p(1) if_not_P [OF m'] bind.bind_lunit prod.case Let_def applied]
  have "readQueryFromClient paused f io w s (Data x) = map_option (\<lambda>rp. ((counted io x)\<lparr>srepl := rp\<rparr>, w', Some ?s))
      (if take k cs = [] then Some rp' else replicationFeedSlavesFromMasterStream rp' ?t)"
  proof (cases "?t = []")
    case True
    then have "?s = s'" "length ?t = 0" by simp_all
    then show ?thesis unfolding run using True e by simp
  next
    case False
    then have n: "length ?t \<noteq> 0" "\<not> length (pending_querybuf s') < length ?t" "take k cs \<noteq> []" using len e by auto
    show ?thesis
      unfolding run if_not_P [OF n(1)] if_not_P [OF n(2)] if_not_P [OF n(3)] pre(1) sdsrange_drop
      by (cases "replicationFeedSlavesFromMasterStream rp' ?t") simp_all
  qed
  moreover have "stream_state True ?s (drop k cs) r" using st(2) by simp
  ultimately show ?thesis using p(2) pre(2) off by (intro exI [of _ k] exI [of _ rp'] exI [of _ w'] exI [of _ ?s]) simp
qed

end

text \<open>
  C31. An inline command, a line of arguments, is read with exactly its non-empty arguments. What follows the line stays in the
  buffer if the line ends with CR and LF; after a line that ends with LF alone the byte that follows it is lost.
\<close>

theorem inline_command_read:
  assumes "querybuf (inp s) = l @ eol @ rest" "eol = CRLF \<or> eol = [CHR 0x0A] \<and> (l = [] \<or> last l \<noteq> CR)"
    "nul_free l" "CHR 0x0A \<notin> set l" "sdssplitargs l = Some argv"
  shows "\<exists>s'. processInlineBuffer nt s = Some (True, nt, s') \<and> iargv (inp s') = filter (\<lambda>a. a \<noteq> []) argv \<and>
    querybuf (inp s') = (if eol = CRLF then rest else drop 1 rest)"
proof -
  let ?q = "querybuf (inp s)" and ?line = "if eol = CRLF then l @ [CR] else l"
  have q: "?q = ?line @ CHR 0x0A # rest" using assms(1,2) by (auto simp: CRLF_def)
  have "nul_free ?line" "CHR 0x0A \<notin> set ?line" using assms(3,4) by (auto simp: nul_free_def)
  then have nl: "first_index (\<lambda>x. x = CHR 0x0A) (cstr ?q) = Some (length ?line)" unfolding q by (rule line_end)
  have ql: "(if length ?line \<noteq> 0 \<and> ?q ! (length ?line - 1) = CR then length ?line - 1 else length ?line) = length l"
    using assms(2) unfolding q by (cases l rule: rev_cases) (auto simp: nth_append CRLF_def)
  have t: "take (length l) ?q = l" "length l \<le> length ?q" unfolding q by simp_all
  have d: "sdsrange ?q (int (length l) + 2) (-1) = (if eol = CRLF then rest else drop 1 rest)"
    using sdsrange_drop [of ?q "length l + 2"] unfolding q by (simp add: add.commute)
  show ?thesis
    unfolding processInlineBuffer_def Let_def nl option.case ql sdsnewlen_take [OF t(2)] bind.bind_lunit t(1) assms(5) d
    by simp
qed

theorem inline_command_read_witness:
  "\<exists>s'. processInlineBuffer sample_net ((sample_session {})\<lparr>inp := sample_input\<lparr>querybuf := ''ping'' @ [CHR 0x0A] @ ''find''\<rparr>\<rparr>) =
      Some (True, sample_net, s') \<and> iargv (inp s') = [''ping''] \<and> querybuf (inp s') = ''ind''"
proof -
  let ?s = "(sample_session {})\<lparr>inp := sample_input\<lparr>querybuf := ''ping'' @ [CHR 0x0A] @ ''find''\<rparr>\<rparr>"
  have "querybuf (inp ?s) = ''ping'' @ [CHR 0x0A] @ ''find''" "sdssplitargs ''ping'' = Some [''ping'']" "nul_free ''ping''"
    by (simp_all add: sdssplitargs_def cstr_def splitargs_loop.simps split_token.simps isspace_def sdscatlen_def nul_free_def)
  from inline_command_read [OF this(1) _ this(3) _ this(2), of sample_net] show ?thesis by (simp add: CRLF_def)
qed

end
