(* ===== verification/Process_Command.thy ===== *)
theory Process_Command
  imports Client_Loop
begin

text \<open>
  The execution of one command: \<^verbatim>\<open>processCommand\<close>, \<^verbatim>\<open>call\<close> and \<^verbatim>\<open>pingCommand\<close> of \<^verbatim>\<open>src/server.c\<close>, the queueing of
  \<^verbatim>\<open>src/multi.c\<close> and \<^verbatim>\<open>addReplyErrorFormat\<close> of \<^verbatim>\<open>src/networking.c\<close>. The command table, the redirections of a cluster,
  the eviction of keys, the output to monitors and the clients that are blocked on lists are arguments. The
  implementations of the commands are entries of the table. Statistics, the slow log and Lua scripts are left out. A
  connection may also be one of the slaves or the master, so its copies there are kept up to date. Shown is that this
  \<^verbatim>\<open>processCommand\<close> is a handler as the loop of the connections needs it, and what the loop then does with streams of commands.
\<close>

section \<open>State\<close>

datatype cmd_flag = CMD_WRITE | CMD_DENYOOM | CMD_MODULE | CMD_ADMIN | CMD_SKIP_MONITOR | CMD_STALE | CMD_LOADING

text \<open>
  The fields of the server that are used here and not elsewhere: \<^verbatim>\<open>lastbgsave_ok\<close> and \<^verbatim>\<open>aof_last_write_ok\<close> for the two status
  fields, \<^verbatim>\<open>aof_error\<close> for the text of the error number, \<^verbatim>\<open>repl_connected\<close> for \<^verbatim>\<open>repl_state\<close> being connected,
  \<^verbatim>\<open>lua_caller_master\<close> for the flag of the caller of a script. \<^verbatim>\<open>data\<close> is the rest of the state.
\<close>

record 'd world =
  clients_paused :: bool
  mstime :: int
  requirepass :: bool
  cluster_enabled :: bool
  lua_caller_master :: bool
  maxmemory :: bool
  stop_writes_on_bgsave_err :: bool
  saveparamslen :: nat
  lastbgsave_ok :: bool
  aof_last_write_ok :: bool
  aof_error :: string
  repl_min_slaves_to_write :: nat
  repl_min_slaves_max_lag :: nat
  repl_good_slaves_count :: nat
  repl_connected :: bool
  repl_serve_stale_data :: bool
  loading :: bool
  lua_timedout :: bool
  monitors :: "nat list"
  ready_keys :: bool
  dirty :: int
  also_ops :: "redis_op list"
  stat_numcommands :: nat
  data :: 'd

text \<open>An implementation works on the server and on the connection, and may rewrite the arguments.\<close>

type_synonym 'd proc = "repl \<Rightarrow> 'd world \<Rightarrow> conn \<Rightarrow> string list \<Rightarrow> (repl \<times> 'd world \<times> conn \<times> robj list) option"

text \<open>\<^verbatim>\<open>has_keys\<close> stands for the fields \<^verbatim>\<open>getkeys_proc\<close> and \<^verbatim>\<open>firstkey\<close>, one of which is set.\<close>

record 'd redisCommand =
  cname :: string
  arity :: int
  cmd_flags :: "cmd_flag set"
  has_keys :: bool
  proc_id :: cmd_proc
  proc :: "'d proc"

text \<open>
  The arguments: the dictionary of commands as a function of the name, whether the keys of a command are served by another
  node, and the functions that are only called. \<^verbatim>\<open>freeMemoryIfNeeded\<close> returns whether the result is \<^verbatim>\<open>C_OK\<close>, and no connection
  if it has freed the current client.
\<close>

record 'd hooks =
  commands :: "string \<Rightarrow> 'd redisCommand option"
  elsewhere :: "repl \<Rightarrow> 'd world \<Rightarrow> conn \<Rightarrow> 'd redisCommand \<Rightarrow> string list \<Rightarrow> bool"
  clusterRedirectClient :: "repl \<Rightarrow> 'd world \<Rightarrow> conn \<Rightarrow> 'd redisCommand \<Rightarrow> string list \<Rightarrow> (repl \<times> conn) option"
  unwatchAllKeys :: "'d world \<Rightarrow> conn \<Rightarrow> 'd world"
  freeMemoryIfNeeded :: "repl \<Rightarrow> 'd world \<Rightarrow> conn \<Rightarrow> (bool \<times> repl \<times> 'd world \<times> conn option) option"
  replicationFeedMonitors :: "repl \<Rightarrow> 'd world \<Rightarrow> conn \<Rightarrow> string list \<Rightarrow> (repl \<times> 'd world \<times> conn) option"
  handleClientsBlockedOnLists :: "repl \<Rightarrow> 'd world \<Rightarrow> conn \<Rightarrow> (repl \<times> 'd world \<times> conn) option"

text \<open>The copies of a connection among the slaves and as the master.\<close>

definition put_conn :: "repl \<Rightarrow> conn \<Rightarrow> repl" where
  "put_conn r c = r\<lparr>slaves := map (\<lambda>x. if cid x = cid c then c else x) (slaves r),
     master := map_option (\<lambda>x. if cid x = cid c then c else x) (master r)\<rparr>"

definition get_conn :: "repl \<Rightarrow> conn \<Rightarrow> conn" where
  "get_conn r c =
     (case List.find (\<lambda>x. cid x = cid c) (slaves r) of
        Some x \<Rightarrow> x
      | None \<Rightarrow> (case master r of Some m \<Rightarrow> if cid m = cid c then m else c | None \<Rightarrow> c))"

section \<open>Replies\<close>

definition shared_ok :: string where "shared_ok = ''+OK'' @ CRLF"
definition shared_pong :: string where "shared_pong = ''+PONG'' @ CRLF"
definition shared_queued :: string where "shared_queued = ''+QUEUED'' @ CRLF"
definition noautherr :: string where "noautherr = ''-NOAUTH Authentication required.'' @ CRLF"
definition quoted :: "string \<Rightarrow> string" where "quoted s = [CHR 0x27] @ s @ [CHR 0x27]"
definition oomerr :: string where
  "oomerr = ''-OOM command not allowed when used memory > '' @ quoted ''maxmemory'' @ ''.'' @ CRLF"
definition noreplicaserr :: string where "noreplicaserr = ''-NOREPLICAS Not enough good slaves to write.'' @ CRLF"
definition roslaveerr :: string where
  "roslaveerr = ''-READONLY You can'' @ [CHR 0x27] @ ''t write against a read only slave.'' @ CRLF"
definition masterdownerr :: string where
  "masterdownerr = ''-MASTERDOWN Link with MASTER is down and slave-serve-stale-data is set to '' @ quoted ''no'' @ ''.'' @ CRLF"
definition loadingerr :: string where "loadingerr = ''-LOADING Redis is loading the dataset in memory'' @ CRLF"
definition slowscripterr :: string where
  "slowscripterr = ''-BUSY Redis is busy running a script. You can only call SCRIPT KILL or SHUTDOWN NOSAVE.'' @ CRLF"
definition bgsaveerr :: string where
  "bgsaveerr = ''-MISCONF Redis is configured to save RDB snapshots, but it is currently not able to persist on disk. '' @
     ''Commands that may modify the data set are disabled, because this instance is configured to report errors during writes '' @
     ''if RDB snapshotting fails (stop-writes-on-bgsave-error option). Please check the Redis logs for details about the RDB error.'' @ CRLF"

text \<open>The text is the formatted one.\<close>

definition addReplyErrorFormat :: "net \<Rightarrow> conn \<Rightarrow> string \<Rightarrow> (net \<times> conn) option" where
  "addReplyErrorFormat nt c s =
     addReplyErrorLength nt c (map (\<lambda>x. if x = CHR 0x0D \<or> x = CHR 0x0A then CHR '' '' else x) s)"

type_synonym writer = "net \<Rightarrow> conn \<Rightarrow> (net \<times> conn) option"

definition shared :: "string \<Rightarrow> writer" where
  "shared s nt c = addReply nt c (RawObj s)"

definition reply_with :: "writer \<Rightarrow> repl \<Rightarrow> conn \<Rightarrow> (repl \<times> conn) option" where
  "reply_with f r c = do { (nt, c) \<leftarrow> f (repl_net r) c; Some (r\<lparr>repl_net := nt\<rparr>, c) }"

section \<open>Transactions\<close>

definition queueMultiCommand :: "'d redisCommand \<Rightarrow> conn \<Rightarrow> string list \<Rightarrow> conn" where
  "queueMultiCommand cmd c argv = c\<lparr>mstate := mstate c @ [(cname cmd, argv)]\<rparr>"

definition discardTransaction :: "'d hooks \<Rightarrow> 'd world \<Rightarrow> conn \<Rightarrow> 'd world \<times> conn" where
  "discardTransaction hk w c =
     (let c1 = c\<lparr>mstate := [], flags := flags c - {CLIENT_MULTI, CLIENT_DIRTY_CAS, CLIENT_DIRTY_EXEC}\<rparr>
      in (unwatchAllKeys hk w c1, c1))"

definition flagTransaction :: "conn \<Rightarrow> conn" where
  "flagTransaction c = (if CLIENT_MULTI \<in> flags c then c\<lparr>flags := insert CLIENT_DIRTY_EXEC (flags c)\<rparr> else c)"

section \<open>call\<close>

definition prop_flags :: "cflag set" where
  "prop_flags = {CLIENT_FORCE_AOF, CLIENT_FORCE_REPL, CLIENT_PREVENT_AOF_PROP, CLIENT_PREVENT_REPL_PROP}"

definition call ::
    "'d hooks \<Rightarrow> call_flag set \<Rightarrow> 'd redisCommand \<Rightarrow> repl \<Rightarrow> 'd world \<Rightarrow> conn \<Rightarrow> string list \<Rightarrow> (repl \<times> 'd world \<times> conn \<times> robj list) option" where
  "call hk cl cmd r0 w0 c0 argv = do {
     (r1, w1, c) \<leftarrow>
       (if monitors w0 \<noteq> [] \<and> \<not> loading w0 \<and> cmd_flags cmd \<inter> {CMD_SKIP_MONITOR, CMD_ADMIN} = {}
        then replicationFeedMonitors hk r0 w0 c0 argv else Some (r0, w0, c0));
     let c1 = c\<lparr>flags := flags c - prop_flags, ufs_flag := 0\<rparr>;
     (r2, w2, c2, argv2) \<leftarrow> proc cmd (put_conn r1 c1) (w1\<lparr>also_ops := []\<rparr>) c1 argv;
     r3 \<leftarrow> call_propagate (mstime w2) (put_conn r2 c2) (flags c2) (cid c2) cl (proc_id cmd) (CMD_MODULE \<in> cmd_flags cmd)
       (db_id c2) argv2 (dirty w1 < dirty w2) (ufs_flag c2 = 1);
     let c3 = get_conn r3 c2;
     let c4 = c3\<lparr>flags := (flags c3 - prop_flags) \<union> (flags c0 \<inter> prop_flags)\<rparr>;
     r4 \<leftarrow> also_propagate (mstime w2) (put_conn r3 c4) cl (also_ops w2);
     Some (r4, w2\<lparr>also_ops := also_ops w1, stat_numcommands := stat_numcommands w2 + 1\<rparr>, get_conn r4 c4, argv2)
   }"

section \<open>processCommand\<close>

text \<open>The result: whether it is \<^verbatim>\<open>C_OK\<close>, the state, and no connection if it has been freed.\<close>

type_synonym 'd outcome = "bool \<times> repl \<times> 'd world \<times> conn option \<times> robj list"

text \<open>An error reply, after which \<^verbatim>\<open>processCommand\<close> returns \<^verbatim>\<open>C_OK\<close>; \<^verbatim>\<open>fl\<close> tells whether the transaction is flagged.\<close>

definition refuse :: "bool \<Rightarrow> writer \<Rightarrow> repl \<Rightarrow> 'd world \<Rightarrow> conn \<Rightarrow> string list \<Rightarrow> 'd outcome option" where
  "refuse fl f r w c argv = do {
     (r, c) \<leftarrow> reply_with f r (if fl then flagTransaction c else c);
     Some (True, r, w, Some c, map RawObj argv)
   }"

definition second_starts :: "char \<Rightarrow> string list \<Rightarrow> bool" where
  "second_starts x argv \<longleftrightarrow> length argv = 2 \<and> argv ! 1 \<noteq> [] \<and> to_lower (hd (argv ! 1)) = x"

text \<open>The checks between the limit on the memory and the execution, in their order.\<close>

definition refusal :: "repl \<Rightarrow> 'd world \<Rightarrow> conn \<Rightarrow> 'd redisCommand \<Rightarrow> string list \<Rightarrow> (bool \<times> writer) option" where
  "refusal r w c cmd argv =
     (let p = proc_id cmd; fs = cmd_flags cmd in
      if (stop_writes_on_bgsave_err w \<and> 0 < saveparamslen w \<and> \<not> lastbgsave_ok w \<or> \<not> aof_last_write_ok w) \<and>
         \<not> masterhost r \<and> (CMD_WRITE \<in> fs \<or> p = pingCommand)
      then Some (True, if aof_last_write_ok w then shared bgsaveerr
        else (\<lambda>nt c. addReplySds nt c (''-MISCONF Errors writing to the AOF file: '' @ aof_error w @ CRLF)))
      else if \<not> masterhost r \<and> repl_min_slaves_to_write w \<noteq> 0 \<and> repl_min_slaves_max_lag w \<noteq> 0 \<and> CMD_WRITE \<in> fs \<and>
         repl_good_slaves_count w < repl_min_slaves_to_write w
      then Some (True, shared noreplicaserr)
      else if masterhost r \<and> repl_slave_ro r \<and> CLIENT_MASTER \<notin> flags c \<and> CMD_WRITE \<in> fs
      then Some (False, shared roslaveerr)
      else if CLIENT_PUBSUB \<in> flags c \<and>
         p \<notin> {pingCommand, subscribeCommand, unsubscribeCommand, psubscribeCommand, punsubscribeCommand}
      then Some (False, \<lambda>nt c. addReplyError nt c ''only (P)SUBSCRIBE / (P)UNSUBSCRIBE / PING / QUIT allowed in this context'')
      else if masterhost r \<and> \<not> repl_connected w \<and> \<not> repl_serve_stale_data w \<and> CMD_STALE \<notin> fs
      then Some (True, shared masterdownerr)
      else if loading w \<and> CMD_LOADING \<notin> fs
      then Some (False, shared loadingerr)
      else if lua_timedout w \<and> p \<noteq> authCommand \<and> p \<noteq> replconfCommand \<and>
         \<not> (p = shutdownCommand \<and> second_starts (CHR ''n'') argv) \<and> \<not> (p = scriptCommand \<and> second_starts (CHR ''k'') argv)
      then Some (True, shared slowscripterr)
      else None)"

definition CMD_CALL_FULL :: "call_flag set" where
  "CMD_CALL_FULL = {CMD_CALL_SLOWLOG, CMD_CALL_STATS, CMD_CALL_PROPAGATE_AOF, CMD_CALL_PROPAGATE_REPL}"

definition execute :: "'d hooks \<Rightarrow> repl \<Rightarrow> 'd world \<Rightarrow> conn \<Rightarrow> 'd redisCommand \<Rightarrow> string list \<Rightarrow> 'd outcome option" where
  "execute hk r w c cmd argv =
     (if CLIENT_MULTI \<in> flags c \<and> proc_id cmd \<notin> {execCommand, discardCommand, multiCommand, watchCommand} then do {
        (r, c) \<leftarrow> reply_with (shared shared_queued) r (queueMultiCommand cmd c argv);
        Some (True, r, w, Some c, map RawObj argv)
      }
      else do {
        (r, w, c, argv) \<leftarrow> call hk CMD_CALL_FULL cmd r w c argv;
        let c = c\<lparr>woff := master_repl_offset (repl_log r)\<rparr>;
        (r, w, c) \<leftarrow> (if ready_keys w then handleClientsBlockedOnLists hk r w c else Some (r, w, c));
        Some (True, r, w, Some c, argv)
      })"

definition process_known :: "'d hooks \<Rightarrow> repl \<Rightarrow> 'd world \<Rightarrow> conn \<Rightarrow> 'd redisCommand \<Rightarrow> string list \<Rightarrow> 'd outcome option" where
  "process_known hk r w c cmd argv =
     (if 0 < arity cmd \<and> arity cmd \<noteq> int (length argv) \<or> int (length argv) < - arity cmd then
        refuse True (\<lambda>nt c. addReplyErrorFormat nt c (''wrong number of arguments for '' @ quoted (cname cmd) @ '' command'')) r w c argv
      else if requirepass w \<and> \<not> authenticated c \<and> proc_id cmd \<noteq> authCommand then refuse True (shared noautherr) r w c argv
      else if cluster_enabled w \<and> CLIENT_MASTER \<notin> flags c \<and> \<not> (CLIENT_LUA \<in> flags c \<and> lua_caller_master w) \<and>
         (has_keys cmd \<or> proc_id cmd = execCommand) \<and> elsewhere hk r w c cmd argv
      then do {
        let (w, c) = (if proc_id cmd = execCommand then discardTransaction hk w c else (w, flagTransaction c));
        (r, c) \<leftarrow> clusterRedirectClient hk r w c cmd argv;
        Some (True, r, w, Some c, map RawObj argv)
      }
      else do {
        (memok, r, w, co) \<leftarrow> (if maxmemory w then freeMemoryIfNeeded hk r w c else Some (True, r, w, Some c));
        case co of
          None \<Rightarrow> Some (False, r, w, None, map RawObj argv)
        | Some c \<Rightarrow>
            if \<not> memok \<and> CMD_DENYOOM \<in> cmd_flags cmd then refuse True (shared oomerr) r w c argv
            else (case refusal r w c cmd argv of
                Some (fl, f) \<Rightarrow> refuse fl f r w c argv
              | None \<Rightarrow> execute hk r w c cmd argv)
      })"

definition process_command :: "'d hooks \<Rightarrow> repl \<Rightarrow> 'd world \<Rightarrow> conn \<Rightarrow> string list \<Rightarrow> 'd outcome option" where
  "process_command hk r w c argv =
     (if strcaseeq (hd argv) ''quit'' then do {
        (r, c) \<leftarrow> reply_with (shared shared_ok) r c;
        Some (False, r, w, Some (c\<lparr>flags := insert CLIENT_CLOSE_AFTER_REPLY (flags c)\<rparr>), map RawObj argv)
      }
      else case commands hk (hd argv) of
        None \<Rightarrow> refuse True (\<lambda>nt c. addReplyErrorFormat nt c (''unknown command '' @ quoted (cstr (hd argv)))) r w c argv
      | Some cmd \<Rightarrow> process_known hk r w c cmd argv)"

definition asks :: "'d hooks \<Rightarrow> string list \<Rightarrow> bool" where
  "asks hk argv \<longleftrightarrow> \<not> strcaseeq (hd argv) ''quit'' \<and>
     (case commands hk (hd argv) of None \<Rightarrow> False | Some cmd \<Rightarrow> proc_id cmd = askingCommand)"

definition processCommand :: "'d hooks \<Rightarrow> 'd world handler" where
  "processCommand hk io w s = do {
     (ok, r, w, co, argv) \<leftarrow> process_command hk (srepl io) w (sconn s) (iargv (inp s));
     Some (ok, io\<lparr>srepl := r\<rparr>, w,
       map_option (\<lambda>c. s\<lparr>sconn := c, asking_cmd := asks hk (iargv (inp s)), inp := (inp s)\<lparr>iargv := map obj_text argv\<rparr>\<rparr>) co)
   }"

text \<open>\<^verbatim>\<open>pingCommand\<close>, as an entry of the table.\<close>

definition ping_proc :: "'d proc" where
  "ping_proc r w c argv = do {
     (r, c) \<leftarrow>
       (if 2 < length argv then
          reply_with (\<lambda>nt c. addReplyErrorFormat nt c (''wrong number of arguments for '' @ quoted ''ping'' @ '' command'')) r c
        else if CLIENT_PUBSUB \<in> flags c then
          reply_with (\<lambda>nt c. do {
            h \<leftarrow> mbulkhdr 2;
            (nt, c) \<leftarrow> addReply nt c h;
            (nt, c) \<leftarrow> addReplyBulkCBuffer nt c ''pong'';
            if length argv = 1 then addReplyBulkCBuffer nt c [] else addReplyBulk nt c (RawObj (argv ! 1))
          }) r c
        else if length argv = 1 then reply_with (shared shared_pong) r c
        else reply_with (\<lambda>nt c. addReplyBulk nt c (RawObj (argv ! 1))) r c);
     Some (r, w, c, map RawObj argv)
   }"

definition ping_entry :: "'d redisCommand" where
  "ping_entry = \<lparr>cname = ''ping'', arity = -1, cmd_flags = {CMD_STALE}, has_keys = False, proc_id = pingCommand, proc = ping_proc\<rparr>"

section \<open>The contract of the loop\<close>

text \<open>
  A command is accepted when \<^verbatim>\<open>processCommand\<close> is defined and returns \<^verbatim>\<open>C_OK\<close>, and the connection can go on: it is not blocked,
  not to be closed, still the master or not, and, for the master, not inside of a transaction.
\<close>

definition effect_of :: "'d hooks \<Rightarrow> 'd world effect" where
  "effect_of hk x argv = (case x of (r, w, c) \<Rightarrow>
     (case process_command hk r w c argv of
        Some (ok, r', w', Some c', argv') \<Rightarrow> (r', w', c', asks hk argv)
      | _ \<Rightarrow> (r, w, c, False)))"

definition accepts :: "'d hooks \<Rightarrow> 'd world served \<Rightarrow> string list \<Rightarrow> bool" where
  "accepts hk x argv \<longleftrightarrow> (case x of (r, w, c) \<Rightarrow>
     (case process_command hk r w c argv of
        Some (ok, r', w', Some c', argv') \<Rightarrow> ok \<and> serving clients_paused (r', w', c') \<and> (CLIENT_MASTER \<in> flags c' \<longleftrightarrow> CLIENT_MASTER \<in> flags c)
      | _ \<Rightarrow> False))"

lemma acceptsE:
  assumes "accepts hk (r, w, c) argv"
  obtains r' w' c' argv' where "process_command hk r w c argv = Some (True, r', w', Some c', argv')"
    "effect_of hk (r, w, c) argv = (r', w', c', asks hk argv)" "serving clients_paused (r', w', c')"
    "CLIENT_MASTER \<in> flags c' \<longleftrightarrow> CLIENT_MASTER \<in> flags c"
  using assms by (auto simp: accepts_def effect_of_def split: option.splits)

interpretation proc: command_handler clients_paused "processCommand hk" "effect_of hk" "accepts hk" for hk
proof
  fix io :: server_io and w :: "'a world" and s :: session and rp' w' c' b
  assume a: "accepts hk (srepl io, w, sconn s) (iargv (inp s))" and h: "effect_of hk (srepl io, w, sconn s) (iargv (inp s)) = (rp', w', c', b)"
  obtain argv' where "process_command hk (srepl io) w (sconn s) (iargv (inp s)) = Some (True, rp', w', Some c', argv')" "b = asks hk (iargv (inp s))"
    using acceptsE [OF a] h by (metis prod.inject)
  then show "\<exists>as'. processCommand hk io w s = Some (True, io\<lparr>srepl := rp'\<rparr>, w', Some (s\<lparr>sconn := c', asking_cmd := b, inp := (inp s)\<lparr>iargv := as'\<rparr>\<rparr>))"
    by (auto simp: processCommand_def)
next
  fix rp :: repl and w :: "'a world" and c argv rp' w' c' b
  assume a: "accepts hk (rp, w, c) argv" and h: "effect_of hk (rp, w, c) argv = (rp', w', c', b)"
  then show "serving clients_paused (rp', w', c') \<and> (CLIENT_MASTER \<in> flags c' \<longleftrightarrow> CLIENT_MASTER \<in> flags c)"
    using acceptsE [OF a] by (metis prod.inject)
qed

section \<open>The stream of the master\<close>

text \<open>Nothing is written to a slave whose flag \<^verbatim>\<open>CLIENT_UNDER_FEED\<close> is not set.\<close>

lemma stream_slaves_silent: "\<forall>slave \<in> set ss. \<not> may_write slave \<Longrightarrow> stream_slaves nt ss t = Some (nt, ss)"
  by (induction ss) (simp_all add: reply_writer.silent [OF addReplyString_writer])

lemma master_stream_silent:
  assumes "backlog_ok (repl_log r)" "\<forall>slave \<in> set (slaves r). \<not> may_write slave"
  shows "\<exists>b. replicationFeedSlavesFromMasterStream r t = Some (r\<lparr>repl_log := b\<rparr>) \<and> fed (repl_log r) t b"
proof -
  have "repl_backlog (repl_log r) \<noteq> None" using assms(1) by (auto simp: backlog_ok_def)
  moreover obtain b where "feedReplicationBacklog (repl_log r) t = Some b" "fed (repl_log r) t b" using fed_feed [OF assms(1)] by blast
  ultimately show ?thesis
    using stream_slaves_silent [OF assms(2)] by (intro exI [of _ b]) (simp add: replicationFeedSlavesFromMasterStream_def)
qed

section \<open>PING\<close>

text \<open>A table with the one command, and a server that refuses nothing.\<close>

definition sample_hooks :: "unit hooks" where
  "sample_hooks = \<lparr>commands = (\<lambda>n. if strcaseeq n ''ping'' then Some ping_entry else None), elsewhere = (\<lambda>r w c cmd argv. False),
     clusterRedirectClient = (\<lambda>r w c cmd argv. None), unwatchAllKeys = (\<lambda>w c. w), freeMemoryIfNeeded = (\<lambda>r w c. Some (True, r, w, Some c)),
     replicationFeedMonitors = (\<lambda>r w c argv. Some (r, w, c)), handleClientsBlockedOnLists = (\<lambda>r w c. Some (r, w, c))\<rparr>"

definition sample_world :: "nat \<Rightarrow> unit world" where
  "sample_world n = \<lparr>clients_paused = False, mstime = 0, requirepass = False, cluster_enabled = False, lua_caller_master = False,
     maxmemory = False, stop_writes_on_bgsave_err = False, saveparamslen = 0, lastbgsave_ok = True, aof_last_write_ok = True,
     aof_error = [], repl_min_slaves_to_write = 0, repl_min_slaves_max_lag = 0, repl_good_slaves_count = 0, repl_connected = True,
     repl_serve_stale_data = True, loading = False, lua_timedout = False, monitors = [], ready_keys = False, dirty = 0, also_ops = [],
     stat_numcommands = n, data = ()\<rparr>"

lemma ping_fields:
  "commands sample_hooks n = (if strcaseeq n ''ping'' then Some ping_entry else None)" "\<not> ready_keys (sample_world k)"
  "\<not> requirepass (sample_world k)" "\<not> cluster_enabled (sample_world k)" "\<not> maxmemory (sample_world k)" "arity ping_entry = -1"
  "proc_id ping_entry = pingCommand" "\<not> clients_paused (sample_world k)"
  by (simp_all add: sample_hooks_def sample_world_def ping_entry_def)

lemma get_put_conn [simp]: "get_conn (put_conn r c) c = c"
proof (cases "List.find (\<lambda>x. cid x = cid c) (slaves (put_conn r c))")
  case None
  then show ?thesis by (auto simp: get_conn_def put_conn_def split: option.splits)
next
  case (Some x)
  then have "x \<in> set (slaves (put_conn r c))" "cid x = cid c" by (auto simp: find_Some_iff)
  then show ?thesis using Some by (auto simp: get_conn_def put_conn_def)
qed

lemma nothing_to_propagate: "cf \<inter> prop_flags = {} \<Longrightarrow> call_propagate t r cf i cl p m d as False False = Some r"
  by (auto simp: call_propagate_def propagate_flags_def prop_flags_def Let_def)

lemma ping_processed:
  assumes "flags c \<inter> (prop_flags \<union> {CLIENT_MULTI, CLIENT_PUBSUB}) = {}" "ufs_flag c = 0"
    "reply_with (shared shared_pong) (put_conn r c) c = Some (r2, c2)" "flags c2 \<inter> prop_flags = {}" "ufs_flag c2 = 0"
  shows "process_command sample_hooks r (sample_world n) c [''PING''] =
    Some (True, put_conn (put_conn r2 c2) c2, sample_world (Suc n), Some (c2\<lparr>woff := master_repl_offset (repl_log r2)\<rparr>), [RawObj ''PING''])"
proof -
  have name: "strcaseeq ''PING'' ''ping''" "\<not> strcaseeq ''PING'' ''quit''" by code_simp+
  have fl: "flags c - prop_flags = flags c" "flags c2 - prop_flags \<union> flags c \<inter> prop_flags = flags c2" "flags c \<inter> prop_flags = {}"
    "CLIENT_MULTI \<notin> flags c" "CLIENT_PUBSUB \<notin> flags c"
    using assms(1,4) by auto
  have c: "c\<lparr>flags := flags c, ufs_flag := 0\<rparr> = c" "c2\<lparr>flags := flags c2\<rparr> = c2" using assms(2) by simp_all
  have log: "repl_log (put_conn (put_conn r2 c2) c2) = repl_log r2" by (simp add: put_conn_def)
  have "call sample_hooks CMD_CALL_FULL ping_entry r (sample_world n) c [''PING''] =
      Some (put_conn (put_conn r2 c2) c2, sample_world (Suc n), c2, [RawObj ''PING''])"
    using assms(3,5) fl c nothing_to_propagate [OF assms(4)]
    by (simp add: call_def Let_def ping_entry_def ping_proc_def sample_world_def)
  moreover have "refusal r (sample_world n) c ping_entry [''PING''] = None"
    using fl by (simp add: refusal_def Let_def sample_world_def ping_entry_def)
  ultimately show ?thesis
    using name fl log by (simp add: process_command_def process_known_def execute_def ping_fields)
qed

text \<open>An ordinary connection that can take a reply into its buffer.\<close>

definition plain :: "conn \<Rightarrow> bool" where
  "plain c \<longleftrightarrow> flags c \<subseteq> {CLIENT_PENDING_WRITE} \<and> 0 < fd c \<and> reply_nodes c = [] \<and> ufs_flag c = 0"

lemma plain_pong:
  assumes "plain c" "length (buf c) \<le> 1000"
  obtains r' c' where "reply_with (shared shared_pong) r c = Some (r', c')" "plain c'" "buf c' = buf c @ shared_pong"
proof -
  obtain ok nt c1 where p: "prepareClientToWrite (repl_net r) c = (ok, nt, c1)" by (cases "prepareClientToWrite (repl_net r) c")
  have c1: "ok" "plain c1" "buf c1 = buf c"
    using p assms(1) by (auto simp: prepareClientToWrite_def plain_def split: if_splits)
  have "length shared_pong = 7" by (simp add: shared_pong_def CRLF_def)
  then have room: "\<not> PROTO_REPLY_CHUNK_BYTES - length (buf c) < length shared_pong"
    using assms(2) by (simp add: PROTO_REPLY_CHUNK_BYTES_def)
  have "CLIENT_CLOSE_AFTER_REPLY \<notin> flags c1" using c1(2) by (auto simp: plain_def)
  then have "reply_with (shared shared_pong) r c = Some (r\<lparr>repl_net := nt\<rparr>, c1\<lparr>buf := buf c @ shared_pong\<rparr>)"
    using p c1 room by (simp add: reply_with_def shared_def addReply_def addReplyRaw_def addReplyToBuffer_def plain_def)
  then show thesis by (rule that) (use c1(2) in \<open>simp_all add: plain_def\<close>)
qed

lemma ping_served:
  assumes "plain c" "length (buf c) \<le> 1000"
  obtains r' c' where "serve_command (effect_of sample_hooks) (r, sample_world n, c) [''PING''] = (r', sample_world (Suc n), c')"
    "accepts sample_hooks (r, sample_world n, c) [''PING'']" "plain c'" "buf c' = buf c @ shared_pong"
proof -
  obtain r2 c2 where c2: "reply_with (shared shared_pong) (put_conn r c) c = Some (r2, c2)" "plain c2" "buf c2 = buf c @ shared_pong"
    by (rule plain_pong [OF assms])
  let ?c = "c2\<lparr>woff := master_repl_offset (repl_log r2)\<rparr>"
  have fl: "flags c \<inter> (prop_flags \<union> {CLIENT_MULTI, CLIENT_PUBSUB}) = {}" "flags c2 \<inter> prop_flags = {}" "ufs_flag c = 0" "ufs_flag c2 = 0"
    using assms(1) c2(2) by (auto simp: plain_def prop_flags_def)
  note p = ping_processed [OF fl(1,3) c2(1) fl(2,4), of n]
  have a: "asks sample_hooks [''PING''] = False" by (simp add: asks_def ping_fields)
  have m: "flags c2 \<subseteq> {CLIENT_PENDING_WRITE}" "flags c \<subseteq> {CLIENT_PENDING_WRITE}" using c2(2) assms(1) by (simp_all add: plain_def)
  have "accepts sample_hooks (r, sample_world n, c) [''PING'']"
    using p m by (auto simp: accepts_def serving_def ping_fields)
  moreover have "serve_command (effect_of sample_hooks) (r, sample_world n, c) [''PING''] =
      (put_conn (put_conn r2 c2) c2, sample_world (Suc n), ?c\<lparr>flags := reset_flags False (flags c2)\<rparr>)"
    using p a by (simp add: serve_command_def effect_of_def)
  moreover have "plain (?c\<lparr>flags := reset_flags False (flags c2)\<rparr>)"
    using c2(2) m(1) by (auto simp: plain_def reset_flags_def Let_def)
  ultimately show thesis using that c2(3) by simp
qed

section \<open>Properties\<close>

text \<open>
  C29. A stream of commands is executed completely, in order and only once: however the bytes of the commands are cut into
  reads of at most 16 KB, once they have all been read \<^verbatim>\<open>processCommand\<close> has been called once for every command, in order and with its
  arguments, each time in the state that the one before has left, and the connection is ready for the next one. The
  commands have at most 32 KB each, the connection is not that of a master, and each command is accepted when its
  turn comes: \<^verbatim>\<open>processCommand\<close> returns \<^verbatim>\<open>C_OK\<close> (which it does not for \<^verbatim>\<open>quit\<close>) and the connection is then not paused, blocked or to be closed.
\<close>

theorem stream_executed:
  assumes "serving clients_paused (srepl io, w, sconn s)" "new_session s" "CLIENT_MASTER \<notin> flags (sconn s)"
    "concat xs = concat (map resp cs)" "\<forall>x\<in>set xs. x \<noteq> [] \<and> int (length x) \<le> PROTO_IOBUF_LEN"
    "\<forall>as\<in>set cs. command_ok (proto_max_bulk_len io) as \<and> length (resp as) \<le> 32 * 1024" "48 * 1024 \<le> client_max_querybuf_len io"
    "accepted (effect_of hk) (accepts hk) (srepl io, w, sconn s) cs"
  shows "\<exists>io' w' s'. serve clients_paused (processCommand hk) io w s xs = Some (io', w', Some s') \<and>
    foldl (serve_command (effect_of hk)) (srepl io, w, sconn s) cs = (srepl io', w', sconn s') \<and> new_session s'"
  by (rule proc.stream_served [OF assms])

lemma ping_command: "command_ok (512 * 1024 * 1024) [''PING'']" "length (resp [''PING'']) = 14"
  by (simp_all add: command_ok_def LL_consts resp_def resp_bulk_def ll_text_def ull_digits_one CRLF_def)

text \<open>Two \<^verbatim>\<open>PING\<close> in two reads, the first of which ends inside of the first command.\<close>

theorem stream_executed_witness:
  "\<exists>io' s'. serve clients_paused (processCommand sample_hooks) sample_io (sample_world 0) (sample_session {})
      [take 3 (resp [''PING'']), drop 3 (resp [''PING'']) @ resp [''PING'']] = Some (io', sample_world 2, Some s') \<and>
    buf (sconn s') = shared_pong @ shared_pong \<and> new_session s'"
proof -
  let ?r = "resp [''PING'']" and ?s = "sample_session {}" and ?cs = "[[''PING''], [''PING'']]"
  let ?x = "(srepl sample_io, sample_world 0, sconn ?s)"
  have s: "serving clients_paused ?x" "new_session ?s" "CLIENT_MASTER \<notin> flags (sconn ?s)" "48 * 1024 \<le> client_max_querybuf_len sample_io"
    by (simp_all add: serving_def sample_session_def new_session_def sample_command sample_io_def ping_fields)
  have c: "concat [take 3 ?r, drop 3 ?r @ ?r] = concat (map resp ?cs)"
    by (simp only: concat.simps list.map append_Nil2 append.assoc [symmetric] append_take_drop_id)
  have "?r \<noteq> []" "length (take 3 ?r) = 3" "length (drop 3 ?r @ ?r) = 25" using ping_command(2) by auto
  then have x: "\<forall>x\<in>set [take 3 ?r, drop 3 ?r @ ?r]. x \<noteq> [] \<and> int (length x) \<le> PROTO_IOBUF_LEN"
    by (auto simp: PROTO_IOBUF_LEN_def simp del: take_eq_Nil drop_eq_Nil length_take length_drop)
  have k: "\<forall>as\<in>set ?cs. command_ok (proto_max_bulk_len sample_io) as \<and> length (resp as) \<le> 32 * 1024"
    using ping_command by (simp add: sample_io_def)
  have p: "plain (sconn ?s)" "buf (sconn ?s) = []" by (simp_all add: plain_def sample_session_def sample_conn_def)
  obtain r1 c1 where 1: "serve_command (effect_of sample_hooks) ?x [''PING''] = (r1, sample_world 1, c1)"
      "accepts sample_hooks ?x [''PING'']" "plain c1" "buf c1 = shared_pong"
    using ping_served [OF p(1), of "srepl sample_io" 0] unfolding p(2) by (metis One_nat_def append_Nil le0 list.size(3))
  have l: "length (buf c1) \<le> 1000" using 1(4) by (simp add: shared_pong_def CRLF_def)
  obtain r2 c2 where 2: "serve_command (effect_of sample_hooks) (r1, sample_world 1, c1) [''PING''] = (r2, sample_world 2, c2)"
      "accepts sample_hooks (r1, sample_world 1, c1) [''PING'']" "buf c2 = shared_pong @ shared_pong"
    using ping_served [OF 1(3) l, of r1 1] unfolding 1(4) by (metis Suc_1)
  have a: "accepted (effect_of sample_hooks) (accepts sample_hooks) ?x ?cs" using 1(1,2) 2(2) by simp
  from stream_executed [OF s(1-3) c x k s(4) a] 1(1) 2(1,3) show ?thesis by auto
qed

text \<open>
  C30. What a replica does with the stream of its master, when it reads a part of it and every command in it is accepted: the complete commands are
  executed, the applied offset grows by their bytes, the bytes received but not yet applied are kept, and exactly the bytes of the
  executed commands are appended to the backlog. But its own slaves get none of them: as \<^verbatim>\<open>replicationFeedSlavesFromMasterStream\<close> does not set the flag
  \<^verbatim>\<open>CLIENT_UNDER_FEED\<close>, nothing is written to a slave without it. The commands have at most 32 KB each and the read at most 16 KB.
\<close>

theorem master_stream_logged:
  assumes "can_read clients_paused io w s cs x r" "CLIENT_MASTER \<in> flags (sconn s)" "pending_querybuf s @ x @ r = stream cs"
    "accepted (effect_of hk) (accepts hk) (srepl io, w, sconn s) cs"
  shows "\<exists>k rp' w' s'. foldl (serve_command (effect_of hk)) (srepl io, w, sconn s) (take k cs) = (rp', w', sconn s') \<and>
    stream_state True s' (drop k cs) r \<and> pending_querybuf s' @ r = stream (drop k cs) \<and>
    reploff s' = reploff s + int (length (stream (take k cs))) \<and>
    (backlog_ok (repl_log rp') \<and>
     (\<forall>slave \<in> set (slaves rp'). CLIENT_SLAVE \<in> flags slave \<and> flags slave \<inter> {CLIENT_UNDER_FEED, CLIENT_LUA, CLIENT_MODULE} = {}) \<longrightarrow>
      (\<exists>b. readQueryFromClient clients_paused (processCommand hk) io w s (Data x) =
          Some ((counted io x)\<lparr>srepl := rp'\<lparr>repl_log := b\<rparr>\<rparr>, w', Some s') \<and> fed (repl_log rp') (stream (take k cs)) b))"
proof -
  from proc.master_stream_read [OF assms] obtain k rp' w' s' where
    p: "foldl (serve_command (effect_of hk)) (srepl io, w, sconn s) (take k cs) = (rp', w', sconn s')"
      "readQueryFromClient clients_paused (processCommand hk) io w s (Data x) =
        map_option (\<lambda>rp. ((counted io x)\<lparr>srepl := rp\<rparr>, w', Some s'))
          (if take k cs = [] then Some rp' else replicationFeedSlavesFromMasterStream rp' (stream (take k cs)))"
      "stream_state True s' (drop k cs) r" "pending_querybuf s' @ r = stream (drop k cs)"
      "reploff s' = reploff s + int (length (stream (take k cs)))" by blast
  have "\<exists>b. readQueryFromClient clients_paused (processCommand hk) io w s (Data x) =
      Some ((counted io x)\<lparr>srepl := rp'\<lparr>repl_log := b\<rparr>\<rparr>, w', Some s') \<and> fed (repl_log rp') (stream (take k cs)) b"
    if q: "backlog_ok (repl_log rp')" "\<forall>slave \<in> set (slaves rp'). CLIENT_SLAVE \<in> flags slave \<and>
      flags slave \<inter> {CLIENT_UNDER_FEED, CLIENT_LUA, CLIENT_MODULE} = {}"
  proof (cases "take k cs = []")
    case True
    then show ?thesis unfolding p(2) True using fed_nothing [OF q(1)] by (intro exI [of _ "repl_log rp'"]) simp
  next
    case False
    have "\<forall>slave \<in> set (slaves rp'). \<not> may_write slave" using q(2) by (auto simp: may_write_def)
    then obtain b where b: "replicationFeedSlavesFromMasterStream rp' (stream (take k cs)) = Some (rp'\<lparr>repl_log := b\<rparr>)"
        "fed (repl_log rp') (stream (take k cs)) b"
      using master_stream_silent [OF q(1)] by blast
    then show ?thesis unfolding p(2) if_not_P [OF False] by (intro exI [of _ b]) simp
  qed
  then show ?thesis using p(1,3-5) by blast
qed

text \<open>A \<^verbatim>\<open>PING\<close> of the master: the backlog gets its 14 bytes, the two slaves nothing.\<close>

lemma master_ping:
  assumes "flags c = {CLIENT_MASTER}" "ufs_flag c = 0"
  shows "serve_command (effect_of sample_hooks) (r, sample_world n, c) [''PING''] =
      (put_conn (put_conn (put_conn r c) c) c, sample_world (Suc n), c\<lparr>woff := master_repl_offset (repl_log r)\<rparr>)"
    "accepts sample_hooks (r, sample_world n, c) [''PING'']"
proof -
  have "\<not> may_write c" using assms(1) by (simp add: may_write_def)
  then have reply: "reply_with (shared shared_pong) (put_conn r c) c = Some (put_conn r c, c)"
    by (simp add: reply_with_def shared_def addReply_def prepare_no)
  have fl: "flags c \<inter> (prop_flags \<union> {CLIENT_MULTI, CLIENT_PUBSUB}) = {}" "flags c \<inter> prop_flags = {}"
    using assms(1) by (auto simp: prop_flags_def)
  have log: "repl_log (put_conn r c) = repl_log r" by (simp add: put_conn_def)
  note p = ping_processed [OF fl(1) assms(2) reply fl(2) assms(2), of n, unfolded log]
  have a: "asks sample_hooks [''PING''] = False" by (simp add: asks_def ping_fields)
  show "accepts sample_hooks (r, sample_world n, c) [''PING'']" using p assms(1) by (simp add: accepts_def serving_def ping_fields)
  have "c\<lparr>woff := v, flags := reset_flags False {CLIENT_MASTER}\<rparr> = c\<lparr>woff := v\<rparr>" for v
    using assms(1) by (simp add: reset_flags_def Let_def)
  then show "serve_command (effect_of sample_hooks) (r, sample_world n, c) [''PING''] =
      (put_conn (put_conn (put_conn r c) c) c, sample_world (Suc n), c\<lparr>woff := master_repl_offset (repl_log r)\<rparr>)"
    using p a assms(1) by (simp add: serve_command_def effect_of_def)
qed

theorem master_stream_logged_witness:
  "\<exists>io' s'. readQueryFromClient clients_paused (processCommand sample_hooks)
      (sample_io\<lparr>srepl := (sample_repl True)\<lparr>master := None, slaves := [sample_slave 2, sample_slave 3]\<rparr>\<rparr>) (sample_world 0) (sample_session {CLIENT_MASTER})
      (Data (resp [''PING''])) = Some (io', sample_world 1, Some s') \<and>
    slaves (srepl io') = [sample_slave 2, sample_slave 3] \<and> reploff s' = 14 \<and> pending_querybuf s' = [] \<and>
    fed (repl_log (sample_repl True)) (resp [''PING'']) (repl_log (srepl io'))"
proof -
  let ?s = "sample_session {CLIENT_MASTER}" and ?cs = "[[''PING'']]" and ?x = "resp [''PING'']"
  let ?r = "(sample_repl True)\<lparr>master := None, slaves := [sample_slave 2, sample_slave 3]\<rparr>"
  let ?io = "sample_io\<lparr>srepl := ?r\<rparr>"
  have n: "new_session ?s" "reploff ?s = 0" "read_reploff ?s = 0" "flags (sconn ?s) = {CLIENT_MASTER}" "pending_querybuf ?s = []"
    "ufs_flag (sconn ?s) = 0" "cid (sconn ?s) = 1"
    by (simp_all add: sample_session_def new_session_def sample_command sample_conn_def)
  have "stream_state True ?s ?cs (?x @ [])" using new_session_stream [of ?s ?cs] n by simp
  moreover have "?x \<noteq> []" "int (length ?x) \<le> PROTO_IOBUF_LEN" using ping_command(2) by (auto simp: PROTO_IOBUF_LEN_def)
  moreover have "\<forall>as\<in>set ?cs. small (proto_max_bulk_len ?io) as" using ping_command by (simp add: small_def sample_io_def)
  ultimately have c: "can_read clients_paused ?io (sample_world 0) ?s ?cs ?x []"
    using n(4) by (simp add: can_read_def serving_def ping_fields sample_io_def)
  have put: "put_conn ?r (sconn ?s) = ?r" using n(7) by (simp add: put_conn_def)
  note one = master_ping [OF n(4,6), of ?r 0, unfolded put]
  have a: "accepted (effect_of sample_hooks) (accepts sample_hooks) (srepl ?io, sample_world 0, sconn ?s) ?cs" using one(2) by simp
  have m: "CLIENT_MASTER \<in> flags (sconn ?s)" "pending_querybuf ?s @ ?x @ [] = stream ?cs" using n by simp_all
  from master_stream_logged [OF c m a] obtain k rp' w' s' where
    p: "foldl (serve_command (effect_of sample_hooks)) (srepl ?io, sample_world 0, sconn ?s) (take k ?cs) = (rp', w', sconn s')"
      "stream_state True s' (drop k ?cs) []" "pending_querybuf s' @ [] = stream (drop k ?cs)" "reploff s' = reploff ?s + int (length (stream (take k ?cs)))"
      "backlog_ok (repl_log rp') \<and>
       (\<forall>slave \<in> set (slaves rp'). CLIENT_SLAVE \<in> flags slave \<and> flags slave \<inter> {CLIENT_UNDER_FEED, CLIENT_LUA, CLIENT_MODULE} = {}) \<longrightarrow>
        (\<exists>b. readQueryFromClient clients_paused (processCommand sample_hooks) ?io (sample_world 0) ?s (Data ?x) =
            Some ((counted ?io ?x)\<lparr>srepl := rp'\<lparr>repl_log := b\<rparr>\<rparr>, w', Some s') \<and> fed (repl_log rp') (stream (take k ?cs)) b)"
    by blast
  have d: "drop k ?cs = []" by (rule parked_end [OF p(2)])
  then have t: "take k ?cs = ?cs" by simp
  have x: "rp' = ?r" "w' = sample_world 1" using p(1) one(1) unfolding t by simp_all
  have "\<forall>slave \<in> set (slaves ?r). CLIENT_SLAVE \<in> flags slave \<and> flags slave \<inter> {CLIENT_UNDER_FEED, CLIENT_LUA, CLIENT_MODULE} = {}"
    by (simp add: sample_slave_def)
  moreover have "backlog_ok (repl_log ?r)" using sample_repl_ok(1) by simp
  ultimately obtain b where "readQueryFromClient clients_paused (processCommand sample_hooks) ?io (sample_world 0) ?s (Data ?x) =
      Some ((counted ?io ?x)\<lparr>srepl := ?r\<lparr>repl_log := b\<rparr>\<rparr>, sample_world 1, Some s')" "fed (repl_log ?r) (stream ?cs) b"
    using p(5) unfolding x t by blast
  moreover have "reploff s' = 14" "pending_querybuf s' = []" using p(3,4) d t n(2) ping_command(2) by simp_all
  ultimately show ?thesis by auto
qed

end
