(* ===== verification/Grid.thy ===== *)
theory Grid
  imports Control_Server
begin

text \<open>
  The states that a client and the server can reach together. The operations of a client and the operations
  that the server sends to it span a grid; both sides walk in a band of this grid, and the state at a point
  does not depend on which side computes it. A state space that has grown along the band shows the grid.
\<close>

section \<open>The fourth corner of a square\<close>

text \<open>What the transformation keeps of an operation: a split keeps its element.\<close>

definition label :: "'a opr_scheme \<Rightarrow> string option" where
  "label e = (if optype e = OPTYPE_SPLIT then argv1 e else None)"

text \<open>
  The state after two concurrent operations, from the states after each of them: a split takes effect
  on the state after the other operation, two unions give the join of the two states.
\<close>

fun corner :: "string option \<Rightarrow> string option \<Rightarrow> (string \<times> string) set \<Rightarrow> (string \<times> string) set \<Rightarrow> (string \<times> string) set" where
  "corner (Some s) (Some t) R1 R2 = R1 \<inter> R2"
| "corner (Some s) None R1 R2 = isolate R2 {s}"
| "corner None (Some t) R1 R2 = isolate R1 {t}"
| "corner None None R1 R2 = (R1 \<union> R2)\<^sup>+"

lemma corner_sym: "corner l r R1 R2 = corner r l R2 R1"
  by (cases l; cases r) (auto simp: Un_commute)

lemma merge_join:
  assumes E: "equiv U R" and m: "a \<in> U" "b \<in> U" "c \<in> U" "d \<in> U"
  shows "merge (merge R a b) c d = (merge R a b \<union> merge R c d)\<^sup>+"
proof
  let ?M = "merge R a b" and ?N = "merge R c d"
  have E1: "equiv U ?M" and E2: "equiv U ?N" by (rule equiv_merge [OF E])+
  have cd: "(c, d) \<in> ?N" "(d, c) \<in> ?N" using merge_relates [OF E m(3,4)] equiv_sym [OF E2] by blast+
  show "merge ?M c d \<subseteq> (?M \<union> ?N)\<^sup>+"
  proof (rule subsetI, clarify)
    fix x y
    assume "(x, y) \<in> merge ?M c d"
    then consider "(x, y) \<in> ?M" | "(c, x) \<in> ?M \<or> (d, x) \<in> ?M" "(c, y) \<in> ?M \<or> (d, y) \<in> ?M"
      by (auto simp: merge_iff [of x y ?M])
    then show "(x, y) \<in> (?M \<union> ?N)\<^sup>+"
    proof cases
      case 1
      then show ?thesis by blast
    next
      case 2
      obtain z where z: "(x, z) \<in> ?M" "z = c \<or> z = d" using 2(1) equiv_sym [OF E1] by blast
      obtain z' where z': "(z', y) \<in> ?M" "z' = c \<or> z' = d" using 2(2) by blast
      have "(z, z') \<in> ?N" using z(2) z'(2) cd equiv_refl [OF E2] m by blast
      then have "(x, z) \<in> (?M \<union> ?N)\<^sup>+" "(z, z') \<in> (?M \<union> ?N)\<^sup>+" "(z', y) \<in> (?M \<union> ?N)\<^sup>+" using z z' by blast+
      then show ?thesis by (meson trancl_trans)
    qed
  qed
  have "trans (merge ?M c d)" using equiv_merge [OF E1] by (blast elim: equivE)
  moreover have "?M \<union> ?N \<subseteq> merge ?M c d"
    using merge_extends [of ?M c d] merge_least [OF equiv_merge [OF E1], of R c d a b] merge_extends [of R a b]
      merge_relates [OF E1 m(3,4)] merge_least [of U "merge ?M c d" R c d] equiv_merge [OF E1, of c d] by blast
  ultimately show "(?M \<union> ?N)\<^sup>+ \<subseteq> merge ?M c d" by (metis trancl_id trancl_mono_subset)
qed

lemma otUfs_labels:
  assumes "otUfs u o1 o2 e1 e2 OT_UNION = Some (e1', e2')" "op_ok R o1" "op_ok R o2"
  shows "label e1' = label o1" "label e2' = label o2"
    "optype o1 = OPTYPE_UNION \<Longrightarrow> optype o2 = OPTYPE_UNION \<Longrightarrow> op_apply e2' = op_apply o2"
  using assms
  by (auto simp: otUfs_def ot_ops_def ot_union_def label_def op_ok_def bind_eq_Some_conv mk_op_def setOp_def op_apply_def op_den_def
      fun_eq_iff OT_UNION_def OT_SPLIT_def split: if_splits option.splits prod.splits)


lemma split_apply:
  assumes "label e = Some s" "nm s" "s \<noteq> star"
  shows "op_apply e R = isolate R {s}"
  using assms by (auto simp: label_def op_apply_def op_den_def op_of_def split_op_def split: if_splits)

lemma corner_state:
  assumes u: "ufs_text u" and o: "op_ok (text_rel u) o1" "op_ok (text_rel u) o2"
    and t: "otUfs u o1 o2 e1 e2 OT_UNION = Some (e1', e2')"
  shows "op_apply e2' (op_apply o1 (text_rel u)) =
    corner (label o1) (label o2) (op_apply o1 (text_rel u)) (op_apply o2 (text_rel u))"
proof -
  let ?R = "text_rel u"
  have ok: "text_ok u" and star: "(star, star) \<notin> ?R" using u by (auto simp: ufs_text_def)
  obtain cs where "state_ok cs" "?R = part_rel cs" using text_cases [OF ok] by metis
  then have E: "equiv (elems cs) ?R" using equiv_part_rel by simp
  obtain x1 x2 where "otUfs u o1 o2 e1 e2 OT_UNION = Some (x1, x2)" "square ?R o1 o2 x1 x2"
    by (rule otUfs_square [OF u o])
  then have sq: "op_apply e2' (op_apply o1 ?R) = op_apply e1' (op_apply o2 ?R)" using t by (simp add: square_def)
  note l = otUfs_labels [OF t o]
  have ns: "s \<noteq> star" "nm s" if "sarg ?R s" for s using that star by (auto simp: sarg_def)
  from o(1) show ?thesis
  proof (cases rule: op_cases)
    case (union a b)
    note 1 = union
    from o(2) show ?thesis
    proof (cases rule: op_cases)
      case (union c d)
      have h: "hd (args y) \<in> elems cs" if "targ ?R y" "y \<noteq> star" for y
        using within_class_dom [OF E targ_within [OF that]] by simp
      have "aapply (union_op c d) (aapply (union_op a b) ?R) = (aapply (union_op a b) ?R \<union> aapply (union_op c d) ?R)\<^sup>+"
      proof -
        have tr: "X\<^sup>+ = X" if "equiv (elems cs) X" for X using that by (auto elim: equivE)
        have sub: "?R \<union> merge ?R x y = merge ?R x y" for x y using merge_extends [of ?R x y] by blast
        show ?thesis
          using h 1(4,5) union(4,5) merge_join [OF E] tr [OF E] tr [OF equiv_merge [OF E]] sub
          by (auto simp: union_op_def Un_commute)
      qed
      then show ?thesis using 1 union l(3) by (simp add: label_def)
    next
      case (split t)
      then have "label e2' = Some t" using l(2) by (simp add: label_def)
      then have "op_apply e2' (op_apply o1 ?R) = isolate (op_apply o1 ?R) {t}"
        using split_apply ns [OF split(3)] by blast
      then show ?thesis using 1 split by (simp add: label_def)
    qed
  next
    case (split s)
    note 1 = split
    have "label e1' = Some s" using l(1) split by (simp add: label_def)
    then have e1: "op_apply e1' (op_apply o2 ?R) = isolate (op_apply o2 ?R) {s}"
      using split_apply ns [OF split(3)] by blast
    from o(2) show ?thesis
    proof (cases rule: op_cases)
      case (union c d)
      then show ?thesis using 1 e1 sq by (simp add: label_def)
    next
      case (split t)
      have "label o1 = Some s" "label o2 = Some t" using 1 split by (simp_all add: label_def)
      then have "op_apply o1 ?R = isolate ?R {s}" "op_apply o2 ?R = isolate ?R {t}"
        using split_apply ns [OF 1(3)] ns [OF split(3)] by blast+
      then show ?thesis using 1 split e1 sq by (auto simp: label_def isolate_def)
    qed
  qed
qed

section \<open>Schedules\<close>

text \<open>
  The operations of a client (\<open>lop x\<close> is the \<open>x\<close>-th, counted from 1) and those sent to it
  (\<open>rop y\<close>), each with the number of operations of the other side that it builds upon.
\<close>

record sched =
  lop :: "nat \<Rightarrow> dedge"
  rop :: "nat \<Rightarrow> dedge"
  lrow :: "nat \<Rightarrow> nat"
  rcol :: "nat \<Rightarrow> nat"
  origin :: "(string \<times> string) set"

definition flip :: "sched \<Rightarrow> sched" where
  "flip S = \<lparr>lop = rop S, rop = lop S, lrow = rcol S, rcol = lrow S, origin = origin S\<rparr>"

lemma flip_simps [simp]:
  "lop (flip S) = rop S" "rop (flip S) = lop S" "lrow (flip S) = rcol S" "rcol (flip S) = lrow S" "origin (flip S) = origin S"
  "flip (flip S) = S"
  by (simp_all add: flip_def)

text \<open>The state at a point of the grid.\<close>

function gst :: "sched \<Rightarrow> nat \<Rightarrow> nat \<Rightarrow> (string \<times> string) set" where
  "gst S x y =
     (let l = (0 < x \<and> lrow S x = y); r = (0 < y \<and> rcol S y = x) in
      if l \<and> \<not> r then op_apply (lop S x) (gst S (x - 1) y)
      else if r \<and> \<not> l then op_apply (rop S y) (gst S x (y - 1))
      else if 0 < x \<and> 0 < y then corner (label (lop S x)) (label (rop S y)) (gst S x (y - 1)) (gst S (x - 1) y)
      else origin S)"
  by pat_completeness auto
termination by (relation "measure (\<lambda>(S, x, y). x + y)") auto

declare gst.simps [simp del]

lemma gst_flip: "gst (flip S) y x = gst S x y"
proof (induction "x + y" arbitrary: x y rule: less_induct)
  case less
  have l: "gst (flip S) y (x - 1) = gst S (x - 1) y" if "0 < x" using less that by auto
  have r: "gst (flip S) (y - 1) x = gst S x (y - 1)" if "0 < y" using less that by auto
  show ?case
    unfolding gst.simps [of S x y] gst.simps [of "flip S" y x] Let_def
    using l r by (cases x; cases y) (simp_all add: corner_sym [of "label (rop S j)" "label (lop S i)" for i j] del: corner.simps)
qed

lemma gst_cong:
  assumes "\<forall>i \<le> x. lop S' i = lop S i \<and> lrow S' i = lrow S i" "\<forall>j \<le> y. rop S' j = rop S j \<and> rcol S' j = rcol S j"
    "origin S' = origin S"
  shows "gst S' x y = gst S x y"
  using assms(1,2)
proof (induction "x + y" arbitrary: x y rule: less_induct)
  case less
  have l: "gst S' (x - 1) y = gst S (x - 1) y" if "0 < x" using less that by auto
  have r: "gst S' x (y - 1) = gst S x (y - 1)" if "0 < y" using less that by auto
  show ?case
    using l r less.prems assms(3) unfolding gst.simps [of S x y] gst.simps [of S' x y] Let_def by auto
qed

text \<open>Operations build upon operations that were there: the rows and columns of a schedule grow.\<close>

definition ordered :: "sched \<Rightarrow> nat \<Rightarrow> nat \<Rightarrow> bool" where
  "ordered S A B \<longleftrightarrow> lrow S 0 = 0 \<and> rcol S 0 = 0 \<and>
     (\<forall>x < A. lrow S x \<le> lrow S (Suc x) \<and> rcol S (lrow S (Suc x)) \<le> x \<and> lrow S (Suc x) \<le> B) \<and>
     (\<forall>y < B. rcol S y \<le> rcol S (Suc y) \<and> lrow S (rcol S (Suc y)) \<le> y \<and> rcol S (Suc y) \<le> A)"

lemma ordered_flip [simp]: "ordered (flip S) B A = ordered S A B"
  by (auto simp: ordered_def)

lemma lrow_mono:
  assumes "ordered S A B" "x \<le> x'" "x' \<le> A"
  shows "lrow S x \<le> lrow S x'"
  using assms(2,3)
proof (induction x' rule: dec_induct)
  case (step z)
  then have "lrow S x \<le> lrow S z" "lrow S z \<le> lrow S (Suc z)" using assms(1) by (simp_all add: ordered_def)
  then show ?case by simp
qed simp

lemma rcol_mono: "ordered S A B \<Longrightarrow> y \<le> y' \<Longrightarrow> y' \<le> B \<Longrightarrow> rcol S y \<le> rcol S y'"
  using lrow_mono [of "flip S" B A y y'] by simp

text \<open>The points that both kinds of operations leave, up to given numbers of operations.\<close>

definition points :: "sched \<Rightarrow> nat \<Rightarrow> nat \<Rightarrow> (nat \<times> nat) set" where
  "points S a b = {(x, y). x \<le> a \<and> y \<le> b \<and> rcol S y \<le> x \<and> lrow S x \<le> y}"

lemma points_flip: "points (flip S) b a = prod.swap ` points S a b"
  by (auto simp: points_def image_iff)

lemma not_stuck:
  assumes o: "ordered S A B" "a \<le> A" "b \<le> B" and x: "(x, y) \<in> points S a b" and p: "(p, q) \<in> points S a b"
    and le: "x \<le> p" "y \<le> q" "(x, y) \<noteq> (p, q)" and no: "\<not> (x < p \<and> (Suc x, y) \<in> points S a b)"
  shows "y < q \<and> (x, Suc y) \<in> points S a b"
proof -
  have "y < q \<and> rcol S (Suc y) \<le> x"
  proof (cases "x < p")
    case True
    then have t: "y < lrow S (Suc x)" using no x p by (auto simp: points_def)
    have "lrow S (Suc x) \<le> lrow S p" using True o(2) p by (intro lrow_mono [OF o(1)]) (auto simp: points_def)
    then have q: "y < q" using t p by (auto simp: points_def)
    have "rcol S (Suc y) \<le> x"
    proof (rule ccontr)
      assume "\<not> rcol S (Suc y) \<le> x"
      moreover have "rcol S (Suc y) \<le> A" "lrow S (rcol S (Suc y)) \<le> y" using o(1,3) q p by (auto simp: ordered_def points_def)
      ultimately have "lrow S (Suc x) \<le> y" using lrow_mono [OF o(1), of "Suc x" "rcol S (Suc y)"] by simp
      then show False using t by simp
    qed
    then show ?thesis using q by simp
  next
    case False
    then have "x = p" "y < q" using le by auto
    moreover have "rcol S (Suc y) \<le> rcol S q" using \<open>y < q\<close> o(3) p by (intro rcol_mono [OF o(1)]) (auto simp: points_def)
    ultimately show ?thesis using p by (auto simp: points_def)
  qed
  then show ?thesis using x p by (auto simp: points_def)
qed

section \<open>Spaces that show a part of the grid\<close>

definition edge_to :: "dedge option \<Rightarrow> bool \<Rightarrow> nat \<Rightarrow> dedge \<Rightarrow> bool" where
  "edge_to oe present v d \<longleftrightarrow>
     (if present then \<exists>e. oe = Some e \<and> adjv e = v \<and> oid e = oid d \<and> label e = label d else oe = None)"

definition grid :: "sched \<Rightarrow> (nat \<times> nat) set \<Rightarrow> space \<Rightarrow> (nat \<times> nat \<Rightarrow> nat) \<Rightarrow> bool" where
  "grid S D vs pos \<longleftrightarrow> (0, 0) \<in> D \<and> pos (0, 0) = 0 \<and> inj_on pos D \<and>
     (\<forall>x y. (x, y) \<in> D \<longrightarrow> pos (x, y) < length vs \<and> st vs (pos (x, y)) = gst S x y \<and>
        edge_to (ledge (vs ! pos (x, y))) ((Suc x, y) \<in> D) (pos (Suc x, y)) (lop S (Suc x)) \<and>
        edge_to (redge (vs ! pos (x, y))) ((x, Suc y) \<in> D) (pos (x, Suc y)) (rop S (Suc y)))"

lemma gridD:
  assumes "grid S D vs pos" "(x, y) \<in> D"
  shows "pos (x, y) < length vs" "st vs (pos (x, y)) = gst S x y"
    "edge_to (ledge (vs ! pos (x, y))) ((Suc x, y) \<in> D) (pos (Suc x, y)) (lop S (Suc x))"
    "edge_to (redge (vs ! pos (x, y))) ((x, Suc y) \<in> D) (pos (x, Suc y)) (rop S (Suc y))"
  using assms unfolding grid_def by blast+

lemma grid_mirror:
  assumes "grid S D vs pos"
  shows "grid (flip S) (prod.swap ` D) (mirror vs) (pos \<circ> prod.swap)"
proof -
  have D: "(y, x) \<in> prod.swap ` D \<longleftrightarrow> (x, y) \<in> D" for x y by force
  have "inj_on pos D" using assms by (simp add: grid_def)
  then have "inj_on (pos \<circ> prod.swap) (prod.swap ` D)" by (auto simp: inj_on_def)
  moreover have "pos (x, y) < length (mirror vs) \<and> st (mirror vs) (pos (x, y)) = gst (flip S) y x \<and>
      edge_to (ledge (mirror vs ! pos (x, y))) ((x, Suc y) \<in> D) (pos (x, Suc y)) (rop S (Suc y)) \<and>
      edge_to (redge (mirror vs ! pos (x, y))) ((Suc x, y) \<in> D) (pos (Suc x, y)) (lop S (Suc x))" if "(x, y) \<in> D" for x y
    using gridD [OF assms that] by (simp add: gst_flip)
  ultimately show ?thesis using assms unfolding grid_def by (auto simp: D)
qed

lemma grid_cong:
  assumes g: "grid S D vs pos" and D: "D \<subseteq> {..a} \<times> {..b}"
    and S: "\<forall>i \<le> a. lop S' i = lop S i \<and> lrow S' i = lrow S i" "\<forall>j \<le> b. rop S' j = rop S j \<and> rcol S' j = rcol S j" "origin S' = origin S"
  shows "grid S' D vs pos"
proof -
  have "st vs (pos (x, y)) = gst S' x y \<and>
      edge_to (ledge (vs ! pos (x, y))) ((Suc x, y) \<in> D) (pos (Suc x, y)) (lop S' (Suc x)) \<and>
      edge_to (redge (vs ! pos (x, y))) ((x, Suc y) \<in> D) (pos (x, Suc y)) (rop S' (Suc y))" if xy: "(x, y) \<in> D" for x y
  proof -
    have le: "x \<le> a" "y \<le> b" using D xy by auto
    then have "gst S' x y = gst S x y" using S by (intro gst_cong) auto
    moreover have "(Suc x, y) \<in> D \<Longrightarrow> lop S' (Suc x) = lop S (Suc x)" "(x, Suc y) \<in> D \<Longrightarrow> rop S' (Suc y) = rop S (Suc y)"
      using D S by auto
    ultimately show ?thesis using gridD(2-4) [OF g xy] by (auto simp: edge_to_def)
  qed
  then show ?thesis using g unfolding grid_def by blast
qed

text \<open>A new point with the edges that lead to it.\<close>

lemma grid_add:
  assumes g: "grid S D vs pos" and z: "(X, Y) \<notin> D" "(Suc X, Y) \<notin> D" "(X, Suc Y) \<notin> D"
    and len: "length vs' = Suc (length vs)" and new: "vs' ! length vs = new_vertice w" "text_rel w = gst S X Y"
    and old: "\<And>i. i < length vs \<Longrightarrow> content (vs' ! i) = content (vs ! i)"
      "\<And>i. i < length vs \<Longrightarrow> ledge (vs' ! i) = (if 0 < X \<and> (X - 1, Y) \<in> D \<and> i = pos (X - 1, Y) then Some el else ledge (vs ! i))"
      "\<And>i. i < length vs \<Longrightarrow> redge (vs' ! i) = (if 0 < Y \<and> (X, Y - 1) \<in> D \<and> i = pos (X, Y - 1) then Some er else redge (vs ! i))"
    and el: "0 < X \<and> (X - 1, Y) \<in> D \<Longrightarrow> adjv el = length vs \<and> oid el = oid (lop S X) \<and> label el = label (lop S X)"
    and er: "0 < Y \<and> (X, Y - 1) \<in> D \<Longrightarrow> adjv er = length vs \<and> oid er = oid (rop S Y) \<and> label er = label (rop S Y)"
  shows "grid S (insert (X, Y) D) vs' (pos((X, Y) := length vs))"
proof -
  let ?D = "insert (X, Y) D" and ?pos = "pos((X, Y) := length vs)"
  have inj: "inj_on pos D" and lt: "\<And>p. p \<in> D \<Longrightarrow> pos p < length vs" using g unfolding grid_def by force+
  have "inj_on ?pos ?D"
  proof -
    have "\<And>p. p \<in> D \<Longrightarrow> pos p \<noteq> length vs" using lt by fastforce
    then have "length vs \<notin> pos ` D" by (metis imageE)
    then show ?thesis using inj z(1) by (auto simp: inj_on_fun_updI)
  qed
  moreover have "?pos (x, y) < length vs' \<and> st vs' (?pos (x, y)) = gst S x y \<and>
      edge_to (ledge (vs' ! ?pos (x, y))) ((Suc x, y) \<in> ?D) (?pos (Suc x, y)) (lop S (Suc x)) \<and>
      edge_to (redge (vs' ! ?pos (x, y))) ((x, Suc y) \<in> ?D) (?pos (x, Suc y)) (rop S (Suc y))" if xy: "(x, y) \<in> ?D" for x y
  proof (cases "(x, y) = (X, Y)")
    case True
    then show ?thesis using len new z(2,3) by (simp add: st_def edge_to_def new_vertice_def)
  next
    case False
    then have D: "(x, y) \<in> D" using xy by auto
    note d = gridD [OF g D]
    have i: "?pos (x, y) = pos (x, y)" using False by auto
    have eq: "pos (x, y) = pos (x', y') \<longleftrightarrow> x = x' \<and> y = y'" if "(x', y') \<in> D" for x' y'
      using inj_on_eq_iff [OF inj D that] by simp
    have st: "st vs' (pos (x, y)) = gst S x y" using old(1) [OF d(1)] d(2) by (simp add: st_def)
    have "edge_to (ledge (vs' ! pos (x, y))) ((Suc x, y) \<in> ?D) (?pos (Suc x, y)) (lop S (Suc x))"
    proof (cases "(Suc x, y) = (X, Y)")
      case True
      then show ?thesis using old(2) [OF d(1)] D el by (auto simp: edge_to_def)
    next
      case False
      then have "\<not> (0 < X \<and> (X - 1, Y) \<in> D \<and> pos (x, y) = pos (X - 1, Y))" using eq by auto
      then show ?thesis using old(2) [OF d(1)] d(3) False by (auto simp: edge_to_def)
    qed
    moreover have "edge_to (redge (vs' ! pos (x, y))) ((x, Suc y) \<in> ?D) (?pos (x, Suc y)) (rop S (Suc y))"
    proof (cases "(x, Suc y) = (X, Y)")
      case True
      then show ?thesis using old(3) [OF d(1)] D er by (auto simp: edge_to_def)
    next
      case False
      then have "\<not> (0 < Y \<and> (X, Y - 1) \<in> D \<and> pos (x, y) = pos (X, Y - 1))" using eq by auto
      then show ?thesis using old(3) [OF d(1)] d(4) False by (auto simp: edge_to_def)
    qed
    ultimately show ?thesis using d(1) st i len by simp
  qed
  moreover have "(0, 0) \<in> ?D" "?pos (0, 0) = 0" using g z(1) unfolding grid_def by auto
  ultimately show ?thesis unfolding grid_def by blast
qed

text \<open>A new operation of the client at the last point.\<close>

lemma grid_local:
  assumes g: "grid S (points S a b) vs pos" and row: "lrow S (Suc a) = b" and ab: "(a, b) \<in> points S a b"
    and e: "adjv e = length vs" "oid e = oid (lop S (Suc a))" "label e = label (lop S (Suc a))"
    and w: "text_rel w = gst S (Suc a) b"
  shows "grid S (points S (Suc a) b) (put_ledge (pos (a, b)) e (vs @ [new_vertice w])) (pos((Suc a, b) := length vs))"
proof -
  let ?D = "points S a b" and ?vs = "put_ledge (pos (a, b)) e (vs @ [new_vertice w])"
  have l: "pos (a, b) < length vs" by (rule gridD(1) [OF g ab])
  have "points S (Suc a) b = insert (Suc a, b) ?D"
    using row ab by (auto simp: points_def le_Suc_eq)
  moreover have "grid S (insert (Suc a, b) ?D) ?vs (pos((Suc a, b) := length vs))"
  proof (rule grid_add [OF g, where er = e])
    show "?vs ! length vs = new_vertice w" using l by (simp add: put_ledge_def nth_append)
  qed (use l ab e w in \<open>auto simp: points_def nth_append\<close>)
  ultimately show ?thesis by simp
qed

section \<open>The loop along a row\<close>

definition row_points :: "sched \<Rightarrow> nat \<Rightarrow> nat \<Rightarrow> nat \<Rightarrow> (nat \<times> nat) set" where
  "row_points S a b x = points S a b \<union> {(x', Suc b) | x'. rcol S (Suc b) \<le> x' \<and> x' \<le> x}"

lemma row_points_all:
  "\<forall>x \<le> a. lrow S x \<le> b \<Longrightarrow> row_points S a b a = points S a (Suc b)"
  by (auto simp: row_points_def points_def le_Suc_eq)

lemma row_points_Suc:
  "rcol S (Suc b) \<le> x \<Longrightarrow> row_points S a b (Suc x) = insert (Suc x, Suc b) (row_points S a b x)"
  by (auto simp: row_points_def le_Suc_eq)

lemma gst_corner:
  assumes "lrow S (Suc x) \<le> y" "rcol S (Suc y) \<le> x"
  shows "gst S (Suc x) (Suc y) = corner (label (lop S (Suc x))) (label (rop S (Suc y))) (gst S (Suc x) y) (gst S x (Suc y))"
  using assms by (subst gst.simps) (simp add: Let_def)

lemma loop_row:
  assumes "space_ok n vs" "grid S (row_points S a b x) vs pos" "rcol S (Suc b) \<le> x" "x \<le> a" "rcol S b \<le> rcol S (Suc b)"
    "\<forall>x \<le> a. lrow S x \<le> b"
  shows "\<exists>vs' pos'. client_loop (int n) vs (pos (x, b)) (pos (x, Suc b)) = Some (vs', pos (a, b), pos' (a, Suc b)) \<and>
    grid S (points S a (Suc b)) vs' pos' \<and> (\<forall>p \<in> row_points S a b x. pos' p = pos p)"
  using assms(1-4)
proof (induction "a - x" arbitrary: vs pos x)
  case 0
  then have xa: "x = a" by simp
  have D: "(a, b) \<in> row_points S a b a" "(Suc a, b) \<notin> row_points S a b a"
    using 0 assms(5,6) xa by (auto simp: row_points_def points_def)
  note d = gridD [OF 0(3) [unfolded xa] D(1)]
  have "client_loop (int n) vs (pos (a, b)) (pos (a, Suc b)) = Some (vs, pos (a, b), pos (a, Suc b))"
    using d(1,3) D(2) by (subst client_loop.simps) (simp add: vget_def edge_to_def)
  then show ?case using 0(3) row_points_all [OF assms(6)] xa by auto
next
  case (Suc k)
  let ?D = "row_points S a b x"
  have xa: "x < a" using Suc(2) by simp
  have D: "(x, b) \<in> ?D" "(Suc x, b) \<in> ?D" "(x, Suc b) \<in> ?D" "(Suc x, Suc b) \<notin> ?D" "(Suc (Suc x), Suc b) \<notin> ?D" "(Suc x, Suc (Suc b)) \<notin> ?D"
    using Suc(5) xa assms(5,6) by (auto simp: row_points_def points_def)
  note d = gridD [OF Suc(4)]
  obtain le where le: "ledge (vs ! pos (x, b)) = Some le" "adjv le = pos (Suc x, b)" "oid le = oid (lop S (Suc x))" "label le = label (lop S (Suc x))"
    using d(3) [OF D(1)] D(2) by (auto simp: edge_to_def)
  obtain re where re: "redge (vs ! pos (x, b)) = Some re" "adjv re = pos (x, Suc b)" "oid re = oid (rop S (Suc b))" "label re = label (rop S (Suc b))"
    using d(4) [OF D(1)] D(3) by (auto simp: edge_to_def)
  obtain e1 e2 w c x1 x2 where sq: "client_square (int n) vs (pos (x, b)) (adjv re) =
       Some (put_redge (adjv le) e2 (put_ledge (adjv re) e1 (vs @ [new_vertice w])), adjv le, length vs)"
    "oid e1 = oid le" "oid e2 = oid re" "adjv e1 = length vs" "adjv e2 = length vs"
    "space_ok n (put_redge (adjv le) e2 (put_ledge (adjv re) e1 (vs @ [new_vertice w])))"
    "text_of n c" "st vs (pos (x, b)) = text_rel c" "otUfs c le re x1 x2 OT_UNION = Some (e1, e2)"
    by (rule client_square_full [OF Suc(3) d(1) [OF D(1)] le(1) re(1)])
  let ?vs = "put_redge (adjv le) e2 (put_ledge (adjv re) e1 (vs @ [new_vertice w]))" and ?pos = "pos((Suc x, Suc b) := length vs)"
  note el = space_edge [OF Suc(3) d(1) [OF D(1)] disjI1 [OF le(1)]] and er = space_edge [OF Suc(3) d(1) [OF D(1)] disjI2 [OF re(1)]]
  have ok: "op_ok (text_rel c) le" "op_ok (text_rel c) re" using el(3) er(3) sq(8) by simp_all
  have lab: "label e1 = label le" "label e2 = label re" using otUfs_labels [OF sq(9) ok] by simp_all
  have "redge (?vs ! adjv le) = Some e2" using el(2) by (simp add: nth_append)
  then have "st ?vs (length vs) = op_apply e2 (st ?vs (adjv le))"
    using space_edge(4) [OF sq(6), of "adjv le" e2] el(2) sq(5) by simp
  then have "text_rel w = op_apply e2 (op_apply le (text_rel c))"
    using el(2,4) sq(8) by (simp add: st_def nth_append new_vertice_def)
  also have "\<dots> = corner (label le) (label re) (op_apply le (text_rel c)) (op_apply re (text_rel c))"
    using corner_state [OF _ ok sq(9)] sq(7) by (simp add: text_of_def)
  also have "\<dots> = gst S (Suc x) (Suc b)"
    using gst_corner [of S x b] assms(6) xa Suc(5) le re el(4) er(4) sq(8) d(2) [OF D(2)] d(2) [OF D(3)] by simp
  finally have w: "text_rel w = gst S (Suc x) (Suc b)" .
  have nw: "new_vertice w = \<lparr>content = Some w, ledge = None, redge = None\<rparr>" by (simp add: new_vertice_def)
  have "grid S (insert (Suc x, Suc b) ?D) ?vs ?pos"
  proof (rule grid_add [OF Suc(4) D(4-6) _ _ w])
    show "length ?vs = Suc (length vs)" by simp
    show "?vs ! length vs = new_vertice w"
      using el(2) er(2) by (simp add: put_redge_def put_ledge_def nth_append)
    fix i assume i: "i < length vs"
    show "content (?vs ! i) = content (vs ! i)" using i by (simp add: nth_append)
    show "ledge (?vs ! i) = (if 0 < Suc x \<and> (Suc x - 1, Suc b) \<in> ?D \<and> i = pos (Suc x - 1, Suc b) then Some e1 else ledge (vs ! i))"
      using i D(3) re(2) by (auto simp: nth_append)
    show "redge (?vs ! i) = (if 0 < Suc b \<and> (Suc x, Suc b - 1) \<in> ?D \<and> i = pos (Suc x, Suc b - 1) then Some e2 else redge (vs ! i))"
      using i D(2) le(2) by (auto simp: nth_append)
  qed (use sq(2-5) le re lab in auto)
  then have "grid S (row_points S a b (Suc x)) ?vs ?pos" using row_points_Suc [OF Suc(5)] by simp
  moreover have "k = a - Suc x" "rcol S (Suc b) \<le> Suc x" "Suc x \<le> a" using Suc(2,5) xa by simp_all
  ultimately obtain vs' pos' where r: "client_loop (int n) ?vs (?pos (Suc x, b)) (?pos (Suc x, Suc b)) = Some (vs', ?pos (a, b), pos' (a, Suc b))"
      "grid S (points S a (Suc b)) vs' pos'" "\<forall>p \<in> row_points S a b (Suc x). pos' p = ?pos p"
    using Suc(1) [of "Suc x" ?vs ?pos] sq(6) by blast
  have "client_loop (int n) vs (pos (x, b)) (pos (x, Suc b)) = Some (vs', pos (a, b), pos' (a, Suc b))"
    using d(1) [OF D(1)] le(1,2) re(2) sq(1) r(1) by (subst client_loop.simps) (simp add: vget_def)
  moreover have "\<forall>p \<in> ?D. pos' p = pos p" using r(3) D(4) row_points_Suc [OF Suc(5), of a] by auto
  ultimately show ?case using r(2) by blast
qed

text \<open>The state after an operation that is the last one of its row or column.\<close>

lemma gst_local:
  assumes "lrow S (Suc x) = y" "0 < y \<Longrightarrow> rcol S y \<le> x"
  shows "gst S (Suc x) y = op_apply (lop S (Suc x)) (gst S x y)"
  using assms by (subst gst.simps) (auto simp: Let_def)

lemma gst_remote:
  assumes "rcol S (Suc y) = x" "0 < x \<Longrightarrow> lrow S x \<le> y"
  shows "gst S x (Suc y) = op_apply (rop S (Suc y)) (gst S x y)"
  using assms by (subst gst.simps) (auto simp: Let_def)

text \<open>An operation of the other side arrives: it is inserted at its point and taken along the last row.\<close>

lemma grid_receive:
  assumes ok: "space_ok n vs" and g: "grid S (points S a b) vs pos"
    and p: "rcol S b \<le> rcol S (Suc b)" "rcol S (Suc b) \<le> a" and rows: "\<forall>x \<le> a. lrow S x \<le> b"
    and e: "op_ok (gst S (rcol S (Suc b)) b) e" "adjv e = length vs" "oid e = oid (rop S (Suc b))" "label e = label (rop S (Suc b))"
      "op_apply e = op_apply (rop S (Suc b))"
    and t: "text_of n t" "text_rel t = op_apply e (gst S (rcol S (Suc b)) b)"
  shows "\<exists>vs' pos'. client_loop (int n) (put_redge (pos (rcol S (Suc b), b)) e (vs @ [new_vertice t])) (pos (rcol S (Suc b), b)) (length vs) =
      Some (vs', pos (a, b), pos' (a, Suc b)) \<and> grid S (points S a (Suc b)) vs' pos'"
proof -
  let ?p = "rcol S (Suc b)" and ?D = "points S a b"
  let ?vs = "put_redge (pos (?p, b)) e (vs @ [new_vertice t])" and ?pos = "pos((?p, Suc b) := length vs)"
  have D: "(?p, b) \<in> ?D" "(a, b) \<in> ?D" using p rows by (auto simp: points_def)
  note d = gridD(1,2) [OF g D(1)]
  have row: "row_points S a b ?p = insert (?p, Suc b) ?D" by (auto simp: row_points_def)
  have w: "text_rel t = gst S ?p (Suc b)"
    using t(2) e(5) gst_remote [of S b ?p] rows p(2) by simp
  have "grid S (insert (?p, Suc b) ?D) ?vs ?pos"
  proof (rule grid_add [OF g, where el = e])
    show "?vs ! length vs = new_vertice t" using d(1) by (simp add: put_redge_def nth_append)
  qed (use D d w e in \<open>auto simp: points_def nth_append\<close>)
  moreover have "space_ok n ?vs"
    using d e(1,2) t by (intro space_ok_put(2) [OF space_ok_new [OF ok t(1)]]) (simp_all add: edge_ok_def)
  ultimately obtain vs' pos' where
      "client_loop (int n) ?vs (?pos (?p, b)) (?pos (?p, Suc b)) = Some (vs', ?pos (a, b), pos' (a, Suc b))"
      "grid S (points S a (Suc b)) vs' pos'"
    using loop_row [of n ?vs S a b ?p ?pos] p rows unfolding row by blast
  then show ?thesis by auto
qed

section \<open>Walks in the grid\<close>

definition loids :: "sched \<Rightarrow> nat \<Rightarrow> string list" where
  "loids S x = map (\<lambda>i. oid (lop S (Suc i))) [0..<x]"

definition roids :: "sched \<Rightarrow> nat \<Rightarrow> string list" where
  "roids S y = map (\<lambda>j. oid (rop S (Suc j))) [0..<y]"

lemma oids_Suc [simp]:
  "loids S (Suc x) = loids S x @ [oid (lop S (Suc x))]" "roids S (Suc y) = roids S y @ [oid (rop S (Suc y))]"
  "loids S 0 = []" "roids S 0 = []" "loids (flip S) y = roids S y" "roids (flip S) x = loids S x"
  "length (loids S x) = x" "length (roids S y) = y"
  by (simp_all add: loids_def roids_def)

definition before :: "sched \<Rightarrow> nat \<Rightarrow> nat \<Rightarrow> string multiset" where
  "before S x y = mset (loids S x) + mset (roids S y)"

lemma before_simps [simp]:
  "before S (Suc x) y = add_mset (oid (lop S (Suc x))) (before S x y)"
  "before S x (Suc y) = add_mset (oid (rop S (Suc y))) (before S x y)"
  "before S 0 0 = {#}" "before (flip S) y x = before S x y" "size (before S x y) = x + y"
  by (simp_all add: before_def)

lemma main_path_grid:
  assumes o: "ordered S A B" "a \<le> A" "b \<le> B" and g: "grid S (points S a b) vs pos" and ab: "(a, b) \<in> points S a b"
    and m: "main_path vs q os w" and q: "q = pos (x, y)" "(x, y) \<in> points S a b"
  shows "w = pos (a, b) \<and> before S a b = before S x y + mset os"
  using m q
proof (induction arbitrary: x y rule: main_path.induct)
  case (end_here q)
  note d = gridD(3,4) [OF g end_here(4)]
  have no: "(Suc x, y) \<notin> points S a b" "(x, Suc y) \<notin> points S a b"
    using end_here(2,3) d by (auto simp: main_edge_None edge_to_def split: if_splits)
  have "(x, y) = (a, b)"
  proof (rule ccontr)
    assume "(x, y) \<noteq> (a, b)"
    then show False using not_stuck [OF o end_here(4) ab] no end_here(4) by (auto simp: points_def)
  qed
  then show ?case using end_here(3) by simp
next
  case (go_on q e os w)
  note d = gridD(3,4) [OF g go_on(6)]
  show ?case
  proof (cases "(Suc x, y) \<in> points S a b")
    case True
    then obtain f where "ledge (vs ! q) = Some f" "adjv f = pos (Suc x, y)" "oid f = oid (lop S (Suc x))"
      using d(1) go_on(5) by (auto simp: edge_to_def)
    then show ?thesis using go_on(2) go_on.IH [OF _ True] by (auto simp: main_edge_def)
  next
    case False
    then have "ledge (vs ! q) = None" using d(1) go_on(5) by (simp add: edge_to_def)
    then have "redge (vs ! q) = Some e" using go_on(2) by (simp add: main_edge_def)
    then have "(x, Suc y) \<in> points S a b" "adjv e = pos (x, Suc y)" "oid e = oid (rop S (Suc y))"
      using d(2) go_on(5) by (auto simp: edge_to_def split: if_splits)
    then show ?thesis using go_on.IH by auto
  qed
qed

text \<open>The local edges of the last row.\<close>

lemma chain_grid:
  assumes g: "grid S (points S a b) vs pos" and p: "rcol S b \<le> p" "p \<le> a" and rows: "\<forall>x \<le> a. lrow S x \<le> b"
  shows "\<exists>es. chain_path (get_ledge vs) (pos (p, b)) es (pos (a, b)) \<and> mset (loids S p) + mset (map oid es) = mset (loids S a)"
  using p
proof (induction "a - p" arbitrary: p)
  case 0
  have D: "(a, b) \<in> points S a b" "(Suc a, b) \<notin> points S a b" using 0 rows by (auto simp: points_def)
  then have "get_ledge vs (pos (a, b)) = None" using gridD(1,3) [OF g D(1)] by (simp add: space_access edge_to_def)
  then show ?case using 0 here [of "get_ledge vs" "pos (a, b)"] by (intro exI [of _ "[]"]) simp
next
  case (Suc k)
  have D: "(p, b) \<in> points S a b" "(Suc p, b) \<in> points S a b" using Suc rows by (auto simp: points_def)
  then obtain e where e: "ledge (vs ! pos (p, b)) = Some e" "adjv e = pos (Suc p, b)" "oid e = oid (lop S (Suc p))"
    using gridD(3) [OF g D(1)] by (auto simp: edge_to_def)
  have "k = a - Suc p" "rcol S b \<le> Suc p" "Suc p \<le> a" using Suc by simp_all
  then obtain es where es: "chain_path (get_ledge vs) (pos (Suc p, b)) es (pos (a, b))"
      "mset (loids S (Suc p)) + mset (map oid es) = mset (loids S a)"
    using Suc(1) by blast
  have "chain_path (get_ledge vs) (pos (p, b)) (e # es) (pos (a, b))"
    using e(1,2) es(1) gridD(1) [OF g D(1)] by (intro step) (simp_all add: space_access)
  then show ?case using es(2) e(3) by (intro exI [of _ "e # es"]) simp
qed

end
