(* ===== verification/Link.thy ===== *)
theory Link
  imports Grid "HOL-Library.Sublist"
begin

text \<open>
  The link between a client and the server: the two state spaces show parts of one grid, and the messages
  under way are the operations between them. Shown is that the context of a message locates its point in the
  space of the receiver, and that the four events at a link keep this: an operation of the client, the arrival
  of it at the server, an operation the server forwards, and its arrival at the client.
\<close>

section \<open>Contexts as texts\<close>

lemma same_rest:
  assumes "x \<notin> set s" "x \<notin> set u" "s @ x # a = u @ x # b"
  shows "a = b"
proof -
  have d: "dropWhile (\<lambda>y. y \<noteq> x) (w @ x # c) = x # c" if "x \<notin> set w" for w c using that by (induction w) auto
  show ?thesis using arg_cong [OF assms(3), of "dropWhile (\<lambda>y. y \<noteq> x)"] d [OF assms(1)] d [OF assms(2)] by simp
qed

lemma comma_prefix:
  assumes "s @ concat (map (\<lambda>c. COMMA # c) cs) = u @ COMMA # i @ v" "COMMA \<notin> set s" "COMMA \<notin> set i"
    "\<forall>c \<in> set cs. COMMA \<notin> set c"
  shows "\<exists>c \<in> set cs. prefix i c"
  using assms
proof (induction cs arbitrary: s u)
  case Nil
  then have "COMMA \<in> set s" by simp
  then show ?case using Nil by simp
next
  case (Cons c cs)
  let ?r = "concat (map (\<lambda>c. COMMA # c) cs)"
  have eq: "s @ COMMA # c @ ?r = u @ COMMA # i @ v" using Cons.prems(1) by simp
  show ?case
  proof (cases "COMMA \<in> set u")
    case False
    then have "c @ ?r = i @ v" using same_rest [OF Cons.prems(2)] eq by blast
    then consider z where "c = i @ z" | z where "i = c @ z" "z \<noteq> []" "?r = z @ v"
      by (auto simp: append_eq_append_conv2) blast
    then show ?thesis
    proof cases
      case 1
      then show ?thesis by auto
    next
      case 2
      then have "COMMA \<in> set i" by (cases cs; cases z) auto
      then show ?thesis using Cons.prems(3) by simp
    qed
  next
    case True
    then obtain u1 u2 where u: "u = u1 @ COMMA # u2" "COMMA \<notin> set u1" using split_list_first by metis
    then have "s @ COMMA # (c @ ?r) = u1 @ COMMA # (u2 @ COMMA # i @ v)" using eq by simp
    then have "c @ ?r = u2 @ COMMA # i @ v" using same_rest [OF Cons.prems(2) u(2)] by blast
    then have "\<exists>c \<in> set cs. prefix i c" using Cons.IH [of c u2] Cons.prems(3,4) by simp
    then show ?thesis by simp
  qed
qed

lemma findOid_prefix:
  assumes "findOid (context_text INIT cs) i" "good_oids cs" "nul_free i" "COMMA \<notin> set i"
  shows "\<exists>c \<in> set cs. prefix i c"
proof -
  have "nul_free (COMMA # i)" using assms(3) by (simp add: nul_free_def)
  then have "substring (COMMA # i) (context_text INIT cs)"
    using assms(1,3) good_context(1) [OF assms(2)] by (simp add: findOid_def strstr_def)
  then obtain u v where "INIT @ concat (map (\<lambda>c. COMMA # c) cs) = u @ COMMA # i @ v"
    by (auto simp: substring_iff context_text_def)
  moreover have "COMMA \<notin> set INIT" by (simp add: INIT_def)
  ultimately show ?thesis using assms(2,4) by (intro comma_prefix) (auto simp: good_oids_def)
qed

lemma context_longer:
  assumes "mset os \<subseteq># mset cs"
  shows "length (context_text INIT os) = length (context_text INIT cs) \<longleftrightarrow> mset os = mset cs"
proof -
  have len: "length (context_text INIT xs) = 4 + (\<Sum>x \<in># mset xs. Suc (length x))" for xs
    by (induction xs) (simp_all add: context_text_def)
  obtain d where d: "mset cs = mset os + d" using assms by (metis subset_mset.le_iff_add)
  then have "length (context_text INIT cs) = length (context_text INIT os) + (\<Sum>x \<in># d. Suc (length x))"
    by (simp add: len)
  moreover have "(\<Sum>x \<in># d. Suc (length x)) = 0 \<longleftrightarrow> d = {#}" by (cases d) simp_all
  ultimately show ?thesis using d by auto
qed

text \<open>Identifiers that the search by substring keeps apart.\<close>

definition clear :: "string list \<Rightarrow> string list \<Rightarrow> bool" where
  "clear ls rs \<longleftrightarrow> (\<forall>i < length ls. \<forall>j < i. \<not> prefix (ls ! i) (ls ! j)) \<and> (\<forall>i < length rs. \<forall>j < i. \<not> prefix (rs ! i) (rs ! j)) \<and>
     (\<forall>c \<in> set ls. \<forall>d \<in> set rs. \<not> prefix c d \<and> \<not> prefix d c)"

definition context_at :: "sched \<Rightarrow> nat \<Rightarrow> nat \<Rightarrow> string \<Rightarrow> bool" where
  "context_at S p q ctx \<longleftrightarrow> (\<exists>cs. good_oids cs \<and> ctx = context_text INIT cs \<and> mset cs = before S p q)"

lemma clear_flip: "clear rs ls \<longleftrightarrow> clear ls rs"
  by (auto simp: clear_def)

lemma clear_own:
  assumes c: "clear (loids S A) (roids S B)" and x: "x < A" and pq: "p \<le> A" "q \<le> B"
    and i: "c \<in># before S p q" "prefix (oid (lop S (Suc x))) c"
  shows "x < p"
proof -
  have l: "loids S A ! x = oid (lop S (Suc x))" using x by (simp add: loids_def)
  consider i where "i < p" "c = oid (lop S (Suc i))" | j where "j < q" "c = oid (rop S (Suc j))"
    using i(1) by (auto simp: before_def loids_def roids_def)
  then show ?thesis
  proof cases
    case 1
    have "\<not> i < x" 
    proof
      assume "i < x"
      then have "\<not> prefix (loids S A ! x) (loids S A ! i)" using c x unfolding clear_def by simp
      then show False using i(2) 1 x \<open>i < x\<close> l by (simp add: loids_def)
    qed
    then show ?thesis using 1 by simp
  next
    case 2
    then have "c \<in> set (roids S B)" "oid (lop S (Suc x)) \<in> set (loids S A)" using pq x by (auto simp: loids_def roids_def)
    then show ?thesis using c i(2) unfolding clear_def by blast
  qed
qed

lemma before_sub:
  assumes "x \<le> p" "y \<le> q"
  shows "before S x y \<subseteq># before S p q"
proof -
  have "\<exists>zs. loids S p = loids S x @ zs" "\<exists>zs. roids S q = roids S y @ zs"
    using assms upt_add_eq_append [of 0 x "p - x"] upt_add_eq_append [of 0 y "q - y"] by (simp_all add: loids_def roids_def)
  then show ?thesis unfolding before_def by (auto intro!: subset_mset.add_mono)
qed

text \<open>The search for a context follows the local edges of the context first and finds its point.\<close>

lemma locate_grid:
  assumes o: "ordered S A B" "a \<le> A" "b \<le> B" and g: "grid S (points S a b) vs pos" and c: "clear (loids S A) (roids S B)"
    and ids: "good_oids (loids S A @ roids S B)"
    and cs: "good_oids cs" "mset cs = before S p q" and pq: "(p, q) \<in> points S a b"
    and x: "(x, y) \<in> points S a b" "x \<le> p" "y \<le> q" and pre: "good_oids pre" "mset pre = before S x y"
  shows "locateRVertice_loop vs (pos (x, y)) (context_text INIT cs) (context_text INIT pre) = Some (Some (pos (p, q)))"
  using x pre
proof (induction "(p - x) + (q - y)" arbitrary: x y pre rule: less_induct)
  case less
  let ?ctx = "context_text INIT cs" and ?t = "context_text INIT pre"
  have sub: "mset pre \<subseteq># mset cs" using before_sub [OF less.prems(2,3)] cs(2) less.prems(5) by simp
  have lp: "p \<le> a" "q \<le> b" using pq by (auto simp: points_def)
  show ?case
  proof (cases "(x, y) = (p, q)")
    case True
    then have eq: "mset pre = mset cs" using less.prems(5) cs(2) by simp
    then have len: "length ?t = length ?ctx" using context_longer [OF sub] by simp
    show ?thesis
    proof (cases "length ?t = 4")
      case four: True
      then have "cs = []" using len good_context(3) [OF cs(1)] by simp
      then show ?thesis using True len four by (subst locateRVertice_loop.simps) (simp add: streq_def)
    next
      case False
      have "length (pieces COMMA ?t) = length (pieces COMMA ?ctx)" "mset (pieces COMMA ?t) = mset (pieces COMMA ?ctx)"
        using eq mset_eq_length good_context(2) [OF cs(1)] good_context(2) [OF less.prems(4)] by simp_all
      then have "oidscmp ?t ?ctx = Some 0" by (simp add: oidscmp_eq)
      then show ?thesis using True len False by (subst locateRVertice_loop.simps) simp
    qed
  next
    case False
    have "size (before S x y) < size (before S p q)" using False less.prems(2,3) by auto
    then have "mset pre \<noteq> mset cs" using less.prems(5) cs(2) by (metis order_less_irrefl)
    then have ne: "length ?t \<noteq> length ?ctx" using context_longer [OF sub] by simp
    note d = gridD [OF g less.prems(1)]
    have go: "locateRVertice_loop vs (pos (x', y')) ?ctx (sdscat (sdscat ?t [COMMA]) i) = Some (Some (pos (p, q)))"
      if "(x', y') \<in> points S a b" "x' \<le> p" "y' \<le> q" "(p - x') + (q - y') < (p - x) + (q - y)" "i \<noteq> []" "nul_free i" "COMMA \<notin> set i"
        "before S x' y' = add_mset i (before S x y)" for x' y' i
      using less.hyps [OF that(4,1-3), of "pre @ [i]"] that(5-8) less.prems(4,5) by (simp add: context_snoc)
    have good: "i \<noteq> []" "nul_free i" "COMMA \<notin> set i" if "i \<in> set (loids S A) \<union> set (roids S B)" for i
      using ids that by (auto simp: good_oids_def)
    have li: "oid (lop S (Suc x)) \<in> set (loids S A)" if "x < A" using that by (auto simp: loids_def)
    have ri: "oid (rop S (Suc y)) \<in> set (roids S B)" if "y < B" using that by (auto simp: roids_def)
    have inset: "findOid ?ctx i" if "i \<in># before S p q" for i
      using that cs findOid_context by (metis set_mset_mset split_list)
    show ?thesis
    proof (cases "x < p \<and> (Suc x, y) \<in> points S a b")
      case True
      then obtain e where e: "ledge (vs ! pos (x, y)) = Some e" "adjv e = pos (Suc x, y)" "oid e = oid (lop S (Suc x))"
        using d(3) by (auto simp: edge_to_def)
      have "oid e \<in># before S p q" using e(3) True by (auto simp: before_def loids_def)
      then have "findOid ?ctx (oid e)" by (rule inset)
      moreover have xA: "x < A" using True lp o(2) by simp
      have "locateRVertice_loop vs (pos (Suc x, y)) ?ctx (sdscat (sdscat ?t [COMMA]) (oid e)) = Some (Some (pos (p, q)))"
        by (rule go) (use True less.prems(3) good [of "oid e"] li [OF xA] e(3) in auto)
      ultimately show ?thesis
        using True e(1,2) ne d(1)
        by (subst locateRVertice_loop.simps) (simp add: vget_def has_oid_def)
    next
      case no: False
      have yq: "y < q" "(x, Suc y) \<in> points S a b"
        using not_stuck [OF o less.prems(1) pq less.prems(2,3) False no] by simp_all
      have "\<not> has_oid ?ctx (ledge (vs ! pos (x, y)))"
      proof
        assume h: "has_oid ?ctx (ledge (vs ! pos (x, y)))"
        then obtain e where e: "ledge (vs ! pos (x, y)) = Some e" "findOid ?ctx (oid e)" "(Suc x, y) \<in> points S a b"
            "oid e = oid (lop S (Suc x))"
          using d(3) by (auto simp: has_oid_def edge_to_def split: option.splits if_splits)
        have xA: "x < A" using e(3) o(2) by (auto simp: points_def)
        then obtain c where "c \<in> set cs" "prefix (oid (lop S (Suc x))) c"
          using findOid_prefix [OF e(2) cs(1)] good [of "oid e"] li e(4) by auto
        then have "x < p" using clear_own [OF assms(5) xA, of p q c] lp o(2,3) cs(2) by (metis order_trans set_mset_mset)
        then show False using no e(3) by simp
      qed
      moreover obtain e where e: "redge (vs ! pos (x, y)) = Some e" "adjv e = pos (x, Suc y)" "oid e = oid (rop S (Suc y))"
        using d(4) yq(2) by (auto simp: edge_to_def)
      moreover have "oid e \<in># before S p q" using e(3) yq(1) by (auto simp: before_def roids_def)
      then have "findOid ?ctx (oid e)" by (rule inset)
      moreover have yB: "y < B" using yq lp o(3) by simp
      have "locateRVertice_loop vs (pos (x, Suc y)) ?ctx (sdscat (sdscat ?t [COMMA]) (oid e)) = Some (Some (pos (p, q)))"
        by (rule go) (use yq less.prems(2) good [of "oid e"] ri [OF yB] e(3) in auto)
      ultimately show ?thesis
        using ne d(1)
        by (subst locateRVertice_loop.simps) (simp add: vget_def has_oid_def)
    qed
  qed
qed

lemma locate_context:
  assumes "ordered S A B" "a \<le> A" "b \<le> B" "grid S (points S a b) vs pos" "clear (loids S A) (roids S B)"
    "good_oids (loids S A @ roids S B)" "context_at S p q ctx" "(p, q) \<in> points S a b"
  shows "locateVertice vs (Some ctx) = Some (Some (pos (p, q)))"
proof -
  obtain cs where cs: "good_oids cs" "ctx = context_text INIT cs" "mset cs = before S p q"
    using assms(7) by (auto simp: context_at_def)
  have z: "(0, 0) \<in> points S a b" "pos (0, 0) = 0" using assms(4) by (simp_all add: grid_def)
  then have "vs \<noteq> []" using gridD(1) [OF assms(4) z(1)] by auto
  then show ?thesis
    using locate_grid [OF assms(1-6) cs(1,3) assms(8) z(1), of "[]"] z(2) cs(2)
    by (simp add: locateVertice_def locateRVertice_def)
qed

section \<open>One side of a link\<close>

definition sched_ok :: "sched \<Rightarrow> nat \<Rightarrow> nat \<Rightarrow> bool" where
  "sched_ok S A B \<longleftrightarrow> ordered S A B \<and> clear (loids S A) (roids S B) \<and> good_oids (loids S A @ roids S B) \<and>
     (\<forall>x < A. op_ok (gst S x (lrow S (Suc x))) (lop S (Suc x))) \<and> (\<forall>y < B. op_ok (gst S (rcol S (Suc y)) y) (rop S (Suc y)))"

lemma sched_ok_flip [simp]: "sched_ok (flip S) B A \<longleftrightarrow> sched_ok S A B"
  by (auto simp: sched_ok_def gst_flip clear_flip good_oids_def)

text \<open>The last vertex and its context.\<close>

lemma grid_last:
  assumes s: "sched_ok S A B" "a \<le> A" "b \<le> B" "(a, b) \<in> points S a b" and g: "grid S (points S a b) vs pos"
    and ok: "space_ok n vs" "oids_ok vs"
  shows "locateLVertice vs 0 = Some (pos (a, b))" "st vs (pos (a, b)) = gst S a b"
    "\<exists>ctx. calculateOids vs 0 INIT = Some ctx \<and> context_at S a b ctx"
proof -
  have z: "(0, 0) \<in> points S a b" "0 = pos (0, 0)" "ordered S A B" using g s(1) by (simp_all add: grid_def sched_ok_def)
  have "vs \<noteq> []" using ok(1) by (simp add: space_ok_def)
  then obtain os w where m: "main_path vs 0 os w" using main_path_exists [OF ok(1), of 0] by auto
  have w: "w = pos (a, b)" "before S a b = mset os"
    using main_path_grid [OF z(3) s(2,3) g s(4) m z(2,1)] by simp_all
  show "locateLVertice vs 0 = Some (pos (a, b))" using locateL_main [OF m] w(1) by simp
  show "st vs (pos (a, b)) = gst S a b" by (rule gridD(2) [OF g s(4)])
  have "good_oids os" using main_path_oids [OF m ok(2)] by (simp add: good_oids_def)
  then show "\<exists>ctx. calculateOids vs 0 INIT = Some ctx \<and> context_at S a b ctx"
    using calculateOids_main [OF m ok(2), of INIT] w(2) unfolding context_at_def by auto
qed

text \<open>The arrival of an operation of the other side.\<close>

lemma message_edge_label: "label (message_edge c v) = label (message_edge c v')"
  by (simp add: message_edge_def label_def createOpEdge_def)

lemma arrival:
  assumes s: "sched_ok S A B" "a \<le> A" "b < B" and g: "grid S (points S a b) vs pos" and ok: "space_ok n vs"
    and p: "rcol S (Suc b) \<le> a" and rows: "\<forall>x \<le> a. lrow S x \<le> b"
    and m: "is_message c i ctx k" "message_edge c 0 = rop S (Suc b)"
  defines "u \<equiv> pos (rcol S (Suc b), b)"
  shows "(rcol S (Suc b), b) \<in> points S a b" "op_ok (st vs u) (message_edge c 0)"
    "\<exists>es. chain_path (get_ledge vs) u es (pos (a, b)) \<and> mset (loids S (rcol S (Suc b))) + mset (map oid es) = mset (loids S a)"
    "text_of n t \<Longrightarrow> text_rel t = op_apply (message_edge c (length vs)) (st vs u) \<Longrightarrow>
     client_loop (int n) (put_redge u (message_edge c (length vs)) (vs @ [new_vertice t])) u (length vs) = Some (vs', w, p') \<Longrightarrow>
     w = pos (a, b) \<and> (\<exists>pos'. grid S (points S a (Suc b)) vs' pos')"
proof -
  let ?p = "rcol S (Suc b)"
  have r: "rcol S b \<le> ?p" using s by (simp add: sched_ok_def ordered_def)
  show D: "(?p, b) \<in> points S a b" using r p rows by (simp add: points_def)
  have st: "st vs u = gst S ?p b" unfolding u_def by (rule gridD(2) [OF g D])
  show o: "op_ok (st vs u) (message_edge c 0)" using s(1,3) st m(2) by (simp add: sched_ok_def)
  show "\<exists>es. chain_path (get_ledge vs) u es (pos (a, b)) \<and> mset (loids S ?p) + mset (map oid es) = mset (loids S a)"
    unfolding u_def by (rule chain_grid [OF g r p rows])
  note f = message_edge_fields [OF m(1)]
  assume t: "text_of n t" "text_rel t = op_apply (message_edge c (length vs)) (st vs u)"
    and l: "client_loop (int n) (put_redge u (message_edge c (length vs)) (vs @ [new_vertice t])) u (length vs) = Some (vs', w, p')"
  have "\<exists>vs1 pos'. client_loop (int n) (put_redge u (message_edge c (length vs)) (vs @ [new_vertice t])) u (length vs) =
      Some (vs1, pos (a, b), pos' (a, Suc b)) \<and> grid S (points S a (Suc b)) vs1 pos'"
    unfolding u_def
  proof (rule grid_receive [OF ok g r p rows _ _ _ _ _ t(1)])
    show "op_ok (gst S ?p b) (message_edge c (length vs))" using o st f(4) by metis
    show "adjv (message_edge c (length vs)) = length vs" by (rule f(2))
    show "oid (message_edge c (length vs)) = oid (rop S (Suc b))" using f(1) m(2) by metis
    show "label (message_edge c (length vs)) = label (rop S (Suc b))" using message_edge_label m(2) by metis
    show "op_apply (message_edge c (length vs)) = op_apply (rop S (Suc b))" using f(5) m(2) by metis
    show "text_rel t = op_apply (message_edge c (length vs)) (gst S ?p b)" using t(2) st by simp
  qed
  then show "w = pos (a, b) \<and> (\<exists>pos'. grid S (points S a (Suc b)) vs' pos')" using l by auto
qed

text \<open>A new operation at the last point.\<close>

definition grow :: "sched \<Rightarrow> nat \<Rightarrow> dedge \<Rightarrow> nat \<Rightarrow> sched" where
  "grow S a d b = S\<lparr>lop := (lop S)(Suc a := d), lrow := (lrow S)(Suc a := b)\<rparr>"

lemma grow_simps [simp]:
  "lop (grow S a d b) x = (if x = Suc a then d else lop S x)" "rop (grow S a d b) = rop S"
  "lrow (grow S a d b) x = (if x = Suc a then b else lrow S x)" "rcol (grow S a d b) = rcol S" "origin (grow S a d b) = origin S"
  by (simp_all add: grow_def)

lemma grow_old [simp]:
  "x \<le> a \<Longrightarrow> gst (grow S a d b) x y = gst S x y" "x \<le> a \<Longrightarrow> loids (grow S a d b) x = loids S x"
  "roids (grow S a d b) y = roids S y" "x \<le> a \<Longrightarrow> before (grow S a d b) x y = before S x y"
  "x \<le> a \<Longrightarrow> points (grow S a d b) x y = points S x y"
proof -
  show "x \<le> a \<Longrightarrow> gst (grow S a d b) x y = gst S x y" by (rule gst_cong) auto
  show l: "x \<le> a \<Longrightarrow> loids (grow S a d b) x = loids S x" by (simp add: loids_def)
  show r: "roids (grow S a d b) y = roids S y" by (simp add: roids_def)
  show "x \<le> a \<Longrightarrow> before (grow S a d b) x y = before S x y" using l r by (simp add: before_def)
  show "x \<le> a \<Longrightarrow> points (grow S a d b) x y = points S x y" by (auto simp: points_def)
qed

lemma grid_grow: "grid S (points S a b) vs pos \<Longrightarrow> a \<le> A \<Longrightarrow> grid (grow S A d r) (points (grow S A d r) a b) vs pos"
  by (simp, erule grid_cong [of _ _ _ _ a b]) (auto simp: points_def)

lemma sched_ok_grow:
  assumes s: "sched_ok S A B" and b: "lrow S A \<le> b" "rcol S b \<le> A" "b \<le> B"
    and d: "op_ok (gst S A b) d" "good_oids [oid d]" "clear (loids S A @ [oid d]) (roids S B)"
  shows "sched_ok (grow S A d b) (Suc A) B"
proof -
  have o: "ordered S A B" "good_oids (loids S A @ roids S B)" using s by (simp_all add: sched_ok_def)
  have rc: "rcol S (Suc y) \<le> A" if "y < B" for y using o(1) that by (simp add: ordered_def)
  have "ordered (grow S A d b) (Suc A) B"
    using o(1) b unfolding ordered_def
    by (auto simp: less_Suc_eq le_Suc_eq)
  moreover have "\<forall>x < Suc A. op_ok (gst (grow S A d b) x (lrow (grow S A d b) (Suc x))) (lop (grow S A d b) (Suc x))"
    using s d(1) by (auto simp: sched_ok_def less_Suc_eq)
  moreover have "\<forall>y < B. op_ok (gst (grow S A d b) (rcol S (Suc y)) y) (rop S (Suc y))"
    using s rc by (auto simp: sched_ok_def)
  ultimately show ?thesis using d(2,3) o(2) by (simp add: sched_ok_def)
qed


section \<open>The link\<close>

text \<open>A command on its way, the operation it carries and its context.\<close>

definition carries :: "string \<Rightarrow> string list \<Rightarrow> dedge \<Rightarrow> (string \<Rightarrow> bool) \<Rightarrow> bool" where
  "carries k m d P \<longleftrightarrow> (\<exists>c ctx. argv c = m \<and> is_message c (oid d) ctx k \<and> message_edge c 0 = d \<and> P ctx)"

lemma carriesE:
  assumes "carries k (argv c) d P"
  obtains ctx where "is_message c (oid d) ctx k" "message_edge c 0 = d" "P ctx"
  using assms that unfolding carries_def is_message_def message_edge_def by metis

text \<open>
  The client has executed \<open>a\<close> operations of its own and \<open>b\<close> of the others, the server has seen
  \<open>a'\<close> of the client and has sent \<open>b'\<close>; \<open>vs\<close> and \<open>ws\<close> are the two spaces.
\<close>

definition link :: "string \<Rightarrow> sched \<Rightarrow> nat \<Rightarrow> nat \<Rightarrow> nat \<Rightarrow> nat \<Rightarrow> space \<Rightarrow> space \<Rightarrow> string list list \<Rightarrow> string list list \<Rightarrow> bool" where
  "link k S a b a' b' vs ws up down \<longleftrightarrow>
     a' \<le> a \<and> b \<le> b' \<and> sched_ok S a b' \<and> (\<forall>x \<le> a. lrow S x \<le> b) \<and> (\<forall>y \<le> b'. rcol S y \<le> a') \<and>
     (\<exists>pos. grid S (points S a b) vs pos) \<and> (\<exists>pos. grid S (points S a' b') ws pos) \<and>
     list_all2 (\<lambda>m x. carries k m (lop S (Suc x)) (context_at S x (lrow S (Suc x)))) up [a'..<a] \<and>
     list_all2 (\<lambda>m y. carries k m (rop S (Suc y)) (context_at S (rcol S (Suc y)) y)) down [b..<b']"

lemma grid_flip: "grid S (points S a b) vs pos \<Longrightarrow> \<exists>pos. grid (flip S) (points (flip S) b a) (mirror vs) pos"
  using grid_mirror [of S "points S a b" vs pos] unfolding points_flip by blast

lemma context_at_flip [simp]: "context_at (flip S) y x = context_at S x y"
  by (simp add: context_at_def fun_eq_iff)

lemma link_flip:
  assumes "link k S a b a' b' vs ws up down"
  shows "link k (flip S) b' a' b a (mirror ws) (mirror vs) down up"
  using assms grid_flip unfolding link_def by auto

lemma link_points:
  assumes "link k S a b a' b' vs ws up down"
  shows "(a, b) \<in> points S a b" "(a', b') \<in> points S a' b'"
  using assms unfolding link_def points_def by fastforce+

lemma link_last:
  assumes l: "link k S a b a' b' vs ws up down" and ok: "space_ok n vs" "oids_ok vs"
  shows "\<exists>w ctx. locateLVertice vs 0 = Some w \<and> st vs w = gst S a b \<and> (\<forall>pos. grid S (points S a b) vs pos \<longrightarrow> w = pos (a, b)) \<and>
    calculateOids vs 0 INIT = Some ctx \<and> context_at S a b ctx"
proof -
  obtain pos where g: "grid S (points S a b) vs pos" and s: "sched_ok S a b'" "b \<le> b'" using l by (auto simp: link_def)
  show ?thesis
    using grid_last [OF s(1) order_refl s(2) link_points(1) [OF l] _ ok] grid_last(1) [OF s(1) order_refl s(2) link_points(1) [OF l] g ok] g
    by (metis option.inject)
qed

lemma link_last_server:
  assumes l: "link k S a b a' b' vs ws up down" and ok: "space_ok n ws" "oids_ok ws"
  shows "\<exists>w ctx. locateLVertice ws 0 = Some w \<and> st ws w = gst S a' b' \<and> (\<forall>pos. grid S (points S a' b') ws pos \<longrightarrow> w = pos (a', b')) \<and>
    calculateOids ws 0 INIT = Some ctx \<and> context_at S a' b' ctx"
proof -
  obtain pos where g: "grid S (points S a' b') ws pos" and s: "sched_ok S a b'" "a' \<le> a" using l by (auto simp: link_def)
  show ?thesis
    using grid_last [OF s(1,2) order_refl link_points(2) [OF l] _ ok] grid_last(1) [OF s(1,2) order_refl link_points(2) [OF l] g ok] g
    by (metis option.inject)
qed

lemma carries_mono: "carries k m d P \<Longrightarrow> (\<And>ctx. P ctx \<Longrightarrow> Q ctx) \<Longrightarrow> carries k m d Q"
  unfolding carries_def by blast

text \<open>An operation of the client.\<close>

lemma link_generate:
  assumes l: "link k S a b a' b' vs ws up down" and w: "\<forall>pos. grid S (points S a b) vs pos \<longrightarrow> w = pos (a, b)"
    and d: "op_ok (gst S a b) d" "good_oids [oid d]" "clear (loids S a @ [oid d]) (roids S b')"
    and e: "adjv e = length vs" "oid e = oid d" "label e = label d" and t: "text_rel t = op_apply d (gst S a b)"
    and m: "carries k m d (context_at S a b)"
  shows "link k (grow S a d b) (Suc a) b a' b' (put_ledge w e (vs @ [new_vertice t])) ws (up @ [m]) down"
proof -
  let ?S = "grow S a d b"
  have L: "a' \<le> a" "b \<le> b'" "sched_ok S a b'" "\<forall>x \<le> a. lrow S x \<le> b" "\<forall>y \<le> b'. rcol S y \<le> a'"
      "list_all2 (\<lambda>m x. carries k m (lop S (Suc x)) (context_at S x (lrow S (Suc x)))) up [a'..<a]"
      "list_all2 (\<lambda>m y. carries k m (rop S (Suc y)) (context_at S (rcol S (Suc y)) y)) down [b..<b']"
    and "\<exists>pos. grid S (points S a b) vs pos" "\<exists>pos. grid S (points S a' b') ws pos"
    using l unfolding link_def by blast+
  then obtain pos pos' where g: "grid S (points S a b) vs pos" "grid S (points S a' b') ws pos'" by blast
  have ab: "(a, b) \<in> points S a b" by (rule link_points(1) [OF l])
  have ctx: "context_at ?S x y = context_at S x y" if "x \<le> a" for x y using that by (simp add: context_at_def fun_eq_iff)
  have rb: "rcol S b \<le> a" using L(1,2,5) by (meson order_trans)
  have "sched_ok ?S (Suc a) b'"
    using L(2,4) rb by (intro sched_ok_grow [OF L(3) _ _ _ d]) simp_all
  moreover have "gst ?S (Suc a) b = op_apply d (gst S a b)"
    using gst_local [of ?S a b] rb by simp
  then have "grid ?S (points ?S (Suc a) b) (put_ledge (pos (a, b)) e (vs @ [new_vertice t])) (pos((Suc a, b) := length vs))"
    using grid_local [OF grid_grow [OF g(1) order_refl, of d b]] ab e t by simp
  then have "\<exists>pos. grid ?S (points ?S (Suc a) b) (put_ledge w e (vs @ [new_vertice t])) pos" using w g(1) by auto
  moreover have "\<exists>pos. grid ?S (points ?S a' b') ws pos" using grid_grow [OF g(2) L(1)] by blast
  moreover have "list_all2 (\<lambda>m x. carries k m (lop ?S (Suc x)) (context_at ?S x (lrow ?S (Suc x)))) (up @ [m]) [a'..<Suc a]"
  proof -
    have "list_all2 (\<lambda>m x. carries k m (lop ?S (Suc x)) (context_at ?S x (lrow ?S (Suc x)))) up [a'..<a]"
      by (rule list.rel_mono_strong [OF L(6)]) (simp add: ctx)
    moreover have "carries k m (lop ?S (Suc a)) (context_at ?S a (lrow ?S (Suc a)))" using m ctx [of a b] by simp
    ultimately show ?thesis unfolding upt_Suc_append [OF L(1)] by (intro list_all2_appendI list.rel_intros)
  qed
  moreover have "list_all2 (\<lambda>m y. carries k m (rop ?S (Suc y)) (context_at ?S (rcol ?S (Suc y)) y)) down [b..<b']"
  proof (rule list.rel_mono_strong [OF L(7)])
    fix m y assume "y \<in> set [b..<b']" "carries k m (rop S (Suc y)) (context_at S (rcol S (Suc y)) y)"
    moreover have "rcol S (Suc y) \<le> a" if "y < b'" using that L(1,5) by (meson Suc_leI order_trans)
    ultimately show "carries k m (rop ?S (Suc y)) (context_at ?S (rcol ?S (Suc y)) y)" using ctx by simp
  qed
  ultimately show ?thesis using L(1,2,4,5) unfolding link_def by (simp add: le_Suc_eq)
qed

section \<open>The events at a link\<close>

text \<open>An operation of the client.\<close>

lemma SPLIT_UNION: "SPLIT \<noteq> UNION"
  by (simp add: UNION_def SPLIT_def)

lemma local_message:
  assumes "is_command c k" "local_edge c i v = Some e" "argv c' = local_command c k i ctx"
  shows "is_message c' i ctx k" "oid (message_edge c' 0) = i" "label (message_edge c' 0) = label e"
    "op_apply (message_edge c' 0) = op_apply e" "op_ok R (message_edge c' 0) \<longleftrightarrow> op_ok R e"
  using assms
  by (auto simp: is_command_def local_edge_def local_command_def is_message_def message_edge_def arg_def cmd_names label_def
      op_apply_def op_den_def op_ok_def createOpEdge_def fun_eq_iff SPLIT_UNION)

lemma link_local:
  assumes r: "replica n k g vs sv" and l: "link k S a b a' b' vs ws up down"
    and p: "6379 < port sv" "port sv < 16379" "0 \<le> op_num sv" "op_num sv < 9999"
    and c: "is_command c k" and chk: "checkArgv sv c = accept"
    and e: "\<forall>i v. \<forall>e \<in> set_option (local_edge c i v). op_ok (ufs_rel g) e"
    and fresh: "\<And>i. make_oid (port sv) (op_num sv + 1) = Some i \<Longrightarrow> clear (loids S a @ [i]) (roids S b')"
  shows "\<exists>sv' c' g' vs' d. local_op sv c = Some (sv', c') \<and> replica n k g' vs' sv' \<and>
    link k (grow S a d b) (Suc a) b a' b' vs' ws (up @ [argv c']) down \<and> make_oid (port sv) (op_num sv + 1) = Some (oid d) \<and>
    masterhost sv' = masterhost sv \<and> port sv' = port sv \<and> op_num sv' = op_num sv + 1 \<and> flag_ufs c' = 1"
proof -
  obtain sv' c' g' i ctx e t w where f: "local_op sv c = Some (sv', c')" "replica n k g' (put_ledge w e (vs @ [new_vertice t])) sv'"
    "locateLVertice vs 0 = Some w" "text_rel t = ufs_rel g'" "masterhost sv' = masterhost sv" "port sv' = port sv"
    "make_oid (port sv) (op_num sv + 1) = Some i" "calculateOids vs 0 INIT = Some ctx"
    "local_edge c i (length vs) = Some e" "ufs_rel g' = op_apply e (ufs_rel g)" "op_num sv' = op_num sv + 1"
    "argv c' = local_command c k i ctx" "flag_ufs c' = 1"
    using local_op_full [OF r p c chk e] by blast
  have ok: "space_ok n vs" "oids_ok vs" and at: "at_state n (ufs_rel g) vs"
    using r by (auto simp: replica_def in_step_def at_state_def)
  obtain w' ctx' where la: "locateLVertice vs 0 = Some w'" "st vs w' = gst S a b"
      "\<forall>pos. grid S (points S a b) vs pos \<longrightarrow> w' = pos (a, b)" "calculateOids vs 0 INIT = Some ctx'" "context_at S a b ctx'"
    using link_last [OF l ok] by blast
  then have eq: "w' = w" "ctx' = ctx" using f(3,8) by simp_all
  have R: "ufs_rel g = gst S a b" using at la(1,2) by (auto simp: at_state_def)
  note m = local_message [OF c f(9,12)]
  let ?d = "message_edge c' 0"
  obtain s where "make_oid (port sv) (op_num sv + 1) = Some s" "s \<noteq> []" "nul_free s" "COMMA \<notin> set s"
    using make_oid_ok [of "port sv" "op_num sv + 1"] p by auto
  then have i: "good_oids [oid ?d]" using f(7) m(2) by simp
  obtain e0 where "local_edge c i (length vs) = Some e0" "oid e0 = i" "adjv e0 = length vs"
    by (rule local_edge_fields [OF c, of i "length vs"])
  then have ef: "oid e = i" "adjv e = length vs" using f(9) by simp_all
  have "op_ok (ufs_rel g) e" using assms(9) f(9) by simp
  then have d: "op_ok (gst S a b) ?d" using m(5) R by simp
  have "link k (grow S a ?d b) (Suc a) b a' b' (put_ledge w e (vs @ [new_vertice t])) ws (up @ [argv c']) down"
  proof (rule link_generate [OF l _ d i])
    show "clear (loids S a @ [oid ?d]) (roids S b')" using fresh [OF f(7)] m(2) by simp
    show "oid e = oid ?d" "label e = label ?d" "adjv e = length vs" using ef m(2,3) by simp_all
    show "text_rel t = op_apply ?d (gst S a b)" using f(4,10) m(4) R by simp
    show "carries k (argv c') ?d (context_at S a b)"
      unfolding carries_def using m(1,2) la(5) eq(2) by (intro exI [of _ c'] exI [of _ ctx]) simp
  qed (use la(3) eq in simp)
  then show ?thesis using f m(2) by blast
qed

text \<open>An operation of the server arrives at the client.\<close>

lemma link_head:
  assumes "link k S a b a' b' vs ws up (m # down)"
  shows "b < b'" "carries k m (rop S (Suc b)) (context_at S (rcol S (Suc b)) b)"
    "list_all2 (\<lambda>m y. carries k m (rop S (Suc y)) (context_at S (rcol S (Suc y)) y)) down [Suc b..<b']"
proof -
  have l: "list_all2 (\<lambda>m y. carries k m (rop S (Suc y)) (context_at S (rcol S (Suc y)) y)) (m # down) [b..<b']"
    using assms by (simp add: link_def)
  then show b: "b < b'" by (cases "b < b'") simp_all
  show "carries k m (rop S (Suc b)) (context_at S (rcol S (Suc b)) b)"
    "list_all2 (\<lambda>m y. carries k m (rop S (Suc y)) (context_at S (rcol S (Suc y)) y)) down [Suc b..<b']"
    using l unfolding upt_conv_Cons [OF b] by simp_all
qed

lemma link_oid_good:
  assumes "link k S a b a' b' vs ws up down"
  shows "y < b' \<Longrightarrow> good_oids [oid (rop S (Suc y))]" "x < a \<Longrightarrow> good_oids [oid (lop S (Suc x))]"
  using assms unfolding link_def sched_ok_def good_oids_def by (auto simp: roids_def loids_def)

lemma link_remote:
  assumes r: "replica n k g vs sv" and l: "link k S a b a' b' vs ws up (argv c # down)"
  shows "\<exists>sv' g' vs'. remote_op sv c = Some (sv', confirm c) \<and> replica n k g' vs' sv' \<and>
    link k S a (Suc b) a' b' vs' ws up down \<and> masterhost sv' = masterhost sv \<and> port sv' = port sv \<and> op_num sv' = op_num sv"
proof -
  note h = link_head [OF l]
  have ok: "space_ok n vs" "oids_ok vs" using r by (auto simp: replica_def in_step_def at_state_def)
  have L: "a' \<le> a" "b \<le> b'" "sched_ok S a b'" "\<forall>x \<le> a. lrow S x \<le> b" "\<forall>y \<le> b'. rcol S y \<le> a'"
    using l unfolding link_def by blast+
  obtain pos where g: "grid S (points S a b) vs pos" using l unfolding link_def by blast
  obtain ctx where m: "is_message c (oid (rop S (Suc b))) ctx k" "message_edge c 0 = rop S (Suc b)" "context_at S (rcol S (Suc b)) b ctx"
    by (rule carriesE [OF h(2)])
  have p: "rcol S (Suc b) \<le> a" using L(1,5) h(1) by (meson Suc_leI order_trans)
  note A = arrival [OF L(3) order_refl h(1) g ok(1) p L(4) m(1,2)]
  have S: "ordered S a b'" "clear (loids S a) (roids S b')" "good_oids (loids S a @ roids S b')"
    using L(3) by (simp_all add: sched_ok_def)
  have loc: "locateVertice vs (Some ctx) = Some (Some (pos (rcol S (Suc b), b)))"
    by (rule locate_context [OF S(1) order_refl L(2) g S(2,3) m(3) A(1)])
  obtain w where w: "locateLVertice vs 0 = Some w" "w = pos (a, b)" using link_last [OF l ok] g by blast
  have con: "concurrent vs (pos (rcol S (Suc b), b))" using A(3) w unfolding concurrent_def by blast
  have i: "oid (rop S (Suc b)) \<noteq> []" "nul_free (oid (rop S (Suc b)))" "COMMA \<notin> set (oid (rop S (Suc b)))"
    using link_oid_good(1) [OF l h(1)] by simp_all
  obtain sv' g' vs' t w' p' where f: "remote_op sv c = Some (sv', confirm c)" "replica n k g' vs' sv'"
      "masterhost sv' = masterhost sv" "port sv' = port sv" "op_num sv' = op_num sv" "text_of n t"
      "text_rel t = op_apply (message_edge c (length vs)) (st vs (pos (rcol S (Suc b), b)))"
      "client_loop (int n) (put_redge (pos (rcol S (Suc b), b)) (message_edge c (length vs)) (vs @ [new_vertice t]))
        (pos (rcol S (Suc b), b)) (length vs) = Some (vs', w', p')"
    using remote_op_full [OF r m(1) i loc con A(2)] by blast
  have "\<exists>pos'. grid S (points S a (Suc b)) vs' pos'" using A(4) [OF f(6-8)] by blast
  then have "link k S a (Suc b) a' b' vs' ws up down"
    using l L h(1,3) unfolding link_def by (auto intro: le_SucI)
  then show ?thesis using f(1-5) by blast
qed


text \<open>An operation of the client arrives at the server.\<close>

lemma context_at_extend:
  assumes "context_at S p q ctx" "good_oids (map oid es)" "before S p' q' = before S p q + mset (map oid es)"
  shows "context_at S p' q' (add_oids (sdsnew ctx) es)"
proof -
  obtain cs where cs: "good_oids cs" "ctx = context_text INIT cs" "mset cs = before S p q"
    using assms(1) by (auto simp: context_at_def)
  have "sdsnew ctx = ctx" using good_context(1) [OF cs(1)] cs(2) by simp
  moreover have "add_oids ctx es = context_text ctx (map oid es)"
    using assms(2) by (intro add_oids_context) (auto simp: good_oids_def)
  ultimately have "add_oids (sdsnew ctx) es = context_text INIT (cs @ map oid es)" using cs(2) by (simp add: context_text_append)
  then show ?thesis
    using cs(1,3) assms(2,3) unfolding context_at_def by (intro exI [of _ "cs @ map oid es"]) simp
qed

lemma link_server:
  assumes sp: "sspacelist sv = Some sp" "hub n k R sp" "nul_free k" "locateVerlist sp (slave_listening_port c) k = Some si"
    and l: "link k S a b a' b' vs (svertices (sp ! si)) (argv c # up) down"
  shows "\<exists>sp' c' ws' e'. server_op sv c = Some (sv\<lparr>sspacelist := Some sp'\<rparr>, c') \<and> hub n k (op_apply e' R) sp' \<and> flag_ufs c' = 1 \<and>
    forward (sp[si := (sp ! si)\<lparr>svertices := ws'\<rparr>]) k (slave_listening_port c) e' (int n) = Some sp' \<and>
    link k S a b (Suc a') b' vs ws' up down \<and> carries k (argv c') (message_edge c' 0) (context_at S a' b') \<and>
    oid e' = oid (lop S (Suc a')) \<and> op_ok R e' \<and> op_ok R (message_edge c' 0) \<and> oid (message_edge c' 0) = oid e' \<and>
    label (message_edge c' 0) = label e' \<and> op_apply (message_edge c' 0) = op_apply e'"
proof -
  let ?ws = "svertices (sp ! si)" and ?q = "lrow S (Suc a')" and ?F = "flip S"
  have s: "si < length sp" "skey (sp ! si) = k" using sp(4) by (auto simp: locateVerlist_def first_index_Some sdscmp_eq_0)
  have ok: "space_ok n ?ws" "oids_ok ?ws" and at: "at_state n R ?ws" using hub_at [OF sp(2) s] by (auto simp: at_state_def)
  note lf = link_flip [OF l]
  note h = link_head [OF lf, simplified]
  have L: "a' \<le> a" "b \<le> b'" "sched_ok S a b'" "\<forall>x \<le> a. lrow S x \<le> b" "\<forall>y \<le> b'. rcol S y \<le> a'"
    using l unfolding link_def by blast+
  obtain pos where g: "grid S (points S a' b') ?ws pos" using l unfolding link_def by blast
  have gm: "grid ?F (points ?F b' a') (mirror ?ws) (pos \<circ> prod.swap)" using grid_mirror [OF g] by (simp add: points_flip)
  obtain ctx where m: "is_message c (oid (lop S (Suc a'))) ctx k" "message_edge c 0 = lop S (Suc a')" "context_at S a' ?q ctx"
    by (rule carriesE [OF h(2)])
  have q: "?q \<le> b'" using L(2,4) h(1) by (meson Suc_leI order_trans)
  have sf: "sched_ok ?F b' a" and okm: "space_ok n (mirror ?ws)" using L(3) ok(1) by simp_all
  note A = arrival [OF sf order_refl h(1) gm okm, simplified, OF q L(5) m(1,2)]
  have D: "(a', ?q) \<in> points S a' b'" using A(1) unfolding points_flip by auto
  have S: "ordered S a b'" "clear (loids S a) (roids S b')" "good_oids (loids S a @ roids S b')"
    using L(3) by (simp_all add: sched_ok_def)
  have loc: "locateVertice ?ws (Some ctx) = Some (Some (pos (a', ?q)))"
    by (rule locate_context [OF S(1) L(1) order_refl g S(2,3) m(3) D])
  have ul: "pos (a', ?q) < length ?ws" by (rule gridD(1) [OF g D])
  obtain w where w: "locateLVertice ?ws 0 = Some w" "w = pos (a', b')" using link_last_server [OF l ok] g by blast
  have acc: "get_ledge (mirror ?ws) = get_redge ?ws" by (rule ext) (rule mirror_access)
  obtain es where es: "chain_path (get_redge ?ws) (pos (a', ?q)) es w" "mset (roids S ?q) + mset (map oid es) = mset (roids S b')"
    using A(3) w(2) unfolding acc by auto
  have con: "server_concurrent ?ws (pos (a', ?q))" using es(1) w(1) unfolding server_concurrent_def by blast
  have i: "oid (lop S (Suc a')) \<noteq> []" "nul_free (oid (lop S (Suc a')))" "COMMA \<notin> set (oid (lop S (Suc a')))"
    using link_oid_good(2) [OF l h(1)] by simp_all
  have eo: "op_ok (st ?ws (pos (a', ?q))) (message_edge c 0)" using A(2) ul by simp
  obtain sp' c' e' vs' w' p' t es' os where f: "server_op sv c = Some (sv\<lparr>sspacelist := Some sp'\<rparr>, c')"
    "is_message c' (oid (lop S (Suc a'))) (add_oids (sdsnew ctx) es') k" "flag_ufs c' = 1" "op_ok R (message_edge c' 0)"
    "op_apply (message_edge c' 0) = op_apply e'" "optype (message_edge c' 0) = optype e'" "argv1 (message_edge c' 0) = argv1 e'"
    "hub n k (op_apply e' R) sp'" "op_ok R e'" "oid e' = oid (lop S (Suc a'))" "get_ledge vs' w' = Some e'"
    "text_of n t" "text_rel t = op_apply (message_edge c (length ?ws)) (st ?ws (pos (a', ?q)))"
    "client_loop (int n) (put_redge (pos (a', ?q)) (message_edge c (length ?ws)) (mirror ?ws @ [new_vertice t])) (pos (a', ?q))
      (length ?ws) = Some (mirror vs', w', p')"
    "locateLVertice ?ws 0 = Some w'" "chain_path (get_redge ?ws) (pos (a', ?q)) es' w'"
    "forward (sp[si := (sp ! si)\<lparr>svertices := vs'\<rparr>]) k (slave_listening_port c) e' (int n) = Some sp'"
    "path ?ws 0 (os @ map oid es') w'"
    by (rule server_op_full [OF sp(1-3) m(1) i sp(4) loc con eo])
  have "es' = es" using chain_path_unique [OF es(1) f(16)] by simp
  have "\<exists>pos'. grid ?F (points ?F b' (Suc a')) (mirror vs') pos'"
    using A(4) [of t "mirror vs'" w' p'] f(12-14) ul by simp
  then obtain pos' where "grid S (points S (Suc a') b') vs' pos'" using grid_flip [of ?F b' "Suc a'" "mirror vs'"] by auto
  then have lk: "link k S a b (Suc a') b' vs vs' up down"
    using l L h(1,3) unfolding link_def by (auto intro: le_SucI)
  have "good_oids (map oid es)" using path_good [OF f(18) ok(2)] \<open>es' = es\<close> by simp
  moreover have "before S a' b' = before S a' ?q + mset (map oid es)" using es(2) by (simp add: before_def ac_simps)
  ultimately have cx: "context_at S a' b' (add_oids (sdsnew ctx) es')"
    using context_at_extend [OF m(3)] \<open>es' = es\<close> by blast
  have o: "oid (message_edge c' 0) = oid e'" using message_edge_fields(1) [OF f(2)] f(10) by simp
  have cr: "carries k (argv c') (message_edge c' 0) (context_at S a' b')"
    unfolding carries_def using f(2,10) o cx by (intro exI [of _ c'] exI [of _ "add_oids (sdsnew ctx) es'"]) simp
  have "label (message_edge c' 0) = label e'" using f(6,7) by (simp add: label_def)
  then show ?thesis using f(1,3-5,8-10,17) lk cr o
    by (intro exI [of _ sp'] exI [of _ c'] exI [of _ vs'] exI [of _ e']) simp
qed

text \<open>The server forwards an operation to another client.\<close>

lemma link_forward:
  assumes l: "link k S a b a' b' vs ws up down" and at: "at_state n R ws" and fw: "forward_to e (int n) ws = Some ws'" "op_ok R e"
    and d: "op_ok R d" "good_oids [oid d]" "clear (loids S a) (roids S b' @ [oid d])" "oid d = oid e" "label d = label e" "op_apply d = op_apply e"
    and m: "carries k m d (context_at S a' b')"
  shows "link k (flip (grow (flip S) b' d a')) a b a' (Suc b') vs ws' up (down @ [m])"
proof -
  let ?d = "createOpEdge (optype e) (argv1 e) (argv2 e) (oid e) (length ws)"
  have ok: "space_ok n ws" "oids_ok ws" using at by (auto simp: at_state_def)
  obtain w t where f: "locateLVertice ws 0 = Some w" "w < length ws" "text_of n t" "text_rel t = op_apply e R"
      "forward_to e (int n) ws = Some (put_redge w ?d (ws @ [new_vertice t]))"
    by (rule forward_to_full [OF at fw(2)])
  obtain w' where w': "locateLVertice ws 0 = Some w'" "st ws w' = gst S a' b'" "\<forall>pos. grid S (points S a' b') ws pos \<longrightarrow> w' = pos (a', b')"
    using link_last_server [OF l ok] by blast
  then have weq: "w' = w" using f(1) by simp
  have R: "R = gst S a' b'" using at w'(1,2) by (auto simp: at_state_def)
  have "link k (grow (flip S) b' d a') (Suc b') a' b a (put_ledge w ?d (mirror ws @ [new_vertice t])) (mirror vs) (down @ [m]) up"
  proof (rule link_generate [OF link_flip [OF l]])
    show "\<forall>pos. grid (flip S) (points (flip S) b' a') (mirror ws) pos \<longrightarrow> w = pos (b', a')"
    proof (intro allI impI)
      fix pos assume "grid (flip S) (points (flip S) b' a') (mirror ws) pos"
      then have "grid S (points S a' b') ws (pos \<circ> prod.swap)"
        using grid_mirror [of "flip S" _ "mirror ws" pos] points_flip [of "flip S"] by simp
      then show "w = pos (b', a')" using w'(3) weq by auto
    qed
    show "clear (loids (flip S) b' @ [oid d]) (roids (flip S) a)" using d(3) by (simp add: clear_flip)
    show "adjv ?d = length (mirror ws)" "oid ?d = oid d" "label ?d = label d"
      using d(4,5) by (simp_all add: createOpEdge_def label_def)
    show "text_rel t = op_apply d (gst (flip S) b' a')" using f(4) d(6) R by (simp add: gst_flip)
  qed (use d R m in \<open>simp_all add: gst_flip\<close>)
  moreover have "mirror (put_ledge w ?d (mirror ws @ [new_vertice t])) = ws'"
    using f(2,5) fw(1) mirror_put(2) [of w "mirror ws @ [new_vertice t]" ?d] by simp
  ultimately show ?thesis using link_flip by fastforce
qed


end
