(* ===== verification/Network.thy ===== *)
theory Network
  imports Link
begin

text \<open>
  The server and its clients together: every client executes operations of its users and sends them to the
  server, the server transforms and forwards them, and the clients execute what the server forwards, each by
  \<^verbatim>\<open>controlAlg\<close>; the connections deliver commands in order. Shown is that no reachable state has an undefined
  execution, that deliveries come to an end, and that all replicas then hold the same classes.
\<close>

section \<open>Model\<close>

text \<open>Clients are named by the port they listen on.\<close>

record network =
  hub_server :: server
  nodes :: "int \<Rightarrow> server"
  to_server :: "int \<Rightarrow> string list list"
  to_node :: "int \<Rightarrow> string list list"

definition conn :: "int \<Rightarrow> bool \<Rightarrow> string list \<Rightarrow> client" where
  "conn p m as = \<lparr>argv = as, flag_ufs = 0, from_master = m, slave_listening_port = p, replies = []\<rparr>"

text \<open>
  Commands of users. A union may have any arguments, names or sets or \<open>*\<close>, accepted or rejected, with two
  exceptions where the code itself leaves its memory: a set whose first name does not exist, and a set whose
  first name does not fit into the ten bytes of \<^verbatim>\<open>findstr\<close> and \<^verbatim>\<open>cpltClass\<close>. A split may have any argument
  whose check is defined, but a split of several elements that would be accepted is left out: the
  transformation of such a split is wrong.
\<close>

definition short :: "string \<Rightarrow> bool" where
  "short a \<longleftrightarrow> (COMMA \<in> set a \<longrightarrow> length (hd (args a)) < 10)"

definition request :: "string \<Rightarrow> server \<Rightarrow> string list \<Rightarrow> bool" where
  "request k sv as \<longleftrightarrow> (\<exists>g. graph_of sv k = Some g \<and>
     ((\<exists>a b. as = [UNION, a, b, k] \<and> nul_free a \<and> nul_free b \<and> \<not> union_lost g a b \<and> short a \<and> short b) \<or>
      (\<exists>s. as = [SPLIT, s, k] \<and> nul_free s \<and> \<not> lost g s \<and> (valid_arg (ufs_rel g) s \<longrightarrow> COMMA \<notin> set s))))"

text \<open>A command whose execution has marked it for propagation is sent.\<close>

definition sent :: "client \<Rightarrow> string list list" where
  "sent c = (if flag_ufs c = 1 then [argv c] else [])"

inductive deliver :: "int list \<Rightarrow> network \<Rightarrow> network \<Rightarrow> bool" for ps where
  at_server: "p \<in> set ps \<Longrightarrow> to_server N p = m # ms \<Longrightarrow> controlAlg (hub_server N) (conn p False m) = Some (sv', c') \<Longrightarrow>
    deliver ps N (N\<lparr>hub_server := sv', to_server := (to_server N)(p := ms),
      to_node := (\<lambda>q. if q \<in> set ps \<and> q \<noteq> p then to_node N q @ sent c' else to_node N q)\<rparr>)"
| at_node: "p \<in> set ps \<Longrightarrow> to_node N p = m # ms \<Longrightarrow> controlAlg (nodes N p) (conn p True m) = Some (sv', c') \<Longrightarrow>
    deliver ps N (N\<lparr>nodes := (nodes N)(p := sv'), to_node := (to_node N)(p := ms)\<rparr>)"

inductive net_step :: "int list \<Rightarrow> string \<Rightarrow> network \<Rightarrow> network \<Rightarrow> bool" for ps k where
  user: "p \<in> set ps \<Longrightarrow> request k (nodes N p) as \<Longrightarrow> op_num (nodes N p) < 9999 \<Longrightarrow>
    controlAlg (nodes N p) (conn p False as) = Some (sv', c') \<Longrightarrow>
    net_step ps k N (N\<lparr>nodes := (nodes N)(p := sv'), to_server := (to_server N)(p := to_server N p @ sent c')\<rparr>)"
| delivery: "deliver ps N N' \<Longrightarrow> net_step ps k N N'"

text \<open>All servers have executed the same \<^verbatim>\<open>uinit\<close>, and nothing is under way.\<close>

definition initial :: "int list \<Rightarrow> string \<Rightarrow> string \<Rightarrow> network \<Rightarrow> bool" where
  "initial ps k t N \<longleftrightarrow> distinct ps \<and> (\<forall>p \<in> set ps. 6379 < p \<and> p < 16379) \<and> nul_free k \<and> initial_text t \<and>
     (\<exists>sv c cmd. \<not> masterhost sv \<and> slaves sv = Some ps \<and>
        (\<forall>l. sspacelist sv = Some l \<longrightarrow> (\<forall>s \<in> set l. nul_free (skey s) \<and> skey s \<noteq> k)) \<and>
        argv c = [cmd, k, t] \<and> uinitCommand sv c = Some (hub_server N, confirm c)) \<and>
     (\<forall>p \<in> set ps. to_server N p = [] \<and> to_node N p = [] \<and>
        (\<exists>sv c cmd. masterhost sv \<and> port sv = p \<and> 0 \<le> op_num sv \<and> op_num sv \<le> 9999 \<and> unused sv k \<and>
           argv c = [cmd, k, t] \<and> uinitCommand sv c = Some (nodes N p, confirm c)))"

definition quiet :: "int list \<Rightarrow> network \<Rightarrow> bool" where
  "quiet ps N \<longleftrightarrow> (\<forall>p \<in> set ps. to_server N p = [] \<and> to_node N p = [])"

section \<open>Identifiers\<close>

text \<open>The identifier of the operation with the given number at the given port.\<close>

definition oid_of :: "int \<times> int \<Rightarrow> string" where
  "oid_of h = (case make_oid (fst h) (snd h) of Some s \<Rightarrow> s | None \<Rightarrow> [])"

definition valid_id :: "int \<times> int \<Rightarrow> bool" where
  "valid_id h \<longleftrightarrow> 6379 < fst h \<and> fst h < 16379 \<and> 0 < snd h \<and> snd h \<le> 9999"

lemma oid_of_valid:
  assumes "valid_id h"
  shows "make_oid (fst h) (snd h) = Some (oid_of h)" "good_oids [oid_of h]"
proof -
  obtain s where "make_oid (fst h) (snd h) = Some s" "s \<noteq> []" "nul_free s" "COMMA \<notin> set s"
    using make_oid_ok [of "fst h" "snd h"] assms by (auto simp: valid_id_def)
  then show "make_oid (fst h) (snd h) = Some (oid_of h)" "good_oids [oid_of h]" by (simp_all add: oid_of_def)
qed

lemma number_prefix:
  assumes "prefix s t"
  shows "number 10 0 s \<le> number 10 0 t"
proof -
  have d: "0 \<le> digit c" for c by (simp add: digit_def split: option.splits)
  have nn: "0 \<le> v \<Longrightarrow> v \<le> number 10 v s" for v s
  proof (induction s arbitrary: v)
    case (Cons c s)
    have "v \<le> v * 10 + digit c" using Cons.prems d [of c] by simp
    moreover have "v * 10 + digit c \<le> number 10 (v * 10 + digit c) s" using Cons d [of c] by simp
    ultimately show ?case by simp
  qed simp
  have ap: "number 10 v (s @ u) = number 10 (number 10 v s) u" for v s u by (induction s arbitrary: v) simp_all
  obtain u where "t = s @ u" using assms by (auto elim: prefixE)
  then show ?thesis using nn [of "number 10 0 s" u] nn [of 0 s] ap by simp
qed

lemma oid_prefix:
  assumes h: "valid_id h" "valid_id h'" and p: "prefix (oid_of h) (oid_of h')"
  shows "fst h = fst h' \<and> snd h \<le> snd h'"
proof -
  obtain s1 s2 where a: "oid_of h = s1 @ CHR ''_'' # s2" "s1 = itos_loop (fst h - 6379) 10 []" "s2 = itos_loop (snd h) 10 []"
    "set s1 \<subseteq> set zm" "set s2 \<subseteq> set zm" by (rule make_oid_eq [OF oid_of_valid(1) [OF h(1)]])
  obtain t1 t2 where b: "oid_of h' = t1 @ CHR ''_'' # t2" "t1 = itos_loop (fst h' - 6379) 10 []" "t2 = itos_loop (snd h') 10 []"
    "set t1 \<subseteq> set zm" "set t2 \<subseteq> set zm" by (rule make_oid_eq [OF oid_of_valid(1) [OF h(2)]])
  obtain u where u: "t1 @ CHR ''_'' # t2 = s1 @ CHR ''_'' # (s2 @ u)" using p a(1) b(1) by (auto elim: prefixE)
  have n: "CHR ''_'' \<notin> set s1" "CHR ''_'' \<notin> set t1" using a(4) b(4) zm_chars(1) by blast+
  have e: "t2 = s2 @ u" by (rule same_rest [OF n(2,1) u])
  then have "t1 = s1" using u by simp
  then have "number 10 0 (itos_loop (fst h - 6379) 10 []) = number 10 0 (itos_loop (fst h' - 6379) 10 [])" using a(2) b(2) by simp
  then have 1: "fst h = fst h'" using h by (simp add: itos_loop_number valid_id_def)
  have "number 10 0 (itos_loop (snd h) 10 []) \<le> number 10 0 (itos_loop (snd h') 10 [])"
    using number_prefix [of s2 t2] e a(3) b(3) by simp
  then have "snd h \<le> snd h'" using h by (simp add: itos_loop_number valid_id_def)
  then show ?thesis using 1 by simp
qed

text \<open>The numbers of a port grow.\<close>

definition growing :: "(int \<times> int) list \<Rightarrow> bool" where
  "growing H \<longleftrightarrow> sorted_wrt (\<lambda>h h'. fst h = fst h' \<longrightarrow> snd h < snd h') H"

lemma clear_ids:
  assumes "growing L" "growing M" "\<forall>h \<in> set L \<union> set M. valid_id h" "fst ` set L \<inter> fst ` set M = {}"
  shows "clear (map oid_of L) (map oid_of M)"
proof -
  have one: "\<not> prefix (map oid_of X ! i) (map oid_of X ! j)"
    if "growing X" "\<forall>h \<in> set X. valid_id h" "i < length X" "j < i" for X i j
  proof
    assume "prefix (map oid_of X ! i) (map oid_of X ! j)"
    then have "fst (X ! i) = fst (X ! j) \<and> snd (X ! i) \<le> snd (X ! j)" using that by (intro oid_prefix) simp_all
    moreover have "fst (X ! j) = fst (X ! i) \<longrightarrow> snd (X ! j) < snd (X ! i)"
      using sorted_wrt_nth_less [OF that(1) [unfolded growing_def] that(4,3)] .
    ultimately show False by simp
  qed
  have "fst h \<noteq> fst h'" if "h \<in> set L" "h' \<in> set M" for h h' using assms(4) that by blast
  then have "\<not> prefix (oid_of h) (oid_of h') \<and> \<not> prefix (oid_of h') (oid_of h)" if "h \<in> set L" "h' \<in> set M" for h h'
    using oid_prefix [of h h'] oid_prefix [of h' h] assms(3) that by (metis UnI1 UnI2)
  then show ?thesis using one [OF assms(1)] one [OF assms(2)] assms(3) unfolding clear_def by auto
qed

section \<open>Accepted and rejected requests\<close>

lemma valid_targ:
  assumes g: "ufs_ok g" "names_ok g" and a: "valid_arg (ufs_rel g) a" "short a"
  shows "targ (ufs_rel g) a"
proof -
  have "args a \<noteq> []" by (simp add: args_def)
  moreover have "nms (args a)" using valid_names [OF g(1) a(1)] g(2) calculation by (auto simp: nms_def names_ok_def)
  ultimately show ?thesis using a comma_args [of a]
    by (auto simp: targ_def arg_ok_def valid_arg_def one_class_def within_class_def short_def)
qed

lemma union_targ:
  assumes g: "graph_fine g" and u: "union_valid g a b" "short a" "short b"
  shows "targ (ufs_rel g) a" "targ (ufs_rel g) b"
proof -
  have fine: "ufs_ok g" "names_ok g" using g by (simp_all add: graph_fine_def)
  have name: "targ (ufs_rel g) x" if "x \<in> names g" for x
    using valid_targ [OF fine, of x] valid_single [OF fine(1), of x] that fine(2) by (auto simp: names_ok_def short_def)
  have star: "targ (ufs_rel g) star" by (simp add: targ_def)
  show "targ (ufs_rel g) a" "targ (ufs_rel g) b"
    using u name star valid_targ [OF fine] unfolding union_valid_def by (auto split: if_splits)
qed

lemma request_cases:
  assumes r: "replica n k g vs sv" and q: "request k sv as" and c: "argv c = as"
  obtains (ok) "is_command c k" "checkArgv sv c = accept" "\<forall>i v. \<forall>e \<in> set_option (local_edge c i v). op_ok (ufs_rel g) e"
    | (bad) e where "last_arg c = Some k" "checkArgv sv c = Some (Inl e)"
proof -
  have g: "graph_of sv k = Some g" "graph_fine g" using r by (simp_all add: replica_def in_step_def)
  have fine: "ufs_ok g" "names_ok g" using g(2) by (simp_all add: graph_fine_def)
  from q g(1) consider (union) a b where "as = [UNION, a, b, k]" "nul_free a" "nul_free b" "\<not> union_lost g a b" "short a" "short b"
    | (split) s where "as = [SPLIT, s, k]" "nul_free s" "\<not> lost g s" "valid_arg (ufs_rel g) s \<longrightarrow> COMMA \<notin> set s"
    by (auto simp: request_def)
  then show thesis
  proof cases
    case union
    have cmd: "is_command c k" "last_arg c = Some k" using union(1) c by (auto simp: is_command_def last_arg_def)
    obtain e where e: "checkArgv sv c = (if union_valid g a b then accept else Some (Inl e))"
      using check_union [OF g(1)] checkUnionArgv_cases [OF fine(1) union(2,3)] union(1,4) c by metis
    show thesis
    proof (cases "union_valid g a b")
      case True
      have "\<forall>i v. \<forall>e \<in> set_option (local_edge c i v). op_ok (ufs_rel g) e"
        using union_targ [OF g(2) True union(5,6)] union(1) c
        by (simp add: local_edge_def arg_def cmd_names op_ok_def createOpEdge_def)
      then show thesis using ok cmd(1) e True by simp
    next
      case False
      then have "checkArgv sv c = Some (Inl e)" using e if_not_P [OF False] by metis
      then show thesis by (rule bad [OF cmd(2)])
    qed
  next
    case split
    have cmd: "is_command c k" "last_arg c = Some k" using split(1) c by (auto simp: is_command_def last_arg_def)
    obtain e where chk: "checkArgv sv c = (if valid_arg (ufs_rel g) s then accept else Some (Inl e))"
      using check_split [OF g(1), of c s] checkSplitArgv_eq [OF fine(1) split(2)] split(1,3) c by metis
    show thesis
    proof (cases "valid_arg (ufs_rel g) s")
      case True
      then have s: "s \<in> names g" using valid_single [OF fine(1), of s] split(4) by simp
      then have "sarg (ufs_rel g) s" using fine(2) equiv_refl [OF equiv_ufs_rel [OF fine(1)]] by (auto simp: sarg_def names_ok_def)
      then have "\<forall>i v. \<forall>e \<in> set_option (local_edge c i v). op_ok (ufs_rel g) e"
        using split(1) c by (simp add: local_edge_def arg_def cmd_names op_ok_def createOpEdge_def)
      then show thesis using ok cmd(1) chk True by simp
    next
      case False
      then have "checkArgv sv c = Some (Inl e)" using chk if_not_P [OF False] by metis
      then show thesis by (rule bad [OF cmd(2)])
    qed
  qed
qed

section \<open>The invariant\<close>

text \<open>
  What the proofs know of a client besides its state: the schedule of its link, the progress of both
  sides, the graph and the space of its replica, and the number of operations it had executed before.
\<close>

record view =
  sch :: sched
  own :: nat
  seen :: nat
  done_own :: nat
  done_sent :: nat
  graph :: cudGraph
  space_of :: space
  start :: int

definition ids :: "int \<Rightarrow> int \<Rightarrow> nat \<Rightarrow> (int \<times> int) list" where
  "ids p s m = map (\<lambda>x. (p, s + 1 + int x)) [0..<m]"

definition own_ids :: "int \<Rightarrow> (int \<times> int) list \<Rightarrow> (int \<times> int) list" where
  "own_ids p H = filter (\<lambda>h. fst h = p) H"

definition other_ids :: "int \<Rightarrow> (int \<times> int) list \<Rightarrow> (int \<times> int) list" where
  "other_ids p H = filter (\<lambda>h. fst h \<noteq> p) H"

text \<open>\<open>H\<close> lists the operations that the server has processed.\<close>

definition node_ok :: "string \<Rightarrow> nat \<Rightarrow> (int \<times> int) list \<Rightarrow> verlist list \<Rightarrow> int \<Rightarrow> server \<Rightarrow> string list list \<Rightarrow> string list list \<Rightarrow> view \<Rightarrow> bool" where
  "node_ok k n H sp p sv up down v \<longleftrightarrow>
     masterhost sv \<and> port sv = p \<and> 0 \<le> start v \<and> op_num sv = start v + int (own v) \<and> op_num sv \<le> 9999 \<and>
     replica n k (graph v) (space_of v) sv \<and>
     (\<exists>si. locateVerlist sp p k = Some si \<and>
        link k (sch v) (own v) (seen v) (done_own v) (done_sent v) (space_of v) (svertices (sp ! si)) up down) \<and>
     loids (sch v) (own v) = map oid_of (ids p (start v) (own v)) \<and> own_ids p H = ids p (start v) (done_own v) \<and>
     roids (sch v) (done_sent v) = map oid_of (other_ids p H)"

definition net_ok :: "int list \<Rightarrow> string \<Rightarrow> network \<Rightarrow> nat \<Rightarrow> (string \<times> string) set \<Rightarrow> (int \<times> int) list \<Rightarrow> verlist list \<Rightarrow> (int \<Rightarrow> view) \<Rightarrow> bool" where
  "net_ok ps k N n R H sp v \<longleftrightarrow> (\<forall>p \<in> set ps. 6379 < p \<and> p < 16379) \<and> nul_free k \<and>
     \<not> masterhost (hub_server N) \<and> sspacelist (hub_server N) = Some sp \<and> hub n k R sp \<and>
     growing H \<and> (\<forall>h \<in> set H. fst h \<in> set ps \<and> valid_id h) \<and>
     (\<forall>p \<in> set ps. node_ok k n H sp p (nodes N p) (to_server N p) (to_node N p) (v p))"

lemma ids_simps [simp]:
  "ids p s 0 = []" "ids p s (Suc m) = ids p s m @ [(p, s + 1 + int m)]" "length (ids p s m) = m"
  by (simp_all add: ids_def)

lemma ids_growing: "growing (ids p s m)"
  by (induction m) (auto simp: growing_def sorted_wrt_append ids_def)

lemma own_other_simps [simp]:
  "own_ids p [] = []" "other_ids p [] = []"
  "own_ids p (H @ [h]) = own_ids p H @ (if fst h = p then [h] else [])"
  "other_ids p (H @ [h]) = other_ids p H @ (if fst h = p then [] else [h])"
  by (simp_all add: own_ids_def other_ids_def)

lemma ids_valid: "6379 < p \<Longrightarrow> p < 16379 \<Longrightarrow> 0 \<le> s \<Longrightarrow> s + int m \<le> 9999 \<Longrightarrow> \<forall>h \<in> set (ids p s m). valid_id h"
  by (auto simp: ids_def valid_id_def)

text \<open>The identifiers at a link stay apart.\<close>

lemma clear_link:
  assumes H: "growing H" "\<forall>h \<in> set H. valid_id h" and p: "6379 < p" "p < 16379" "0 \<le> s" "s + int m \<le> 9999"
  shows "clear (map oid_of (ids p s m)) (map oid_of (other_ids p H))"
proof (rule clear_ids)
  show "growing (other_ids p H)" using H(1) by (simp add: growing_def other_ids_def sorted_wrt_filter)
qed (use ids_growing H(2) ids_valid [OF p] in \<open>auto simp: other_ids_def ids_def\<close>)

lemma before_history:
  assumes "node_ok k n H sp p sv up down v" "done_own v \<le> own v"
  shows "before (sch v) (done_own v) (done_sent v) = mset (map oid_of H)"
proof -
  have "loids (sch v) (done_own v) = take (done_own v) (loids (sch v) (own v))"
    using assms(2) by (simp add: loids_def take_map)
  also have "\<dots> = map oid_of (ids p (start v) (done_own v))" using assms by (simp add: node_ok_def ids_def take_map)
  also have "\<dots> = map oid_of (own_ids p H)" using assms(1) by (simp add: node_ok_def)
  finally have "before (sch v) (done_own v) (done_sent v) = mset (map oid_of (own_ids p H)) + mset (map oid_of (other_ids p H))"
    using assms(1) by (simp add: before_def node_ok_def)
  also have "\<dots> = mset (map oid_of H)"
    unfolding own_ids_def other_ids_def by (induction H) auto
  finally show ?thesis .
qed

section \<open>Events keep the invariant\<close>

lemma node_local:
  assumes nd: "node_ok k n H sp p sv up down v" and H: "growing H" "\<forall>h \<in> set H. valid_id h" and p: "6379 < p" "p < 16379"
    and q: "request k sv as" "op_num sv < 9999"
  shows "\<exists>sv' c' v'. controlAlg sv (conn p False as) = Some (sv', c') \<and> node_ok k n H sp p sv' (up @ sent c') down v'"
proof -
  let ?c = "conn p False as"
  obtain si where L: "masterhost sv" "port sv = p" "0 \<le> start v" "op_num sv = start v + int (own v)"
      "replica n k (graph v) (space_of v) sv" "locateVerlist sp p k = Some si"
      "link k (sch v) (own v) (seen v) (done_own v) (done_sent v) (space_of v) (svertices (sp ! si)) up down"
      "loids (sch v) (own v) = map oid_of (ids p (start v) (own v))" "own_ids p H = ids p (start v) (done_own v)"
      "roids (sch v) (done_sent v) = map oid_of (other_ids p H)"
    using nd unfolding node_ok_def by blast
  have al: "controlAlg sv ?c = local_op sv ?c" using L(1) by (simp add: controlAlg_def conn_def)
  have "argv ?c = as" by (simp add: conn_def)
  from L(5) q(1) this show ?thesis
  proof (cases rule: request_cases)
    case ok
    let ?h = "(p, start v + 1 + int (own v))"
    have h: "valid_id ?h" using p L(3,4) q(2) by (simp add: valid_id_def)
    have fresh: "clear (loids (sch v) (own v) @ [i]) (roids (sch v) (done_sent v))" if "make_oid (port sv) (op_num sv + 1) = Some i" for i
    proof -
      have "i = oid_of ?h" using that oid_of_valid(1) [OF h] L(2,4) by (simp add: algebra_simps)
      moreover have "clear (map oid_of (ids p (start v) (Suc (own v)))) (map oid_of (other_ids p H))"
        using L(3,4) q(2) by (intro clear_link [OF H p]) simp_all
      ultimately show ?thesis using L(8,10) by simp
    qed
    have ports: "6379 < port sv" "port sv < 16379" "0 \<le> op_num sv" using p L(2-4) by simp_all
    obtain sv' c' g' vs' d where f: "local_op sv ?c = Some (sv', c')" "replica n k g' vs' sv'"
        "link k (grow (sch v) (own v) d (seen v)) (Suc (own v)) (seen v) (done_own v) (done_sent v) vs' (svertices (sp ! si)) (up @ [argv c']) down"
        "make_oid (port sv) (op_num sv + 1) = Some (oid d)" "masterhost sv' = masterhost sv" "port sv' = port sv"
        "op_num sv' = op_num sv + 1" "flag_ufs c' = 1"
      using link_local [OF L(5,7) ports q(2) ok fresh] by blast
    let ?v = "v\<lparr>sch := grow (sch v) (own v) d (seen v), own := Suc (own v), graph := g', space_of := vs'\<rparr>"
    have "oid d = oid_of ?h" using f(4) oid_of_valid(1) [OF h] L(2,4) by (simp add: algebra_simps)
    then have "node_ok k n H sp p sv' (up @ sent c') down ?v"
      using L f q(2) by (simp add: node_ok_def sent_def)
    then show ?thesis using f(1) al by auto
  next
    case (bad e)
    have "local_op sv ?c = Some (sv, reject ?c e)" by (rule local_op_reject [OF L(5) bad])
    moreover have "sent (reject ?c e) = []" by (simp add: sent_def reject_def addReply_def)
    ultimately show ?thesis using al nd by auto
  qed
qed

lemma node_remote:
  assumes nd: "node_ok k n H sp p sv up (m # down) v"
  shows "\<exists>sv' c' v'. controlAlg sv (conn p True m) = Some (sv', c') \<and> node_ok k n H sp p sv' up down v'"
proof -
  let ?c = "conn p True m"
  obtain si where L: "masterhost sv" "replica n k (graph v) (space_of v) sv" "locateVerlist sp p k = Some si"
      "link k (sch v) (own v) (seen v) (done_own v) (done_sent v) (space_of v) (svertices (sp ! si)) up (argv ?c # down)"
    using nd unfolding node_ok_def conn_def by auto
  obtain sv' g' vs' where f: "remote_op sv ?c = Some (sv', confirm ?c)" "replica n k g' vs' sv'"
      "link k (sch v) (own v) (Suc (seen v)) (done_own v) (done_sent v) vs' (svertices (sp ! si)) up down"
      "masterhost sv' = masterhost sv" "port sv' = port sv" "op_num sv' = op_num sv"
    using link_remote [OF L(2,4)] by blast
  let ?v = "v\<lparr>seen := Suc (seen v), graph := g', space_of := vs'\<rparr>"
  have "node_ok k n H sp p sv' up down ?v" using nd f L(3) by (simp add: node_ok_def)
  then show ?thesis using f(1) L(1) by (auto simp: controlAlg_def conn_def)
qed

text \<open>The spaces after an operation has been forwarded.\<close>

definition passed :: "string \<Rightarrow> int \<Rightarrow> dedge \<Rightarrow> int \<Rightarrow> verlist \<Rightarrow> verlist \<Rightarrow> bool" where
  "passed k p e len s s' \<longleftrightarrow> sid s' = sid s \<and> skey s' = skey s \<and>
     (if skey s = k \<and> sid s \<noteq> p then forward_to e len (svertices s) = Some (svertices s') else svertices s' = svertices s)"

lemma forward_spaces:
  assumes "forward ss k p e len = Some ss'" "\<forall>s \<in> set ss. nul_free (skey s)" "nul_free k"
  shows "list_all2 (passed k p e len) ss ss'"
  using assms
proof (induction ss arbitrary: ss')
  case (Cons s ss)
  have key: "streq (skey s) k \<longleftrightarrow> skey s = k" using Cons.prems by (simp add: streq_iff)
  obtain s' ss1 where f: "(if \<not> streq (skey s) k \<or> sid s = p then Some s
        else do { vs \<leftarrow> forward_to e len (svertices s); Some (s\<lparr>svertices := vs\<rparr>) }) = Some s'"
      "forward ss k p e len = Some ss1" "ss' = s' # ss1"
    using Cons.prems(1) by (simp only: forward.simps bind_eq_Some_conv) blast
  have "passed k p e len s s'" using f(1) key by (auto simp: passed_def bind_eq_Some_conv split: if_splits)
  then show ?case using Cons.IH [OF f(2)] Cons.prems(2,3) f(3) by simp
qed simp

lemma locateVerlist_same:
  assumes "length ss' = length ss" "\<forall>i < length ss. sid (ss' ! i) = sid (ss ! i) \<and> skey (ss' ! i) = skey (ss ! i)"
  shows "locateVerlist ss' p k = locateVerlist ss p k"
proof -
  have f: "first_index (\<lambda>s. sid s = p \<and> sdscmp (skey s) k = 0) xs = first_index (\<lambda>(a, b). a = p \<and> sdscmp b k = 0) (map (\<lambda>s. (sid s, skey s)) xs)"
    for xs by (induction xs) (simp_all add: split_def)
  have m: "map (\<lambda>s. (sid s, skey s)) ss' = map (\<lambda>s. (sid s, skey s)) ss" using assms by (intro nth_equalityI) simp_all
  show ?thesis unfolding locateVerlist_def f m ..
qed

lemma node_forward:
  assumes nd: "node_ok k n H sp q sv up down v" and H: "growing (H @ [h])" "\<forall>h' \<in> set (H @ [h]). valid_id h'"
    and q: "6379 < q" "q < 16379" "fst h \<noteq> q"
    and sp: "hub n k R sp" "locateVerlist sp' q k = locateVerlist sp q k"
    and fw: "\<And>si. locateVerlist sp q k = Some si \<Longrightarrow> forward_to e (int n) (svertices (sp ! si)) = Some (svertices (sp' ! si))"
    and e: "op_ok R e" "op_ok R d" "oid d = oid_of h" "oid d = oid e" "label d = label e" "op_apply d = op_apply e"
    and m: "carries k m d (context_at S x y)" "before S x y = mset (map oid_of H)"
  shows "\<exists>v'. node_ok k n (H @ [h]) sp' q sv up (down @ [m]) v'"
proof -
  obtain si where L: "0 \<le> start v" "op_num sv = start v + int (own v)" "op_num sv \<le> 9999" "locateVerlist sp q k = Some si"
      "link k (sch v) (own v) (seen v) (done_own v) (done_sent v) (space_of v) (svertices (sp ! si)) up down"
      "loids (sch v) (own v) = map oid_of (ids q (start v) (own v))" "own_ids q H = ids q (start v) (done_own v)"
      "roids (sch v) (done_sent v) = map oid_of (other_ids q H)"
    using nd unfolding node_ok_def by blast
  have s: "si < length sp" "skey (sp ! si) = k" using L(4) by (auto simp: locateVerlist_def first_index_Some sdscmp_eq_0)
  have at: "at_state n R (svertices (sp ! si))" using hub_at [OF sp(1) s] by simp
  have le: "done_own v \<le> own v" using L(5) by (simp add: link_def)
  have "context_at (sch v) (done_own v) (done_sent v) = context_at S x y"
    using before_history [OF nd le] m(2) by (simp add: context_at_def fun_eq_iff)
  then have c: "carries k m d (context_at (sch v) (done_own v) (done_sent v))" using m(1) by simp
  have "clear (map oid_of (ids q (start v) (own v))) (map oid_of (other_ids q (H @ [h])))"
    using L(1-3) by (intro clear_link [OF H q(1,2)]) simp_all
  then have cl: "clear (loids (sch v) (own v)) (roids (sch v) (done_sent v) @ [oid d])" using L(6,8) q(3) e(3) by simp
  have good: "good_oids [oid d]" using oid_of_valid(2) [of h] H(2) e(3) by simp
  let ?S = "flip (grow (flip (sch v)) (done_sent v) d (done_own v))"
  let ?v = "v\<lparr>sch := ?S, done_sent := Suc (done_sent v)\<rparr>"
  have "link k ?S (own v) (seen v) (done_own v) (Suc (done_sent v)) (space_of v) (svertices (sp' ! si)) up (down @ [m])"
    by (rule link_forward [OF L(5) at fw [OF L(4)] e(1,2) good cl e(4-6) c])
  moreover have "loids ?S (own v) = loids (sch v) (own v)" "roids ?S (Suc (done_sent v)) = roids (sch v) (done_sent v) @ [oid d]"
    by simp_all
  ultimately have "node_ok k n (H @ [h]) sp' q sv up (down @ [m]) ?v"
    using nd sp(2) L(4,6-8) q(3) e(3) unfolding node_ok_def by simp
  then show ?thesis by blast
qed

lemma net_server:
  assumes N: "net_ok ps k N n R H sp v" and p: "p \<in> set ps" "to_server N p = m # ms"
  shows "\<exists>sv' c' R' H' sp' v'. controlAlg (hub_server N) (conn p False m) = Some (sv', c') \<and> flag_ufs c' = 1 \<and>
    net_ok ps k (N\<lparr>hub_server := sv', to_server := (to_server N)(p := ms),
      to_node := (\<lambda>q. if q \<in> set ps \<and> q \<noteq> p then to_node N q @ sent c' else to_node N q)\<rparr>) n R' H' sp' v'"
proof -
  let ?c = "conn p False m" and ?v = "v p"
  have G: "\<forall>p \<in> set ps. 6379 < p \<and> p < 16379" "nul_free k" "\<not> masterhost (hub_server N)" "sspacelist (hub_server N) = Some sp"
      "hub n k R sp" "growing H" "\<forall>h \<in> set H. fst h \<in> set ps \<and> valid_id h"
      "\<And>q. q \<in> set ps \<Longrightarrow> node_ok k n H sp q (nodes N q) (to_server N q) (to_node N q) (v q)"
    using N unfolding net_ok_def by blast+
  note nd = G(8) [OF p(1)]
  obtain si where L: "0 \<le> start ?v" "op_num (nodes N p) = start ?v + int (own ?v)" "op_num (nodes N p) \<le> 9999"
      "locateVerlist sp p k = Some si"
      "link k (sch ?v) (own ?v) (seen ?v) (done_own ?v) (done_sent ?v) (space_of ?v) (svertices (sp ! si)) (argv ?c # ms) (to_node N p)"
      "loids (sch ?v) (own ?v) = map oid_of (ids p (start ?v) (own ?v))" "own_ids p H = ids p (start ?v) (done_own ?v)"
      "roids (sch ?v) (done_sent ?v) = map oid_of (other_ids p H)"
    using nd p(2) unfolding node_ok_def conn_def by auto
  have lt: "done_own ?v < own ?v" using link_head(1) [OF link_flip [OF L(5)]] .
  have sl: "locateVerlist sp (slave_listening_port ?c) k = Some si" using L(4) by (simp add: conn_def)
  have si: "si < length sp" "skey (sp ! si) = k" "sid (sp ! si) = p"
    using L(4) by (auto simp: locateVerlist_def first_index_Some sdscmp_eq_0)
  obtain sp' c' ws' e' where f: "server_op (hub_server N) ?c = Some ((hub_server N)\<lparr>sspacelist := Some sp'\<rparr>, c')"
      "hub n k (op_apply e' R) sp'" "flag_ufs c' = 1"
      "forward (sp[si := (sp ! si)\<lparr>svertices := ws'\<rparr>]) k (slave_listening_port ?c) e' (int n) = Some sp'"
      "link k (sch ?v) (own ?v) (seen ?v) (Suc (done_own ?v)) (done_sent ?v) (space_of ?v) ws' ms (to_node N p)"
      "carries k (argv c') (message_edge c' 0) (context_at (sch ?v) (done_own ?v) (done_sent ?v))"
      "oid e' = oid (lop (sch ?v) (Suc (done_own ?v)))" "op_ok R e'" "op_ok R (message_edge c' 0)" "oid (message_edge c' 0) = oid e'"
      "label (message_edge c' 0) = label e'" "op_apply (message_edge c' 0) = op_apply e'"
    using link_server [OF G(4,5,2) sl L(5)] by blast
  let ?sp1 = "sp[si := (sp ! si)\<lparr>svertices := ws'\<rparr>]" and ?h = "(p, start ?v + 1 + int (done_own ?v))"
  have h: "valid_id ?h" using G(1) p(1) L(1-3) lt by (simp add: valid_id_def)
  have "oid (lop (sch ?v) (Suc (done_own ?v))) = loids (sch ?v) (own ?v) ! done_own ?v" using lt by (simp add: loids_def)
  also have "\<dots> = oid_of ?h" unfolding L(6) using lt by (simp add: ids_def)
  finally have oh: "oid e' = oid_of ?h" using f(7) by simp
  have gr: "growing (H @ [?h])"
  proof -
    have "snd h < snd ?h" if "h \<in> set H" "fst h = p" for h
    proof -
      have "h \<in> set (own_ids p H)" using that by (simp add: own_ids_def)
      then show ?thesis unfolding L(7) by (auto simp: ids_def)
    qed
    then show ?thesis using G(6) by (auto simp: growing_def sorted_wrt_append)
  qed
  have vd: "\<forall>h \<in> set (H @ [?h]). valid_id h" using G(7) h by auto
  have nf: "\<forall>s \<in> set ?sp1. nul_free (skey s)"
    using G(5) set_update_subset_insert [of sp si "(sp ! si)\<lparr>svertices := ws'\<rparr>"] si(2) G(2) unfolding hub_def by auto
  have fw: "length sp' = length sp" "\<And>i. i < length sp \<Longrightarrow> passed k p e' (int n) (?sp1 ! i) (sp' ! i)"
    using forward_spaces [OF f(4) nf G(2)] by (simp_all add: list_all2_conv_all_nth conn_def)
  have same: "sid (?sp1 ! i) = sid (sp ! i)" "skey (?sp1 ! i) = skey (sp ! i)" if "i < length sp" for i
    using that by (cases "i = si"; simp)+
  then have "\<forall>i < length sp. sid (sp' ! i) = sid (sp ! i) \<and> skey (sp' ! i) = skey (sp ! i)"
    using fw(2) unfolding passed_def by metis
  then have loc: "locateVerlist sp' q k = locateVerlist sp q k" for q by (rule locateVerlist_same [OF fw(1)])
  let ?N = "N\<lparr>hub_server := (hub_server N)\<lparr>sspacelist := Some sp'\<rparr>, to_server := (to_server N)(p := ms),
      to_node := (\<lambda>q. if q \<in> set ps \<and> q \<noteq> p then to_node N q @ sent c' else to_node N q)\<rparr>"
  have own: "node_ok k n (H @ [?h]) sp' p (nodes N p) ms (to_node N p) (?v\<lparr>done_own := Suc (done_own ?v)\<rparr>)"
  proof -
    have "svertices (sp' ! si) = ws'" using fw(2) [OF si(1)] si by (simp add: passed_def)
    then show ?thesis using nd f(5) L(4,7) loc unfolding node_ok_def by simp
  qed
  have bh: "before (sch ?v) (done_own ?v) (done_sent ?v) = mset (map oid_of H)"
    by (rule before_history [OF nd]) (use lt in simp)
  have others: "\<exists>v'. node_ok k n (H @ [?h]) sp' q (nodes N q) (to_server N q) (to_node N q @ [argv c']) v'"
    if q: "q \<in> set ps" "q \<noteq> p" for q
  proof (rule node_forward [OF G(8) [OF q(1)] gr vd _ _ _ G(5) loc _ f(8,9) _ f(10-12,6) bh])
    show "6379 < q" "q < 16379" "fst ?h \<noteq> q" using G(1) q by auto
    show "oid (message_edge c' 0) = oid_of ?h" using f(10) oh by simp
    fix sj assume "locateVerlist sp q k = Some sj"
    then have sj: "sj < length sp" "skey (sp ! sj) = k" "sid (sp ! sj) = q"
      by (auto simp: locateVerlist_def first_index_Some sdscmp_eq_0)
    then have "sj \<noteq> si" using si(3) q(2) by auto
    then show "forward_to e' (int n) (svertices (sp ! sj)) = Some (svertices (sp' ! sj))"
      using fw(2) [OF sj(1)] sj q(2) by (simp add: passed_def)
  qed
  have "\<forall>q \<in> set ps. \<exists>v'. node_ok k n (H @ [?h]) sp' q (nodes ?N q) (to_server ?N q) (to_node ?N q) v'"
  proof
    fix q assume q: "q \<in> set ps"
    show "\<exists>v'. node_ok k n (H @ [?h]) sp' q (nodes ?N q) (to_server ?N q) (to_node ?N q) v'"
    proof (cases "q = p")
      case True
      then show ?thesis using own by (intro exI) simp
    next
      case False
      have "sent c' = [argv c']" using f(3) by (simp add: sent_def)
      then show ?thesis using others [OF q False] q False by simp
    qed
  qed
  from bchoice [OF this] obtain v' where
      "\<forall>q \<in> set ps. node_ok k n (H @ [?h]) sp' q (nodes ?N q) (to_server ?N q) (to_node ?N q) (v' q)" ..
  then have "net_ok ps k ?N n (op_apply e' R) (H @ [?h]) sp' v'"
    using G(1-3,7) f(2) gr h p(1) unfolding net_ok_def by simp
  moreover have "controlAlg (hub_server N) ?c = Some ((hub_server N)\<lparr>sspacelist := Some sp'\<rparr>, c')"
    using f(1) G(3) by (simp add: controlAlg_def)
  ultimately show ?thesis using f(3) by blast
qed

section \<open>Reachable networks\<close>

definition net_inv :: "int list \<Rightarrow> string \<Rightarrow> network \<Rightarrow> bool" where
  "net_inv ps k N \<longleftrightarrow> (\<exists>n R H sp v. net_ok ps k N n R H sp v)"

lemma first_grid:
  assumes "text_rel u = origin S" "lrow S 0 = 0" "rcol S 0 = 0"
  shows "grid S (points S 0 0) [new_vertice u] (\<lambda>_. 0)"
proof -
  have "points S 0 0 = {(0, 0)}" using assms by (auto simp: points_def)
  moreover have "gst S 0 0 = origin S" by (subst gst.simps) simp
  ultimately show ?thesis using assms(1) by (auto simp: grid_def edge_to_def new_vertice_def st_def)
qed

lemma first_link:
  assumes "text_rel u = R" "text_rel u' = R"
  defines "S \<equiv> \<lparr>lop = \<lambda>_. createOpEdge 0 None None [] 0, rop = \<lambda>_. createOpEdge 0 None None [] 0, lrow = \<lambda>_. 0, rcol = \<lambda>_. 0, origin = R\<rparr>"
  shows "link k S 0 0 0 0 [new_vertice u] [new_vertice u'] [] []"
proof -
  have "sched_ok S 0 0" by (simp add: sched_ok_def ordered_def clear_def S_def)
  moreover have "grid S (points S 0 0) [new_vertice u] (\<lambda>_. 0)" "grid S (points S 0 0) [new_vertice u'] (\<lambda>_. 0)"
    using assms(1,2) by (intro first_grid; simp add: S_def)+
  ultimately show ?thesis unfolding link_def by (auto simp: S_def)
qed

lemma initial_inv:
  assumes "initial ps k t N"
  shows "net_inv ps k N"
proof -
  have I: "\<forall>p \<in> set ps. 6379 < p \<and> p < 16379" "nul_free k" "distinct ps" "initial_text t"
    using assms by (auto simp: initial_def)
  obtain sv c cmd where s: "\<not> masterhost sv" "slaves sv = Some ps"
      "\<forall>l. sspacelist sv = Some l \<longrightarrow> (\<forall>s \<in> set l. nul_free (skey s) \<and> skey s \<noteq> k)"
      "argv c = [cmd, k, t]" "uinitCommand sv c = Some (hub_server N, confirm c)"
    using assms by (auto simp: initial_def)
  obtain sp u where h: "sspacelist (hub_server N) = Some sp" "hub (length t) k (text_rel t) sp" "\<forall>p \<in> set ps. locateVerlist sp p k \<noteq> None"
      "\<not> masterhost (hub_server N)" "text_rel u = text_rel t" "\<forall>s \<in> set sp. skey s = k \<longrightarrow> svertices s = [new_vertice u]"
    using uinit_server_full [OF s(1,2) I(3) s(3,4) I(2,4)] s(1,5) by auto
  have "\<exists>v. node_ok k (length t) [] sp p (nodes N p) (to_server N p) (to_node N p) v" if p: "p \<in> set ps" for p
  proof -
    obtain sv c cmd where s: "masterhost sv" "port sv = p" "0 \<le> op_num sv" "op_num sv \<le> 9999" "unused sv k" "argv c = [cmd, k, t]"
        "uinitCommand sv c = Some (nodes N p, confirm c)" and q: "to_server N p = []" "to_node N p = []"
      using assms p by (auto simp: initial_def)
    obtain g u' where f: "replica (length t) k g [new_vertice u'] (nodes N p)" "op_num (nodes N p) = op_num sv"
        "masterhost (nodes N p)" "port (nodes N p) = p" "text_rel u' = text_rel t"
      using uinit_client_full [OF s(5,1,6) I(2,4)] s(1,2,7) by auto
    obtain si where si: "locateVerlist sp p k = Some si" using h(3) p by blast
    then have "si < length sp" "skey (sp ! si) = k" by (auto simp: locateVerlist_def first_index_Some sdscmp_eq_0)
    then have ws: "svertices (sp ! si) = [new_vertice u]" using h(6) nth_mem by blast
    let ?S = "\<lparr>lop = \<lambda>_. createOpEdge 0 None None [] 0, rop = \<lambda>_. createOpEdge 0 None None [] 0, lrow = \<lambda>_. 0, rcol = \<lambda>_. 0,
      origin = text_rel t\<rparr>"
    let ?v = "\<lparr>sch = ?S, own = 0, seen = 0, done_own = 0, done_sent = 0, graph = g, space_of = [new_vertice u'], start = op_num sv\<rparr>"
    have "node_ok k (length t) [] sp p (nodes N p) (to_server N p) (to_node N p) ?v"
      using f s(3,4) si ws q first_link [OF f(5) h(5), of k] by (simp add: node_ok_def)
    then show ?thesis by blast
  qed
  then have "\<forall>p \<in> set ps. \<exists>v. node_ok k (length t) [] sp p (nodes N p) (to_server N p) (to_node N p) v" by blast
  from bchoice [OF this] obtain v where "\<forall>p \<in> set ps. node_ok k (length t) [] sp p (nodes N p) (to_server N p) (to_node N p) (v p)" ..
  then have "net_ok ps k N (length t) (text_rel t) [] sp v" using I(1,2) h(1,2,4) by (simp add: net_ok_def growing_def)
  then show ?thesis unfolding net_inv_def by blast
qed

text \<open>Every event is defined and keeps the invariant.\<close>

lemma user_event:
  assumes "net_inv ps k N" "p \<in> set ps" "request k (nodes N p) as" "op_num (nodes N p) < 9999"
  shows "\<exists>sv' c'. controlAlg (nodes N p) (conn p False as) = Some (sv', c') \<and>
    net_inv ps k (N\<lparr>nodes := (nodes N)(p := sv'), to_server := (to_server N)(p := to_server N p @ sent c')\<rparr>)"
proof -
  obtain n R H sp v where N: "net_ok ps k N n R H sp v" using assms(1) by (auto simp: net_inv_def)
  have G: "6379 < p" "p < 16379" "growing H" "\<forall>h \<in> set H. valid_id h"
      "node_ok k n H sp p (nodes N p) (to_server N p) (to_node N p) (v p)"
    using N assms(2) unfolding net_ok_def by blast+
  obtain sv' c' v' where f: "controlAlg (nodes N p) (conn p False as) = Some (sv', c')"
      "node_ok k n H sp p sv' (to_server N p @ sent c') (to_node N p) v'"
    using node_local [OF G(5,3,4,1,2) assms(3,4)] by blast
  have "net_ok ps k (N\<lparr>nodes := (nodes N)(p := sv'), to_server := (to_server N)(p := to_server N p @ sent c')\<rparr>) n R H sp (v(p := v'))"
    using N f(2) unfolding net_ok_def by simp
  then show ?thesis using f(1) unfolding net_inv_def by blast
qed

lemma node_event:
  assumes "net_inv ps k N" "p \<in> set ps" "to_node N p = m # ms"
  shows "\<exists>sv' c'. controlAlg (nodes N p) (conn p True m) = Some (sv', c') \<and>
    net_inv ps k (N\<lparr>nodes := (nodes N)(p := sv'), to_node := (to_node N)(p := ms)\<rparr>)"
proof -
  obtain n R H sp v where N: "net_ok ps k N n R H sp v" using assms(1) by (auto simp: net_inv_def)
  have "node_ok k n H sp p (nodes N p) (to_server N p) (m # ms) (v p)"
    using N assms(2,3) unfolding net_ok_def by metis
  then obtain sv' c' v' where f: "controlAlg (nodes N p) (conn p True m) = Some (sv', c')"
      "node_ok k n H sp p sv' (to_server N p) ms v'"
    using node_remote by blast
  have "net_ok ps k (N\<lparr>nodes := (nodes N)(p := sv'), to_node := (to_node N)(p := ms)\<rparr>) n R H sp (v(p := v'))"
    using N f(2) unfolding net_ok_def by simp
  then show ?thesis using f(1) unfolding net_inv_def by blast
qed

lemma server_event:
  assumes "net_inv ps k N" "p \<in> set ps" "to_server N p = m # ms"
  shows "\<exists>sv' c'. controlAlg (hub_server N) (conn p False m) = Some (sv', c') \<and>
    net_inv ps k (N\<lparr>hub_server := sv', to_server := (to_server N)(p := ms),
      to_node := (\<lambda>q. if q \<in> set ps \<and> q \<noteq> p then to_node N q @ sent c' else to_node N q)\<rparr>)"
proof -
  obtain n R H sp v where N: "net_ok ps k N n R H sp v" using assms(1) by (auto simp: net_inv_def)
  show ?thesis using net_server [OF N assms(2,3)] unfolding net_inv_def by blast
qed

lemma deliver_inv: "deliver ps N N' \<Longrightarrow> net_inv ps k N \<Longrightarrow> net_inv ps k N'"
proof (induction rule: deliver.induct)
  case (at_server p N m ms sv' c')
  then show ?case using server_event [OF at_server(4,1,2)] by auto
next
  case (at_node p N m ms sv' c')
  then show ?case using node_event [OF at_node(4,1,2)] by auto
qed

lemma net_step_inv: "net_step ps k N N' \<Longrightarrow> net_inv ps k N \<Longrightarrow> net_inv ps k N'"
proof (induction rule: net_step.induct)
  case (user p N as sv' c')
  then show ?case using user_event [OF user(5,1-3)] by auto
next
  case (delivery N N')
  then show ?case by (rule deliver_inv)
qed

lemma reachable_inv:
  assumes "initial ps k t N0" "(net_step ps k)\<^sup>*\<^sup>* N0 N"
  shows "net_inv ps k N"
  using assms(2) initial_inv [OF assms(1)] by (induction rule: rtranclp_induct) (auto intro: net_step_inv)

section \<open>Agreement and deliveries\<close>

definition agree :: "int list \<Rightarrow> string \<Rightarrow> network \<Rightarrow> (string \<times> string) set \<Rightarrow> bool" where
  "agree ps k N R \<longleftrightarrow> (\<exists>n sp. sspacelist (hub_server N) = Some sp \<and> hub n k R sp) \<and>
     (\<forall>p \<in> set ps. \<exists>g. graph_of (nodes N p) k = Some g \<and> ufs_ok g \<and> ufs_rel g = R)"

lemma link_idle:
  assumes "link k S a b a' b' vs ws [] []"
  shows "a' = a" "b' = b"
proof -
  have "[a'..<a] = []" "[b..<b'] = []" "a' \<le> a" "b \<le> b'" using assms by (auto simp: link_def)
  then show "a' = a" "b' = b" by auto
qed

lemma quiet_agree:
  assumes "net_inv ps k N" "quiet ps N"
  shows "\<exists>R. agree ps k N R"
proof -
  obtain n R H sp v where N: "net_ok ps k N n R H sp v" using assms(1) by (auto simp: net_inv_def)
  have h: "sspacelist (hub_server N) = Some sp" "hub n k R sp" using N unfolding net_ok_def by blast+
  have "\<exists>g. graph_of (nodes N p) k = Some g \<and> ufs_ok g \<and> ufs_rel g = R" if p: "p \<in> set ps" for p
  proof -
    let ?v = "v p"
    have "node_ok k n H sp p (nodes N p) [] [] ?v" using N p assms(2) unfolding net_ok_def quiet_def by metis
    then obtain si where L: "replica n k (graph ?v) (space_of ?v) (nodes N p)" "locateVerlist sp p k = Some si"
        "link k (sch ?v) (own ?v) (seen ?v) (done_own ?v) (done_sent ?v) (space_of ?v) (svertices (sp ! si)) [] []"
      unfolding node_ok_def by blast
    note i = link_idle [OF L(3)]
    have s: "si < length sp" "skey (sp ! si) = k" using L(2) by (auto simp: locateVerlist_def first_index_Some sdscmp_eq_0)
    have a: "at_state n R (svertices (sp ! si))" using hub_at [OF h(2) s] by simp
    have b: "at_state n (ufs_rel (graph ?v)) (space_of ?v)" "graph_fine (graph ?v)" "graph_of (nodes N p) k = Some (graph ?v)"
      using L(1) by (simp_all add: replica_def in_step_def)
    have "R = gst (sch ?v) (done_own ?v) (done_sent ?v)"
      using link_last_server [OF L(3)] a by (auto simp: at_state_def)
    moreover have "ufs_rel (graph ?v) = gst (sch ?v) (own ?v) (seen ?v)"
      using link_last [OF L(3)] b(1) by (auto simp: at_state_def)
    ultimately show ?thesis using i b(2,3) by (simp add: graph_fine_def)
  qed
  then show ?thesis using h unfolding agree_def by blast
qed

text \<open>A delivery at the server takes one command and adds at most one for every other client.\<close>

definition load :: "int list \<Rightarrow> network \<Rightarrow> nat" where
  "load ps N = (\<Sum>p \<in> set ps. card (set ps) * length (to_server N p) + length (to_node N p))"

lemma deliver_load: "deliver ps N N' \<Longrightarrow> load ps N' < load ps N"
proof (induction rule: deliver.induct)
  case (at_server p N m ms sv' c')
  let ?A = "set ps - {p}" and ?c = "card (set ps)"
  let ?N = "N\<lparr>hub_server := sv', to_server := (to_server N)(p := ms),
      to_node := (\<lambda>q. if q \<in> set ps \<and> q \<noteq> p then to_node N q @ sent c' else to_node N q)\<rparr>"
  have len: "length (sent c') \<le> 1" by (simp add: sent_def)
  have sp: "set ps = insert p ?A" using at_server(1) by blast
  have "(\<Sum>q \<in> ?A. ?c * length (to_server ?N q) + length (to_node ?N q)) \<le>
      (\<Sum>q \<in> ?A. (?c * length (to_server N q) + length (to_node N q)) + 1)"
    using len by (intro sum_mono) auto
  also have "\<dots> = (\<Sum>q \<in> ?A. ?c * length (to_server N q) + length (to_node N q)) + card ?A" by (simp only: sum.distrib sum_constant) simp
  finally have a: "(\<Sum>q \<in> ?A. ?c * length (to_server ?N q) + length (to_node ?N q)) \<le>
      (\<Sum>q \<in> ?A. ?c * length (to_server N q) + length (to_node N q)) + card ?A" .
  have c: "card ?A < ?c" by (rule card_Diff1_less [OF finite_set at_server(1)])
  have split: "load ps M = (?c * length (to_server M p) + length (to_node M p)) +
      (\<Sum>q \<in> ?A. ?c * length (to_server M q) + length (to_node M q))" for M
    unfolding load_def using at_server(1) by (simp add: sum.remove [of "set ps" p])
  show ?case using split [of N] split [of ?N] a c at_server(2) by simp
next
  case (at_node p N m ms sv' c')
  let ?N = "N\<lparr>nodes := (nodes N)(p := sv'), to_node := (to_node N)(p := ms)\<rparr>"
  show ?case unfolding load_def
    by (rule sum_strict_mono_ex1) (use at_node in \<open>auto intro!: bexI [of _ p]\<close>)
qed

lemma not_quiet_deliver:
  assumes "net_inv ps k N" "\<not> quiet ps N"
  shows "\<exists>N'. deliver ps N N'"
proof -
  obtain p where p: "p \<in> set ps" "to_server N p \<noteq> [] \<or> to_node N p \<noteq> []" using assms(2) by (auto simp: quiet_def)
  from p(2) show ?thesis
  proof
    assume "to_server N p \<noteq> []"
    then obtain m ms where m: "to_server N p = m # ms" by (cases "to_server N p") auto
    show ?thesis using server_event [OF assms(1) p(1) m] at_server [OF p(1) m] by blast
  next
    assume "to_node N p \<noteq> []"
    then obtain m ms where m: "to_node N p = m # ms" by (cases "to_node N p") auto
    show ?thesis using node_event [OF assms(1) p(1) m] at_node [OF p(1) m] by blast
  qed
qed

lemma becomes_quiet:
  assumes "net_inv ps k N"
  shows "\<exists>N'. (deliver ps)\<^sup>*\<^sup>* N N' \<and> quiet ps N'"
  using assms
proof (induction "load ps N" arbitrary: N rule: less_induct)
  case less
  show ?case
  proof (cases "quiet ps N")
    case True
    then show ?thesis by blast
  next
    case False
    then obtain M where M: "deliver ps N M" using not_quiet_deliver [OF less.prems] by blast
    then obtain N' where "(deliver ps)\<^sup>*\<^sup>* M N'" "quiet ps N'"
      using less.hyps [OF deliver_load [OF M] deliver_inv [OF M less.prems]] by blast
    then show ?thesis using M by (meson converse_rtranclp_into_rtranclp)
  qed
qed

lemma deliver_net: "(deliver ps)\<^sup>*\<^sup>* N N' \<Longrightarrow> (net_step ps k)\<^sup>*\<^sup>* N N'"
  by (induction rule: rtranclp_induct) (auto intro: rtranclp.rtrancl_into_rtrancl delivery)

section \<open>A sample network\<close>

text \<open>Two clients that have created a structure with two elements.\<close>

definition blank :: "bool \<Rightarrow> int \<Rightarrow> server" where
  "blank m p = \<lparr>masterhost = m, port = p, slaves = Some [6380, 6381], ufslist = None, cspacelist = None, sspacelist = None, op_num = 0\<rparr>"

definition after_uinit :: "server \<Rightarrow> server" where
  "after_uinit sv = fst (the (uinitCommand sv (sample_client [''uinit'', ''k'', ''a/b''] False)))"

definition sample_net :: network where
  "sample_net = \<lparr>hub_server = after_uinit (blank False 6379), nodes = (\<lambda>p. after_uinit (blank True p)),
     to_server = (\<lambda>_. []), to_node = (\<lambda>_. [])\<rparr>"

lemma sample_net_node:
  shows "uinitCommand (blank True p) (sample_client [''uinit'', ''k'', ''a/b''] False) =
      Some (nodes sample_net p, confirm (sample_client [''uinit'', ''k'', ''a/b''] False))"
    "\<exists>g u. replica 3 ''k'' g [new_vertice u] (nodes sample_net p) \<and> ufs_rel g = text_rel ''a/b'' \<and> op_num (nodes sample_net p) = 0"
proof -
  let ?c = "sample_client [''uinit'', ''k'', ''a/b''] False"
  have "unused (blank True p) ''k''" by (simp add: unused_def blank_def getUfs_def)
  then obtain sv' g u where f: "uinitCommand (blank True p) ?c = Some (sv', confirm ?c)"
      "replica (length ''a/b'') ''k'' g [new_vertice u] sv'" "ufs_rel g = text_rel ''a/b''" "op_num sv' = op_num (blank True p)"
    using uinit_client_full [of "blank True p" "''k''" ?c "''uinit''" "''a/b''"] sample_initial
    by (auto simp: blank_def nul_free_def)
  then have eq: "nodes sample_net p = sv'" by (simp add: sample_net_def after_uinit_def)
  show "uinitCommand (blank True p) ?c = Some (nodes sample_net p, confirm ?c)" using f(1) eq by simp
  show "\<exists>g u. replica 3 ''k'' g [new_vertice u] (nodes sample_net p) \<and> ufs_rel g = text_rel ''a/b'' \<and> op_num (nodes sample_net p) = 0"
    using f(2-4) eq by (auto simp: blank_def numeral_3_eq_3)
qed

lemma sample_net_initial: "initial [6380, 6381] ''k'' ''a/b'' sample_net"
proof -
  let ?c = "sample_client [''uinit'', ''k'', ''a/b''] False"
  have "\<exists>sv' l u. uinitCommand (blank False 6379) ?c = Some (sv', confirm ?c)"
    using uinit_server_full [of "blank False 6379" "[6380, 6381]" "''k''" ?c "''uinit''" "''a/b''"] sample_initial
    by (auto simp: blank_def nul_free_def)
  then have h: "uinitCommand (blank False 6379) ?c = Some (hub_server sample_net, confirm ?c)"
    by (auto simp: sample_net_def after_uinit_def)
  have "\<exists>sv c cmd. \<not> masterhost sv \<and> slaves sv = Some [6380, 6381] \<and>
      (\<forall>l. sspacelist sv = Some l \<longrightarrow> (\<forall>s \<in> set l. nul_free (skey s) \<and> skey s \<noteq> ''k'')) \<and>
      argv c = [cmd, ''k'', ''a/b''] \<and> uinitCommand sv c = Some (hub_server sample_net, confirm c)"
    using h by (intro exI [of _ "blank False 6379"] exI [of _ ?c] exI [of _ "''uinit''"]) (simp add: blank_def)
  moreover have "\<exists>sv c cmd. masterhost sv \<and> port sv = p \<and> 0 \<le> op_num sv \<and> op_num sv \<le> 9999 \<and> unused sv ''k'' \<and>
      argv c = [cmd, ''k'', ''a/b''] \<and> uinitCommand sv c = Some (nodes sample_net p, confirm c)" for p
    using sample_net_node(1) [of p]
    by (intro exI [of _ "blank True p"] exI [of _ ?c] exI [of _ "''uinit''"]) (simp add: blank_def unused_def getUfs_def)
  ultimately show ?thesis
    unfolding initial_def using sample_initial by (simp add: nul_free_def) (simp add: sample_net_def)
qed

lemma sample_net_request:
  "request ''k'' (nodes sample_net p) [UNION, ''a'', ''b'', ''k'']" "op_num (nodes sample_net p) < 9999"
proof -
  obtain g u where r: "replica 3 ''k'' g [new_vertice u] (nodes sample_net p)" "op_num (nodes sample_net p) = 0"
    using sample_net_node(2) by blast
  then have g: "graph_of (nodes sample_net p) ''k'' = Some g" by (simp add: replica_def)
  have "nul_free ''a''" "nul_free ''b''" "\<not> union_lost g ''a'' ''b''" "short ''a''" "short ''b''"
    by (simp_all add: nul_free_def union_lost_def lost_def short_def)
  then show "request ''k'' (nodes sample_net p) [UNION, ''a'', ''b'', ''k'']" using g by (auto simp: request_def)
  show "op_num (nodes sample_net p) < 9999" using r(2) by simp
qed

text \<open>A user of the first client unites the two elements.\<close>

lemma sample_net_run:
  obtains sv' c' N M where "controlAlg (nodes sample_net 6380) (conn 6380 False [UNION, ''a'', ''b'', ''k'']) = Some (sv', c')"
    "nodes N 6380 = sv'" "to_server N 6380 = sent c'" "(net_step [6380, 6381] ''k'')\<^sup>*\<^sup>* sample_net N"
    "(deliver [6380, 6381])\<^sup>*\<^sup>* N M" "quiet [6380, 6381] M" "(net_step [6380, 6381] ''k'')\<^sup>*\<^sup>* sample_net M"
proof -
  let ?ps = "[6380, 6381]"
  have inv: "net_inv ?ps ''k'' sample_net" by (rule initial_inv [OF sample_net_initial])
  obtain sv' c' where c: "controlAlg (nodes sample_net 6380) (conn 6380 False [UNION, ''a'', ''b'', ''k'']) = Some (sv', c')"
      "net_inv ?ps ''k'' (sample_net\<lparr>nodes := (nodes sample_net)(6380 := sv'),
        to_server := (to_server sample_net)(6380 := to_server sample_net 6380 @ sent c')\<rparr>)" (is "net_inv ?ps ''k'' ?N")
    using user_event [OF inv _ sample_net_request, of 6380] by auto
  obtain M where M: "(deliver ?ps)\<^sup>*\<^sup>* ?N M" "quiet ?ps M" using becomes_quiet [OF c(2)] by blast
  have "net_step ?ps ''k'' sample_net ?N" using c(1) sample_net_request by (intro user) simp_all
  then have s: "(net_step ?ps ''k'')\<^sup>*\<^sup>* sample_net ?N" by (rule r_into_rtranclp)
  moreover have "(net_step ?ps ''k'')\<^sup>*\<^sup>* sample_net M" by (rule rtranclp_trans [OF s deliver_net [OF M(1)]])
  moreover have "nodes ?N 6380 = sv'" "to_server ?N 6380 = sent c'" by (simp_all add: sample_net_def)
  ultimately show thesis using that c(1) M by blast
qed

section \<open>Properties\<close>





text \<open>
  C3. Agreement is always reached: from every reachable network, deliveries in any order come to an end, and
  where none is possible any more nothing is under way and all clients hold the same classes.
\<close>

theorem agreement_reached:
  assumes "initial ps k t N0" "(net_step ps k)\<^sup>*\<^sup>* N0 N"
  shows "wf {(M', M). deliver ps M M'} \<and> (\<exists>M. (deliver ps)\<^sup>*\<^sup>* N M \<and> quiet ps M) \<and>
    (\<forall>M. (deliver ps)\<^sup>*\<^sup>* N M \<and> (\<forall>M'. \<not> deliver ps M M') \<longrightarrow> quiet ps M \<and> (\<exists>R. agree ps k M R))"
proof (intro conjI allI impI)
  note inv = reachable_inv [OF assms]
  show "wf {(M', M). deliver ps M M'}" by (rule wf_subset [OF wf_measure [of "load ps"]]) (auto dest: deliver_load)
  show "\<exists>M. (deliver ps)\<^sup>*\<^sup>* N M \<and> quiet ps M" by (rule becomes_quiet [OF inv])
  fix M assume M: "(deliver ps)\<^sup>*\<^sup>* N M \<and> (\<forall>M'. \<not> deliver ps M M')"
  have i: "net_inv ps k M" using conjunct1 [OF M] inv by (induction rule: rtranclp_induct) (auto intro: deliver_inv)
  show q: "quiet ps M" using not_quiet_deliver [OF i] M by blast
  show "\<exists>R. agree ps k M R" by (rule quiet_agree [OF i q])
qed

theorem agreement_reached_witness:
  "\<exists>sv' c' N M. controlAlg (nodes sample_net 6380) (conn 6380 False [UNION, ''a'', ''b'', ''k'']) = Some (sv', c') \<and>
    nodes N 6380 = sv' \<and> to_server N 6380 = sent c' \<and> (deliver [6380, 6381])\<^sup>*\<^sup>* N M \<and> quiet [6380, 6381] M"
proof -
  obtain sv' c' N where r: "controlAlg (nodes sample_net 6380) (conn 6380 False [UNION, ''a'', ''b'', ''k'']) = Some (sv', c')"
      "nodes N 6380 = sv'" "to_server N 6380 = sent c'" "(net_step [6380, 6381] ''k'')\<^sup>*\<^sup>* sample_net N"
    by (rule sample_net_run)
  have "\<exists>M. (deliver [6380, 6381])\<^sup>*\<^sup>* N M \<and> quiet [6380, 6381] M"
    using agreement_reached [OF sample_net_initial r(4)] by (elim conjE)
  then show ?thesis using r(1-3) by blast
qed

end
