(* ===== verification/Adlist.thy ===== *)
theory Adlist
  imports Ufs_Prelude
begin

text \<open>
  The doubly linked lists of \<^verbatim>\<open>src/adlist.c\<close>, which hold the clients, the slaves and the reply chunks of the server.
  The nodes live in a heap, a partial map from addresses; \<^const>\<open>None\<close> as a pointer is NULL, and access
  through NULL or to a node that has been freed makes the result \<^const>\<open>None\<close>. The address that \<^verbatim>\<open>zmalloc\<close> returns is
  an argument of the operations that allocate. \<^verbatim>\<open>len\<close> is a natural number: 2 to the 64 nodes do not
  fit into memory. Shown is that every operation does to the sequence of values what its name says, keeps the pointers
  of the list consistent in both directions, and does not touch the nodes of other lists.
\<close>

section \<open>Model\<close>

record 'v lnode =
  prev :: "nat option"
  nxt :: "nat option"
  val :: 'v

type_synonym 'v heap = "nat \<Rightarrow> 'v lnode option"

record 'v dll =
  head :: "nat option"
  tail :: "nat option"
  dup :: "('v \<Rightarrow> 'v option) option"
  free :: bool
  match :: "('v \<Rightarrow> 'v \<Rightarrow> bool) option"
  len :: nat

text \<open>A write through a pointer.\<close>

definition put :: "'v heap \<Rightarrow> nat option \<Rightarrow> ('v lnode \<Rightarrow> 'v lnode) \<Rightarrow> 'v heap option" where
  "put h p f = do { a \<leftarrow> p; n \<leftarrow> h a; Some (h(a \<mapsto> f n)) }"

definition listCreate :: "'v dll" where
  "listCreate = \<lparr>head = None, tail = None, dup = None, free = False, match = None, len = 0\<rparr>"

text \<open>The values that are handed to the method \<^verbatim>\<open>free\<close> are returned.\<close>

fun listEmpty_loop :: "bool \<Rightarrow> 'v heap \<Rightarrow> nat option \<Rightarrow> nat \<Rightarrow> ('v heap \<times> 'v list) option" where
  "listEmpty_loop fr h current 0 = Some (h, [])"
| "listEmpty_loop fr h current (Suc n) = do {
     a \<leftarrow> current;
     nd \<leftarrow> h a;
     (h', vs) \<leftarrow> listEmpty_loop fr (h(a := None)) (nxt nd) n;
     Some (h', (if fr then [val nd] else []) @ vs)
   }"

definition listEmpty :: "'v heap \<Rightarrow> 'v dll \<Rightarrow> ('v heap \<times> 'v dll \<times> 'v list) option" where
  "listEmpty h l = do {
     (h', vs) \<leftarrow> listEmpty_loop (free l) h (head l) (len l);
     Some (h', l\<lparr>head := None, tail := None, len := 0\<rparr>, vs)
   }"

definition listRelease :: "'v heap \<Rightarrow> 'v dll \<Rightarrow> ('v heap \<times> 'v list) option" where
  "listRelease h l = do { (h', l', vs) \<leftarrow> listEmpty h l; Some (h', vs) }"

definition listAddNodeHead :: "'v heap \<Rightarrow> 'v dll \<Rightarrow> nat \<Rightarrow> 'v \<Rightarrow> ('v heap \<times> 'v dll) option" where
  "listAddNodeHead h l a v =
     (if len l = 0 then
        Some (h(a \<mapsto> \<lparr>prev = None, nxt = None, val = v\<rparr>), l\<lparr>head := Some a, tail := Some a, len := len l + 1\<rparr>)
      else do {
        h1 \<leftarrow> put (h(a \<mapsto> \<lparr>prev = None, nxt = head l, val = v\<rparr>)) (head l) (\<lambda>n. n\<lparr>prev := Some a\<rparr>);
        Some (h1, l\<lparr>head := Some a, len := len l + 1\<rparr>)
      })"

definition listAddNodeTail :: "'v heap \<Rightarrow> 'v dll \<Rightarrow> nat \<Rightarrow> 'v \<Rightarrow> ('v heap \<times> 'v dll) option" where
  "listAddNodeTail h l a v =
     (if len l = 0 then
        Some (h(a \<mapsto> \<lparr>prev = None, nxt = None, val = v\<rparr>), l\<lparr>head := Some a, tail := Some a, len := len l + 1\<rparr>)
      else do {
        h1 \<leftarrow> put (h(a \<mapsto> \<lparr>prev = tail l, nxt = None, val = v\<rparr>)) (tail l) (\<lambda>n. n\<lparr>nxt := Some a\<rparr>);
        Some (h1, l\<lparr>tail := Some a, len := len l + 1\<rparr>)
      })"

definition listInsertNode :: "'v heap \<Rightarrow> 'v dll \<Rightarrow> nat \<Rightarrow> nat \<Rightarrow> 'v \<Rightarrow> bool \<Rightarrow> ('v heap \<times> 'v dll) option" where
  "listInsertNode h l old_node a v after = do {
     n \<leftarrow> h old_node;
     let node = (if after then \<lparr>prev = Some old_node, nxt = nxt n, val = v\<rparr> else \<lparr>prev = prev n, nxt = Some old_node, val = v\<rparr>);
     let l1 = (if after then (if tail l = Some old_node then l\<lparr>tail := Some a\<rparr> else l)
               else (if head l = Some old_node then l\<lparr>head := Some a\<rparr> else l));
     h1 \<leftarrow> (if prev node \<noteq> None then put (h(a \<mapsto> node)) (prev node) (\<lambda>m. m\<lparr>nxt := Some a\<rparr>) else Some (h(a \<mapsto> node)));
     h2 \<leftarrow> (if nxt node \<noteq> None then put h1 (nxt node) (\<lambda>m. m\<lparr>prev := Some a\<rparr>) else Some h1);
     Some (h2, l1\<lparr>len := len l1 + 1\<rparr>)
   }"

definition listDelNode :: "'v heap \<Rightarrow> 'v dll \<Rightarrow> nat \<Rightarrow> ('v heap \<times> 'v dll \<times> 'v list) option" where
  "listDelNode h l a = do {
     n \<leftarrow> h a;
     (h1, l1) \<leftarrow> (if prev n \<noteq> None then do { h1 \<leftarrow> put h (prev n) (\<lambda>m. m\<lparr>nxt := nxt n\<rparr>); Some (h1, l) }
                  else Some (h, l\<lparr>head := nxt n\<rparr>));
     n1 \<leftarrow> h1 a;
     (h2, l2) \<leftarrow> (if nxt n1 \<noteq> None then do { h2 \<leftarrow> put h1 (nxt n1) (\<lambda>m. m\<lparr>prev := prev n1\<rparr>); Some (h2, l1) }
                  else Some (h1, l1\<lparr>tail := prev n1\<rparr>));
     n2 \<leftarrow> h2 a;
     Some (h2(a := None), l2\<lparr>len := len l2 - 1\<rparr>, if free l2 then [val n2] else [])
   }"

text \<open>Iterators.\<close>

datatype direction = AL_START_HEAD | AL_START_TAIL

record listIter =
  inext :: "nat option"
  dir :: direction

definition listGetIterator :: "'v dll \<Rightarrow> direction \<Rightarrow> listIter" where
  "listGetIterator l d = \<lparr>inext = (if d = AL_START_HEAD then head l else tail l), dir = d\<rparr>"

definition listRewind :: "'v dll \<Rightarrow> listIter" where
  "listRewind l = \<lparr>inext = head l, dir = AL_START_HEAD\<rparr>"

definition listRewindTail :: "'v dll \<Rightarrow> listIter" where
  "listRewindTail l = \<lparr>inext = tail l, dir = AL_START_TAIL\<rparr>"

definition listNext :: "'v heap \<Rightarrow> listIter \<Rightarrow> (nat option \<times> listIter) option" where
  "listNext h it =
     (case inext it of
        None \<Rightarrow> Some (None, it)
      | Some a \<Rightarrow> do {
          n \<leftarrow> h a;
          Some (Some a, it\<lparr>inext := (if dir it = AL_START_HEAD then nxt n else prev n)\<rparr>)
        })"

text \<open>The loop of \<^verbatim>\<open>listDup\<close> takes the addresses of the new nodes from a list.\<close>

fun listDup_loop :: "'v heap \<Rightarrow> 'v dll \<Rightarrow> listIter \<Rightarrow> nat list \<Rightarrow> ('v heap \<times> 'v dll option) option" where
  "listDup_loop h copy it as = do {
     (node, it1) \<leftarrow> listNext h it;
     case node of
       None \<Rightarrow> Some (h, Some copy)
     | Some p \<Rightarrow> do {
         n \<leftarrow> h p;
         case (case dup copy of Some d \<Rightarrow> d (val n) | None \<Rightarrow> Some (val n)) of
           None \<Rightarrow> do { (h', vs) \<leftarrow> listRelease h copy; Some (h', None) }
         | Some v \<Rightarrow> (case as of
             [] \<Rightarrow> None
           | a # as' \<Rightarrow> do {
               (h1, copy1) \<leftarrow> listAddNodeTail h copy a v;
               listDup_loop h1 copy1 it1 as'
             })
       }
   }"

declare listDup_loop.simps [simp del]

definition listDup :: "'v heap \<Rightarrow> 'v dll \<Rightarrow> nat list \<Rightarrow> ('v heap \<times> 'v dll option) option" where
  "listDup h orig as = listDup_loop h (listCreate\<lparr>dup := dup orig, free := free orig, match := match orig\<rparr>) (listRewind orig) as"

partial_function (option) listSearchKey_loop :: "'v heap \<Rightarrow> ('v \<Rightarrow> bool) \<Rightarrow> listIter \<Rightarrow> nat option option" where
  "listSearchKey_loop h p it = do {
     (node, it1) \<leftarrow> listNext h it;
     case node of
       None \<Rightarrow> Some None
     | Some a \<Rightarrow> do { n \<leftarrow> h a; if p (val n) then Some (Some a) else listSearchKey_loop h p it1 }
   }"

definition listSearchKey :: "'v heap \<Rightarrow> 'v dll \<Rightarrow> 'v \<Rightarrow> nat option option" where
  "listSearchKey h l k =
     listSearchKey_loop h (case match l of Some m \<Rightarrow> (\<lambda>v. m v k) | None \<Rightarrow> (\<lambda>v. k = v)) (listRewind l)"

fun walk :: "'v heap \<Rightarrow> ('v lnode \<Rightarrow> nat option) \<Rightarrow> nat option \<Rightarrow> nat \<Rightarrow> nat option option" where
  "walk h f n 0 = Some n"
| "walk h f n (Suc i) = (case n of None \<Rightarrow> Some None | Some a \<Rightarrow> do { nd \<leftarrow> h a; walk h f (f nd) i })"

text \<open>The smallest index cannot be negated.\<close>

definition listIndex :: "'v heap \<Rightarrow> 'v dll \<Rightarrow> int \<Rightarrow> nat option option" where
  "listIndex h l index =
     (if index < 0 then (if index = - (2 ^ 63) then None else walk h prev (tail l) (nat (- index - 1)))
      else walk h nxt (head l) (nat index))"

definition listRotate :: "'v heap \<Rightarrow> 'v dll \<Rightarrow> ('v heap \<times> 'v dll) option" where
  "listRotate h l =
     (if len l \<le> 1 then Some (h, l)
      else do {
        t \<leftarrow> tail l;
        n \<leftarrow> h t;
        let l1 = l\<lparr>tail := prev n\<rparr>;
        h1 \<leftarrow> put h (tail l1) (\<lambda>m. m\<lparr>nxt := None\<rparr>);
        h2 \<leftarrow> put h1 (head l1) (\<lambda>m. m\<lparr>prev := Some t\<rparr>);
        h3 \<leftarrow> put h2 (Some t) (\<lambda>m. m\<lparr>prev := None\<rparr>);
        h4 \<leftarrow> put h3 (Some t) (\<lambda>m. m\<lparr>nxt := head l1\<rparr>);
        Some (h4, l1\<lparr>head := Some t\<rparr>)
      })"

definition listJoin :: "'v heap \<Rightarrow> 'v dll \<Rightarrow> 'v dll \<Rightarrow> ('v heap \<times> 'v dll \<times> 'v dll) option" where
  "listJoin h l k = do {
     h1 \<leftarrow> (if head k \<noteq> None then put h (head k) (\<lambda>m. m\<lparr>prev := tail l\<rparr>) else Some h);
     (h2, l1) \<leftarrow> (if tail l \<noteq> None then do { h2 \<leftarrow> put h1 (tail l) (\<lambda>m. m\<lparr>nxt := head k\<rparr>); Some (h2, l) }
                  else Some (h1, l\<lparr>head := head k\<rparr>));
     let l2 = (if tail k \<noteq> None then l1\<lparr>tail := tail k\<rparr> else l1);
     Some (h2, l2\<lparr>len := len l2 + len k\<rparr>, k\<lparr>head := None, tail := None, len := 0\<rparr>)
   }"

section \<open>Lists in the heap\<close>

text \<open>The address before and after a part of a list.\<close>

definition after_ptr :: "(nat \<times> 'v) list \<Rightarrow> nat option \<Rightarrow> nat option" where
  "after_ptr xs q = (if xs = [] then q else Some (fst (hd xs)))"

definition before_ptr :: "nat option \<Rightarrow> (nat \<times> 'v) list \<Rightarrow> nat option" where
  "before_ptr p xs = (if xs = [] then p else Some (fst (last xs)))"

fun seg :: "'v heap \<Rightarrow> nat option \<Rightarrow> (nat \<times> 'v) list \<Rightarrow> nat option \<Rightarrow> bool" where
  "seg h p [] q \<longleftrightarrow> True"
| "seg h p ((a, v) # xs) q \<longleftrightarrow> h a = Some \<lparr>prev = p, nxt = after_ptr xs q, val = v\<rparr> \<and> seg h (Some a) xs q"

definition holds :: "'v heap \<Rightarrow> 'v dll \<Rightarrow> (nat \<times> 'v) list \<Rightarrow> bool" where
  "holds h l xs \<longleftrightarrow> seg h None xs None \<and> distinct (map fst xs) \<and> head l = after_ptr xs None \<and> tail l = before_ptr None xs \<and>
     len l = length xs"

lemma ptr_simps [simp]:
  "after_ptr [] q = q" "after_ptr (x # xs) q = Some (fst x)" "after_ptr (xs @ ys) q = after_ptr xs (after_ptr ys q)"
  "before_ptr p [] = p" "before_ptr p (xs @ [x]) = Some (fst x)" "before_ptr p (xs @ ys) = before_ptr (before_ptr p xs) ys"
  "before_ptr p [x] = Some (fst x)"
  by (simp_all add: after_ptr_def before_ptr_def)

lemma before_ptr_Cons [simp]: "before_ptr p (x # xs) = before_ptr (Some (fst x)) xs"
  by (simp add: before_ptr_def)

lemma seg_append [simp]: "seg h p (xs @ ys) q \<longleftrightarrow> seg h p xs (after_ptr ys q) \<and> seg h (before_ptr p xs) ys q"
  by (induction h p xs q rule: seg.induct) auto

lemma seg_frame: "(\<And>a. a \<in> fst ` set xs \<Longrightarrow> h' a = h a) \<Longrightarrow> seg h' p xs q \<longleftrightarrow> seg h p xs q"
  by (induction h p xs q rule: seg.induct) auto

lemma seg_upd [simp]: "a \<notin> fst ` set xs \<Longrightarrow> seg (h(a := n)) p xs q \<longleftrightarrow> seg h p xs q"
  by (rule seg_frame) auto

lemma seg_dom: "seg h p xs q \<Longrightarrow> a \<in> fst ` set xs \<Longrightarrow> h a \<noteq> None"
  by (induction h p xs q rule: seg.induct) auto

lemma put_simps [simp]:
  "put h None f = None" "put h (Some a) f = map_option (\<lambda>n. h(a \<mapsto> f n)) (h a)"
  by (cases "h a"; simp add: put_def)+

text \<open>The ends of a list, to change their pointers.\<close>

lemma seg_last:
  assumes "seg h p (xs @ [(a, v)]) q" "distinct (map fst (xs @ [(a, v)]))"
  shows "h a = Some \<lparr>prev = before_ptr p xs, nxt = q, val = v\<rparr>"
    "seg (h(a \<mapsto> \<lparr>prev = before_ptr p xs, nxt = q', val = v\<rparr>)) p (xs @ [(a, v)]) q'"
  using assms by simp_all

lemma seg_first:
  assumes "seg h p ((a, v) # xs) q" "distinct (map fst ((a, v) # xs))"
  shows "h a = Some \<lparr>prev = p, nxt = after_ptr xs q, val = v\<rparr>"
    "seg (h(a \<mapsto> \<lparr>prev = p', nxt = after_ptr xs q, val = v\<rparr>)) p' ((a, v) # xs) q"
  using assms by simp_all

section \<open>What the operations do\<close>

definition addrs :: "(nat \<times> 'v) list \<Rightarrow> nat set" where
  "addrs xs = fst ` set xs"

lemma addrs_simps [simp]:
  "addrs [] = {}" "addrs (x # xs) = insert (fst x) (addrs xs)" "addrs (xs @ ys) = addrs xs \<union> addrs ys" "finite (addrs xs)"
  by (simp_all add: addrs_def image_Un)

text \<open>An operation changes the heap at the given addresses only and keeps the methods of the list.\<close>

definition confined :: "nat set \<Rightarrow> 'v heap \<Rightarrow> 'v dll \<Rightarrow> 'v heap \<Rightarrow> 'v dll \<Rightarrow> bool" where
  "confined A h l h' l' \<longleftrightarrow> (\<forall>b. b \<notin> A \<longrightarrow> h' b = h b) \<and> dup l' = dup l \<and> free l' = free l \<and> match l' = match l"

lemma holds_other:
  assumes "holds h m ys" "\<And>b. b \<in> addrs ys \<Longrightarrow> h' b = h b"
  shows "holds h' m ys"
  using assms seg_frame [of ys h' h] by (auto simp: holds_def addrs_def)

lemma holds_create: "holds h (listCreate\<lparr>dup := d, free := f, match := m\<rparr>) []"
  by (simp add: holds_def listCreate_def)

lemma listAddNodeTail_ok:
  assumes l: "holds h l xs" and a: "h a = None"
  obtains h' l' where "listAddNodeTail h l a v = Some (h', l')" "holds h' l' (xs @ [(a, v)])"
    "confined (addrs (xs @ [(a, v)])) h l h' l'" "h' a \<noteq> None"
proof (cases xs rule: rev_cases)
  case Nil
  show thesis
    by (rule that [of "h(a \<mapsto> \<lparr>prev = None, nxt = None, val = v\<rparr>)" "l\<lparr>head := Some a, tail := Some a, len := len l + 1\<rparr>"])
      (use l Nil in \<open>auto simp: listAddNodeTail_def holds_def confined_def addrs_def\<close>)
next
  case (snoc ys z)
  obtain b w where z: "z = (b, w)" by (cases z)
  have s: "seg h None (ys @ [(b, w)]) None" "distinct (map fst (ys @ [(b, w)]))" "tail l = Some b" "len l = Suc (length ys)"
    "head l = after_ptr (ys @ [(b, w)]) None" using l snoc z by (auto simp: holds_def)
  note e = seg_last [OF s(1,2)]
  have ne: "a \<notin> fst ` set (ys @ [(b, w)])" using seg_dom [OF s(1)] a by blast
  let ?n = "\<lparr>prev = Some b, nxt = None, val = v\<rparr>" and ?m = "\<lparr>prev = before_ptr None ys, nxt = Some a, val = w\<rparr>"
  have ab: "b \<noteq> a" using ne by auto
  have "seg (h(b \<mapsto> ?m, a \<mapsto> ?n)) None (ys @ [(b, w)]) (Some a)" using e(2) [of "Some a"] ne by (subst seg_upd) simp_all
  then have "seg (h(a \<mapsto> ?n, b \<mapsto> ?m)) None (ys @ [(b, w)]) (Some a)" using ab by (simp add: fun_upd_twist)
  then have h: "holds (h(a \<mapsto> ?n, b \<mapsto> ?m)) (l\<lparr>tail := Some a, len := len l + 1\<rparr>) (xs @ [(a, v)])"
    using s(2,4,5) ne ab snoc z by (auto simp: holds_def)
  have run: "listAddNodeTail h l a v = Some (h(a \<mapsto> ?n, b \<mapsto> ?m), l\<lparr>tail := Some a, len := len l + 1\<rparr>)"
    using s(3,4) e(1) ab by (simp add: listAddNodeTail_def)
  show thesis by (rule that [OF run h]) (use snoc z ab in \<open>auto simp: confined_def\<close>)
qed

lemma listAddNodeHead_ok:
  assumes l: "holds h l xs" and a: "h a = None"
  obtains h' l' where "listAddNodeHead h l a v = Some (h', l')" "holds h' l' ((a, v) # xs)"
    "confined (addrs ((a, v) # xs)) h l h' l'" "h' a \<noteq> None"
proof (cases xs)
  case Nil
  show thesis
    by (rule that [of "h(a \<mapsto> \<lparr>prev = None, nxt = None, val = v\<rparr>)" "l\<lparr>head := Some a, tail := Some a, len := len l + 1\<rparr>"])
      (use l Nil in \<open>auto simp: listAddNodeHead_def holds_def confined_def addrs_def\<close>)
next
  case (Cons z ys)
  obtain b w where z: "z = (b, w)" by (cases z)
  have s: "seg h None ((b, w) # ys) None" "distinct (map fst ((b, w) # ys))" "head l = Some b" "len l = Suc (length ys)"
    "tail l = before_ptr None ((b, w) # ys)" using l Cons z by (auto simp: holds_def)
  note e = seg_first [OF s(1,2)]
  have ne: "a \<notin> fst ` set ((b, w) # ys)" using seg_dom [OF s(1)] a by blast
  let ?n = "\<lparr>prev = None, nxt = Some b, val = v\<rparr>" and ?m = "\<lparr>prev = Some a, nxt = after_ptr ys None, val = w\<rparr>"
  have ab: "b \<noteq> a" using ne by auto
  have "seg (h(b \<mapsto> ?m, a \<mapsto> ?n)) (Some a) ((b, w) # ys) None" using e(2) [of "Some a"] ne by (subst seg_upd) simp_all
  then have "seg (h(a \<mapsto> ?n, b \<mapsto> ?m)) (Some a) ((b, w) # ys) None" using ab by (simp add: fun_upd_twist)
  then have h: "holds (h(a \<mapsto> ?n, b \<mapsto> ?m)) (l\<lparr>head := Some a, len := len l + 1\<rparr>) ((a, v) # xs)"
    using s(2,4,5) ne ab Cons z by (auto simp: holds_def)
  have run: "listAddNodeHead h l a v = Some (h(a \<mapsto> ?n, b \<mapsto> ?m), l\<lparr>head := Some a, len := len l + 1\<rparr>)"
    using s(3,4) e(1) ab by (simp add: listAddNodeHead_def)
  show thesis by (rule that [OF run h]) (use Cons z ab in \<open>auto simp: confined_def\<close>)
qed

text \<open>Changing the pointer at the end of a part, which may be empty.\<close>

definition relink_next :: "'v heap \<Rightarrow> nat option \<Rightarrow> nat option \<Rightarrow> 'v heap" where
  "relink_next h p q = (case p of None \<Rightarrow> h | Some a \<Rightarrow> h(a := map_option (\<lambda>n. n\<lparr>nxt := q\<rparr>) (h a)))"

definition relink_prev :: "'v heap \<Rightarrow> nat option \<Rightarrow> nat option \<Rightarrow> 'v heap" where
  "relink_prev h q p = (case q of None \<Rightarrow> h | Some a \<Rightarrow> h(a := map_option (\<lambda>n. n\<lparr>prev := p\<rparr>) (h a)))"

lemma relink_next_seg:
  assumes "seg h p xs q" "distinct (map fst xs)"
  shows "seg (relink_next h (before_ptr None xs) q') p xs q'"
    "before_ptr None xs \<noteq> None \<Longrightarrow> put h (before_ptr None xs) (\<lambda>m. m\<lparr>nxt := q'\<rparr>) = Some (relink_next h (before_ptr None xs) q')"
    "b \<notin> addrs xs \<Longrightarrow> relink_next h (before_ptr None xs) q' b = h b"
  using assms by (cases xs rule: rev_cases; auto simp: relink_next_def addrs_def split: prod.splits)+

lemma relink_prev_seg:
  assumes "seg h p xs q" "distinct (map fst xs)"
  shows "seg (relink_prev h (after_ptr xs None) p') p' xs q"
    "after_ptr xs None \<noteq> None \<Longrightarrow> put h (after_ptr xs None) (\<lambda>m. m\<lparr>prev := p'\<rparr>) = Some (relink_prev h (after_ptr xs None) p')"
    "b \<notin> addrs xs \<Longrightarrow> relink_prev h (after_ptr xs None) p' b = h b"
  using assms by (cases xs; auto simp: relink_prev_def addrs_def split: prod.splits)+

text \<open>Two parts that are linked to each other.\<close>

lemma seg_join:
  assumes x: "seg h p xs q" "distinct (map fst xs)" and y: "seg h p' ys q'" "distinct (map fst ys)" and d: "addrs xs \<inter> addrs ys = {}"
  defines "h' \<equiv> relink_prev (relink_next h (before_ptr None xs) (after_ptr ys q')) (after_ptr ys None) (before_ptr p xs)"
  shows "seg h' p (xs @ ys) q'" "b \<notin> addrs (xs @ ys) \<Longrightarrow> h' b = h b"
    "after_ptr ys None \<noteq> None \<Longrightarrow>
      put (relink_next h (before_ptr None xs) (after_ptr ys q')) (after_ptr ys None) (\<lambda>m. m\<lparr>prev := before_ptr p xs\<rparr>) = Some h'"
proof -
  let ?h1 = "relink_next h (before_ptr None xs) (after_ptr ys q')"
  note n = relink_next_seg [OF x, where q' = "after_ptr ys q'"]
  have "seg ?h1 p' ys q'" using y(1) n(3) d by (subst seg_frame [of ys ?h1 h]) (auto simp: addrs_def)
  note r = relink_prev_seg [OF this y(2), where p' = "before_ptr p xs"]
  have "seg h' p xs (after_ptr ys q')" using n(1) r(3) d unfolding h'_def by (subst seg_frame [of xs _ ?h1]) (auto simp: addrs_def)
  then show "seg h' p (xs @ ys) q'" using r(1) unfolding h'_def by simp
  show "b \<notin> addrs (xs @ ys) \<Longrightarrow> h' b = h b" using n(3) [of b] r(3) [of b] unfolding h'_def by simp
  show "after_ptr ys None \<noteq> None \<Longrightarrow> put ?h1 (after_ptr ys None) (\<lambda>m. m\<lparr>prev := before_ptr p xs\<rparr>) = Some h'"
    using r(2) unfolding h'_def by simp
qed

lemma ptr_None [simp]: "before_ptr None xs = None \<longleftrightarrow> xs = []" "after_ptr xs None = None \<longleftrightarrow> xs = []"
  by (simp_all add: before_ptr_def after_ptr_def)

lemma relink_None [simp]: "relink_next h None q = h" "relink_prev h None p = h"
  by (simp_all add: relink_next_def relink_prev_def)

lemma listDelNode_ok:
  assumes "holds h l (xs @ (a, v) # ys)"
  obtains h' l' where "listDelNode h l a = Some (h', l', if free l then [v] else [])" "holds h' l' (xs @ ys)"
    "confined (addrs (xs @ (a, v) # ys)) h l h' l'" "h' a = None"
proof -
  let ?p = "before_ptr None xs" and ?q = "after_ptr ys None"
  have s: "seg h None xs (Some a)" "seg h (Some a) ys None" "h a = Some \<lparr>prev = ?p, nxt = ?q, val = v\<rparr>"
    "distinct (map fst xs)" "distinct (map fst ys)" "addrs xs \<inter> addrs ys = {}" "a \<notin> addrs xs" "a \<notin> addrs ys"
    "head l = after_ptr xs (Some a)" "tail l = before_ptr (Some a) ys" "len l = Suc (length xs + length ys)"
    using assms by (auto simp: holds_def addrs_def)
  let ?h1 = "relink_next h ?p ?q" and ?h2 = "relink_prev (relink_next h ?p ?q) ?q ?p"
  note j = seg_join [OF s(1,4,2,5,6)]
  note n = relink_next_seg [OF s(1,4), where q' = ?q]
  have a1: "?h1 a = h a" using n(3) s(7) by simp
  have a2: "?h2 a = h a" using j(2) [of a] s(7,8) by simp
  let ?l1 = "if xs = [] then l\<lparr>head := ?q\<rparr> else l"
  let ?l2 = "if ys = [] then ?l1\<lparr>tail := ?p\<rparr> else ?l1"
  have 1: "(if ?p \<noteq> None then do { h1 \<leftarrow> put h ?p (\<lambda>m. m\<lparr>nxt := ?q\<rparr>); Some (h1, l) } else Some (h, l\<lparr>head := ?q\<rparr>)) = Some (?h1, ?l1)"
    using n(2) by simp
  have 2: "(if ?q \<noteq> None then do { h2 \<leftarrow> put ?h1 ?q (\<lambda>m. m\<lparr>prev := ?p\<rparr>); Some (h2, ?l1) } else Some (?h1, ?l1\<lparr>tail := ?p\<rparr>)) = Some (?h2, ?l2)"
    using j(3) by simp
  have run: "listDelNode h l a = Some (?h2(a := None), ?l2\<lparr>len := len ?l2 - 1\<rparr>, if free l then [v] else [])"
    unfolding listDelNode_def a1 a2 s(3) bind.bind_lunit lnode.select_convs 1 2 prod.case by simp
  have "seg (?h2(a := None)) None (xs @ ys) None" using j(1) s(7,8) by (subst seg_upd) (auto simp: addrs_def)
  then have "holds (?h2(a := None)) (?l2\<lparr>len := len ?l2 - 1\<rparr>) (xs @ ys)"
    using s(4-6,9-11) by (auto simp: holds_def addrs_def after_ptr_def before_ptr_def)
  then show thesis by (rule that [OF run]) (use j(2) in \<open>auto simp: confined_def\<close>)
qed

lemma splice:
  fixes v :: 'v
  assumes "holds h l (xs @ ys)" "h a = None"
  defines "h1 \<equiv> h(a \<mapsto> \<lparr>prev = before_ptr None xs, nxt = after_ptr ys None, val = v\<rparr>)"
  defines "h2 \<equiv> relink_next h1 (before_ptr None xs) (Some a)"
  defines "h3 \<equiv> relink_prev h2 (after_ptr ys None) (Some a)"
  shows "seg h3 None (xs @ (a, v) # ys) None" "distinct (map fst (xs @ (a, v) # ys))" "b \<notin> addrs (xs @ (a, v) # ys) \<Longrightarrow> h3 b = h b" "h3 a \<noteq> None"
    "xs \<noteq> [] \<Longrightarrow> put h1 (before_ptr None xs) (\<lambda>m. m\<lparr>nxt := Some a\<rparr>) = Some h2"
    "ys \<noteq> [] \<Longrightarrow> put h2 (after_ptr ys None) (\<lambda>m. m\<lparr>prev := Some a\<rparr>) = Some h3"
proof -
  have s: "seg h None xs (after_ptr ys None)" "seg h (before_ptr None xs) ys None" "distinct (map fst xs)" "distinct (map fst ys)"
    "addrs xs \<inter> addrs ys = {}" using assms(1) by (auto simp: holds_def addrs_def)
  have na: "a \<notin> addrs xs" "a \<notin> addrs ys" using seg_dom [OF s(1)] seg_dom [OF s(2)] assms(2) unfolding addrs_def by blast+
  have x1: "seg h1 None xs (after_ptr ys None)" "seg h1 (before_ptr None xs) ys None"
    using s(1,2) na unfolding h1_def by (auto simp: addrs_def)
  note n = relink_next_seg [OF x1(1) s(3), where q' = "Some a", folded h2_def]
  have x2: "seg h2 (before_ptr None xs) ys None" using x1(2) n(3) s(5) by (subst seg_frame [of ys h2 h1]) (auto simp: addrs_def)
  note r = relink_prev_seg [OF x2 s(4), where p' = "Some a", folded h3_def]
  have x3: "seg h3 None xs (Some a)" using n(1) r(3) s(5) by (subst seg_frame [of xs h3 h2]) (auto simp: addrs_def)
  have h3a: "h3 a = Some \<lparr>prev = before_ptr None xs, nxt = after_ptr ys None, val = v\<rparr>"
    using r(3) n(3) na unfolding h1_def by simp
  show "seg h3 None (xs @ (a, v) # ys) None" using x3 h3a r(1) by simp
  show "distinct (map fst (xs @ (a, v) # ys))" using s(3-5) na by (auto simp: addrs_def)
  show "b \<notin> addrs (xs @ (a, v) # ys) \<Longrightarrow> h3 b = h b" using r(3) [of b] n(3) [of b] by (simp add: h1_def)
  show "h3 a \<noteq> None" using h3a by simp
  show "xs \<noteq> [] \<Longrightarrow> put h1 (before_ptr None xs) (\<lambda>m. m\<lparr>nxt := Some a\<rparr>) = Some h2" using n(2) by simp
  show "ys \<noteq> [] \<Longrightarrow> put h2 (after_ptr ys None) (\<lambda>m. m\<lparr>prev := Some a\<rparr>) = Some h3" using r(2) by simp
qed

lemma listInsertNode_ok:
  assumes l: "holds h l (xs @ (c, w) # ys)" and a: "h a = None"
  obtains h' l' where "listInsertNode h l c a v after = Some (h', l')"
    "holds h' l' (if after then xs @ (c, w) # (a, v) # ys else xs @ (a, v) # (c, w) # ys)"
    "confined (addrs (xs @ (a, v) # (c, w) # ys)) h l h' l'" "h' a \<noteq> None"
proof -
  let ?x = "if after then xs @ [(c, w)] else xs" and ?y = "if after then ys else (c, w) # ys"
  have e: "xs @ (c, w) # ys = ?x @ ?y" by simp
  have hc: "h c = Some \<lparr>prev = before_ptr None xs, nxt = after_ptr ys None, val = w\<rparr>"
    and d: "distinct (map fst (xs @ (c, w) # ys))" and ends: "head l = after_ptr (xs @ (c, w) # ys) None"
      "tail l = before_ptr None (xs @ (c, w) # ys)" "len l = Suc (length xs + length ys)"
    using l by (auto simp: holds_def)
  let ?n = "\<lparr>prev = before_ptr None ?x, nxt = after_ptr ?y None, val = v\<rparr>"
  let ?h2 = "relink_next (h(a \<mapsto> ?n)) (before_ptr None ?x) (Some a)"
  let ?h3 = "relink_prev ?h2 (after_ptr ?y None) (Some a)"
  note s = splice [OF l [unfolded e] a, where v = v]
  have n: "(if after then \<lparr>prev = Some c, nxt = nxt \<lparr>prev = before_ptr None xs, nxt = after_ptr ys None, val = w\<rparr>, val = v\<rparr>
      else \<lparr>prev = prev \<lparr>prev = before_ptr None xs, nxt = after_ptr ys None, val = w\<rparr>, nxt = Some c, val = v\<rparr>) = ?n" by simp
  have 1: "(if prev ?n \<noteq> None then put (h(a \<mapsto> ?n)) (prev ?n) (\<lambda>m. m\<lparr>nxt := Some a\<rparr>) else Some (h(a \<mapsto> ?n))) = Some ?h2"
    using s(5) by (cases "?x = []") simp_all
  have 2: "(if nxt ?n \<noteq> None then put ?h2 (nxt ?n) (\<lambda>m. m\<lparr>prev := Some a\<rparr>) else Some ?h2) = Some ?h3"
    using s(6) by (cases "?y = []") simp_all
  let ?l1 = "if after then (if tail l = Some c then l\<lparr>tail := Some a\<rparr> else l) else (if head l = Some c then l\<lparr>head := Some a\<rparr> else l)"
  have run: "listInsertNode h l c a v after = Some (?h3, ?l1\<lparr>len := len ?l1 + 1\<rparr>)"
    unfolding listInsertNode_def hc Let_def bind.bind_lunit n 1 2 by simp
  have "tail l = Some c \<longleftrightarrow> ys = []" "head l = Some c \<longleftrightarrow> xs = []"
    using d ends(1,2) by (auto simp: before_ptr_def after_ptr_def)
  then have hold: "holds ?h3 (?l1\<lparr>len := len ?l1 + 1\<rparr>) (?x @ (a, v) # ?y)"
    using s(1,2) ends unfolding holds_def by (cases after; auto simp: before_ptr_def after_ptr_def)
  have eq: "?x @ (a, v) # ?y = (if after then xs @ (c, w) # (a, v) # ys else xs @ (a, v) # (c, w) # ys)" by simp
  have "addrs (?x @ (a, v) # ?y) = addrs (xs @ (a, v) # (c, w) # ys)" by auto
  then have conf: "confined (addrs (xs @ (a, v) # (c, w) # ys)) h l ?h3 (?l1\<lparr>len := len ?l1 + 1\<rparr>)" using s(3) by (auto simp: confined_def)
  show thesis by (rule that [OF run hold [unfolded eq] conf s(4)])
qed

lemma listJoin_ok:
  assumes l: "holds h l xs" and k: "holds h k ys" and d: "addrs xs \<inter> addrs ys = {}"
  obtains h' l' k' where "listJoin h l k = Some (h', l', k')" "holds h' l' (xs @ ys)" "holds h' k' []"
    "confined (addrs (xs @ ys)) h l h' l'"
proof -
  have x: "seg h None xs None" "distinct (map fst xs)" "head l = after_ptr xs None" "tail l = before_ptr None xs" "len l = length xs"
    and y: "seg h None ys None" "distinct (map fst ys)" "head k = after_ptr ys None" "tail k = before_ptr None ys" "len k = length ys"
    using l k by (auto simp: holds_def)
  let ?h1 = "relink_prev h (after_ptr ys None) (before_ptr None xs)"
  let ?h2 = "relink_next ?h1 (before_ptr None xs) (after_ptr ys None)"
  note r = relink_prev_seg [OF y(1,2), where p' = "before_ptr None xs"]
  have x1: "seg ?h1 None xs None" using x(1) r(3) d by (subst seg_frame [of xs ?h1 h]) (auto simp: addrs_def)
  note n = relink_next_seg [OF x1 x(2), where q' = "after_ptr ys None"]
  have y2: "seg ?h2 (before_ptr None xs) ys None" using r(1) n(3) d by (subst seg_frame [of ys ?h2 ?h1]) (auto simp: addrs_def)
  have 1: "(if head k \<noteq> None then put h (head k) (\<lambda>m. m\<lparr>prev := tail l\<rparr>) else Some h) = Some ?h1"
    unfolding x(4) y(3) using r(2) by (cases "ys = []") simp_all
  let ?l1 = "if xs = [] then l\<lparr>head := head k\<rparr> else l"
  have 2: "(if tail l \<noteq> None then do { h2 \<leftarrow> put ?h1 (tail l) (\<lambda>m. m\<lparr>nxt := head k\<rparr>); Some (h2, l) } else Some (?h1, l\<lparr>head := head k\<rparr>)) =
      Some (?h2, ?l1)"
    unfolding x(4) y(3) using n(2) by (cases "xs = []") simp_all
  let ?l2 = "if tail k \<noteq> None then ?l1\<lparr>tail := tail k\<rparr> else ?l1"
  have run: "listJoin h l k = Some (?h2, ?l2\<lparr>len := len ?l2 + len k\<rparr>, k\<lparr>head := None, tail := None, len := 0\<rparr>)"
    unfolding listJoin_def 1 2 bind.bind_lunit prod.case Let_def by simp
  have "holds ?h2 (?l2\<lparr>len := len ?l2 + len k\<rparr>) (xs @ ys)"
    using n(1) y2 x(2-5) y(2-5) d unfolding holds_def by (auto simp: addrs_def before_ptr_def after_ptr_def)
  moreover have "confined (addrs (xs @ ys)) h l ?h2 (?l2\<lparr>len := len ?l2 + len k\<rparr>)"
    using n(3) r(3) by (auto simp: confined_def)
  moreover have "holds ?h2 (k\<lparr>head := None, tail := None, len := 0\<rparr>) []" by (simp add: holds_def)
  ultimately show thesis using that run by blast
qed

lemma listRotate_ok:
  assumes "holds h l (xs @ [(a, v)])"
  obtains h' l' where "listRotate h l = Some (h', l')" "holds h' l' ((a, v) # xs)" "confined (addrs (xs @ [(a, v)])) h l h' l'"
proof (cases xs rule: rev_cases)
  case Nil
  then show thesis using that [of h l] assms by (auto simp: listRotate_def holds_def confined_def)
next
  case (snoc ys z)
  obtain b w where z: "z = (b, w)" by (cases z)
  have s: "seg h None xs (Some a)" "distinct (map fst xs)" "a \<notin> addrs xs" "h a = Some \<lparr>prev = Some b, nxt = None, val = v\<rparr>"
    "head l = after_ptr xs None" "tail l = Some a" "len l = Suc (length xs)" "before_ptr None xs = Some b"
    using assms snoc z by (auto simp: holds_def addrs_def)
  have ne: "xs \<noteq> []" "len l > 1" using snoc s(7) by simp_all
  let ?h1 = "relink_next h (Some b) None"
  note n = relink_next_seg [OF s(1,2), where q' = None, unfolded s(8)]
  note r = relink_prev_seg [OF n(1) s(2), where p' = "Some a"]
  let ?h2 = "relink_prev ?h1 (after_ptr xs None) (Some a)"
  have 1: "put h (Some b) (\<lambda>m. m\<lparr>nxt := None\<rparr>) = Some ?h1" "put ?h1 (after_ptr xs None) (\<lambda>m. m\<lparr>prev := Some a\<rparr>) = Some ?h2"
    using n(2) r(2) ne by simp_all
  have h2a: "?h2 a = Some \<lparr>prev = Some b, nxt = None, val = v\<rparr>" using r(3) n(3) s(3,4) by simp
  let ?h4 = "?h2(a \<mapsto> \<lparr>prev = None, nxt = after_ptr xs None, val = v\<rparr>)" and ?l = "l\<lparr>tail := Some b, head := Some a\<rparr>"
  have run: "listRotate h l = Some (?h4, ?l)"
    unfolding listRotate_def Let_def using s(4-6) ne(2) 1 h2a by (simp del: put_simps(2)) simp
  have "holds ?h4 ?l ((a, v) # xs)"
    using r(1) s(2,3,7,8) ne(1) snoc z by (auto simp: holds_def addrs_def)
  moreover have "confined (addrs (xs @ [(a, v)])) h l ?h4 ?l" using r(3) n(3) by (auto simp: confined_def)
  ultimately show thesis using that run by blast
qed

lemma listEmpty_ok:
  assumes "holds h l xs"
  shows "listEmpty h l = Some (\<lambda>b. if b \<in> addrs xs then None else h b, l\<lparr>head := None, tail := None, len := 0\<rparr>,
    if free l then map snd xs else [])"
proof -
  have loop: "listEmpty_loop fr h (after_ptr xs q) (length xs) =
      Some (\<lambda>b. if b \<in> addrs xs then None else h b, if fr then map snd xs else [])"
    if "seg h p xs q" "distinct (map fst xs)" for fr p xs q and h :: "'a heap"
    using that
  proof (induction xs arbitrary: h p)
    case (Cons x xs)
    obtain a v where x: "x = (a, v)" by (cases x)
    have "seg (h(a := None)) (Some a) xs q" "distinct (map fst xs)" using Cons.prems x by auto
    note IH = Cons.IH [OF this]
    have "(\<lambda>b. if b \<in> addrs xs then None else (h(a := None)) b) = (\<lambda>b. if b \<in> addrs (x # xs) then None else h b)"
      using x by (auto simp: fun_eq_iff)
    then show ?case using Cons.prems(1) x IH by (simp del: fun_upd_apply)
  qed simp
  have "seg h None xs None" "distinct (map fst xs)" "head l = after_ptr xs None" "len l = length xs"
    using assms by (auto simp: holds_def)
  then show ?thesis using loop [of h None xs None "free l"] by (simp add: listEmpty_def)
qed

section \<open>Iteration\<close>

lemma listNext_head:
  assumes "seg h p ys None"
  shows "listNext h \<lparr>inext = after_ptr ys None, dir = AL_START_HEAD\<rparr> =
    Some (case ys of [] \<Rightarrow> (None, \<lparr>inext = None, dir = AL_START_HEAD\<rparr>)
      | y # zs \<Rightarrow> (Some (fst y), \<lparr>inext = after_ptr zs None, dir = AL_START_HEAD\<rparr>))"
  using assms by (cases ys) (auto simp: listNext_def)

lemma listNext_tail:
  assumes "seg h None ys q"
  shows "ys = [] \<Longrightarrow> listNext h \<lparr>inext = before_ptr None ys, dir = AL_START_TAIL\<rparr> = Some (None, \<lparr>inext = None, dir = AL_START_TAIL\<rparr>)"
    "ys = zs @ [y] \<Longrightarrow> listNext h \<lparr>inext = before_ptr None ys, dir = AL_START_TAIL\<rparr> =
      Some (Some (fst y), \<lparr>inext = before_ptr None zs, dir = AL_START_TAIL\<rparr>)"
  using assms by (cases y; auto simp: listNext_def)+

text \<open>The loop that the comment of \<^verbatim>\<open>listNext\<close> allows: it deletes the nodes it has just been given.\<close>

partial_function (option) delete_matching :: "'v heap \<Rightarrow> 'v dll \<Rightarrow> ('v \<Rightarrow> bool) \<Rightarrow> listIter \<Rightarrow> ('v heap \<times> 'v dll) option" where
  "delete_matching h l p it = do {
     (node, it1) \<leftarrow> listNext h it;
     case node of
       None \<Rightarrow> Some (h, l)
     | Some a \<Rightarrow> do {
         n \<leftarrow> h a;
         if p (val n) then do { (h1, l1, vs) \<leftarrow> listDelNode h l a; delete_matching h1 l1 p it1 }
         else delete_matching h l p it1
       }
   }"

lemma holds_seg:
  "holds h l (xs @ ys) \<Longrightarrow> seg h (before_ptr None xs) ys None" "holds h l (xs @ ys) \<Longrightarrow> seg h None xs (after_ptr ys None)"
  by (simp_all add: holds_def)

lemma delete_head:
  assumes "holds h l (xs @ ys)"
  shows "\<exists>h' l'. delete_matching h l p \<lparr>inext = after_ptr ys None, dir = AL_START_HEAD\<rparr> = Some (h', l') \<and>
    holds h' l' (xs @ filter (\<lambda>x. \<not> p (snd x)) ys) \<and> (\<forall>b. b \<notin> addrs (xs @ ys) \<longrightarrow> h' b = h b)"
  using assms
proof (induction ys arbitrary: h l xs)
  case Nil
  have "delete_matching h l p \<lparr>inext = None, dir = AL_START_HEAD\<rparr> = Some (h, l)"
    by (subst delete_matching.simps) (simp add: listNext_def)
  then show ?case using Nil by auto
next
  case (Cons y ys)
  obtain a v where y: "y = (a, v)" by (cases y)
  have nx: "listNext h \<lparr>inext = after_ptr (y # ys) None, dir = AL_START_HEAD\<rparr> = Some (Some a, \<lparr>inext = after_ptr ys None, dir = AL_START_HEAD\<rparr>)"
    using listNext_head [OF holds_seg(1) [OF Cons.prems]] y by simp
  obtain n where n: "h a = Some n" "val n = v" using holds_seg(1) [OF Cons.prems] y by auto
  show ?case
  proof (cases "p v")
    case True
    obtain h1 l1 vs where d: "listDelNode h l a = Some (h1, l1, vs)" "holds h1 l1 (xs @ ys)" "confined (addrs (xs @ (a, v) # ys)) h l h1 l1"
      using listDelNode_ok [of h l xs a v ys] Cons.prems y by blast
    obtain h' l' where r: "delete_matching h1 l1 p \<lparr>inext = after_ptr ys None, dir = AL_START_HEAD\<rparr> = Some (h', l')"
        "holds h' l' (xs @ filter (\<lambda>x. \<not> p (snd x)) ys)" "\<forall>b. b \<notin> addrs (xs @ ys) \<longrightarrow> h' b = h1 b"
      using Cons.IH [OF d(2)] by blast
    have "delete_matching h l p \<lparr>inext = after_ptr (y # ys) None, dir = AL_START_HEAD\<rparr> = Some (h', l')"
      by (subst delete_matching.simps) (simp only: nx bind.bind_lunit prod.case option.case n d(1) True if_True r(1))
    then show ?thesis using r(2,3) d(3) y True by (auto simp: confined_def)
  next
    case False
    have "holds h l ((xs @ [y]) @ ys)" using Cons.prems by simp
    then obtain h' l' where r: "delete_matching h l p \<lparr>inext = after_ptr ys None, dir = AL_START_HEAD\<rparr> = Some (h', l')"
        "holds h' l' ((xs @ [y]) @ filter (\<lambda>x. \<not> p (snd x)) ys)" "\<forall>b. b \<notin> addrs ((xs @ [y]) @ ys) \<longrightarrow> h' b = h b"
      using Cons.IH by blast
    have "delete_matching h l p \<lparr>inext = after_ptr (y # ys) None, dir = AL_START_HEAD\<rparr> = Some (h', l')"
      by (subst delete_matching.simps) (simp only: nx bind.bind_lunit prod.case option.case n False if_False r(1))
    then show ?thesis using r(2,3) y False by auto
  qed
qed

lemma delete_tail:
  assumes "holds h l (ys @ xs)"
  shows "\<exists>h' l'. delete_matching h l p \<lparr>inext = before_ptr None ys, dir = AL_START_TAIL\<rparr> = Some (h', l') \<and>
    holds h' l' (filter (\<lambda>x. \<not> p (snd x)) ys @ xs) \<and> (\<forall>b. b \<notin> addrs (ys @ xs) \<longrightarrow> h' b = h b)"
  using assms
proof (induction ys arbitrary: h l xs rule: rev_induct)
  case Nil
  have "delete_matching h l p \<lparr>inext = None, dir = AL_START_TAIL\<rparr> = Some (h, l)"
    by (subst delete_matching.simps) (simp add: listNext_def)
  then show ?case using Nil by auto
next
  case (snoc y ys)
  obtain a v where y: "y = (a, v)" by (cases y)
  have nx: "listNext h \<lparr>inext = before_ptr None (ys @ [y]), dir = AL_START_TAIL\<rparr> = Some (Some a, \<lparr>inext = before_ptr None ys, dir = AL_START_TAIL\<rparr>)"
    using listNext_tail(2) [OF holds_seg(2) [OF snoc.prems] refl] y by simp
  obtain n where n: "h a = Some n" "val n = v" using holds_seg(2) [OF snoc.prems] y by auto
  have hl: "holds h l (ys @ (a, v) # xs)" using snoc.prems y by simp
  show ?case
  proof (cases "p v")
    case True
    obtain h1 l1 vs where d: "listDelNode h l a = Some (h1, l1, vs)" "holds h1 l1 (ys @ xs)" "confined (addrs (ys @ (a, v) # xs)) h l h1 l1"
      using listDelNode_ok [OF hl] by blast
    obtain h' l' where r: "delete_matching h1 l1 p \<lparr>inext = before_ptr None ys, dir = AL_START_TAIL\<rparr> = Some (h', l')"
        "holds h' l' (filter (\<lambda>x. \<not> p (snd x)) ys @ xs)" "\<forall>b. b \<notin> addrs (ys @ xs) \<longrightarrow> h' b = h1 b"
      using snoc.IH [OF d(2)] by blast
    have "delete_matching h l p \<lparr>inext = before_ptr None (ys @ [y]), dir = AL_START_TAIL\<rparr> = Some (h', l')"
      by (subst delete_matching.simps) (simp only: nx bind.bind_lunit prod.case option.case n d(1) True if_True r(1))
    then show ?thesis using r(2,3) d(3) y True by (auto simp: confined_def)
  next
    case False
    obtain h' l' where r: "delete_matching h l p \<lparr>inext = before_ptr None ys, dir = AL_START_TAIL\<rparr> = Some (h', l')"
        "holds h' l' (filter (\<lambda>x. \<not> p (snd x)) ys @ (a, v) # xs)" "\<forall>b. b \<notin> addrs (ys @ (a, v) # xs) \<longrightarrow> h' b = h b"
      using snoc.IH [OF hl] by blast
    have "delete_matching h l p \<lparr>inext = before_ptr None (ys @ [y]), dir = AL_START_TAIL\<rparr> = Some (h', l')"
      by (subst delete_matching.simps) (simp only: nx bind.bind_lunit prod.case option.case n False if_False r(1))
    then show ?thesis using r(2,3) y False by auto
  qed
qed

text \<open>Searching and indexing.\<close>

lemma search_loop:
  assumes "seg h q ys None"
  shows "listSearchKey_loop h p \<lparr>inext = after_ptr ys None, dir = AL_START_HEAD\<rparr> = Some (map_option fst (find (\<lambda>x. p (snd x)) ys))"
  using assms
proof (induction ys arbitrary: q)
  case Nil
  then show ?case by (subst listSearchKey_loop.simps) (simp add: listNext_def)
next
  case (Cons y ys)
  obtain a v where y: "y = (a, v)" by (cases y)
  then have "seg h (Some a) ys None" using Cons.prems by simp
  note IH = Cons.IH [OF this]
  show ?case
    using Cons.prems y IH listNext_head [OF Cons.prems] by (subst listSearchKey_loop.simps) simp
qed

lemma listSearchKey_ok:
  assumes "holds h l xs"
  shows "listSearchKey h l k =
    Some (map_option fst (find (\<lambda>x. case match l of Some m \<Rightarrow> m (snd x) k | None \<Rightarrow> k = snd x) xs))"
proof -
  have "seg h None xs None" "head l = after_ptr xs None" using assms by (auto simp: holds_def)
  then show ?thesis
    using search_loop [of h None xs] by (cases "match l") (simp_all add: listSearchKey_def listRewind_def)
qed

lemma walk_next: "seg h q ys None \<Longrightarrow> walk h nxt (after_ptr ys None) i = Some (if i < length ys then Some (fst (ys ! i)) else None)"
proof (induction ys arbitrary: q i)
  case Nil
  then show ?case by (cases i) simp_all
next
  case (Cons y ys)
  then show ?case by (cases y; cases i) auto
qed

lemma walk_prev: "seg h None ys q \<Longrightarrow> walk h prev (before_ptr None ys) i = Some (if i < length ys then Some (fst (rev ys ! i)) else None)"
proof (induction ys arbitrary: q i rule: rev_induct)
  case Nil
  then show ?case by (cases i) simp_all
next
  case (snoc y ys)
  then show ?case by (cases y; cases i) auto
qed

lemma listIndex_ok:
  assumes l: "holds h l xs" and i: "- (2 ^ 63) < i"
  shows "listIndex h l i = Some (if 0 \<le> i \<and> i < int (length xs) then Some (fst (xs ! nat i))
    else if i < 0 \<and> - i \<le> int (length xs) then Some (fst (xs ! nat (int (length xs) + i))) else None)"
proof -
  have s: "seg h None xs None" "head l = after_ptr xs None" "tail l = before_ptr None xs" using l by (auto simp: holds_def)
  show ?thesis
  proof (cases "i < 0")
    case True
    have "rev xs ! nat (- i - 1) = xs ! nat (int (length xs) + i)" if "- i \<le> int (length xs)"
    proof -
      have "nat (- i - 1) < length xs" using True that by linarith
      moreover have "length xs - Suc (nat (- i - 1)) = nat (int (length xs) + i)" using True that by linarith
      ultimately show ?thesis by (simp add: rev_nth)
    qed
    moreover have "nat (- i - 1) < length xs \<longleftrightarrow> - i \<le> int (length xs)" using True by linarith
    ultimately show ?thesis using True i s(3) walk_prev [OF s(1)] by (auto simp: listIndex_def)
  next
    case False
    then have "nat i < length xs \<longleftrightarrow> i < int (length xs)" by linarith
    then show ?thesis using False s(2) walk_next [OF s(1)] by (simp add: listIndex_def)
  qed
qed

text \<open>Copying. The values of the copy are what the method \<^verbatim>\<open>dup\<close> makes of those of the original.\<close>

definition copies :: "'v dll \<Rightarrow> (nat \<times> 'v) list \<Rightarrow> 'v list option" where
  "copies l xs = those (map (\<lambda>x. case dup l of Some d \<Rightarrow> d (snd x) | None \<Rightarrow> Some (snd x)) xs)"

lemma copies_simps [simp]:
  "copies l [] = Some []"
  "copies l (x # xs) = (case (case dup l of Some d \<Rightarrow> d (snd x) | None \<Rightarrow> Some (snd x)) of
     None \<Rightarrow> None | Some v \<Rightarrow> map_option (Cons v) (copies l xs))"
  by (simp_all add: copies_def split: option.splits)

lemma copies_cong: "dup k = dup l \<Longrightarrow> copies k xs = copies l xs"
  by (simp add: copies_def)

lemma listDup_loop_ok:
  assumes "seg h q ys None" "holds h copy zs" "addrs ys \<inter> addrs zs = {}" "distinct as" "\<forall>a\<in>set as. h a = None" "length as = length ys"
  shows "\<exists>h' r. listDup_loop h copy \<lparr>inext = after_ptr ys None, dir = AL_START_HEAD\<rparr> as = Some (h', r) \<and>
    (\<forall>b. b \<notin> addrs zs \<union> set as \<longrightarrow> h' b = h b) \<and>
    (case copies copy ys of
       Some ws \<Rightarrow> \<exists>k. r = Some k \<and> holds h' k (zs @ zip as ws) \<and> dup k = dup copy \<and> free k = free copy \<and> match k = match copy
     | None \<Rightarrow> r = None \<and> (\<forall>b\<in>addrs zs \<union> set as. h' b = None))"
  using assms
proof (induction ys arbitrary: h q copy zs as)
  case Nil
  then have "listDup_loop h copy \<lparr>inext = None, dir = AL_START_HEAD\<rparr> as = Some (h, Some copy)"
    by (subst listDup_loop.simps) (simp add: listNext_def)
  then show ?case using Nil by auto
next
  case (Cons y ys)
  obtain p v where y: "y = (p, v)" by (cases y)
  obtain a as' where as: "as = a # as'" using Cons.prems(6) by (cases as) auto
  have nx: "listNext h \<lparr>inext = after_ptr (y # ys) None, dir = AL_START_HEAD\<rparr> = Some (Some p, \<lparr>inext = after_ptr ys None, dir = AL_START_HEAD\<rparr>)"
    using listNext_head [OF Cons.prems(1)] y by simp
  obtain n where n: "h p = Some n" "val n = v" "seg h (Some p) ys None" using Cons.prems(1) y by auto
  let ?d = "case dup copy of Some d \<Rightarrow> d v | None \<Rightarrow> Some v"
  show ?case
  proof (cases ?d)
    case None
    obtain h' l' vs where e: "listEmpty h copy = Some (h', l', vs)" "\<forall>b. h' b = (if b \<in> addrs zs then None else h b)"
      using listEmpty_ok [OF Cons.prems(2)] by blast
    have "listDup_loop h copy \<lparr>inext = after_ptr (y # ys) None, dir = AL_START_HEAD\<rparr> as = Some (h', None)"
      by (subst listDup_loop.simps)
        (simp only: nx bind.bind_lunit prod.case option.case n None listRelease_def e(1))
    moreover have "copies copy (y # ys) = None" using None y by (cases "dup copy") simp_all
    ultimately show ?thesis using e(2) Cons.prems(5) by auto
  next
    case (Some w)
    have an: "h a = None" using Cons.prems(5) as by simp
    obtain h1 c1 where t: "listAddNodeTail h copy a w = Some (h1, c1)" "holds h1 c1 (zs @ [(a, w)])"
        "confined (addrs (zs @ [(a, w)])) h copy h1 c1"
      using listAddNodeTail_ok [OF Cons.prems(2) an] by blast
    have ay: "a \<notin> addrs ys" using seg_dom [OF n(3), of a] an by (auto simp: addrs_def)
    have same: "h1 b = h b" if "b \<notin> addrs zs" "b \<noteq> a" for b using t(3) that by (simp add: confined_def)
    have "h1 b = h b" if "b \<in> fst ` set ys" for b
      using that ay Cons.prems(3) by (intro same) (auto simp: addrs_def)
    then have s1: "seg h1 (Some p) ys None" using n(3) seg_frame [of ys h1 h] by blast
    have az: "b \<notin> addrs zs" if "b \<in> set as" for b
      using Cons.prems(2,5) seg_dom [of h None zs None b] that by (auto simp: holds_def addrs_def)
    have d1: "addrs ys \<inter> addrs (zs @ [(a, w)]) = {}" using Cons.prems(3) ay by auto
    have d2: "distinct as'" "length as' = length ys" using Cons.prems(4,6) as by simp_all
    have d3: "\<forall>b\<in>set as'. h1 b = None"
    proof
      fix b assume b: "b \<in> set as'"
      then have "h1 b = h b" using az Cons.prems(4) as by (intro same) auto
      then show "h1 b = None" using Cons.prems(5) as b by simp
    qed
    have dc: "dup c1 = dup copy" "free c1 = free copy" "match c1 = match copy" using t(3) by (auto simp: confined_def)
    obtain h' r where r: "listDup_loop h1 c1 \<lparr>inext = after_ptr ys None, dir = AL_START_HEAD\<rparr> as' = Some (h', r)"
      "\<forall>b. b \<notin> addrs (zs @ [(a, w)]) \<union> set as' \<longrightarrow> h' b = h1 b"
      "case copies c1 ys of
         Some ws \<Rightarrow> \<exists>k. r = Some k \<and> holds h' k ((zs @ [(a, w)]) @ zip as' ws) \<and> dup k = dup c1 \<and> free k = free c1 \<and> match k = match c1
       | None \<Rightarrow> r = None \<and> (\<forall>b\<in>addrs (zs @ [(a, w)]) \<union> set as'. h' b = None)"
      using Cons.IH [OF s1 t(2) d1 d2(1) d3 d2(2)] by blast
    have run: "listDup_loop h copy \<lparr>inext = after_ptr (y # ys) None, dir = AL_START_HEAD\<rparr> as = Some (h', r)"
      by (subst listDup_loop.simps) (simp only: as nx bind.bind_lunit prod.case option.case list.case n Some t(1) r(1))
    have "\<forall>b. b \<notin> addrs zs \<union> set as \<longrightarrow> h' b = h b" using r(2) same as by auto
    moreover have "copies copy (y # ys) = map_option (Cons w) (copies c1 ys)" using Some y copies_cong [OF dc(1)] by (cases "dup copy") simp_all
    ultimately show ?thesis using run r(3) dc as by (cases "copies c1 ys") auto
  qed
qed

lemma listDup_ok:
  assumes l: "holds h l xs" and as: "distinct as" "\<forall>a\<in>set as. h a = None" "length as = length xs"
  shows "\<exists>h' r. listDup h l as = Some (h', r) \<and> (\<forall>b. b \<notin> set as \<longrightarrow> h' b = h b) \<and>
    (case copies l xs of
       Some ws \<Rightarrow> \<exists>k. r = Some k \<and> holds h' k (zip as ws) \<and> dup k = dup l \<and> free k = free l \<and> match k = match l
     | None \<Rightarrow> r = None \<and> h' = h)"
proof -
  let ?c = "listCreate\<lparr>dup := dup l, free := free l, match := match l\<rparr>"
  have s: "seg h None xs None" "head l = after_ptr xs None" using l by (auto simp: holds_def)
  have hc: "holds h ?c []" by (rule holds_create)
  have dj: "addrs xs \<inter> addrs ([] :: (nat \<times> 'a) list) = {}" by simp
  have c: "copies ?c xs = copies l xs" by (rule copies_cong) simp
  obtain h' r where r: "listDup_loop h ?c \<lparr>inext = after_ptr xs None, dir = AL_START_HEAD\<rparr> as = Some (h', r)"
    "\<forall>b. b \<notin> addrs ([] :: (nat \<times> 'a) list) \<union> set as \<longrightarrow> h' b = h b"
    "case copies ?c xs of
       Some ws \<Rightarrow> \<exists>k. r = Some k \<and> holds h' k ([] @ zip as ws) \<and> dup k = dup ?c \<and> free k = free ?c \<and> match k = match ?c
     | None \<Rightarrow> r = None \<and> (\<forall>b\<in>addrs ([] :: (nat \<times> 'a) list) \<union> set as. h' b = None)"
    using listDup_loop_ok [OF s(1) hc dj as] by blast
  have "h' = h" if "\<forall>b\<in>set as. h' b = None"
  proof
    fix b show "h' b = h b" using that r(2) as(2) by (cases "b \<in> set as") auto
  qed
  moreover have "listDup h l as = Some (h', r)" using r(1) s(2) by (simp add: listDup_def listRewind_def)
  ultimately show ?thesis using r(2,3) unfolding c by (cases "copies l xs") auto
qed

section \<open>A list as a sequence of values\<close>

text \<open>
  What a user of the list sees: a sequence of values and the operations on it. A position counts from the head,
  or from the tail when it is negative; an operation at a position outside the list does nothing.
\<close>

datatype 'v list_op = Add_Head 'v | Add_Tail 'v | Insert_At int 'v bool | Delete_At int | Rotate | Clear

definition position :: "nat \<Rightarrow> int \<Rightarrow> nat option" where
  "position n i =
     (if 0 \<le> i \<and> i < int n then Some (nat i) else if i < 0 \<and> - i \<le> int n then Some (nat (int n + i)) else None)"

fun seq_step :: "'v list_op \<Rightarrow> 'v list \<Rightarrow> 'v list" where
  "seq_step (Add_Head v) vs = v # vs"
| "seq_step (Add_Tail v) vs = vs @ [v]"
| "seq_step (Insert_At i v after) vs =
     (case position (length vs) i of
        None \<Rightarrow> vs
      | Some k \<Rightarrow> if after then take (Suc k) vs @ v # drop (Suc k) vs else take k vs @ v # drop k vs)"
| "seq_step (Delete_At i) vs =
     (case position (length vs) i of None \<Rightarrow> vs | Some k \<Rightarrow> take k vs @ drop (Suc k) vs)"
| "seq_step Rotate vs = (if vs = [] then [] else last vs # butlast vs)"
| "seq_step Clear vs = []"

text \<open>The same operations in the heap; \<^verbatim>\<open>alloc\<close> stands for \<^verbatim>\<open>zmalloc\<close>.\<close>

fun list_step :: "('v heap \<Rightarrow> nat) \<Rightarrow> 'v list_op \<Rightarrow> 'v heap \<times> 'v dll \<Rightarrow> ('v heap \<times> 'v dll) option" where
  "list_step alloc (Add_Head v) (h, l) = listAddNodeHead h l (alloc h) v"
| "list_step alloc (Add_Tail v) (h, l) = listAddNodeTail h l (alloc h) v"
| "list_step alloc (Insert_At i v after) (h, l) = do {
     node \<leftarrow> listIndex h l i;
     case node of None \<Rightarrow> Some (h, l) | Some c \<Rightarrow> listInsertNode h l c (alloc h) v after
   }"
| "list_step alloc (Delete_At i) (h, l) = do {
     node \<leftarrow> listIndex h l i;
     case node of None \<Rightarrow> Some (h, l) | Some c \<Rightarrow> do { (h', l', fs) \<leftarrow> listDelNode h l c; Some (h', l') }
   }"
| "list_step alloc Rotate (h, l) = listRotate h l"
| "list_step alloc Clear (h, l) = do { (h', l', fs) \<leftarrow> listEmpty h l; Some (h', l') }"

fun in_range :: "'v list_op \<Rightarrow> bool" where
  "in_range (Insert_At i v after) \<longleftrightarrow> - (2 ^ 63) < i"
| "in_range (Delete_At i) \<longleftrightarrow> - (2 ^ 63) < i"
| "in_range _ \<longleftrightarrow> True"

definition usable :: "('v heap \<Rightarrow> nat) \<Rightarrow> bool" where
  "usable alloc \<longleftrightarrow> (\<forall>h. finite (dom h) \<longrightarrow> h (alloc h) = None)"

text \<open>A list in the heap stores a sequence; the nodes at the addresses \<^verbatim>\<open>A\<close>, of other lists, are as they were in \<^verbatim>\<open>h0\<close>.\<close>

definition stores :: "('v heap \<Rightarrow> nat) \<Rightarrow> 'v heap \<Rightarrow> nat set \<Rightarrow> 'v heap \<times> 'v dll \<Rightarrow> 'v list \<Rightarrow> bool" where
  "stores alloc h0 A s vs \<longleftrightarrow> usable alloc \<and> finite (dom (fst s)) \<and> A \<subseteq> dom h0 \<and> (\<forall>b\<in>A. fst s b = h0 b) \<and>
     (\<exists>xs. holds (fst s) (snd s) xs \<and> map snd xs = vs \<and> addrs xs \<inter> A = {})"

locale refined_sequence =
  fixes rep :: "'s \<Rightarrow> 'a \<Rightarrow> bool" and step :: "'o \<Rightarrow> 's \<Rightarrow> 's option" and spec :: "'o \<Rightarrow> 'a \<Rightarrow> 'a" and ok :: "'o \<Rightarrow> bool"
  assumes step_ok: "rep s a \<Longrightarrow> ok c \<Longrightarrow> \<exists>s'. step c s = Some s' \<and> rep s' (spec c a)"
begin

lemma run_ok:
  assumes "rep s a" "\<forall>c\<in>set cs. ok c"
  shows "\<exists>s'. foldl (\<lambda>r c. Option.bind r (step c)) (Some s) cs = Some s' \<and> rep s' (foldl (\<lambda>b c. spec c b) a cs)"
  using assms
proof (induction cs arbitrary: s a)
  case (Cons c cs)
  then obtain s' where "step c s = Some s'" "rep s' (spec c a)" using step_ok by fastforce
  then show ?case using Cons.IH [of s' "spec c a"] Cons.prems(2) by simp
qed simp

end

lemma stores_update:
  assumes s: "stores alloc h0 A (h, l) vs" and k: "holds h' l' ys" and c: "confined B h l h' l'"
    and B: "finite B" "B \<inter> A = {}" "addrs ys \<subseteq> B" and w: "map snd ys = ws"
  shows "stores alloc h0 A (h', l') ws"
proof -
  have "dom h' \<subseteq> dom h \<union> B" using c by (fastforce simp: confined_def dom_def)
  then have "finite (dom h')" using s B(1) finite_subset by (fastforce simp: stores_def)
  moreover have "\<forall>b\<in>A. h' b = h0 b" using s c B(2) by (fastforce simp: stores_def confined_def)
  ultimately show ?thesis using s k w B by (fastforce simp: stores_def)
qed

lemma listIndex_position:
  assumes "holds h l xs" "- (2 ^ 63) < i"
  shows "listIndex h l i = Some (map_option (\<lambda>k. fst (xs ! k)) (position (length xs) i))"
  using listIndex_ok [OF assms] by (auto simp: position_def)

lemma position_bound: "position n i = Some k \<Longrightarrow> k < n"
  by (auto simp: position_def split: if_splits)

lemma split_at: "k < length xs \<Longrightarrow> xs = take k xs @ (fst (xs ! k), snd (xs ! k)) # drop (Suc k) xs"
  by (simp add: id_take_nth_drop)

lemma split_apart:
  assumes "addrs xs \<inter> A = {}" "k < length xs"
  shows "addrs (take k xs) \<inter> A = {} \<and> fst (xs ! k) \<notin> A \<and> addrs (drop (Suc k) xs) \<inter> A = {}"
proof -
  have "addrs xs = addrs (take k xs @ (fst (xs ! k), snd (xs ! k)) # drop (Suc k) xs)" using split_at [OF assms(2)] by metis
  then show ?thesis using assms(1) by auto
qed

lemma stores_fresh:
  assumes s: "stores alloc h0 A (h, l) vs"
  obtains xs where "holds h l xs" "vs = map snd xs" "addrs xs \<inter> A = {}" "h (alloc h) = None" "alloc h \<notin> A"
proof -
  obtain xs where x: "holds h l xs" "vs = map snd xs" "addrs xs \<inter> A = {}" using s by (auto simp: stores_def)
  have a: "h (alloc h) = None" using s by (simp add: stores_def usable_def)
  then have "alloc h \<notin> A" using s by (fastforce simp: stores_def)
  then show thesis using that x a by blast
qed

lemma insert_stores:
  assumes s: "stores alloc h0 A (h, l) vs" and i: "- (2 ^ 63) < i"
  shows "\<exists>s'. list_step alloc (Insert_At i v after) (h, l) = Some s' \<and> stores alloc h0 A s' (seq_step (Insert_At i v after) vs)"
proof -
  obtain xs where x: "holds h l xs" "vs = map snd xs" "addrs xs \<inter> A = {}" "h (alloc h) = None" "alloc h \<notin> A"
    by (rule stores_fresh [OF s])
  show ?thesis
  proof (cases "position (length xs) i")
    case None
    then show ?thesis using s x listIndex_position [OF x(1) i] by simp
  next
    case (Some k)
    let ?p = "take k xs" and ?c = "fst (xs ! k)" and ?w = "snd (xs ! k)" and ?q = "drop (Suc k) xs"
    have k: "k < length xs" by (rule position_bound [OF Some])
    note e = split_at [OF k]
    have "holds h l (?p @ (?c, ?w) # ?q)" using x(1) e by metis
    from listInsertNode_ok [OF this x(4)] obtain h' l' where r: "listInsertNode h l ?c (alloc h) v after = Some (h', l')"
      "holds h' l' (if after then ?p @ (?c, ?w) # (alloc h, v) # ?q else ?p @ (alloc h, v) # (?c, ?w) # ?q)"
      "confined (addrs (?p @ (alloc h, v) # (?c, ?w) # ?q)) h l h' l'"
      by blast
    have d: "addrs ?p \<inter> A = {}" "?c \<notin> A" "addrs ?q \<inter> A = {}"
      using split_apart [OF x(3) k] by simp_all
    have v: "take (Suc k) vs = map snd ?p @ [?w]" "take k vs = map snd ?p" "drop (Suc k) vs = map snd ?q" "drop k vs = ?w # map snd ?q"
      using k x(2) by (simp_all add: take_map drop_map take_Suc_conv_app_nth Cons_nth_drop_Suc [symmetric])
    have "stores alloc h0 A (h', l') (seq_step (Insert_At i v after) vs)"
      by (rule stores_update [OF s r(2,3)]) (use d x(5) v Some x(2) in auto)
    then show ?thesis using Some r(1) listIndex_position [OF x(1) i] by auto
  qed
qed

lemma delete_stores:
  assumes s: "stores alloc h0 A (h, l) vs" and i: "- (2 ^ 63) < i"
  shows "\<exists>s'. list_step alloc (Delete_At i) (h, l) = Some s' \<and> stores alloc h0 A s' (seq_step (Delete_At i) vs)"
proof -
  obtain xs where x: "holds h l xs" "vs = map snd xs" "addrs xs \<inter> A = {}" by (rule stores_fresh [OF s])
  show ?thesis
  proof (cases "position (length xs) i")
    case None
    then show ?thesis using s x listIndex_position [OF x(1) i] by simp
  next
    case (Some k)
    let ?p = "take k xs" and ?c = "fst (xs ! k)" and ?w = "snd (xs ! k)" and ?q = "drop (Suc k) xs"
    have k: "k < length xs" by (rule position_bound [OF Some])
    have "holds h l (?p @ (?c, ?w) # ?q)" using x(1) split_at [OF k] by metis
    from listDelNode_ok [OF this] obtain h' l' where r: "listDelNode h l ?c = Some (h', l', if free l then [?w] else [])" "holds h' l' (?p @ ?q)"
      "confined (addrs (?p @ (?c, ?w) # ?q)) h l h' l'"
      by blast
    have d: "addrs ?p \<inter> A = {}" "?c \<notin> A" "addrs ?q \<inter> A = {}"
      using split_apart [OF x(3) k] by simp_all
    have "stores alloc h0 A (h', l') (seq_step (Delete_At i) vs)"
      by (rule stores_update [OF s r(2,3)]) (use d Some x(2) in \<open>auto simp: take_map drop_map\<close>)
    then show ?thesis using Some r(1) listIndex_position [OF x(1) i] by auto
  qed
qed

lemma rotate_stores:
  assumes s: "stores alloc h0 A (h, l) vs"
  shows "\<exists>s'. list_step alloc Rotate (h, l) = Some s' \<and> stores alloc h0 A s' (seq_step Rotate vs)"
proof -
  obtain xs where x: "holds h l xs" "vs = map snd xs" "addrs xs \<inter> A = {}" by (rule stores_fresh [OF s])
  show ?thesis
  proof (cases xs rule: rev_cases)
    case Nil
    then show ?thesis using s x by (simp add: listRotate_def holds_def)
  next
    case (snoc ys y)
    then have "holds h l (ys @ [(fst y, snd y)])" using x(1) by simp
    from listRotate_ok [OF this] obtain h' l' where r: "listRotate h l = Some (h', l')" "holds h' l' ((fst y, snd y) # ys)"
      "confined (addrs (ys @ [(fst y, snd y)])) h l h' l'"
      by blast
    have "stores alloc h0 A (h', l') (seq_step Rotate vs)"
      by (rule stores_update [OF s r(2,3)]) (use x(2,3) snoc in auto)
    then show ?thesis using r(1) by simp
  qed
qed

lemma list_step_stores:
  assumes s: "stores alloc h0 A (h, l) vs" and c: "in_range c"
  shows "\<exists>s'. list_step alloc c (h, l) = Some s' \<and> stores alloc h0 A s' (seq_step c vs)"
proof -
  obtain xs where x: "holds h l xs" "vs = map snd xs" "addrs xs \<inter> A = {}" "h (alloc h) = None" "alloc h \<notin> A"
    by (rule stores_fresh [OF s])
  show ?thesis
  proof (cases c)
    case (Add_Head v)
    obtain h' l' where r: "listAddNodeHead h l (alloc h) v = Some (h', l')" "holds h' l' ((alloc h, v) # xs)"
      "confined (addrs ((alloc h, v) # xs)) h l h' l'" using listAddNodeHead_ok [OF x(1,4)] by blast
    have "stores alloc h0 A (h', l') (v # vs)" by (rule stores_update [OF s r(2,3)]) (use x in auto)
    then show ?thesis using r(1) Add_Head by simp
  next
    case (Add_Tail v)
    obtain h' l' where r: "listAddNodeTail h l (alloc h) v = Some (h', l')" "holds h' l' (xs @ [(alloc h, v)])"
      "confined (addrs (xs @ [(alloc h, v)])) h l h' l'" using listAddNodeTail_ok [OF x(1,4)] by blast
    have "stores alloc h0 A (h', l') (vs @ [v])" by (rule stores_update [OF s r(2,3)]) (use x in auto)
    then show ?thesis using r(1) Add_Tail by simp
  next
    case Clear
    let ?h = "\<lambda>b. if b \<in> addrs xs then None else h b" and ?l = "l\<lparr>head := None, tail := None, len := 0\<rparr>"
    have e: "listEmpty h l = Some (?h, ?l, if free l then map snd xs else [])" by (rule listEmpty_ok [OF x(1)])
    have "holds ?h ?l []" by (simp add: holds_def)
    moreover have "confined (addrs xs) h l ?h ?l" by (simp add: confined_def)
    ultimately have "stores alloc h0 A (?h, ?l) []" by (rule stores_update [OF s]) (use x(3) in auto)
    then show ?thesis using e Clear by simp
  qed (use insert_stores [OF s] delete_stores [OF s] rotate_stores [OF s] c in auto)
qed

interpretation adl: refined_sequence "stores alloc h0 A" "list_step alloc" seq_step in_range for alloc h0 A
  using list_step_stores by unfold_locales fastforce

section \<open>Properties\<close>

text \<open>
  C38. Any sequence of additions, insertions, deletions, rotations and clearings on a new list is defined and leaves a
  list, consistent in both directions, whose values are those of the same sequence of operations on a plain sequence.
  Every other list in the heap is as before. The hypothesis on the allocator is that it returns an address that is not in use.
\<close>

theorem list_operations_refine:
  assumes "usable alloc" "finite (dom h)" "holds h m ys" "\<forall>c\<in>set cs. in_range c"
  shows "\<exists>h' l' xs. foldl (\<lambda>r c. Option.bind r (list_step alloc c)) (Some (h, listCreate)) cs = Some (h', l') \<and>
    holds h' l' xs \<and> map snd xs = foldl (\<lambda>vs c. seq_step c vs) [] cs \<and> holds h' m ys \<and> addrs xs \<inter> addrs ys = {}"
proof -
  have ys: "addrs ys \<subseteq> dom h" using assms(3) seg_dom by (fastforce simp: holds_def addrs_def)
  have "holds h listCreate []" by (simp add: holds_def listCreate_def)
  then have "stores alloc h (addrs ys) (h, listCreate) []" using assms(1,2) ys by (simp add: stores_def)
  from adl.run_ok [OF this assms(4)] obtain h' l' where
    r: "foldl (\<lambda>r c. Option.bind r (list_step alloc c)) (Some (h, listCreate)) cs = Some (h', l')"
      "stores alloc h (addrs ys) (h', l') (foldl (\<lambda>vs c. seq_step c vs) [] cs)" by auto
  moreover have "holds h' m ys" using holds_other [OF assms(3)] r(2) by (auto simp: stores_def)
  ultimately show ?thesis by (auto simp: stores_def)
qed

lemma usable_least: "usable (\<lambda>h. LEAST a. h a = None)"
  unfolding usable_def
proof (intro allI impI)
  fix h :: "'v heap" assume "finite (dom h)"
  then obtain a where "h a = None" using ex_new_if_finite [OF infinite_UNIV_nat] by blast
  then show "h (LEAST a. h a = None) = None" by (rule LeastI)
qed

theorem list_operations_refine_witness:
  "\<exists>h' l' xs. foldl (\<lambda>r c. Option.bind r (list_step (\<lambda>h. LEAST a. h a = None) c)) (Some (Map.empty, listCreate))
      [Add_Tail (1 :: nat), Add_Head 2, Insert_At (- 1) 3 False, Rotate, Add_Tail 4, Delete_At 1] = Some (h', l') \<and>
    holds h' l' xs \<and> map snd xs = [1, 3, 4]"
proof -
  let ?cs = "[Add_Tail (1 :: nat), Add_Head 2, Insert_At (- 1) 3 False, Rotate, Add_Tail 4, Delete_At 1]"
  have h: "holds Map.empty listCreate ([] :: (nat \<times> nat) list)" by (simp add: holds_def listCreate_def)
  have c: "\<forall>c\<in>set ?cs. in_range c" "foldl (\<lambda>vs c. seq_step c vs) [] ?cs = [1, 3, 4]" by (simp_all add: position_def)
  have "finite (dom (Map.empty :: nat heap))" by simp
  from list_operations_refine [OF usable_least this h c(1), unfolded c(2)] show ?thesis by (elim exE conjE) (intro exI conjI)
qed

text \<open>
  C39. Deleting the node just returned does not disturb an iteration, in either direction: the loop visits every node
  once, ends, and leaves the nodes whose values were not to be deleted, in order, without touching other nodes.
\<close>

theorem delete_while_iterating:
  assumes "holds h l xs"
  shows "\<exists>h' l'. delete_matching h l p (listGetIterator l d) = Some (h', l') \<and>
    holds h' l' (filter (\<lambda>x. \<not> p (snd x)) xs) \<and> (\<forall>b. b \<notin> addrs xs \<longrightarrow> h' b = h b)"
proof -
  have "head l = after_ptr xs None" "tail l = before_ptr None xs" using assms by (auto simp: holds_def)
  then show ?thesis
    using delete_head [of h l "[]" xs p] delete_tail [of h l xs "[]" p] assms by (cases d) (simp_all add: listGetIterator_def)
qed

theorem delete_while_iterating_witness:
  "\<exists>h' l'. delete_matching
      [1 \<mapsto> \<lparr>prev = None, nxt = Some 5, val = 10\<rparr>, 5 \<mapsto> \<lparr>prev = Some 1, nxt = Some 3, val = 11\<rparr>,
       3 \<mapsto> \<lparr>prev = Some 5, nxt = None, val = 12\<rparr>]
      \<lparr>head = Some 1, tail = Some 3, dup = None, free = False, match = None, len = 3\<rparr> (\<lambda>v. even (v :: nat))
      (listGetIterator (\<lparr>head = Some 1, tail = Some 3, dup = None, free = False, match = None, len = 3\<rparr> :: nat dll) AL_START_TAIL) = Some (h', l') \<and>
    holds h' l' [(5, 11)]"
proof -
  let ?h = "[1 \<mapsto> \<lparr>prev = None, nxt = Some 5, val = 10\<rparr>, 5 \<mapsto> \<lparr>prev = Some 1, nxt = Some 3, val = 11\<rparr>,
       3 \<mapsto> \<lparr>prev = Some 5, nxt = None, val = 12\<rparr>]"
    and ?l = "\<lparr>head = Some 1, tail = Some 3, dup = None, free = False, match = None, len = 3\<rparr>"
  have "holds ?h ?l [(1, 10), (5, 11), (3, 12 :: nat)]" by (simp add: holds_def)
  from delete_while_iterating [OF this, of even AL_START_TAIL] show ?thesis by auto
qed

end
