(* ===== verification/Spec2Isabelle.thy ===== *)
theory Spec2Isabelle
  imports Control_Server Ufs_Sort Ot_Cplt Process_Command Network Adlist
begin

text \<open>
  Verification of the union-find-split data type that this fork adds to Redis (\<^verbatim>\<open>src/src/ufs.c\<close>,
  \<^verbatim>\<open>src/src/ot.c\<close>) and of the parts of Redis its replication runs on.

  \<^bold>\<open>The program.\<close> A structure is a partition of a fixed set of names into classes; \<^verbatim>\<open>union\<close> merges two
  classes and \<^verbatim>\<open>split\<close> takes an element out of its class. Every replica keeps the structure as a graph
  (\<^verbatim>\<open>cudGraph\<close>, an array of vertices with chains of neighbours) and a state space for the operational
  transformation (\<^verbatim>\<open>verlist\<close>, \<^verbatim>\<open>dedge\<close>): vertices carry the printed partition, edges carry
  operations with identifiers. A slave executes an operation of its client at once (\<^verbatim>\<open>controlAlg\<close>, role of a
  local client) and sends it to the master with an identifier and the context it was executed in; the
  master transforms it in the space of that slave against the operations of the others, and forwards it to
  them; a slave that receives an operation transforms it against its own operations and executes the result.
  The commands travel as multi-bulk requests through the output and input buffers of the connections
  (\<^verbatim>\<open>networking.c\<close>), by the propagation functions of \<^verbatim>\<open>replication.c\<close> and \<^verbatim>\<open>server.c\<close>, into the
  replication backlog and the append only file (\<^verbatim>\<open>aof.c\<close>).

  \<^bold>\<open>Conventions.\<close> An sds string is its list of bytes, a \<^verbatim>\<open>char*\<close> is read up to its first NUL. A result
  \<^const>\<open>None\<close> is undefined behaviour (a read or write out of range, a NULL pointer that is dereferenced) or a failed
  assertion; a function that the code cannot leave defined behaviour in has no option. Loops over machine
  counters are recursions on the number of remaining rounds. Loops that need not end are defined with
  \<^theory_text>\<open>partial_function\<close>, so that not returning is \<^const>\<open>None\<close>, and theorems that state a result show that
  they return; no fuel is used there. Pointers between the vertices of a space are positions in the list of the
  vertices, which only grows. Log output is left out.

  \<^bold>\<open>Data and its specification.\<close>
  \<^item> \<^verbatim>\<open>Ufs_Prelude\<close>: bytes of C strings, splitting and joining, shared lemmas.
  \<^item> \<^verbatim>\<open>Sds\<close> models \<^verbatim>\<open>sds.c\<close> at the level of contents, \<^verbatim>\<open>Sds_Args\<close> the quoting of arguments and the splitting of
    a line into arguments, which invert each other.
  \<^item> \<^verbatim>\<open>Adlist\<close> models the linked lists of \<^verbatim>\<open>adlist.c\<close> in a heap of nodes with addresses. Every operation does to the
    sequence of values what its name says, keeps the pointers consistent and leaves other lists alone; a locale
    lifts this to sequences of operations. The allocator is an argument.
  \<^item> \<^verbatim>\<open>Partition_Spec\<close>: the abstract object, an equivalence relation with \<open>merge\<close> and \<open>isolate\<close>, and how
    concurrent operations commute.
  \<^item> \<^verbatim>\<open>Ufs_Graph\<close> models the graph of \<^verbatim>\<open>ufs.c\<close> (\<^verbatim>\<open>locateVex\<close>, \<^verbatim>\<open>createLink\<close>, \<^verbatim>\<open>unionProc\<close>,
    \<^verbatim>\<open>splitProc\<close>, \<dots>) with its invariant; \<^verbatim>\<open>Ufs_Classes\<close> shows that the operations refine the abstract ones;
    \<^verbatim>\<open>Ufs_Sort\<close> models the three sort routines, shows that they sort and that they agree.
  \<^item> \<^verbatim>\<open>Ufs_Print\<close> models the printing of a graph (\<^verbatim>\<open>updateVerticeUfs\<close>, \<^verbatim>\<open>umembers\<close>, \<^verbatim>\<open>find\<close>);
    \<^verbatim>\<open>Ufs_State\<close> models the operations on the printed form (\<^verbatim>\<open>updateVerticeUfsFromState\<close>) and shows that they
    refine the abstract ones too.

  \<^bold>\<open>Operational transformation.\<close>
  \<^item> \<^verbatim>\<open>Ot_Strings\<close> models the scanners of \<^verbatim>\<open>ot.c\<close> with their byte positions and fixed buffers;
    \<^verbatim>\<open>Ot_Scan\<close> and \<^verbatim>\<open>Ot_Cplt\<close> show what they compute.
  \<^item> \<^verbatim>\<open>Ot_Transform\<close> models \<^verbatim>\<open>otUfs\<close>: for valid operations, with splits of one element, the transformed
    operations lead to the same state in both orders; for splits of sets they do not.
  \<^item> \<^verbatim>\<open>State_Space\<close>, \<^verbatim>\<open>Integrate\<close>, \<^verbatim>\<open>Locate\<close> model the spaces, the transformation loops of
    \<^verbatim>\<open>controlAlg\<close> and the walks that find the last vertex and the vertex of a context. The loop of the server is the
    loop of the client on the mirrored space; both end because every round adds one square along a finite chain.

  \<^bold>\<open>Commands and replication.\<close>
  \<^item> \<^verbatim>\<open>Commands\<close> models the server state of \<^verbatim>\<open>server.h\<close> as far as the type uses it, the checks of the arguments, the
    identifiers of operations and the commands \<^verbatim>\<open>uinit\<close>, \<^verbatim>\<open>find\<close>, \<^verbatim>\<open>umembers\<close>; \<^verbatim>\<open>Control\<close> models
    \<^verbatim>\<open>controlAlg\<close> in its three roles.
  \<^item> \<^verbatim>\<open>Control_Client\<close>, \<^verbatim>\<open>Uinit\<close> and \<^verbatim>\<open>Control_Server\<close> prove the invariants: graph and last vertex of a
    replica stand for the same classes, all spaces of the server stand for the same classes, and every command keeps this and is
    defined.

  \<^bold>\<open>The network.\<close>
  \<^item> \<^verbatim>\<open>Grid\<close>: the operations of a client and those sent to it span a grid of states; the fourth corner of a square
    depends on the other three only, so that both sides of a link compute the same states. A state space shows a
    band of this grid, and the transformation loops extend it by one row.
  \<^item> \<^verbatim>\<open>Link\<close>: the invariant of a client and the server with the commands under way between them. The search by
    substring of \<^verbatim>\<open>findOid\<close> is shown to find the vertex of every context that is sent.
  \<^item> \<^verbatim>\<open>Network\<close>: one server and any number of clients, as a transition system whose steps run \<^verbatim>\<open>controlAlg\<close>; the
    connections are queues. From the state after \<^verbatim>\<open>uinit\<close> no step is undefined, deliveries end, and
    whenever nothing is under way all replicas hold the same classes. The commands of users are all unions and splits
    within three limits, beyond which the code is shown to go wrong: an accepted split names one element (for sets of
    elements convergence fails, as \<^verbatim>\<open>Ot_Transform\<close> shows), the first name of a set argument exists (otherwise the check of
    the arguments is undefined, \<^verbatim>\<open>Control_Client\<close>) and has fewer than ten bytes (otherwise \<^verbatim>\<open>findstr\<close> and \<^verbatim>\<open>cpltClass\<close> overflow their
    buffers, \<^verbatim>\<open>Ot_Scan\<close>, \<^verbatim>\<open>Ot_Cplt\<close>), and a client executes at most 9999 operations, what the buffers of the identifiers hold
    (\<^verbatim>\<open>Commands\<close>).

  \<^bold>\<open>Transport.\<close>
  \<^item> \<^verbatim>\<open>Util_Num\<close> models the conversions of \<^verbatim>\<open>util.c\<close> between numbers and text, with buffers and 64-bit bounds.
  \<^item> \<^verbatim>\<open>Client_Output\<close> models the reply buffers of \<^verbatim>\<open>networking.c\<close> (a locale states what a function that appends
    to them promises), \<^verbatim>\<open>Client_Input\<close> the parser of the protocol: a command is read back from its bytes
    however they are cut into pieces. \<^verbatim>\<open>Client_Loop\<close> models \<^verbatim>\<open>readQueryFromClient\<close>, \<^verbatim>\<open>processInputBuffer\<close> and the inline
    protocol; a locale states what the loop needs of the handler of commands. \<^verbatim>\<open>Process_Command\<close> models \<^verbatim>\<open>processCommand\<close> and
    \<^verbatim>\<open>call\<close>, with the table of the commands as an argument, and interprets the locale: a stream of commands that are accepted is
    executed completely and in order, and a replica appends to its backlog exactly what it has executed of the stream of its
    master, but passes nothing on to its own slaves.
  \<^item> \<^verbatim>\<open>Backlog\<close> models the circular buffer of the replication stream, \<^verbatim>\<open>Propagate\<close> the functions that feed the
    slaves, the master, the backlog and the file; \<^verbatim>\<open>Aof\<close> the writing of the append only file and the parsing of a file that is
    loaded.

  \<^bold>\<open>Not modelled.\<close> The event loop, sockets, timers and the handshake of a slave with its master (system
  calls); the implementations of the other commands of Redis, eviction, monitors and the pausing of clients; the layout
  and the growth of sds buffers; snapshots (\<^verbatim>\<open>rdb.c\<close>, \<^verbatim>\<open>rio.c\<close>) and the rewriting of the append only file (file
  input and output), and the execution of the commands that are loaded from it; cluster, sentinel, modules and scripting, and the other data types of Redis (not used by the
  type this fork adds); the allocator, which aborts instead of failing; \<^verbatim>\<open>removeOpEdge\<close> and
  \<^verbatim>\<open>removeLastAddEdge\<close> of \<^verbatim>\<open>ot.c\<close>, which are never called; replies with deferred lengths.
\<close>

section \<open>Texts and graphs\<close>

text \<open>
  C13. An operation on the text of a state does to the classes what the operation on the structure does:
  for a well-formed text and valid arguments \<^verbatim>\<open>updateVerticeUfsFromState\<close> reads nothing outside of the
  text and returns a well-formed text of the same length whose classes are the result of the operation.
\<close>

theorem state_update_refines:
  assumes "text_ok u" "targ (text_rel u) a" "type = OPTYPE_UNION \<Longrightarrow> targ (text_rel u) b"
    "type = OPTYPE_UNION \<or> type = OPTYPE_SPLIT"
  shows "\<exists>u'. updateVerticeUfsFromState u type a b (int (length u)) = Some u' \<and> text_ok u' \<and>
    text_rel u' = aapply (op_of type a b) (text_rel u) \<and> length u' = length u"
  using update_refines [OF assms] unfolding text_refines_def .

theorem state_update_refines_witness:
  "\<exists>u'. updateVerticeUfsFromState ''a/b'' OPTYPE_UNION ''a'' ''b'' 3 = Some u' \<and> text_ok u' \<and>
    text_rel u' = aapply (op_of OPTYPE_UNION ''a'' ''b'') (text_rel ''a/b'') \<and> length u' = 3"
  using state_update_refines [of "''a/b''" "''a''" OPTYPE_UNION "''b''"] by (simp add: sample_texts sample_arg numeral_3_eq_3)

text \<open>
  C15. \<^verbatim>\<open>updateVerticeUfs\<close> prints the classes of a structure: on a well-formed graph of at least two
  vertices it returns a well-formed text that names exactly the classes of the graph.
\<close>

theorem state_text_names_classes:
  assumes "ufs_ok g" "names_ok g" "2 \<le> length (dlist g)"
  shows "\<exists>u. updateVerticeUfs g = Some u \<and> text_ok u \<and> text_rel u = ufs_rel g"
  by (rule updateVerticeUfs_ok [OF assms]) (intro exI conjI)

theorem state_text_names_classes_witness:
  "\<exists>u. updateVerticeUfs sample_graph = Some u \<and> text_ok u \<and> text_rel u = ufs_rel sample_graph"
  using sample_graph_fine(1) unfolding graph_fine_def by (intro state_text_names_classes) simp_all

text \<open>
  C25. For a structure with a single element the printed text loses the last character of the name (of a
  name of at least two characters): the removal of the trailing separator runs although there is none.
\<close>

theorem single_element_truncated:
  assumes "dlist g = [\<lparr>data = e, firstedge = []\<rparr>]" "vertexnum g = 1" "nm e" "2 \<le> length e"
  shows "updateVerticeUfs g = Some (butlast e)"
  using updateVerticeUfs_single [OF assms(1-3)] assms(4) by simp

theorem single_element_truncated_witness: "updateVerticeUfs (singletons ''k'' [''joe'']) = Some ''jo''"
  using single_element_truncated [of "singletons ''k'' [''joe'']" "''joe''"]
  by (simp add: singletons_def nm_def nul_free_def del: name_rules)

text \<open>
  C20. \<^verbatim>\<open>find\<close> replies with the names of the class of the element in the order of the vertices; they are
  written one after the other without a separator.
\<close>

theorem find_replies_class:
  assumes "graph_of sv k = Some g" "argv c = [cmd, e, k]" "ufs_ok g" "names_ok g" "e \<in> names g"
  shows "findCommand sv c = Some (Commands.addReply c (Bulk (concat (vertex_order g (ufs_rel g `` {e})))))"
  using assms(1,2) find_text_eq [OF assms(3-5)] by (simp add: findCommand_def arg_def)

theorem find_replies_class_witness:
  "findCommand sample_server (sample_client [''find'', ''a'', ''k''] False) =
    Some (Commands.addReply (sample_client [''find'', ''a'', ''k''] False) (Bulk ''a''))"
proof -
  have "streq (key sample_graph) ''k''" by (simp add: sample_graph_fine streq_def)
  then have g: "graph_of sample_server ''k'' = Some sample_graph"
    by (simp add: graph_of_def getUfs_def sample_server_def)
  have "vertex_order sample_graph (ufs_rel sample_graph `` {''a''}) = [''a'']"
    by (auto simp: sample_graph_fine vertex_order_def) (simp add: sample_graph_def singletons_def)
  then show ?thesis
    using find_replies_class [OF g, of "sample_client [''find'', ''a'', ''k''] False" "''find''" "''a''"] sample_graph_fine(1)
    by (simp add: sample_graph_names graph_fine_def)
qed

section \<open>The transformation loops\<close>

text \<open>
  C14. The transformation loops end. From a vertex of a well-formed space where a new operation has been
  inserted the client's loop returns: it walks to the end of the chain of local operations and leaves a
  well-formed space with the transformed operation at the end of the chain. The server's loop on the
  mirrored space (local and remote edges exchanged) ends as well, with the mirrored result, and it extends
  the context by the identifiers of the operations it has passed.
\<close>

theorem transformation_loops_end:
  assumes "space_ok n vs" "u < length vs" "op_ok (st vs u) e" "adjv e = length vs" "text_of n t"
    "text_rel t = op_apply e (st vs u)"
  shows "\<exists>vs' w p' es d. chain_path (get_ledge vs) u es w \<and>
    client_loop (int n) (put_redge u e (vs @ [new_vertice t])) u (length vs) = Some (vs', w, p') \<and>
    server_loop (int n) (mirror (put_redge u e (vs @ [new_vertice t]))) u (length vs) ctx =
      Some (mirror vs', w, p', add_oids ctx es) \<and>
    space_ok n vs' \<and> redge (vs' ! w) = Some d \<and> adjv d = p' \<and> oid d = oid e"
proof -
  obtain es w where w: "chain_path (get_ledge vs) u es w" using chain_ends [OF assms(1,2)] by blast
  show ?thesis using w insert_integrates [OF assms(1,2) w assms(3-6)] unfolding integrated_def by blast
qed

theorem transformation_loops_end_witness:
  "\<exists>vs' w p' es d. chain_path (get_ledge sample_space) 0 es w \<and>
    client_loop 3 (put_redge 0 (sample_edge\<lparr>adjv := 2\<rparr>) (sample_space @ [new_vertice ''a,b''])) 0 2 = Some (vs', w, p') \<and>
    space_ok 3 vs' \<and> redge (vs' ! w) = Some d \<and> adjv d = p' \<and> oid d = oid sample_edge"
proof -
  have "st sample_space 0 = text_rel ''a/b''" "length sample_space = 2"
    by (simp_all add: st_def sample_space_def new_vertice_def)
  moreover have "op_ok (text_rel ''a/b'') (sample_edge\<lparr>adjv := 2\<rparr>)"
    by (simp add: sample_edge_def createOpEdge_def op_ok_def sample_arg sample_texts)
  moreover have "op_apply (sample_edge\<lparr>adjv := 2\<rparr>) (text_rel ''a/b'') = text_rel ''a,b''"
    using sample_union by (simp add: op_apply_def op_den_def)
  ultimately show ?thesis
    using transformation_loops_end [OF sample_space_ok(1), of 0 "sample_edge\<lparr>adjv := 2\<rparr>" "''a,b''"] sample_text_of(2)
    by simp blast
qed

end
